(* ===== verification/Prelude.thy ===== *)
theory Prelude
  imports Main "HOL-Library.Word" "HOL-Library.Monad_Syntax"
begin

text \<open>
  Shared vocabulary of the development: the machine types of the driver (a 32-bit ARM
  kernel module), the collections of rewrite rules that the component theories fill, and
  generic facts about lists, the option monad and words.

  A value \<open>None\<close> of a stateful operation always means that the C code leaves its
  defined behaviour: it dereferences NULL or memory that is not allocated, runs over the
  end of an object, calls a NULL function pointer, divides by zero, or never returns.
  Error codes that the C code returns (for instance \<open>-1\<close>) are ordinary values.
\<close>

section \<open>Machine types\<close>

unbundle bit_operations_syntax

type_synonym u8 = "8 word"
type_synonym u16 = "16 word"
type_synonym u32 = "32 word"
type_synonym addr = "32 word"
type_synonym bytes = "8 word list"

abbreviation NULL :: addr where
  "NULL \<equiv> 0"

section \<open>Collections\<close>

named_theorems mem_simps "evaluation of memory accesses"
named_theorems list_specs "specifications of the list primitives"
named_theorems frame_simps "what an operation leaves unchanged"

section \<open>Guards in the option monad\<close>

definition assert_opt :: "bool \<Rightarrow> unit option" where
  "assert_opt b = (if b then Some () else None)"

lemma assert_opt_simps [simp]:
  "assert_opt True = Some ()"
  "assert_opt False = None"
  by (simp_all add: assert_opt_def)

lemma assert_opt_eq_Some [simp]: "(assert_opt b = Some u) = b"
  by (simp add: assert_opt_def)

lemma assert_opt_bind_eq_Some [simp]:
  "(assert_opt b \<bind> f = Some r) = (b \<and> f () = Some r)"
  by (simp add: assert_opt_def)

text \<open>The monadic left fold: what a traversal loop does when it visits \<open>xs\<close> in order.\<close>

fun foldM :: "('a \<Rightarrow> 's \<Rightarrow> 's option) \<Rightarrow> 'a list \<Rightarrow> 's \<Rightarrow> 's option" where
  "foldM f [] s = Some s"
| "foldM f (x # xs) s = do { s' \<leftarrow> f x s; foldM f xs s' }"

lemma foldM_append: "foldM f (xs @ ys) s = do { s' \<leftarrow> foldM f xs s; foldM f ys s' }"
  by (induction xs arbitrary: s) (auto split: Option.bind_splits)

lemma foldM_invariant:
  assumes "foldM f xs s = Some s'" and "I s"
    and "\<And>x s t. x \<in> set xs \<Longrightarrow> I s \<Longrightarrow> f x s = Some t \<Longrightarrow> I t"
  shows "I s'"
  using assms
proof (induction xs arbitrary: s)
  case Nil
  then show ?case by simp
next
  case (Cons x xs)
  from Cons.prems(1) obtain t where t: "f x s = Some t" "foldM f xs t = Some s'"
    by (auto split: Option.bind_splits)
  from Cons.prems(2,3) t(1) have "I t" by (metis list.set_intros(1))
  with t(2) show ?case by (rule Cons.IH) (use Cons.prems(3) in auto)
qed

text \<open>An invariant indexed by what is left to visit, with progress at each step.\<close>

lemma foldM_total:
  assumes "I xs s" and "\<And>y ys s. I (y # ys) s \<Longrightarrow> \<exists>t. f y s = Some t \<and> I ys t"
  shows "\<exists>t. foldM f xs s = Some t \<and> I [] t"
  using assms(1)
proof (induction xs arbitrary: s)
  case Nil
  then show ?case by simp
next
  case (Cons x xs)
  from assms(2) [OF Cons.prems] obtain t where "f x s = Some t" "I xs t" by blast
  with Cons.IH [of t] show ?case by simp
qed

lemma foldM_cong [fundef_cong]:
  assumes "s = t" and "xs = ys" and "\<And>x u. x \<in> set ys \<Longrightarrow> f x u = g x u"
  shows "foldM f xs s = foldM g ys t"
  unfolding assms(1,2) using assms(3)
  by (induction ys arbitrary: t) (auto split: Option.bind_splits)

section \<open>Lists\<close>

lemma butlast_append_singleton [simp]: "butlast (xs @ [x] @ ys @ [z]) = xs @ [x] @ ys"
  by (simp add: butlast_append)

lemma last_Cons_append: "last (a # xs) = p \<Longrightarrow> \<exists>us. a # xs = us @ [p]"
  by (metis append_butlast_last_id list.discI)

lemma take_length_eq: "n = length xs \<Longrightarrow> take n xs = xs"
  by simp

section \<open>Words\<close>

lemma unat_le_nonzero: "(a :: 'a::len word) \<noteq> 0 \<longleftrightarrow> 0 < unat a"
  by (simp add: unat_gt_0)

lemma unat_word_of_nat: "n < 2 ^ LENGTH('a) \<Longrightarrow> unat (word_of_nat n :: 'a::len word) = n"
  by (simp add: unsigned_of_nat take_bit_nat_eq_self)

lemma unat_plus_one:
  assumes "(b :: 'a::len word) < c"
  shows "unat (b + 1) = unat b + 1"
proof -
  have "unat b + 1 \<le> unat c" using assms by (simp add: word_less_nat_alt)
  also have "unat c < 2 ^ LENGTH('a)" by (rule unsigned_less)
  finally show ?thesis by (simp add: unat_word_ariths)
qed

lemma word_add_right_eq: "(a + k = b + k) = (a = (b :: 'a::len word))"
  by simp

section \<open>Runs that succeed\<close>

lemma bind_SomeE: "(x \<bind> f) = Some y \<Longrightarrow> (\<And>a. x = Some a \<Longrightarrow> f a = Some y \<Longrightarrow> P) \<Longrightarrow> P"
  by (cases x) simp_all

lemma bind_pairE:
  "(x \<bind> (\<lambda>(a, b). f a b)) = Some y \<Longrightarrow> (\<And>a b. x = Some (a, b) \<Longrightarrow> f a b = Some y \<Longrightarrow> P) \<Longrightarrow> P"
  by (cases x) auto

lemma bind_tripleE:
  "(x \<bind> (\<lambda>(a, b, c). f a b c)) = Some y \<Longrightarrow> (\<And>a b c. x = Some (a, b, c) \<Longrightarrow> f a b c = Some y \<Longrightarrow> P) \<Longrightarrow> P"
  by (cases x) auto

end
