(* ===== verification/Memory.thy ===== *)
theory Memory
  imports Prelude
begin

text \<open>
  The kernel memory as the driver sees it. Which bytes may be accessed is decided by the
  list of live \<open>kmalloc\<close> blocks; the pointer words of the two kernel list types are kept
  in typed cells, one function per field, indexed by the address of the structure. A cell
  keeps its old contents when its block is freed, as memory does, but any access outside a
  live block is undefined behaviour (\<open>None\<close>).

  \<open>kmalloc\<close> and \<open>kfree\<close> belong to the kernel, not to this repository: the address a
  \<open>kmalloc\<close> call returns is a parameter (a function of the call number, the live blocks
  and the size), constrained only by the documented contract \<open>kmalloc_ok\<close>.
\<close>

section \<open>The store\<close>

record mem =
  blocks :: "(addr \<times> nat) list"
  ticks :: nat
  lnext :: "addr \<Rightarrow> addr"   \<comment> \<open>\<open>struct list_head.next\<close>\<close>
  lprev :: "addr \<Rightarrow> addr"   \<comment> \<open>\<open>struct list_head.prev\<close>\<close>
  hptr :: "addr \<Rightarrow> addr"    \<comment> \<open>\<open>hlist_head.first\<close> and \<open>hlist_node.next\<close>, both at offset 0\<close>
  hpprev :: "addr \<Rightarrow> addr"  \<comment> \<open>\<open>hlist_node.pprev\<close>\<close>

type_synonym kmalloc_fn = "nat \<Rightarrow> (addr \<times> nat) list \<Rightarrow> nat \<Rightarrow> addr"

definition valid :: "'z mem_scheme \<Rightarrow> addr \<Rightarrow> nat \<Rightarrow> bool" where
  "valid m a n = list_ex (\<lambda>(b, s). unat b \<le> unat a \<and> unat a + n \<le> unat b + s) (blocks m)"

definition disjoint_blocks :: "addr \<times> nat \<Rightarrow> addr \<times> nat \<Rightarrow> bool" where
  "disjoint_blocks p q =
     (unat (fst p) + snd p \<le> unat (fst q) \<or> unat (fst q) + snd q \<le> unat (fst p))"

definition good_block :: "addr \<times> nat \<Rightarrow> bool" where
  "good_block p = (fst p \<noteq> NULL \<and> 0 < snd p \<and> unat (fst p) + snd p \<le> 2 ^ 32)"

text \<open>
  The contract of \<open>kmalloc\<close>: a call for a positive number of bytes fails (NULL) or returns
  a block that lies in the address space and overlaps no live block.
\<close>

definition kmalloc_ok :: "kmalloc_fn \<Rightarrow> bool" where
  "kmalloc_ok km = (\<forall>t bs n. 0 < n \<longrightarrow> km t bs n \<noteq> NULL \<longrightarrow>
     good_block (km t bs n, n) \<and> (\<forall>b \<in> set bs. disjoint_blocks (km t bs n, n) b))"

definition kmalloc :: "kmalloc_fn \<Rightarrow> nat \<Rightarrow> 'z mem_scheme \<Rightarrow> addr \<times> 'z mem_scheme" where
  "kmalloc km n m =
     (let a = km (ticks m) (blocks m) n; m1 = m\<lparr>ticks := Suc (ticks m)\<rparr>
      in if a = NULL then (NULL, m1) else (a, m1\<lparr>blocks := (a, n) # blocks m\<rparr>))"

text \<open>\<open>kfree(NULL)\<close> does nothing; freeing anything but the start of a live block is an error.\<close>

definition kfree :: "addr \<Rightarrow> 'z mem_scheme \<Rightarrow> 'z mem_scheme option" where
  "kfree a m =
     (if a = NULL then Some m
      else if list_ex (\<lambda>(b, s). b = a) (blocks m)
      then Some (m\<lparr>blocks := filter (\<lambda>(b, s). b \<noteq> a) (blocks m)\<rparr>)
      else None)"

definition blocks_ok :: "(addr \<times> nat) list \<Rightarrow> bool" where
  "blocks_ok bs = (list_all good_block bs \<and> sorted_wrt disjoint_blocks bs)"

abbreviation mem_ok :: "'z mem_scheme \<Rightarrow> bool" where
  "mem_ok m \<equiv> blocks_ok (blocks m)"

section \<open>Basic facts\<close>

lemma valid_iff:
  "valid m a n \<longleftrightarrow> (\<exists>b s. (b, s) \<in> set (blocks m) \<and> unat b \<le> unat a \<and> unat a + n \<le> unat b + s)"
  by (force simp: valid_def list_ex_iff)

lemma valid_blocks_cong: "blocks m = blocks m' \<Longrightarrow> valid m a n = valid m' a n"
  by (simp add: valid_def)

lemma valid_update [simp]:
  "valid (m\<lparr>lnext := f\<rparr>) a n = valid m a n"
  "valid (m\<lparr>lprev := f\<rparr>) a n = valid m a n"
  "valid (m\<lparr>hptr := f\<rparr>) a n = valid m a n"
  "valid (m\<lparr>hpprev := f\<rparr>) a n = valid m a n"
  "valid (m\<lparr>ticks := t\<rparr>) a n = valid m a n"
  by (simp_all add: valid_def)

lemma valid_block: "(a, s) \<in> set (blocks m) \<Longrightarrow> n \<le> s \<Longrightarrow> valid m a n"
  unfolding valid_iff by (intro exI [of _ a] exI [of _ s]) simp

lemma valid_shrink: "valid m a n \<Longrightarrow> k \<le> n \<Longrightarrow> valid m a k"
  by (force simp: valid_iff)

lemma disjoint_blocks_sym: "disjoint_blocks p q = disjoint_blocks q p"
  by (auto simp: disjoint_blocks_def)

lemma blocks_ok_Cons:
  "blocks_ok (p # bs) \<longleftrightarrow> good_block p \<and> (\<forall>q \<in> set bs. disjoint_blocks p q) \<and> blocks_ok bs"
  by (auto simp: blocks_ok_def)

lemma blocks_ok_filter: "blocks_ok bs \<Longrightarrow> blocks_ok (filter P bs)"
  by (auto simp: blocks_ok_def list_all_iff sorted_wrt_filter)

lemma blocks_ok_good: "blocks_ok bs \<Longrightarrow> p \<in> set bs \<Longrightarrow> good_block p"
  by (auto simp: blocks_ok_def list_all_iff)

text \<open>In a well-formed store two blocks that share a byte are the same block.\<close>

lemma blocks_ok_overlap:
  assumes "blocks_ok bs" and "(a, s) \<in> set bs" and "(b, t) \<in> set bs"
    and "unat a \<le> x" and "x < unat a + s" and "unat b \<le> x" and "x < unat b + t"
  shows "(a, s) = (b, t)"
  using assms
proof (induction bs)
  case Nil
  then show ?case by simp
next
  case (Cons p bs)
  have "\<not> disjoint_blocks (a, s) (b, t)" and "\<not> disjoint_blocks (b, t) (a, s)"
    using Cons.prems(4-7) by (auto simp: disjoint_blocks_def)
  with Cons show ?case by (auto simp: blocks_ok_Cons)
qed

lemma mem_ok_same_start:
  assumes "mem_ok m" and "(a, s) \<in> set (blocks m)" and "(a, t) \<in> set (blocks m)"
  shows "s = t"
proof -
  have "0 < s" and "0 < t"
    using assms by (auto dest: blocks_ok_good simp: good_block_def)
  with blocks_ok_overlap [OF assms, of "unat a"] show ?thesis by simp
qed

lemma valid_nonnull:
  assumes "mem_ok m" and "valid m a n" and "0 < n"
  shows "a \<noteq> NULL"
proof
  assume "a = NULL"
  with assms(2) obtain b s where "(b, s) \<in> set (blocks m)" and "unat b \<le> 0"
    by (auto simp: valid_iff)
  with blocks_ok_good [OF assms(1) this(1)] show False
    by (simp add: good_block_def unat_eq_zero)
qed

section \<open>Allocation\<close>

lemma kmalloc_null: "kmalloc km n m = (NULL, m') \<Longrightarrow> m' = m\<lparr>ticks := Suc (ticks m)\<rparr>"
  by (auto simp: kmalloc_def Let_def split: if_splits)

lemma kmalloc_some:
  "kmalloc km n m = (a, m') \<Longrightarrow> a \<noteq> NULL \<Longrightarrow>
     m' = m\<lparr>ticks := Suc (ticks m), blocks := (a, n) # blocks m\<rparr>"
  by (auto simp: kmalloc_def Let_def split: if_splits)

lemma kmalloc_mem_ok:
  assumes "kmalloc_ok km" and "mem_ok m" and "0 < n" and "kmalloc km n m = (a, m')"
  shows "mem_ok m'"
proof (cases "a = NULL")
  case True
  with assms show ?thesis by (auto dest: kmalloc_null)
next
  case False
  with assms(4) have "m' = m\<lparr>ticks := Suc (ticks m), blocks := (a, n) # blocks m\<rparr>"
    and "a = km (ticks m) (blocks m) n"
    by (auto dest: kmalloc_some simp: kmalloc_def Let_def split: if_splits)
  with assms(1-3) False show ?thesis
    by (simp add: blocks_ok_Cons kmalloc_ok_def)
qed

text \<open>A new block overlaps nothing that was accessible before.\<close>

lemma kmalloc_fresh:
  assumes "kmalloc_ok km" and "0 < n" and "kmalloc km n m = (a, m')" and "a \<noteq> NULL"
    and "valid m b k" and "0 < k"
  shows "unat a + n \<le> unat b \<or> unat b + k \<le> unat a"
proof -
  have "a = km (ticks m) (blocks m) n"
    using assms(3,4) by (auto simp: kmalloc_def Let_def split: if_splits)
  with assms(1,2,4) have d: "\<forall>q \<in> set (blocks m). disjoint_blocks (a, n) q"
    by (simp add: kmalloc_ok_def)
  from assms(5) obtain c s where "(c, s) \<in> set (blocks m)"
    and "unat c \<le> unat b" and "unat b + k \<le> unat c + s"
    by (auto simp: valid_iff)
  with d show ?thesis by (force simp: disjoint_blocks_def)
qed

lemma kmalloc_valid_mono:
  assumes "kmalloc km n m = (a, m')" and "valid m b k"
  shows "valid m' b k"
  using assms by (auto simp: kmalloc_def Let_def valid_def split: if_splits)

lemma kmalloc_valid_new:
  assumes "kmalloc km n m = (a, m')" and "a \<noteq> NULL"
  shows "valid m' a n"
  using kmalloc_some [OF assms] by (simp add: valid_def)

lemma kmalloc_cells:
  assumes "kmalloc km n m = (a, m')"
  shows "lnext m' = lnext m" "lprev m' = lprev m" "hptr m' = hptr m" "hpprev m' = hpprev m"
  using assms by (auto simp: kmalloc_def Let_def split: if_splits)

section \<open>Release\<close>

lemma kfree_mem_ok: "mem_ok m \<Longrightarrow> kfree a m = Some m' \<Longrightarrow> mem_ok m'"
  by (auto simp: kfree_def blocks_ok_filter split: if_splits)

lemma kfree_block: "(a, s) \<in> set (blocks m) \<Longrightarrow> \<exists>m'. kfree a m = Some m'"
  by (auto simp: kfree_def list_ex_iff)

lemma kfree_valid_other:
  assumes "mem_ok m" and "kfree a m = Some m'" and "(a, s) \<in> set (blocks m)"
    and "valid m b k" and "0 < k" and "unat b + k \<le> unat a \<or> unat a + s \<le> unat b"
  shows "valid m' b k"
proof -
  from assms(4) obtain c t where c: "(c, t) \<in> set (blocks m)"
    "unat c \<le> unat b" "unat b + k \<le> unat c + t"
    by (auto simp: valid_iff)
  have "c \<noteq> a"
  proof
    assume "c = a"
    with c(1) assms(1,3) have "t = s" by (auto dest: mem_ok_same_start)
    with c(2,3) assms(5,6) \<open>c = a\<close> show False by auto
  qed
  with c assms(2) show ?thesis
    by (force simp: kfree_def valid_iff split: if_splits)
qed

lemma kfree_invalid:
  assumes "mem_ok m" and "kfree a m = Some m'" and "(a, s) \<in> set (blocks m)"
    and "unat a \<le> unat b" and "unat b < unat a + s" and "0 < k"
  shows "\<not> valid m' b k"
proof
  assume "valid m' b k"
  with assms(2) blocks_ok_good [OF assms(1,3)] obtain c t where
    c: "(c, t) \<in> set (blocks m)" "c \<noteq> a" "unat c \<le> unat b" "unat b + k \<le> unat c + t"
    by (auto simp: kfree_def valid_iff good_block_def split: if_splits)
  have "(a, s) = (c, t)"
    using blocks_ok_overlap [OF assms(1,3) c(1), of "unat b"] assms(4-6) c(3,4) by simp
  with c(2) show False by simp
qed

lemma kfree_cells:
  assumes "kfree a m = Some m'"
  shows "lnext m' = lnext m" "lprev m' = lprev m" "hptr m' = hptr m" "hpprev m' = hpprev m"
  using assms by (auto simp: kfree_def split: if_splits)

lemma kfree_double: "mem_ok m \<Longrightarrow> a \<noteq> NULL \<Longrightarrow> kfree a m = Some m' \<Longrightarrow> kfree a m' = None"
  by (auto simp: kfree_def list_ex_iff split: if_splits)

section \<open>Where kernel memory lies\<close>

text \<open>
  On the driver's platform the kernel's memory starts at \<open>PAGE_OFFSET\<close>: \<open>kmalloc\<close> returns
  nothing below it. Small integers and the list poison values are therefore never valid
  addresses, which is what the poison values are made for.
\<close>

definition PAGE_OFFSET :: nat where "PAGE_OFFSET = 3221225472"

definition kmalloc_high :: "kmalloc_fn \<Rightarrow> bool" where
  "kmalloc_high km = (\<forall>t bs n. km t bs n \<noteq> NULL \<longrightarrow> PAGE_OFFSET \<le> unat (km t bs n))"

definition high_mem :: "'z mem_scheme \<Rightarrow> bool" where
  "high_mem m = (\<forall>p \<in> set (blocks m). PAGE_OFFSET \<le> unat (fst p))"

lemma high_mem_invalid: "high_mem m \<Longrightarrow> unat a < PAGE_OFFSET \<Longrightarrow> \<not> valid m a n"
  by (force simp: high_mem_def valid_iff)

lemma high_mem_kmalloc:
  "kmalloc_high km \<Longrightarrow> high_mem m \<Longrightarrow> kmalloc km n m = (a, m') \<Longrightarrow> high_mem m'"
  by (auto simp: high_mem_def kmalloc_high_def kmalloc_def Let_def split: if_splits)

lemma high_mem_kfree: "high_mem m \<Longrightarrow> kfree a m = Some m' \<Longrightarrow> high_mem m'"
  by (auto simp: high_mem_def kfree_def split: if_splits)

lemma high_mem_blocks: "blocks m' = blocks m \<Longrightarrow> high_mem m' = high_mem m"
  by (simp add: high_mem_def)

text \<open>A concrete allocator that satisfies the contract, for the witnesses: bump allocation.\<close>

definition bump :: kmalloc_fn where
  "bump t bs n =
     (let top = foldr (\<lambda>(b, s) x. max (unat b + s) x) bs (3221225472 :: nat);
          a = 8 * ((top + 7) div 8)
      in if a + n \<le> 4294967296 \<and> a < 4294967296 then word_of_nat a else NULL)"

lemma foldr_max_ge: "(b, s) \<in> set bs \<Longrightarrow>
    unat b + s \<le> foldr (\<lambda>(b, s) x. max (unat b + s) x) bs (x :: nat)"
  by (induction bs) auto

lemma bump_ok: "kmalloc_ok bump"
proof -
  have "good_block (bump t bs n, n) \<and> (\<forall>b \<in> set bs. disjoint_blocks (bump t bs n, n) b)"
    if n: "0 < n" and nz: "bump t bs n \<noteq> NULL" for t bs n
  proof -
    define top where "top = foldr (\<lambda>(b, s) x. max (unat b + s) x) bs (3221225472 :: nat)"
    define a where "a = 8 * ((top + 7) div 8)"
    have le: "top \<le> a" unfolding a_def by presburger
    have f: "bump t bs n = (if a + n \<le> 4294967296 \<and> a < 4294967296 then word_of_nat a else NULL)"
      by (simp add: bump_def Let_def a_def top_def)
    with nz have b: "a + n \<le> 4294967296" "a < 4294967296" "bump t bs n = word_of_nat a"
      by (auto split: if_splits)
    have u: "unat (bump t bs n) = a"
      using b by (simp add: unsigned_of_nat take_bit_nat_eq_self)
    have "disjoint_blocks (bump t bs n, n) (c, s)" if "(c, s) \<in> set bs" for c s
      using foldr_max_ge [OF that, of 3221225472] le u
      by (simp add: disjoint_blocks_def top_def)
    with nz n u b show ?thesis by (auto simp: good_block_def)
  qed
  then show ?thesis by (simp add: kmalloc_ok_def)
qed

lemma foldr_max_base: "(x :: nat) \<le> foldr (\<lambda>(b, s) x. max (unat b + s) x) bs x"
  by (induction bs) (auto simp: max_def)

lemma bump_high: "kmalloc_high bump"
proof -
  have "PAGE_OFFSET \<le> unat (bump t bs n)" if nz: "bump t bs n \<noteq> NULL" for t bs n
  proof -
    define top where "top = foldr (\<lambda>(b, s) x. max (unat b + s) x) bs (3221225472 :: nat)"
    define a where "a = 8 * ((top + 7) div 8)"
    have "3221225472 \<le> top" unfolding top_def by (rule foldr_max_base)
    moreover have "top \<le> a" unfolding a_def by presburger
    moreover have "bump t bs n = (if a + n \<le> 4294967296 \<and> a < 4294967296 then word_of_nat a else NULL)"
      by (simp add: bump_def Let_def a_def top_def)
    with nz have "a < 4294967296" "bump t bs n = word_of_nat a" by (auto split: if_splits)
    then have "unat (bump t bs n) = a"
      by (simp add: unsigned_of_nat take_bit_nat_eq_self)
    ultimately show ?thesis by (simp add: PAGE_OFFSET_def)
  qed
  then show ?thesis by (simp add: kmalloc_high_def)
qed

end
