(* ===== verification/Allocator.thy ===== *)
theory Allocator
  imports Memory
begin

text \<open>
  The allocation library \<open>driver/liballoc\<close>: the table \<open>allocator_modules\<close> of allocator
  implementations, the registration of the system allocator, and the dispatching functions
  of \<open>allocator.c\<close>. A function pointer of the table is a named function or NULL (\<open>None\<close>);
  a call through NULL is undefined behaviour. The store is extended by the table, which is
  a global variable of the program.
\<close>

section \<open>Data\<close>

definition ALLOCATOR_TYPE_SYS_MALLOC :: u8 where "ALLOCATOR_TYPE_SYS_MALLOC = 0"
definition ALLOCATOR_TYPE_CTR_MALLOC :: u8 where "ALLOCATOR_TYPE_CTR_MALLOC = 1"
definition ALLOCATOR_TYPE_LAST :: nat where "ALLOCATOR_TYPE_LAST = 2"

text \<open>The part of \<open>cds_alloc_t\<close> that \<open>allocator.c\<close> writes.\<close>

record cds_alloc =
  slab_array_max_num :: u32
  mempool_capacity :: u32
  data_min_size :: u32

text \<open>\<open>al_self\<close> is the address of the structure itself.\<close>

record allocator =
  al_self :: addr
  allocator_type :: u8
  al_lock_type :: u8
  priv_cds :: cds_alloc

definition sizeof_allocator_t :: nat where "sizeof_allocator_t = 76"

text \<open>The functions that the program ever stores in the table.\<close>

datatype init_fn = Init_fn
datatype alloc_fn = Sys_alloc_alloc
datatype free_fn = Sys_alloc_free
datatype destroy_fn = Destroy_fn
datatype info_fn = Info_fn

record allocator_operations =
  op_init :: "init_fn option"
  op_alloc :: "alloc_fn option"
  op_free :: "free_fn option"
  op_destroy :: "destroy_fn option"
  op_info :: "info_fn option"

record allocator_module =
  module_type :: u8
  alloc_ops :: allocator_operations

text \<open>The program's store: the kernel memory and the global table.\<close>

record amem = mem +
  allocator_modules :: "allocator_module list"

text \<open>A static array starts zeroed.\<close>

definition zero_module :: allocator_module where
  "zero_module = \<lparr>module_type = 0,
     alloc_ops = \<lparr>op_init = None, op_alloc = None, op_free = None, op_destroy = None,
       op_info = None\<rparr>\<rparr>"

definition initial_modules :: "allocator_module list" where
  "initial_modules = replicate ALLOCATOR_TYPE_LAST zero_module"

section \<open>The system allocator\<close>

definition sys_alloc_alloc ::
  "kmalloc_fn \<Rightarrow> allocator \<Rightarrow> u32 \<Rightarrow> 'z amem_scheme \<Rightarrow> addr \<times> 'z amem_scheme" where
  "sys_alloc_alloc km alloc sz m = kmalloc km (unat sz) m"

definition sys_alloc_free :: "allocator \<Rightarrow> addr \<Rightarrow> 'z amem_scheme \<Rightarrow> 'z amem_scheme option" where
  "sys_alloc_free alloc a m = kfree a m"

definition salloc :: allocator_module where
  "salloc = \<lparr>module_type = ALLOCATOR_TYPE_SYS_MALLOC,
     alloc_ops = \<lparr>op_init = None, op_alloc = Some Sys_alloc_alloc,
       op_free = Some Sys_alloc_free, op_destroy = None, op_info = None\<rparr>\<rparr>"

definition allocator_sys_alloc_register :: "'z amem_scheme \<Rightarrow> int \<times> 'z amem_scheme" where
  "allocator_sys_alloc_register m =
     (0, m\<lparr>allocator_modules := (allocator_modules m)[unat ALLOCATOR_TYPE_SYS_MALLOC := salloc]\<rparr>)"

definition liballoc_register_modules :: "'z amem_scheme \<Rightarrow> 'z amem_scheme" where
  "liballoc_register_modules m = snd (allocator_sys_alloc_register m)"

section \<open>The dispatching functions\<close>

text \<open>\<open>allocator_modules[type]\<close>; an index past the end is undefined behaviour.\<close>

definition module_at :: "'z amem_scheme \<Rightarrow> u8 \<Rightarrow> allocator_operations option" where
  "module_at m ty =
     (if unat ty < length (allocator_modules m)
      then Some (alloc_ops (allocator_modules m ! unat ty)) else None)"

text \<open>The result is \<open>None\<close> in the first component where the C function returns NULL.\<close>

definition allocator_creator ::
  "kmalloc_fn \<Rightarrow> u8 \<Rightarrow> u8 \<Rightarrow> 'z amem_scheme \<Rightarrow> allocator option \<times> 'z amem_scheme" where
  "allocator_creator km ty lock m =
     (let (p, m') = kmalloc km sizeof_allocator_t m
      in if p = NULL then (None, m')
         else (Some \<lparr>al_self = p, allocator_type = ty, al_lock_type = lock,
                 priv_cds = \<lparr>slab_array_max_num = 0, mempool_capacity = 0, data_min_size = 0\<rparr>\<rparr>, m'))"

definition allocator_ctr_init ::
  "allocator \<Rightarrow> u32 \<Rightarrow> u32 \<Rightarrow> u32 \<Rightarrow> 'z amem_scheme \<Rightarrow> (allocator \<times> 'z amem_scheme) option" where
  "allocator_ctr_init alloc slabs min_size capacity m = do {
     let alloc' = alloc\<lparr>priv_cds := \<lparr>slab_array_max_num = slabs, mempool_capacity = capacity,
        data_min_size = min_size\<rparr>\<rparr>;
     ops \<leftarrow> module_at m (allocator_type alloc);
     f \<leftarrow> op_init ops;
     Some (alloc', m)
   }"

definition allocator_mem_alloc ::
  "kmalloc_fn \<Rightarrow> allocator \<Rightarrow> u32 \<Rightarrow> 'z amem_scheme \<Rightarrow> (addr \<times> 'z amem_scheme) option" where
  "allocator_mem_alloc km alloc sz m = do {
     ops \<leftarrow> module_at m (allocator_type alloc);
     f \<leftarrow> op_alloc ops;
     (case f of Sys_alloc_alloc \<Rightarrow> Some (sys_alloc_alloc km alloc sz m))
   }"

definition allocator_mem_free ::
  "allocator \<Rightarrow> addr \<Rightarrow> 'z amem_scheme \<Rightarrow> 'z amem_scheme option" where
  "allocator_mem_free alloc a m = do {
     ops \<leftarrow> module_at m (allocator_type alloc);
     f \<leftarrow> op_free ops;
     (case f of Sys_alloc_free \<Rightarrow> sys_alloc_free alloc a m)
   }"

text \<open>No module of the program has an \<open>info\<close> or a \<open>destroy\<close> function that does anything.\<close>

definition allocator_mem_info :: "allocator \<Rightarrow> 'z amem_scheme \<Rightarrow> 'z amem_scheme option" where
  "allocator_mem_info alloc m = do {
     ops \<leftarrow> module_at m (allocator_type alloc);
     (case op_info ops of None \<Rightarrow> Some m | Some Info_fn \<Rightarrow> Some m)
   }"

definition allocator_destroy :: "allocator \<Rightarrow> 'z amem_scheme \<Rightarrow> 'z amem_scheme option" where
  "allocator_destroy alloc m = do {
     ops \<leftarrow> module_at m (allocator_type alloc);
     m' \<leftarrow> (case op_destroy ops of None \<Rightarrow> Some m | Some Destroy_fn \<Rightarrow> Some m);
     kfree (al_self alloc) m'
   }"

section \<open>What the dispatch does for the system allocator\<close>

definition sys_registered :: "'z amem_scheme \<Rightarrow> bool" where
  "sys_registered m = (allocator_modules m \<noteq> [] \<and> hd (allocator_modules m) = salloc)"

definition sys_allocator :: "allocator \<Rightarrow> bool" where
  "sys_allocator al = (allocator_type al = ALLOCATOR_TYPE_SYS_MALLOC)"

lemma sys_registered_register:
  "allocator_modules m = initial_modules \<Longrightarrow> sys_registered (liballoc_register_modules m)"
  by (simp add: liballoc_register_modules_def allocator_sys_alloc_register_def
      sys_registered_def initial_modules_def ALLOCATOR_TYPE_LAST_def
      ALLOCATOR_TYPE_SYS_MALLOC_def numeral_2_eq_2)

lemma module_at_sys:
  "sys_registered m \<Longrightarrow> sys_allocator al \<Longrightarrow> module_at m (allocator_type al) = Some (alloc_ops salloc)"
  by (cases "allocator_modules m")
    (auto simp: module_at_def sys_registered_def sys_allocator_def ALLOCATOR_TYPE_SYS_MALLOC_def)

lemma allocator_mem_alloc_sys [simp]:
  assumes "sys_registered m" and "sys_allocator al"
  shows "allocator_mem_alloc km al sz m = Some (kmalloc km (unat sz) m)"
  using assms by (simp add: allocator_mem_alloc_def module_at_sys salloc_def sys_alloc_alloc_def)

lemma allocator_mem_free_sys [simp]:
  assumes "sys_registered m" and "sys_allocator al"
  shows "allocator_mem_free al a m = kfree a m"
  using assms by (simp add: allocator_mem_free_def module_at_sys salloc_def sys_alloc_free_def)

lemma allocator_destroy_sys:
  assumes "sys_registered m" and "sys_allocator al"
  shows "allocator_destroy al m = kfree (al_self al) m"
  using assms by (simp add: allocator_destroy_def module_at_sys salloc_def)

text \<open>
  The system module has no \<open>init\<close> function, so initialising a system allocator as a
  container allocator calls a NULL pointer.
\<close>

lemma allocator_ctr_init_sys_faults:
  assumes "sys_registered m" and "sys_allocator al"
  shows "allocator_ctr_init al a b c m = None"
  using assms by (simp add: allocator_ctr_init_def module_at_sys salloc_def)

lemma sys_registered_update [simp]:
  "sys_registered (m\<lparr>blocks := bs\<rparr>) = sys_registered m"
  "sys_registered (m\<lparr>ticks := t\<rparr>) = sys_registered m"
  "sys_registered (m\<lparr>lnext := f\<rparr>) = sys_registered m"
  "sys_registered (m\<lparr>lprev := f\<rparr>) = sys_registered m"
  "sys_registered (m\<lparr>hptr := f\<rparr>) = sys_registered m"
  "sys_registered (m\<lparr>hpprev := f\<rparr>) = sys_registered m"
  by (simp_all add: sys_registered_def)

lemma kmalloc_modules: "kmalloc km n m = (a, m') \<Longrightarrow> allocator_modules m' = allocator_modules m"
  by (auto simp: kmalloc_def Let_def split: if_splits)

lemma kfree_modules: "kfree a m = Some m' \<Longrightarrow> allocator_modules m' = allocator_modules m"
  by (auto simp: kfree_def split: if_splits)

lemma sys_registered_kmalloc: "kmalloc km n m = (a, m') \<Longrightarrow> sys_registered m' = sys_registered m"
  by (simp add: sys_registered_def kmalloc_modules)

lemma sys_registered_kfree: "kfree a m = Some m' \<Longrightarrow> sys_registered m' = sys_registered m"
  by (simp add: sys_registered_def kfree_modules)

section \<open>The interface of an allocator\<close>

text \<open>
  A client's requests, and the ledger of the blocks that it was handed, with the sizes it asked for,
  and has not given back.
\<close>

datatype request = Get u32 | Put addr

fun serve ::
  "(u32 \<Rightarrow> 'm \<Rightarrow> (addr \<times> 'm) option) \<Rightarrow> (addr \<Rightarrow> 'm \<Rightarrow> 'm option) \<Rightarrow> request list \<Rightarrow> (addr \<times> nat) list \<times> 'm \<Rightarrow>
     ((addr \<times> nat) list \<times> 'm) option" where
  "serve alloc release [] s = Some s"
| "serve alloc release (Get n # rs) (L, m) = do {
     (p, m') \<leftarrow> alloc n m;
     serve alloc release rs (if p = NULL then L else (p, unat n) # L, m') }"
| "serve alloc release (Put a # rs) (L, m) = do {
     m' \<leftarrow> release a m;
     serve alloc release rs (filter (\<lambda>(b, s). b \<noteq> a) L, m') }"

text \<open>
  What the clients of an allocator rely on: an allocation for a positive size fails or adds one
  block of that size to a well-formed store, and a release takes away the block that starts at the
  given address and no other.
\<close>

locale allocator_contract =
  fixes alloc :: "u32 \<Rightarrow> 'z mem_scheme \<Rightarrow> (addr \<times> 'z mem_scheme) option"
    and release :: "addr \<Rightarrow> 'z mem_scheme \<Rightarrow> 'z mem_scheme option"
    and inv :: "'z mem_scheme \<Rightarrow> bool"
  assumes inv_ok: "inv m \<Longrightarrow> mem_ok m"
    and alloc_inv: "inv m \<Longrightarrow> 0 < n \<Longrightarrow> alloc n m = Some (a, m') \<Longrightarrow> inv m'"
    and alloc_blocks: "inv m \<Longrightarrow> alloc n m = Some (a, m') \<Longrightarrow>
          blocks m' = (if a = NULL then blocks m else (a, unat n) # blocks m)"
    and release_inv: "inv m \<Longrightarrow> release a m = Some m' \<Longrightarrow> inv m'"
    and release_blocks: "inv m \<Longrightarrow> release a m = Some m' \<Longrightarrow>
          blocks m' = filter (\<lambda>(b, s). b \<noteq> a) (blocks m)"
begin

text \<open>The ledger is right: its blocks are live, they do not overlap, and nothing else was added.\<close>

lemma serve_ledger:
  assumes "inv m" and "\<forall>n. Get n \<in> set rs \<longrightarrow> 0 < n" and "serve alloc release rs (L, m) = Some (L', m')"
    and "set L \<subseteq> set (blocks m)" and "sorted_wrt disjoint_blocks L" and "set (blocks m) \<subseteq> S \<union> set L"
  shows "inv m' \<and> set L' \<subseteq> set (blocks m') \<and> sorted_wrt disjoint_blocks L' \<and> set (blocks m') \<subseteq> S \<union> set L'"
  using assms
proof (induction rs arbitrary: L m)
  case (Cons r rs)
  show ?case
  proof (cases r)
    case (Get n)
    with Cons.prems(3) obtain p m1 where a: "alloc n m = Some (p, m1)"
      "serve alloc release rs (if p = NULL then L else (p, unat n) # L, m1) = Some (L', m')"
      by (auto split: Option.bind_splits)
    have i: "inv m1" using alloc_inv [OF Cons.prems(1) _ a(1)] Cons.prems(2) Get by simp
    note b = alloc_blocks [OF Cons.prems(1) a(1)]
    have "p \<noteq> NULL \<Longrightarrow> \<forall>q \<in> set L. disjoint_blocks (p, unat n) q"
      using inv_ok [OF i] b Cons.prems(4) by (auto simp: blocks_ok_Cons)
    then show ?thesis
      by (intro Cons.IH [OF i _ a(2)]) (use Cons.prems(2,4-6) b in auto)
  next
    case (Put a)
    with Cons.prems(3) obtain m1 where f: "release a m = Some m1"
      "serve alloc release rs (filter (\<lambda>(b, s). b \<noteq> a) L, m1) = Some (L', m')"
      by (auto split: Option.bind_splits)
    note b = release_blocks [OF Cons.prems(1) f(1)]
    show ?thesis
      by (rule Cons.IH [OF release_inv [OF Cons.prems(1) f(1)] _ f(2)])
        (use Cons.prems(2,4-6) b in \<open>auto simp: sorted_wrt_filter\<close>)
  qed
qed simp

end

lemma kfree_blocks: "mem_ok m \<Longrightarrow> kfree a m = Some m' \<Longrightarrow> blocks m' = filter (\<lambda>(b, s). b \<noteq> a) (blocks m)"
proof (cases "a = NULL")
  case True
  assume "mem_ok m" and "kfree a m = Some m'"
  then have "m' = m" "\<forall>p \<in> set (blocks m). fst p \<noteq> NULL"
    using True by (simp add: kfree_def, metis blocks_ok_good good_block_def)
  with True show ?thesis by (auto intro!: filter_True [symmetric])
qed (auto simp: kfree_def split: if_splits)

interpretation sys: allocator_contract
  "allocator_mem_alloc km al" "allocator_mem_free al"
  "\<lambda>m. kmalloc_ok km \<and> sys_allocator al \<and> sys_registered m \<and> mem_ok m"
  for km al
proof (unfold_locales, goal_cases)
  case (2 m n a m')
  then show ?case using kmalloc_mem_ok [of km m "unat n" a m']
    by (auto simp: word_gt_0 unat_gt_0 sys_registered_kmalloc)
next
  case (3 m n a m')
  then show ?case by (auto dest: kmalloc_null kmalloc_some)
next
  case (4 m a m')
  then show ?case by (auto simp: sys_registered_kfree intro: kfree_mem_ok)
next
  case (5 m a m')
  then show ?case by (auto dest: kfree_blocks)
qed simp

section \<open>The self test of the library\<close>

fun test_allocator_batch ::
  "kmalloc_fn \<Rightarrow> allocator \<Rightarrow> nat \<Rightarrow> u32 \<Rightarrow> 'z amem_scheme \<Rightarrow> 'z amem_scheme option" where
  "test_allocator_batch km al 0 sz m = Some m"
| "test_allocator_batch km al (Suc k) sz m = do {
     (p, m') \<leftarrow> allocator_mem_alloc km al sz m;
     test_allocator_batch km al k (sz + 8) m'
   }"

definition test_allocator :: "kmalloc_fn \<Rightarrow> 'z amem_scheme \<Rightarrow> 'z amem_scheme option" where
  "test_allocator km m0 = do {
     let (al_p, m1) = allocator_creator km ALLOCATOR_TYPE_SYS_MALLOC 0 m0;
     al \<leftarrow> al_p;
     (p, m2) \<leftarrow> allocator_mem_alloc km al 7 m1;
     m3 \<leftarrow> allocator_mem_free al p m2;
     (p2, m4) \<leftarrow> allocator_mem_alloc km al 8 m3;
     (p3, m5) \<leftarrow> allocator_mem_alloc km al 200 m4;
     m6 \<leftarrow> allocator_mem_info al m5;
     m7 \<leftarrow> allocator_mem_free al p m6;
     m8 \<leftarrow> allocator_mem_free al p2 m7;
     m9 \<leftarrow> allocator_mem_free al p3 m8;
     m10 \<leftarrow> test_allocator_batch km al 20 8 m9;
     m11 \<leftarrow> allocator_mem_info al m10;
     allocator_destroy al m11
   }"

lemma kfree_Some_iff:
  "a \<noteq> NULL \<Longrightarrow> kfree a m = Some m' \<longleftrightarrow>
     (\<exists>s. (a, s) \<in> set (blocks m)) \<and> m' = m\<lparr>blocks := filter (\<lambda>(b, s). b \<noteq> a) (blocks m)\<rparr>"
  by (auto simp: kfree_def list_ex_iff)

text \<open>
  Releasing \<open>p\<close> a second time after two other allocations can only succeed by releasing one
  of these two, which then is released again.
\<close>

lemma stale_free_faults:
  assumes "kfree p m2 = Some m3" and "p \<noteq> NULL"
    and "kmalloc km i m3 = (q, m4)" and "kmalloc km j m4 = (r, m5)"
    and "kfree p m5 = Some m7" and "kfree q m7 = Some m8"
  shows "kfree r m8 = None"
proof -
  have b4: "blocks m4 = (if q = NULL then blocks m3 else (q, i) # blocks m3)"
    using assms(3) by (auto simp: kmalloc_def Let_def split: if_splits)
  have b5: "blocks m5 = (if r = NULL then blocks m4 else (r, j) # blocks m4)"
    using assms(4) by (auto simp: kmalloc_def Let_def split: if_splits)
  have "\<nexists>s. (p, s) \<in> set (blocks m3)"
    using assms(1,2) by (auto simp: kfree_Some_iff)
  with assms(2,5) b4 b5 have "p = q \<or> p = r"
    by (auto simp: kfree_Some_iff split: if_splits)
  moreover have b7: "blocks m7 = filter (\<lambda>(b, s). b \<noteq> p) (blocks m5)"
    using assms(2,5) by (auto simp: kfree_Some_iff)
  moreover from b7 assms(2,6) have "p \<noteq> q"
    by (auto simp: kfree_Some_iff)
  ultimately have r: "p = r" and b8: "\<nexists>s. (p, s) \<in> set (blocks m8)"
    using assms(6) by (auto simp: kfree_def split: if_splits)
  with assms(2) show ?thesis by (auto simp: kfree_def list_ex_iff)
qed

section \<open>A first store\<close>

text \<open>An allocator structure of the system type, for the witnesses of the development.\<close>

definition al0 :: allocator where
  "al0 = \<lparr>al_self = NULL, allocator_type = ALLOCATOR_TYPE_SYS_MALLOC, al_lock_type = 0,
     priv_cds = \<lparr>slab_array_max_num = 0, mempool_capacity = 0, data_min_size = 0\<rparr>\<rparr>"

lemma al0_sys [simp]: "sys_allocator al0"
  by (simp add: al0_def sys_allocator_def)

definition amem0 :: amem where
  "amem0 = \<lparr>blocks = [], ticks = 0, lnext = (\<lambda>_. NULL), lprev = (\<lambda>_. NULL), hptr = (\<lambda>_. NULL),
     hpprev = (\<lambda>_. NULL), allocator_modules = [salloc, zero_module]\<rparr>"

lemma amem0_ok: "sys_registered amem0" "blocks amem0 = []" "ticks amem0 = 0"
  by (simp_all add: amem0_def sys_registered_def)

lemmas bump_defs = kmalloc_def bump_def Let_def

section \<open>Properties\<close>

text \<open>C21. Any sequence of allocations and releases through the dispatch table of the allocator library
  that runs without a fault: every block that the client was handed and has not given back is live in
  the size that was asked for, no two of them overlap, and no other block was added to the memory,
  whatever \<open>kmalloc\<close> returns within its contract and whatever the client releases.\<close>

theorem allocations_disjoint:
  assumes "kmalloc_ok km" and "sys_allocator al" and "sys_registered m" and "mem_ok m"
    and "\<forall>n. Get n \<in> set rs \<longrightarrow> 0 < n"
    and "serve (allocator_mem_alloc km al) (allocator_mem_free al) rs ([], m) = Some (L, m')"
  shows "sorted_wrt disjoint_blocks L \<and> (\<forall>(a, n) \<in> set L. valid m' a n) \<and> set L \<subseteq> set (blocks m') \<and>
    set (blocks m') \<subseteq> set (blocks m) \<union> set L"
proof -
  have "set L \<subseteq> set (blocks m') \<and> sorted_wrt disjoint_blocks L \<and> set (blocks m') \<subseteq> set (blocks m) \<union> set L"
    using sys.serve_ledger [OF _ assms(5,6), of "set (blocks m)"] assms(1-4) by simp
  then show ?thesis by (auto intro: valid_block)
qed

text \<open>Three blocks are asked for, the first is given back, and a fourth is asked for.\<close>

definition requests_ex :: "request list" where
  "requests_ex = [Get 7, Get 8, Get 200, Put 0xC0000000, Get 100]"

theorem allocations_disjoint_witness:
  "\<exists>L m'. serve (allocator_mem_alloc bump al0) (allocator_mem_free al0) requests_ex ([], amem0) = Some (L, m') \<and>
     length L = 3 \<and> sorted_wrt disjoint_blocks L \<and> (\<forall>(a, n) \<in> set L. valid m' a n)"
proof -
  have "\<exists>L m'. serve (allocator_mem_alloc bump al0) (allocator_mem_free al0) requests_ex ([], amem0) = Some (L, m') \<and> length L = 3"
    by (simp add: requests_ex_def allocator_mem_alloc_def allocator_mem_free_def module_at_def al0_def amem0_def salloc_def
        ALLOCATOR_TYPE_SYS_MALLOC_def sys_alloc_alloc_def sys_alloc_free_def kfree_def bump_defs)
  then obtain L m' where s: "serve (allocator_mem_alloc bump al0) (allocator_mem_free al0) requests_ex ([], amem0) = Some (L, m')"
    "length L = 3" by blast
  have "\<forall>n. Get n \<in> set requests_ex \<longrightarrow> 0 < n" by (simp add: requests_ex_def word_gt_0)
  from allocations_disjoint [OF bump_ok al0_sys amem0_ok(1) _ this s(1)] amem0_ok(2) s show ?thesis
    by (intro exI [of _ L] exI [of _ m']) (simp add: blocks_ok_def)
qed

text \<open>The self test of the allocator library frees its first block twice; as soon as the
  allocation of that block succeeds, the test runs into undefined behaviour.\<close>

theorem test_allocator_double_free:
  assumes "sys_registered m"
    and "fst (kmalloc km 7 (snd (kmalloc km sizeof_allocator_t m))) \<noteq> NULL"
  shows "test_allocator km m = None"
proof -
  obtain q m1 where k1: "kmalloc km sizeof_allocator_t m = (q, m1)" by fastforce
  obtain p m2 where k2: "kmalloc km 7 m1 = (p, m2)" by fastforce
  have p: "p \<noteq> NULL" using assms(2) k1 k2 by simp
  show ?thesis
  proof (cases "q = NULL")
    case True
    with k1 show ?thesis by (simp add: test_allocator_def allocator_creator_def Let_def)
  next
    case False
    let ?al = "\<lparr>al_self = q, allocator_type = ALLOCATOR_TYPE_SYS_MALLOC, al_lock_type = 0,
      priv_cds = \<lparr>slab_array_max_num = 0, mempool_capacity = 0, data_min_size = 0\<rparr>\<rparr>"
    have al: "sys_allocator ?al" by (simp add: sys_allocator_def)
    have cr: "allocator_creator km ALLOCATOR_TYPE_SYS_MALLOC 0 m = (Some ?al, m1)"
      using k1 False by (simp add: allocator_creator_def)
    have sr: "sys_registered m2" using sys_registered_kmalloc [OF k2] sys_registered_kmalloc [OF k1] assms(1) by simp
    have s1: "sys_registered m1" using sys_registered_kmalloc [OF k1] assms(1) by simp
    obtain m3 where f: "kfree p m2 = Some m3"
      using kmalloc_some [OF k2 p] kfree_block [of p 7 m2] by auto
    obtain p2 m4 where k4: "kmalloc km 8 m3 = (p2, m4)" by fastforce
    obtain p3 m5 where k5: "kmalloc km 200 m4 = (p3, m5)" by fastforce
    have s: "sys_registered m3" "sys_registered m4" "sys_registered m5"
      using sr sys_registered_kfree [OF f] sys_registered_kmalloc [OF k4] sys_registered_kmalloc [OF k5]
      by simp_all
    have info: "allocator_mem_info ?al m5 = Some m5"
      using module_at_sys [OF s(3) al] by (simp add: allocator_mem_info_def salloc_def)
    have last: "do { m7 \<leftarrow> kfree p m5; m8 \<leftarrow> allocator_mem_free ?al p2 m7; allocator_mem_free ?al p3 m8 } = None"
    proof (cases "kfree p m5")
      case (Some m7)
      have s7: "sys_registered m7" using s(3) sys_registered_kfree [OF Some] by simp
      show ?thesis
      proof (cases "kfree p2 m7")
        case (Some m8)
        have "sys_registered m8" using s7 sys_registered_kfree [OF Some] by simp
        with s7 al Some \<open>kfree p m5 = Some m7\<close>
          stale_free_faults [OF f p k4 k5 \<open>kfree p m5 = Some m7\<close> Some]
        show ?thesis by simp
      qed (use s7 al Some in simp)
    qed simp
    have u: "unat (7 :: u32) = 7" "unat (8 :: u32) = 8" "unat (200 :: u32) = 200" by simp_all
    have "test_allocator km m = (do {
        m7 \<leftarrow> kfree p m5; m8 \<leftarrow> allocator_mem_free ?al p2 m7; m9 \<leftarrow> allocator_mem_free ?al p3 m8;
        m10 \<leftarrow> test_allocator_batch km ?al 20 8 m9; m11 \<leftarrow> allocator_mem_info ?al m10; allocator_destroy ?al m11 })"
      unfolding test_allocator_def cr Let_def
      by (simp add: s1 sr s al k2 f k4 k5 info)
    also have "\<dots> = None" using last by (auto split: Option.bind_splits)
    finally show ?thesis .
  qed
qed

theorem test_allocator_double_free_witness: "test_allocator bump amem0 = None"
  by (rule test_allocator_double_free)
    (simp_all add: amem0_ok bump_defs sizeof_allocator_t_def)

end
