(* ===== verification/Kernel_List.thy ===== *)
theory Kernel_List
  imports Memory
begin

text \<open>
  The circular doubly linked lists of \<open>driver/include/libdata_structure/list.h\<close> (the driver's
  copy of the kernel header): the primitives on \<open>struct list_head\<close>, each a sequence of
  checked reads and writes in the order of the C code, and their specification over the
  abstraction \<open>dlist m h xs\<close>: the list with sentinel \<open>h\<close> holds the nodes \<open>xs\<close>.
\<close>

section \<open>Checked access to a list head\<close>

definition sizeof_list_head :: nat where "sizeof_list_head = 8"
definition LIST_POISON1 :: addr where "LIST_POISON1 = 0x00100100"
definition LIST_POISON2 :: addr where "LIST_POISON2 = 0x00200200"

definition rd_next :: "addr \<Rightarrow> 'z mem_scheme \<Rightarrow> addr option" where
  "rd_next p m = (if valid m p sizeof_list_head then Some (lnext m p) else None)"

definition rd_prev :: "addr \<Rightarrow> 'z mem_scheme \<Rightarrow> addr option" where
  "rd_prev p m = (if valid m p sizeof_list_head then Some (lprev m p) else None)"

definition wr_next :: "addr \<Rightarrow> addr \<Rightarrow> 'z mem_scheme \<Rightarrow> 'z mem_scheme option" where
  "wr_next p v m =
     (if valid m p sizeof_list_head then Some (m\<lparr>lnext := (lnext m)(p := v)\<rparr>) else None)"

definition wr_prev :: "addr \<Rightarrow> addr \<Rightarrow> 'z mem_scheme \<Rightarrow> 'z mem_scheme option" where
  "wr_prev p v m =
     (if valid m p sizeof_list_head then Some (m\<lparr>lprev := (lprev m)(p := v)\<rparr>) else None)"

lemmas access_defs = rd_next_def rd_prev_def wr_next_def wr_prev_def

section \<open>The primitives\<close>

definition INIT_LIST_HEAD :: "addr \<Rightarrow> 'z mem_scheme \<Rightarrow> 'z mem_scheme option" where
  "INIT_LIST_HEAD l m = do { m1 \<leftarrow> wr_next l l m; wr_prev l l m1 }"

text \<open>\<open>__list_add\<close> of the header.\<close>

definition list_add_between :: "addr \<Rightarrow> addr \<Rightarrow> addr \<Rightarrow> 'z mem_scheme \<Rightarrow> 'z mem_scheme option" where
  "list_add_between new prev next m = do {
     m1 \<leftarrow> wr_prev next new m;
     m2 \<leftarrow> wr_next new next m1;
     m3 \<leftarrow> wr_prev new prev m2;
     wr_next prev new m3
   }"

definition list_add :: "addr \<Rightarrow> addr \<Rightarrow> 'z mem_scheme \<Rightarrow> 'z mem_scheme option" where
  "list_add new head m = do { nx \<leftarrow> rd_next head m; list_add_between new head nx m }"

definition list_add_tail :: "addr \<Rightarrow> addr \<Rightarrow> 'z mem_scheme \<Rightarrow> 'z mem_scheme option" where
  "list_add_tail new head m = do { pv \<leftarrow> rd_prev head m; list_add_between new pv head m }"

text \<open>\<open>__list_del\<close> of the header.\<close>

definition list_del_between :: "addr \<Rightarrow> addr \<Rightarrow> 'z mem_scheme \<Rightarrow> 'z mem_scheme option" where
  "list_del_between prev next m = do { m1 \<leftarrow> wr_prev next prev m; wr_next prev next m1 }"

definition list_del :: "addr \<Rightarrow> 'z mem_scheme \<Rightarrow> 'z mem_scheme option" where
  "list_del entry m = do {
     pv \<leftarrow> rd_prev entry m;
     nx \<leftarrow> rd_next entry m;
     m1 \<leftarrow> list_del_between pv nx m;
     m2 \<leftarrow> wr_next entry LIST_POISON1 m1;
     wr_prev entry LIST_POISON2 m2
   }"

definition list_replace :: "addr \<Rightarrow> addr \<Rightarrow> 'z mem_scheme \<Rightarrow> 'z mem_scheme option" where
  "list_replace old new m = do {
     nx \<leftarrow> rd_next old m;
     m1 \<leftarrow> wr_next new nx m;
     nx1 \<leftarrow> rd_next new m1;
     m2 \<leftarrow> wr_prev nx1 new m1;
     pv \<leftarrow> rd_prev old m2;
     m3 \<leftarrow> wr_prev new pv m2;
     pv1 \<leftarrow> rd_prev new m3;
     wr_next pv1 new m3
   }"

definition list_replace_init :: "addr \<Rightarrow> addr \<Rightarrow> 'z mem_scheme \<Rightarrow> 'z mem_scheme option" where
  "list_replace_init old new m = do { m1 \<leftarrow> list_replace old new m; INIT_LIST_HEAD old m1 }"

definition list_del_init :: "addr \<Rightarrow> 'z mem_scheme \<Rightarrow> 'z mem_scheme option" where
  "list_del_init entry m = do {
     pv \<leftarrow> rd_prev entry m;
     nx \<leftarrow> rd_next entry m;
     m1 \<leftarrow> list_del_between pv nx m;
     INIT_LIST_HEAD entry m1
   }"

definition list_move :: "addr \<Rightarrow> addr \<Rightarrow> 'z mem_scheme \<Rightarrow> 'z mem_scheme option" where
  "list_move l head m = do {
     pv \<leftarrow> rd_prev l m;
     nx \<leftarrow> rd_next l m;
     m1 \<leftarrow> list_del_between pv nx m;
     list_add l head m1
   }"

definition list_move_tail :: "addr \<Rightarrow> addr \<Rightarrow> 'z mem_scheme \<Rightarrow> 'z mem_scheme option" where
  "list_move_tail l head m = do {
     pv \<leftarrow> rd_prev l m;
     nx \<leftarrow> rd_next l m;
     m1 \<leftarrow> list_del_between pv nx m;
     list_add_tail l head m1
   }"

definition list_is_last :: "addr \<Rightarrow> addr \<Rightarrow> 'z mem_scheme \<Rightarrow> bool option" where
  "list_is_last l head m = do { nx \<leftarrow> rd_next l m; Some (nx = head) }"

definition list_empty :: "addr \<Rightarrow> 'z mem_scheme \<Rightarrow> bool option" where
  "list_empty head m = do { nx \<leftarrow> rd_next head m; Some (nx = head) }"

definition list_empty_careful :: "addr \<Rightarrow> 'z mem_scheme \<Rightarrow> bool option" where
  "list_empty_careful head m = do {
     nx \<leftarrow> rd_next head m;
     pv \<leftarrow> rd_prev head m;
     Some (nx = head \<and> nx = pv)
   }"

text \<open>\<open>__list_splice\<close> of the header.\<close>

definition list_splice_nonempty :: "addr \<Rightarrow> addr \<Rightarrow> 'z mem_scheme \<Rightarrow> 'z mem_scheme option" where
  "list_splice_nonempty l head m = do {
     first \<leftarrow> rd_next l m;
     last \<leftarrow> rd_prev l m;
     at \<leftarrow> rd_next head m;
     m1 \<leftarrow> wr_prev first head m;
     m2 \<leftarrow> wr_next head first m1;
     m3 \<leftarrow> wr_next last at m2;
     wr_prev at last m3
   }"

definition list_splice :: "addr \<Rightarrow> addr \<Rightarrow> 'z mem_scheme \<Rightarrow> 'z mem_scheme option" where
  "list_splice l head m = do {
     e \<leftarrow> list_empty l m;
     if \<not> e then list_splice_nonempty l head m else Some m
   }"

definition list_splice_init :: "addr \<Rightarrow> addr \<Rightarrow> 'z mem_scheme \<Rightarrow> 'z mem_scheme option" where
  "list_splice_init l head m = do {
     e \<leftarrow> list_empty l m;
     if \<not> e then do { m1 \<leftarrow> list_splice_nonempty l head m; INIT_LIST_HEAD l m1 } else Some m
   }"

text \<open>
  The loop of the macro \<open>list_for_each_safe(pos, n, head)\<close>: the body may change the state
  and release \<open>pos\<close>; the next position was read before it runs. \<open>rd\<close> reads the \<open>next\<close>
  field in the state of the loop. A loop that never ends is \<open>None\<close>.
\<close>

partial_function (option) for_each_safe_from ::
  "(addr \<Rightarrow> 's \<Rightarrow> addr option) \<Rightarrow> (addr \<Rightarrow> 's \<Rightarrow> 's option) \<Rightarrow> addr \<Rightarrow> addr \<Rightarrow> addr \<Rightarrow> 's \<Rightarrow> 's option"
where
  "for_each_safe_from rd body head pos n s =
     (if pos = head then Some s
      else do {
        s1 \<leftarrow> body pos s;
        n1 \<leftarrow> rd n s1;
        for_each_safe_from rd body head n n1 s1
      })"

declare for_each_safe_from.simps [code]

definition list_for_each_safe ::
  "(addr \<Rightarrow> 's \<Rightarrow> addr option) \<Rightarrow> (addr \<Rightarrow> 's \<Rightarrow> 's option) \<Rightarrow> addr \<Rightarrow> 's \<Rightarrow> 's option" where
  "list_for_each_safe rd body head s = do {
     pos \<leftarrow> rd head s;
     n \<leftarrow> rd pos s;
     for_each_safe_from rd body head pos n s
   }"

section \<open>The abstraction: a list of nodes\<close>

fun links :: "'z mem_scheme \<Rightarrow> addr list \<Rightarrow> bool" where
  "links m [] = True"
| "links m [a] = valid m a sizeof_list_head"
| "links m (a # b # r) =
     (valid m a sizeof_list_head \<and> lnext m a = b \<and> lprev m b = a \<and> links m (b # r))"

definition dlist :: "'z mem_scheme \<Rightarrow> addr \<Rightarrow> addr list \<Rightarrow> bool" where
  "dlist m h xs = (distinct (h # xs) \<and> links m (h # xs @ [h]))"

lemma links_Cons: "links m (a # r) \<longleftrightarrow>
    valid m a sizeof_list_head \<and>
    (case r of [] \<Rightarrow> True | b # _ \<Rightarrow> lnext m a = b \<and> lprev m b = a \<and> links m r)"
  by (cases r) auto

lemma links_append: "links m (xs @ a # ys) \<longleftrightarrow> links m (xs @ [a]) \<and> links m (a # ys)"
proof (induction xs)
  case Nil
  then show ?case by (cases ys) auto
next
  case (Cons x xs)
  then show ?case by (cases xs) auto
qed

lemma links_valid: "links m xs \<Longrightarrow> a \<in> set xs \<Longrightarrow> valid m a sizeof_list_head"
  by (induction m xs rule: links.induct) auto

lemma links_cong:
  assumes "\<And>a. a \<in> set xs \<Longrightarrow> valid m a sizeof_list_head \<Longrightarrow> valid m' a sizeof_list_head"
    and "\<And>a. a \<in> set (butlast xs) \<Longrightarrow> lnext m' a = lnext m a"
    and "\<And>a. a \<in> set (tl xs) \<Longrightarrow> lprev m' a = lprev m a"
    and "links m xs"
  shows "links m' xs"
  using assms
proof (induction m xs rule: links.induct)
  case (3 m a b r)
  have "links m' (b # r)"
    by (rule "3.IH") (use "3.prems" in \<open>auto split: if_splits dest: list.set_sel(2) [rotated]\<close>)
  with "3.prems" show ?case by simp
qed auto

lemma links_next_upd: "p \<notin> set (butlast xs) \<Longrightarrow>
    links (m\<lparr>lnext := (lnext m)(p := v)\<rparr>) xs = links m xs"
  by (induction m xs rule: links.induct) (auto split: if_splits)

lemma links_prev_upd: "p \<notin> set (tl xs) \<Longrightarrow>
    links (m\<lparr>lprev := (lprev m)(p := v)\<rparr>) xs = links m xs"
proof (induction m xs rule: links.induct)
  case (3 m a b r)
  then show ?case by (cases r) auto
qed auto

lemma dlist_valid: "dlist m h xs \<Longrightarrow> a \<in> set (h # xs) \<Longrightarrow> valid m a sizeof_list_head"
  unfolding dlist_def by (erule conjE, erule links_valid) auto

text \<open>Two adjacent nodes of the cycle.\<close>

lemma links_adjacent:
  "links m (us @ p # n # vs) \<Longrightarrow> lnext m p = n \<and> lprev m n = p
     \<and> valid m p sizeof_list_head \<and> valid m n sizeof_list_head"
  by (auto simp: links_append [of m us p "n # vs"] links_Cons split: list.splits)

text \<open>
  A position of the cycle \<open>h # xs @ ys @ [h]\<close> splits it: \<open>p\<close> is the node before the gap
  between \<open>xs\<close> and \<open>ys\<close>, \<open>n\<close> the node after it.
\<close>

lemma cycle_split:
  assumes "dlist m h (xs @ ys)" and "p = last (h # xs)"
  obtains us n vs where "h # xs = us @ [p]" and "ys @ [h] = n # vs"
    and "links m (us @ p # n # vs)" and "p \<notin> set us" and "p \<notin> set (butlast (n # vs))"
    and "n \<notin> set (tl (us @ [p]))" and "n \<notin> set vs"
proof -
  have u: "h # xs = butlast (h # xs) @ [p]" using assms(2) by simp
  obtain n vs where v: "ys @ [h] = n # vs" by (cases ys) auto
  have d: "distinct (h # xs @ ys)" and l: "links m (h # xs @ ys @ [h])"
    using assms(1) by (auto simp: dlist_def)
  have t: "tl (butlast (h # xs) @ [p]) = xs" and b: "butlast (n # vs) = ys"
    by (simp_all only: u [symmetric] v [symmetric] list.sel butlast_snoc)
  have "h # xs @ ys @ [h] = butlast (h # xs) @ p # n # vs"
    using u v by (metis append.assoc append_Cons append_Nil)
  with l have l': "links m (butlast (h # xs) @ p # n # vs)" by simp
  have p: "p \<in> set (h # xs)" and "p \<notin> set (butlast (h # xs))"
    using u d by (metis in_set_conv_decomp, metis distinct_append not_distinct_conv_prefix append_Cons)
  moreover have "n \<in> set (h # ys)" and "n \<notin> set vs"
    using v d by (cases ys; auto)+
  moreover have "p \<notin> set ys" and "n \<notin> set xs"
    using p \<open>n \<in> set (h # ys)\<close> d by auto
  ultimately show ?thesis using that [OF u v l'] t b by simp
qed

section \<open>Specifications of the primitives\<close>

text \<open>What a list operation leaves alone: everything but the links of the given nodes.\<close>

definition only_links :: "addr set \<Rightarrow> 'z mem_scheme \<Rightarrow> 'z mem_scheme \<Rightarrow> bool" where
  "only_links A m m' = (\<exists>f g. m' = m\<lparr>lnext := f, lprev := g\<rparr> \<and>
     (\<forall>a. a \<notin> A \<longrightarrow> f a = lnext m a \<and> g a = lprev m a))"

lemma only_linksI:
  assumes "m' = m\<lparr>lnext := f, lprev := g\<rparr>"
    and "\<And>a. a \<notin> A \<Longrightarrow> f a = lnext m a" and "\<And>a. a \<notin> A \<Longrightarrow> g a = lprev m a"
  shows "only_links A m m'"
  using assms unfolding only_links_def by blast

lemma only_links_fields:
  assumes "only_links A m m'"
  shows "blocks m' = blocks m" "ticks m' = ticks m" "hptr m' = hptr m" "hpprev m' = hpprev m"
    "valid m' a k = valid m a k"
    "a \<notin> A \<Longrightarrow> lnext m' a = lnext m a" "a \<notin> A \<Longrightarrow> lprev m' a = lprev m a"
  using assms by (auto simp: only_links_def valid_def)

lemma only_links_more:
  assumes "only_links A m m'"
  shows "mem.more m' = mem.more m"
  using assms by (auto simp: only_links_def)

lemma only_links_mono: "only_links A m m' \<Longrightarrow> A \<subseteq> B \<Longrightarrow> only_links B m m'"
  unfolding only_links_def by blast

lemma only_links_trans:
  "only_links A m m1 \<Longrightarrow> only_links B m1 m2 \<Longrightarrow> only_links (A \<union> B) m m2"
  unfolding only_links_def by (elim exE conjE, rule exI, rule exI) auto

lemma only_links_dlist:
  assumes "only_links A m m'" and "A \<inter> set (h # xs) = {}"
  shows "dlist m' h xs = dlist m h xs"
proof -
  have "links m' zs = links m zs" if "A \<inter> set zs = {}" for zs
    using that
    by (induction zs rule: induct_list012) (auto simp: only_links_fields [OF assms(1)])
  with assms(2) show ?thesis by (simp add: dlist_def)
qed

lemma INIT_LIST_HEAD_spec [list_specs]:
  assumes "valid m h sizeof_list_head"
  shows "\<exists>m'. INIT_LIST_HEAD h m = Some m' \<and> dlist m' h [] \<and> only_links {h} m m'"
proof -
  let ?m = "m\<lparr>lnext := (lnext m)(h := h), lprev := (lprev m)(h := h)\<rparr>"
  have "INIT_LIST_HEAD h m = Some ?m" and "dlist ?m h []"
    using assms by (simp_all add: INIT_LIST_HEAD_def access_defs dlist_def)
  moreover have "only_links {h} m ?m" by (rule only_linksI [OF refl]) auto
  ultimately show ?thesis by blast
qed

lemma list_add_between_links:
  assumes l: "links m (us @ p # n # vs)" and v: "valid m x sizeof_list_head"
    and new: "x \<notin> set (us @ p # n # vs)"
    and d: "p \<notin> set us" "p \<notin> set (butlast (n # vs))" "n \<notin> set (tl (us @ [p]))" "n \<notin> set vs"
  shows "\<exists>m'. list_add_between x p n m = Some m' \<and> links m' (us @ p # x # n # vs)
           \<and> only_links {x, p, n} m m'"
proof -
  let ?m = "m\<lparr>lnext := (lnext m)(x := n, p := x), lprev := (lprev m)(n := x, x := p)\<rparr>"
  have pn: "lnext m p = n" "valid m p sizeof_list_head" "valid m n sizeof_list_head"
    using links_adjacent [OF l] by auto
  have c: "list_add_between x p n m = Some ?m"
    using pn v by (simp add: list_add_between_def access_defs)
  have l1: "links m (us @ [p])" and l2: "links m (n # vs)"
    using links_append [of m us p "n # vs", THEN iffD1, OF l] by simp_all
  have t: "set (tl (us @ [p])) \<subseteq> set us \<union> {p}" by (cases us) auto
  have b: "set (butlast (n # vs)) \<subseteq> set (n # vs)" by (meson in_set_butlastD subsetI)
  have "links ?m (us @ [p])"
  proof (rule links_cong [OF _ _ _ l1])
    show "lnext ?m a = lnext m a" if "a \<in> set (butlast (us @ [p]))" for a
      using that d(1) new by auto
    show "lprev ?m a = lprev m a" if "a \<in> set (tl (us @ [p]))" for a
      using that d(3) new t by auto
  qed simp
  moreover have "links ?m (n # vs)"
  proof (rule links_cong [OF _ _ _ l2])
    show "lnext ?m a = lnext m a" if "a \<in> set (butlast (n # vs))" for a
      using that d(2) new b by auto
    show "lprev ?m a = lprev m a" if "a \<in> set (tl (n # vs))" for a
      using that d(4) new by auto
  qed simp
  ultimately have "links ?m (us @ p # x # n # vs)"
    using pn v new by (subst links_append) auto
  moreover have "only_links {x, p, n} m ?m" by (rule only_linksI [OF refl]) auto
  ultimately show ?thesis using c by blast
qed


text \<open>A cycle in list form; the way back from \<open>cycle_split\<close>.\<close>

lemma dlistI_cycle:
  assumes "links m zs" and "zs = h # xs @ [h]" and "distinct (h # xs)"
  shows "dlist m h xs"
  using assms by (simp add: dlist_def)

lemma list_add_spec [list_specs]:
  assumes "dlist m h (xs @ ys)" and "p = last (h # xs)"
    and "valid m x sizeof_list_head" and "x \<notin> set (h # xs @ ys)"
  shows "\<exists>m'. list_add x p m = Some m' \<and> dlist m' h (xs @ x # ys)
           \<and> only_links (set (x # h # xs @ ys)) m m'"
proof -
  obtain us n vs where u: "h # xs = us @ [p]" and v: "ys @ [h] = n # vs"
    and l: "links m (us @ p # n # vs)" and d: "p \<notin> set us" "p \<notin> set (butlast (n # vs))"
      "n \<notin> set (tl (us @ [p]))" "n \<notin> set vs"
    by (rule cycle_split [OF assms(1,2)])
  have uv: "set (us @ p # n # vs) = set (h # xs @ ys)"
    using arg_cong [OF u, of set] arg_cong [OF v, of set] by auto
  with assms(4) have "x \<notin> set (us @ p # n # vs)" by simp
  from list_add_between_links [OF l assms(3) this d] obtain m' where
    m': "list_add_between x p n m = Some m'" "links m' (us @ p # x # n # vs)"
      "only_links {x, p, n} m m'"
    by blast
  have "list_add x p m = Some m'"
    using links_adjacent [OF l] m'(1) by (simp add: list_add_def rd_next_def)
  moreover have "us @ p # x # n # vs = h # (xs @ x # ys) @ [h]"
    using u v by (metis append.assoc append_Cons append_Nil)
  then have "dlist m' h (xs @ x # ys)"
    using assms(1,4) by (intro dlistI_cycle [OF m'(2)]) (auto simp: dlist_def)
  moreover have "only_links (set (x # h # xs @ ys)) m m'"
    by (rule only_links_mono [OF m'(3)]) (use uv in auto)
  ultimately show ?thesis by blast
qed

text \<open>\<open>list_add_tail\<close> with the sentinel appends; in general it inserts before its second argument.\<close>

lemma list_add_tail_spec [list_specs]:
  assumes "dlist m h (xs @ ys)" and "n = hd (ys @ [h])"
    and "valid m x sizeof_list_head" and "x \<notin> set (h # xs @ ys)"
  shows "\<exists>m'. list_add_tail x n m = Some m' \<and> dlist m' h (xs @ x # ys)
           \<and> only_links (set (x # h # xs @ ys)) m m'"
proof -
  from list_add_spec [OF assms(1) refl assms(3,4)] obtain m' where
    m': "list_add x (last (h # xs)) m = Some m'" "dlist m' h (xs @ x # ys)"
      "only_links (set (x # h # xs @ ys)) m m'"
    by blast
  obtain us n' vs where "h # xs = us @ [last (h # xs)]" and v: "ys @ [h] = n' # vs"
    and l: "links m (us @ last (h # xs) # n' # vs)"
    by (rule cycle_split [OF assms(1) refl])
  with assms(2) have "list_add_tail x n m = list_add x (last (h # xs)) m"
    using links_adjacent [OF l]
    by (simp add: list_add_tail_def list_add_def rd_next_def rd_prev_def)
  with m' show ?thesis by auto
qed

lemma links_bypass:
  assumes l: "links m (us @ p # e # n # vs)"
    and d: "p \<notin> set us" "p \<notin> set (butlast (n # vs))" "n \<notin> set (tl (us @ [p]))" "n \<notin> set vs"
  shows "\<exists>m'. list_del_between p n m = Some m' \<and> links m' (us @ p # n # vs) \<and> only_links {p, n} m m'"
proof -
  let ?m = "m\<lparr>lnext := (lnext m)(p := n), lprev := (lprev m)(n := p)\<rparr>"
  have l1: "links m (us @ [p])" and l3: "links m (p # e # n # vs)"
    using links_append [of m us p "e # n # vs", THEN iffD1, OF l] by simp_all
  then have l2: "links m (n # vs)" and pn: "valid m p sizeof_list_head" "valid m n sizeof_list_head"
    by (simp_all add: links_Cons)
  have c: "list_del_between p n m = Some ?m"
    using pn by (simp add: list_del_between_def access_defs)
  have "links ?m (us @ [p])"
  proof (rule links_cong [OF _ _ _ l1])
    show "lnext ?m a = lnext m a" if "a \<in> set (butlast (us @ [p]))" for a
      using that d(1) by auto
    show "lprev ?m a = lprev m a" if "a \<in> set (tl (us @ [p]))" for a
      using that d(3) by auto
  qed simp
  moreover have "links ?m (n # vs)"
  proof (rule links_cong [OF _ _ _ l2])
    show "lnext ?m a = lnext m a" if "a \<in> set (butlast (n # vs))" for a
      using that d(2) by auto
    show "lprev ?m a = lprev m a" if "a \<in> set (tl (n # vs))" for a
      using that d(4) by auto
  qed simp
  ultimately have "links ?m (us @ p # n # vs)"
    using pn by (subst links_append) auto
  moreover have "only_links {p, n} m ?m" by (rule only_linksI [OF refl]) auto
  ultimately show ?thesis using c by blast
qed

text \<open>Unlinking a node: the neighbours meet, the node itself keeps its links.\<close>

lemma list_unlink:
  assumes "dlist m h (xs @ e # ys)"
  shows "rd_prev e m = Some (last (h # xs)) \<and> rd_next e m = Some (hd (ys @ [h])) \<and>
    (\<exists>m'. list_del_between (last (h # xs)) (hd (ys @ [h])) m = Some m' \<and> dlist m' h (xs @ ys)
       \<and> only_links (set (h # xs @ ys)) m m')"
proof -
  let ?p = "last (h # xs)" and ?n = "hd (ys @ [h])"
  obtain us where u: "h # xs = us @ [?p]" by (metis append_butlast_last_id list.discI)
  obtain n vs where v: "ys @ [h] = n # vs" by (cases ys) auto
  then have n: "n = ?n" by simp
  have D: "distinct (h # xs @ e # ys)" and L: "links m (h # (xs @ e # ys) @ [h])"
    using assms by (auto simp: dlist_def)
  have "h # (xs @ e # ys) @ [h] = us @ ?p # e # n # vs"
    using u v by (metis append.assoc append_Cons append_Nil)
  with L have l: "links m (us @ ?p # e # n # vs)" by simp
  have t: "tl (us @ [?p]) = xs" and b: "butlast (n # vs) = ys"
    by (simp_all only: u [symmetric] v [symmetric] list.sel butlast_snoc)
  have p: "?p \<in> set (h # xs)" and pus: "?p \<notin> set us"
    using u D by (metis in_set_conv_decomp, metis distinct_append not_distinct_conv_prefix append_Cons)
  have nn: "n \<in> set (h # ys)" and nvs: "n \<notin> set vs"
    using v D by (cases ys; auto)+
  have pys: "?p \<notin> set ys" and nxs: "n \<notin> set xs"
    using p nn D by auto
  have "?p \<notin> set (butlast (n # vs))" and "n \<notin> set (tl (us @ [?p]))"
    using pys nxs t b by simp_all
  from links_bypass [OF l pus this nvs] obtain m' where
    m': "list_del_between ?p n m = Some m'" "links m' (us @ ?p # n # vs)" "only_links {?p, n} m m'"
    by blast
  have "us @ ?p # n # vs = h # (xs @ ys) @ [h]"
    using u v by (metis append.assoc append_Cons append_Nil)
  then have "dlist m' h (xs @ ys)"
    using D by (intro dlistI_cycle [OF m'(2)]) auto
  moreover have "only_links (set (h # xs @ ys)) m m'"
    by (rule only_links_mono [OF m'(3)]) (use p nn in auto)
  moreover have "rd_prev e m = Some ?p" and "rd_next e m = Some n"
    using links_append [of m us ?p "e # n # vs", THEN iffD1, OF l]
    by (auto simp: rd_prev_def rd_next_def)
  ultimately show ?thesis using m'(1) n by blast
qed

lemma list_del_spec [list_specs]:
  assumes "dlist m h (xs @ e # ys)"
  shows "\<exists>m'. list_del e m = Some m' \<and> dlist m' h (xs @ ys)
           \<and> lnext m' e = LIST_POISON1 \<and> lprev m' e = LIST_POISON2
           \<and> only_links (set (h # xs @ e # ys)) m m'"
proof -
  from list_unlink [OF assms] obtain m1 where r: "rd_prev e m = Some (last (h # xs))"
      "rd_next e m = Some (hd (ys @ [h]))"
    and m1: "list_del_between (last (h # xs)) (hd (ys @ [h])) m = Some m1" "dlist m1 h (xs @ ys)"
      "only_links (set (h # xs @ ys)) m m1"
    by blast
  let ?m = "m1\<lparr>lnext := (lnext m1)(e := LIST_POISON1), lprev := (lprev m1)(e := LIST_POISON2)\<rparr>"
  have "valid m1 e sizeof_list_head"
    using dlist_valid [OF assms, of e] only_links_fields(5) [OF m1(3)] by simp
  then have "list_del e m = Some ?m"
    using r m1(1) by (simp add: list_del_def access_defs)
  moreover have o: "only_links {e} m1 ?m" by (rule only_linksI [OF refl]) auto
  then have "dlist ?m h (xs @ ys)"
    using only_links_dlist [OF o, of h "xs @ ys"] m1(2) assms by (auto simp: dlist_def)
  moreover have "only_links (set (h # xs @ e # ys)) m ?m"
    by (rule only_links_mono [OF only_links_trans [OF m1(3) o]]) auto
  ultimately show ?thesis by simp
qed

lemma list_empty_spec [list_specs]:
  "dlist m h xs \<Longrightarrow> list_empty h m = Some (xs = [])"
  by (cases xs) (auto simp: list_empty_def rd_next_def dlist_def)


lemma list_del_init_spec [list_specs]:
  assumes "dlist m h (xs @ e # ys)"
  shows "\<exists>m'. list_del_init e m = Some m' \<and> dlist m' h (xs @ ys) \<and> dlist m' e []
           \<and> only_links (set (h # xs @ e # ys)) m m'"
proof -
  from list_unlink [OF assms] obtain m1 where r: "rd_prev e m = Some (last (h # xs))"
      "rd_next e m = Some (hd (ys @ [h]))"
    and m1: "list_del_between (last (h # xs)) (hd (ys @ [h])) m = Some m1" "dlist m1 h (xs @ ys)"
      "only_links (set (h # xs @ ys)) m m1"
    by blast
  have "valid m1 e sizeof_list_head"
    using dlist_valid [OF assms, of e] only_links_fields(5) [OF m1(3)] by simp
  from INIT_LIST_HEAD_spec [OF this] obtain m' where
    m': "INIT_LIST_HEAD e m1 = Some m'" "dlist m' e []" "only_links {e} m1 m'"
    by blast
  have "dlist m' h (xs @ ys)"
    using only_links_dlist [OF m'(3), of h "xs @ ys"] m1(2) assms by (auto simp: dlist_def)
  moreover have "only_links (set (h # xs @ e # ys)) m m'"
    by (rule only_links_mono [OF only_links_trans [OF m1(3) m'(3)]]) auto
  ultimately show ?thesis using r m1(1) m'(1,2) by (simp add: list_del_init_def)
qed

text \<open>\<open>list_move\<close> to the front of the same list, and to the front of another list.\<close>

lemma list_move_same_spec [list_specs]:
  assumes "dlist m h (xs @ e # ys)"
  shows "\<exists>m'. list_move e h m = Some m' \<and> dlist m' h (e # xs @ ys)"
proof -
  from list_unlink [OF assms] obtain m1 where r: "rd_prev e m = Some (last (h # xs))"
      "rd_next e m = Some (hd (ys @ [h]))"
    and m1: "list_del_between (last (h # xs)) (hd (ys @ [h])) m = Some m1" "dlist m1 h (xs @ ys)"
      "only_links (set (h # xs @ ys)) m m1"
    by blast
  have v: "valid m1 e sizeof_list_head"
    using dlist_valid [OF assms, of e] only_links_fields(5) [OF m1(3)] by simp
  have "e \<notin> set (h # [] @ xs @ ys)" using assms by (auto simp: dlist_def)
  from list_add_spec [where xs = "[]", OF _ refl v this] m1(2)
  show ?thesis using r m1(1) by (auto simp: list_move_def)
qed

lemma list_move_other_spec [list_specs]:
  assumes "dlist m h (xs @ e # ys)" and "dlist m k zs"
    and "set (h # xs @ e # ys) \<inter> set (k # zs) = {}"
  shows "\<exists>m'. list_move e k m = Some m' \<and> dlist m' h (xs @ ys) \<and> dlist m' k (e # zs)"
proof -
  from list_unlink [OF assms(1)] obtain m1 where r: "rd_prev e m = Some (last (h # xs))"
      "rd_next e m = Some (hd (ys @ [h]))"
    and m1: "list_del_between (last (h # xs)) (hd (ys @ [h])) m = Some m1" "dlist m1 h (xs @ ys)"
      "only_links (set (h # xs @ ys)) m m1"
    by blast
  have v: "valid m1 e sizeof_list_head"
    using dlist_valid [OF assms(1), of e] only_links_fields(5) [OF m1(3)] by simp
  have "dlist m1 k ([] @ zs)"
    using only_links_dlist [OF m1(3), of k zs] assms(2,3) by auto
  from list_add_spec [OF this refl v] assms(3) obtain m' where
    m': "list_add e k m1 = Some m'" "dlist m' k (e # zs)" "only_links (set (e # k # zs)) m1 m'"
    by auto
  have "dlist m' h (xs @ ys)"
    using only_links_dlist [OF m'(3), of h "xs @ ys"] m1(2) assms(1,3) by (auto simp: dlist_def)
  with m'(1,2) show ?thesis using r m1(1) by (auto simp: list_move_def)
qed

lemma list_move_tail_same_spec [list_specs]:
  assumes "dlist m h (xs @ e # ys)"
  shows "\<exists>m'. list_move_tail e h m = Some m' \<and> dlist m' h (xs @ ys @ [e])"
proof -
  from list_unlink [OF assms] obtain m1 where r: "rd_prev e m = Some (last (h # xs))"
      "rd_next e m = Some (hd (ys @ [h]))"
    and m1: "list_del_between (last (h # xs)) (hd (ys @ [h])) m = Some m1" "dlist m1 h (xs @ ys)"
      "only_links (set (h # xs @ ys)) m m1"
    by blast
  have v: "valid m1 e sizeof_list_head"
    using dlist_valid [OF assms, of e] only_links_fields(5) [OF m1(3)] by simp
  have "e \<notin> set (h # (xs @ ys) @ [])" using assms by (auto simp: dlist_def)
  from list_add_tail_spec [where xs = "xs @ ys" and ys = "[]" and n = h, OF _ _ v this] m1(2)
  show ?thesis using r m1(1) by (auto simp: list_move_tail_def)
qed

text \<open>\<open>list_replace\<close> puts a new node in the place of an old one.\<close>

lemma list_replace_spec [list_specs]:
  assumes "dlist m h (xs @ e # ys)" and "valid m x sizeof_list_head"
    and "x \<notin> set (h # xs @ e # ys)"
  shows "\<exists>m'. list_replace e x m = Some m' \<and> dlist m' h (xs @ x # ys)
           \<and> only_links (set (x # h # xs @ ys)) m m'"
proof -
  let ?p = "last (h # xs)" and ?n = "hd (ys @ [h])"
  from list_unlink [OF assms(1)] obtain m1 where r: "rd_prev e m = Some ?p" "rd_next e m = Some ?n"
    and m1: "list_del_between ?p ?n m = Some m1" "dlist m1 h (xs @ ys)"
      "only_links (set (h # xs @ ys)) m m1"
    by blast
  let ?m = "m\<lparr>lnext := (lnext m)(x := ?n, ?p := x), lprev := (lprev m)(?n := x, x := ?p)\<rparr>"
  have pn: "?p \<in> set (h # xs)" "?n \<in> set (h # ys)"
    by (auto simp: hd_append neq_Nil_conv split: if_splits)
  then have v: "valid m ?p sizeof_list_head" "valid m ?n sizeof_list_head"
      "valid m e sizeof_list_head"
    using dlist_valid [OF assms(1)] by auto
  have ne: "x \<noteq> ?p" "x \<noteq> ?n" "e \<noteq> ?p" "e \<noteq> ?n" "x \<noteq> e"
    using pn assms(1,3) by (auto simp: dlist_def simp del: last.simps)
  have eq: "list_replace e x m = Some ?m"
    using r v ne assms(2)
    by (simp add: list_replace_def access_defs fun_upd_twist del: last.simps split: if_splits)
  have x1: "x \<notin> set (h # xs @ ys)" and v1: "valid m1 x sizeof_list_head"
    using assms(2,3) only_links_fields(5) [OF m1(3)] by auto
  have m1e: "m1 = m\<lparr>lnext := (lnext m)(?p := ?n), lprev := (lprev m)(?n := ?p)\<rparr>"
    using m1(1) v by (auto simp: list_del_between_def access_defs simp del: last.simps)
  have "list_add x ?p m1 = Some ?m"
    using v v1 ne assms(2) unfolding m1e
    by (simp add: list_add_def list_add_between_def access_defs fun_upd_twist del: last.simps)
  with list_add_spec [OF m1(2) refl v1 x1] have d: "dlist ?m h (xs @ x # ys)" by auto
  have "only_links (set (x # h # xs @ ys)) m ?m"
    by (rule only_linksI [OF refl]) (use pn in auto)
  with eq d show ?thesis by blast
qed

lemma links_join:
  "links m (xs @ [a]) \<Longrightarrow> links m (b # ys) \<Longrightarrow> lnext m a = b \<Longrightarrow> lprev m b = a \<Longrightarrow>
     links m (xs @ a # b # ys)"
  using links_valid [of m "xs @ [a]" a] by (subst links_append) simp

text \<open>\<open>list_splice\<close> puts the nodes of one list at the front of another.\<close>

lemma list_splice_nonempty_spec:
  assumes "dlist m l xs" and "xs \<noteq> []" and "dlist m h ys" and "set (l # xs) \<inter> set (h # ys) = {}"
  shows "\<exists>m'. list_splice_nonempty l h m = Some m' \<and> dlist m' h (xs @ ys)
           \<and> only_links (set (h # xs @ ys)) m m'"
proof -
  let ?f = "hd xs" and ?l = "last xs" and ?n = "hd (ys @ [h])"
  let ?m = "m\<lparr>lnext := (lnext m)(h := ?f, ?l := ?n), lprev := (lprev m)(?f := h, ?n := ?l)\<rparr>"
  obtain b where xb: "xs = b @ [?l]" using assms(2) by (metis append_butlast_last_id)
  obtain c where xc: "xs = ?f # c" using assms(2) by (metis list.exhaust_sel)
  obtain n vs where yn: "ys @ [h] = n # vs" by (cases ys) auto
  have lx: "links m (l # xs @ [l])" and ly: "links m (h # ys @ [h])"
    using assms(1,3) by (auto simp: dlist_def)
  have d: "distinct (l # xs)" "distinct (h # ys)" using assms(1,3) by (auto simp: dlist_def)
  have lxs: "links m xs" and lnx: "lnext m l = ?f" "lprev m l = ?l"
  proof -
    from lx xc have "lnext m l = ?f" and r: "links m (xs @ [l])"
      by (metis append_Cons links.simps(3))+
    then show "lnext m l = ?f" by simp
    from r xb have "links m (b @ ?l # [l])" by (metis append.assoc append_Cons append_Nil)
    from links_adjacent [OF this] links_append [of m b ?l "[l]", THEN iffD1, OF this] xb
    show "lprev m l = ?l" and "links m xs" by simp_all
  qed
  have lny: "lnext m h = n" and lyn: "links m (n # vs)" using ly yn by auto
  have mem: "?f \<in> set xs" "?l \<in> set xs" "n \<in> set (h # ys)"
    using assms(2) yn by (cases ys; auto)+
  have v: "valid m l sizeof_list_head" "valid m h sizeof_list_head" "valid m ?f sizeof_list_head"
      "valid m ?l sizeof_list_head" "valid m n sizeof_list_head"
    using dlist_valid [OF assms(1)] dlist_valid [OF assms(3)] mem by auto
  have eq: "list_splice_nonempty l h m = Some ?m"
    using v lnx lny yn by (simp add: list_splice_nonempty_def access_defs)
  have lb: "?l \<notin> set b" using d(1) arg_cong [OF xb, of distinct] by simp
  have bx: "set b \<subseteq> set xs" by (metis xb set_append Un_upper1)
  have lm1: "links ?m (b @ [?l])"
  proof (rule links_cong)
    show "links m (b @ [?l])" using lxs xb by simp
    show "lnext ?m a = lnext m a" if "a \<in> set (butlast (b @ [?l]))" for a
      using that lb bx assms(4) mem(2) by (auto simp: butlast_snoc)
    show "lprev ?m a = lprev m a" if "a \<in> set (tl (b @ [?l]))" for a
    proof -
      have "tl (b @ [?l]) = c" using xb xc by (metis list.sel(3))
      with that have "a \<in> set c" by simp
      moreover have "?f \<notin> set c" "set c \<subseteq> set xs"
        using d(1) arg_cong [OF xc, of distinct] arg_cong [OF xc, of set] by auto
      ultimately show ?thesis using assms(4) mem(3) yn by auto
    qed
  qed simp
  have lm2: "links ?m (n # vs)"
  proof (rule links_cong [OF _ _ _ lyn])
    have "set (butlast (n # vs)) = set ys" using yn by (metis butlast_snoc)
    then show "lnext ?m a = lnext m a" if "a \<in> set (butlast (n # vs))" for a
      using that d assms(4) mem by auto
    have "n \<notin> set vs" "set vs \<subseteq> set (h # ys)" using yn d by (cases ys; auto)+
    then show "lprev ?m a = lprev m a" if "a \<in> set (tl (n # vs))" for a
      using that assms(4) mem yn by auto
  qed simp
  have ends: "lnext ?m ?l = n" "lprev ?m n = ?l" "lnext ?m h = ?f" "lprev ?m ?f = h"
    using yn mem assms(4) by auto
  have "links ?m (h # ?f # c)"
    using lm1 ends v(2) unfolding xb [symmetric] by (subst (asm) xc) simp
  then have "links ?m ((h # b) @ [?l])"
    using xb xc by (metis append_Cons)
  from links_join [OF this lm2 ends(1,2)]
  have "links ?m ((h # b) @ ?l # n # vs)" .
  moreover have "(h # b) @ ?l # n # vs = h # (xs @ ys) @ [h]"
    using xb yn by (metis append.assoc append_Cons append_Nil)
  ultimately have "dlist ?m h (xs @ ys)"
    by (rule dlistI_cycle) (use d assms(4) in auto)
  moreover have "only_links (set (h # xs @ ys)) m ?m"
    by (rule only_linksI [OF refl]) (use mem yn in auto)
  ultimately show ?thesis using eq by blast
qed

lemma list_splice_init_spec [list_specs]:
  assumes "dlist m l xs" and "dlist m h ys" and "set (l # xs) \<inter> set (h # ys) = {}"
  shows "\<exists>m'. list_splice_init l h m = Some m' \<and> dlist m' h (xs @ ys) \<and> dlist m' l []"
proof (cases "xs = []")
  case True
  with assms show ?thesis by (auto simp: list_splice_init_def list_empty_spec)
next
  case False
  from list_splice_nonempty_spec [OF assms(1) False assms(2,3)] obtain m1 where
    m1: "list_splice_nonempty l h m = Some m1" "dlist m1 h (xs @ ys)"
      "only_links (set (h # xs @ ys)) m m1"
    by blast
  have "valid m1 l sizeof_list_head"
    using dlist_valid [OF assms(1), of l] only_links_fields(5) [OF m1(3)] by simp
  from INIT_LIST_HEAD_spec [OF this] obtain m' where
    m': "INIT_LIST_HEAD l m1 = Some m'" "dlist m' l []" "only_links {l} m1 m'"
    by blast
  have "dlist m' h (xs @ ys)"
    using only_links_dlist [OF m'(3), of h "xs @ ys"] m1(2) assms by (auto simp: dlist_def)
  with m1(1) m'(1,2) False show ?thesis
    by (simp add: list_splice_init_def list_empty_spec [OF assms(1)])
qed

section \<open>Traversal\<close>

text \<open>
  A loop whose body keeps a property \<open>I ys\<close>, indexed by the nodes still to visit, runs the
  body on the nodes in order. \<open>I\<close> has to give the two reads of the macro; the body may
  destroy the visited node, as the loops that delete a list do.
\<close>

lemma for_each_safe_from_foldM:
  assumes "I ys s" and "h \<notin> set ys"
    and step: "\<And>y ys s t. I (y # ys) s \<Longrightarrow> body y s = Some t \<Longrightarrow> I ys t"
    and next_rd: "\<And>y ys s. I (y # ys) s \<Longrightarrow> rd y s = Some (hd (ys @ [h]))"
    and head_rd: "\<And>s. I [] s \<Longrightarrow> rd h s \<noteq> None"
    and n: "\<And>y zs. ys = y # zs \<Longrightarrow> n = hd (zs @ [h])"
  shows "for_each_safe_from rd body h (hd (ys @ [h])) n s = foldM body ys s"
  using assms(1,2) n
proof (induction ys arbitrary: s n)
  case Nil
  then show ?case by (simp add: for_each_safe_from.simps)
next
  case (Cons y ys)
  show ?case
  proof (cases "body y s")
    case None
    with Cons.prems(2) show ?thesis by (auto simp: for_each_safe_from.simps)
  next
    case (Some t)
    with Cons.prems(1) have t: "I ys t" by (rule step)
    have n: "n = hd (ys @ [h])" by (rule Cons.prems(3)) simp
    obtain n1 where n1: "rd n t = Some n1" "\<And>z zs. ys = z # zs \<Longrightarrow> n1 = hd (zs @ [h])"
    proof (cases ys)
      case Nil
      with t head_rd [of t] n that show ?thesis by auto
    next
      case (Cons z zs)
      with t next_rd [of z zs t] n that show ?thesis by auto
    qed
    have "for_each_safe_from rd body h (hd (ys @ [h])) n1 t = foldM body ys t"
      by (rule Cons.IH [OF t]) (use Cons.prems(2) n1(2) in auto)
    with Some n1(1) n Cons.prems(2) show ?thesis
      by (subst for_each_safe_from.simps) auto
  qed
qed

lemma list_for_each_safe_foldM:
  assumes "I xs s" and "h \<notin> set xs" and "rd h s = Some (hd (xs @ [h]))"
    and "\<And>y ys s t. I (y # ys) s \<Longrightarrow> body y s = Some t \<Longrightarrow> I ys t"
    and "\<And>y ys s. I (y # ys) s \<Longrightarrow> rd y s = Some (hd (ys @ [h]))"
    and "\<And>s. I [] s \<Longrightarrow> rd h s \<noteq> None"
  shows "list_for_each_safe rd body h s = foldM body xs s"
proof (cases xs)
  case Nil
  with assms(3) show ?thesis
    by (simp add: list_for_each_safe_def for_each_safe_from.simps)
next
  case (Cons y ys)
  with assms(1,5) have "rd y s = Some (hd (ys @ [h]))" by blast
  moreover have "for_each_safe_from rd body h (hd (xs @ [h])) (hd (ys @ [h])) s = foldM body xs s"
  proof (rule for_each_safe_from_foldM [where I = I])
    show "I xs s" and "h \<notin> set xs" by (rule assms)+
    show "\<And>y ys s t. I (y # ys) s \<Longrightarrow> body y s = Some t \<Longrightarrow> I ys t" by (rule assms(4))
    show "\<And>y ys s. I (y # ys) s \<Longrightarrow> rd y s = Some (hd (ys @ [h]))" by (rule assms(5))
    show "\<And>s. I [] s \<Longrightarrow> rd h s \<noteq> None" by (rule assms(6))
    show "\<And>z zs. xs = z # zs \<Longrightarrow> hd (ys @ [h]) = hd (zs @ [h])" using Cons by simp
  qed
  ultimately show ?thesis using assms(3) Cons by (simp add: list_for_each_safe_def)
qed

text \<open>The reads along a list: what every loop over a \<open>dlist\<close> finds.\<close>

lemma dlist_reads:
  assumes "dlist m h xs"
  shows "rd_next h m = Some (hd (xs @ [h]))"
    and "xs = us @ y # ys \<Longrightarrow> rd_next y m = Some (hd (ys @ [h]))"
proof -
  show "rd_next h m = Some (hd (xs @ [h]))"
    using assms by (cases xs) (auto simp: dlist_def rd_next_def)
  show "rd_next y m = Some (hd (ys @ [h]))" if "xs = us @ y # ys"
    using list_unlink [of m h us y ys] assms that by simp
qed

lemma only_links_refl [simp]: "only_links A m m"
  by (rule only_linksI) auto

text \<open>A loop whose body leaves the list linked visits exactly its nodes, in order.\<close>

lemma list_for_each_safe_dlist:
  assumes "dlist (g s) h xs" and "P s"
    and rd: "\<And>p s. rd p s = rd_next p (g s)"
    and body: "\<And>x s t. x \<in> set xs \<Longrightarrow> P s \<Longrightarrow> dlist (g s) h xs \<Longrightarrow> body x s = Some t \<Longrightarrow>
           dlist (g t) h xs \<and> P t"
  shows "list_for_each_safe rd body h s = foldM body xs s"
proof (rule list_for_each_safe_foldM
    [where I = "\<lambda>ys s. dlist (g s) h xs \<and> P s \<and> (\<exists>us. xs = us @ ys)"])
  show "dlist (g s) h xs \<and> P s \<and> (\<exists>us. xs = us @ xs)" using assms(1,2) by auto
  show "h \<notin> set xs" using assms(1) by (simp add: dlist_def)
  show "rd h s = Some (hd (xs @ [h]))" using dlist_reads(1) [OF assms(1)] rd by simp
next
  fix y ys s t
  assume I: "dlist (g s) h xs \<and> P s \<and> (\<exists>us. xs = us @ y # ys)" and b: "body y s = Some t"
  then obtain us where us: "xs = us @ y # ys" by blast
  then have "xs = (us @ [y]) @ ys" by simp
  moreover have "dlist (g t) h xs \<and> P t"
    using body [of y s t] I b us by auto
  ultimately show "dlist (g t) h xs \<and> P t \<and> (\<exists>us. xs = us @ ys)" by blast
next
  fix y ys s
  assume "dlist (g s) h xs \<and> P s \<and> (\<exists>us. xs = us @ y # ys)"
  then show "rd y s = Some (hd (ys @ [h]))" using dlist_reads(2) rd by metis
next
  fix s
  assume "dlist (g s) h xs \<and> P s \<and> (\<exists>us. xs = us @ [])"
  then show "rd h s \<noteq> None" using dlist_reads(1) rd by (metis option.discI)
qed

section \<open>Property\<close>

text \<open>C20. \<open>list_splice_init\<close> moves all nodes of one list, in their order, to the front of another
  and leaves the first list empty; no node is lost or duplicated.\<close>

theorem splice_init_moves_all:
  assumes "dlist m l xs" and "dlist m h ys" and "set (l # xs) \<inter> set (h # ys) = {}"
  shows "\<exists>m'. list_splice_init l h m = Some m' \<and> dlist m' h (xs @ ys) \<and> dlist m' l []"
  using list_splice_init_spec [OF assms] .

text \<open>Two lists of one node each, in one block of 32 bytes.\<close>

definition two_lists :: mem where
  "two_lists = \<lparr>blocks = [(0xC0000000, 32)], ticks = 0,
     lnext = (\<lambda>_. NULL)(0xC0000000 := 0xC0000008, 0xC0000008 := 0xC0000000,
       0xC0000010 := 0xC0000018, 0xC0000018 := 0xC0000010),
     lprev = (\<lambda>_. NULL)(0xC0000000 := 0xC0000008, 0xC0000008 := 0xC0000000,
       0xC0000010 := 0xC0000018, 0xC0000018 := 0xC0000010),
     hptr = (\<lambda>_. NULL), hpprev = (\<lambda>_. NULL)\<rparr>"

theorem splice_init_moves_all_witness:
  "\<exists>m'. list_splice_init 0xC0000000 0xC0000010 two_lists = Some m' \<and>
     dlist m' 0xC0000010 ([0xC0000008] @ [0xC0000018]) \<and> dlist m' 0xC0000000 []"
  by (rule splice_init_moves_all)
    (simp_all add: dlist_def two_lists_def valid_def sizeof_list_head_def)

end
