(* ===== verification/Link_List.thy ===== *)
theory Link_List
  imports Allocator Kernel_List
begin

text \<open>
  The list container \<open>driver/libdata_structure/link_list\<close> (\<open>llist_t\<close>): a counted list of
  copied elements over the kernel list, with cached positions of its first node (\<open>begin\<close>),
  its last node (\<open>end\<close>) and its sentinel (\<open>head\<close>). Each function takes the structure and
  the store and returns them updated. \<open>sync_lock\<close> and its companions have empty bodies in
  \<open>driver/libcre/sync_lock/sync_lock.c\<close> (they return 0), so the calls leave no trace here.
\<close>

section \<open>Data\<close>

record list_pos =
  list_head_p :: addr
  pos_llist :: addr

record llist =
  ll_self :: addr
  list_count :: u32
  data_size :: u32
  ll_begin :: list_pos
  ll_end :: list_pos
  ll_head :: list_pos
  ll_lock_type :: u8
  ll_allocator :: allocator

text \<open>The store gains the payload \<open>data[]\<close> of the \<open>list_t\<close> nodes (at offset 8).\<close>

record lmem = amem +
  ldata :: "addr \<Rightarrow> bytes"

definition sizeof_list_t :: nat where "sizeof_list_t = 12"
definition offset_list_data :: nat where "offset_list_data = 8"
definition sizeof_llist_t :: nat where "sizeof_llist_t = 56"

text \<open>\<open>memcpy(p->data, data, n)\<close> from a source of \<open>length data\<close> readable bytes.\<close>

definition copy_list_data :: "addr \<Rightarrow> bytes \<Rightarrow> nat \<Rightarrow> 'z lmem_scheme \<Rightarrow> 'z lmem_scheme option" where
  "copy_list_data p data n m =
     (if valid m p (offset_list_data + n) \<and> n \<le> length data
      then Some (m\<lparr>ldata := (ldata m)(p := take n data)\<rparr>) else None)"

section \<open>Positions\<close>

definition llist_pos_init :: "addr \<Rightarrow> addr \<Rightarrow> list_pos" where
  "llist_pos_init lh llist = \<lparr>list_head_p = lh, pos_llist = llist\<rparr>"

definition llist_begin :: "llist \<Rightarrow> list_pos" where
  "llist_begin l = ll_begin l"

definition llist_end :: "llist \<Rightarrow> list_pos" where
  "llist_end l = ll_end l"

definition llist_pos_next :: "list_pos \<Rightarrow> 'z lmem_scheme \<Rightarrow> list_pos option" where
  "llist_pos_next pos m = do {
     nx \<leftarrow> rd_next (list_head_p pos) m;
     Some (llist_pos_init nx (pos_llist pos))
   }"

definition llist_pos_prev :: "list_pos \<Rightarrow> 'z lmem_scheme \<Rightarrow> list_pos option" where
  "llist_pos_prev pos m = do {
     pv \<leftarrow> rd_prev (list_head_p pos) m;
     Some (llist_pos_init pv (pos_llist pos))
   }"

definition llist_pos_equal :: "list_pos \<Rightarrow> list_pos \<Rightarrow> bool" where
  "llist_pos_equal pos1 pos2 = (list_head_p pos1 = list_head_p pos2)"

text \<open>The address of the payload of a position's node.\<close>

definition llist_pos_get_pointer :: "list_pos \<Rightarrow> addr" where
  "llist_pos_get_pointer pos = list_head_p pos + word_of_nat offset_list_data"

section \<open>Operations\<close>

text \<open>
  The contents of a fresh structure are unspecified: \<open>stale\<close> stands for them. A failed
  allocation is only reported; the code then writes through NULL.
\<close>

definition llist_create ::
  "kmalloc_fn \<Rightarrow> llist \<Rightarrow> allocator \<Rightarrow> u8 \<Rightarrow> 'z lmem_scheme \<Rightarrow> (llist \<times> 'z lmem_scheme) option" where
  "llist_create km stale alloc lock_type m = do {
     (ret, m1) \<leftarrow> allocator_mem_alloc km alloc (word_of_nat sizeof_llist_t) m;
     assert_opt (ret \<noteq> NULL);
     Some (stale\<lparr>ll_self := ret, ll_allocator := alloc, ll_lock_type := lock_type\<rparr>, m1)
   }"

definition llist_init ::
  "kmalloc_fn \<Rightarrow> llist \<Rightarrow> u32 \<Rightarrow> 'z lmem_scheme \<Rightarrow> (int \<times> llist \<times> 'z lmem_scheme) option" where
  "llist_init km l dsz m = do {
     let l1 = l\<lparr>data_size := dsz, list_count := 0\<rparr>;
     (p, m1) \<leftarrow> allocator_mem_alloc km (ll_allocator l1) (word_of_nat sizeof_list_head) m;
     m2 \<leftarrow> INIT_LIST_HEAD p m1;
     let pos = llist_pos_init p (ll_self l1);
     Some (0, l1\<lparr>ll_begin := pos, ll_end := pos, ll_head := pos\<rparr>, m2)
   }"

definition llist_insert ::
  "kmalloc_fn \<Rightarrow> llist \<Rightarrow> list_pos \<Rightarrow> bytes \<Rightarrow> 'z lmem_scheme \<Rightarrow> (int \<times> llist \<times> 'z lmem_scheme) option"
where
  "llist_insert km l pos data m = do {
     let dsz = data_size l;
     (p, m1) \<leftarrow> allocator_mem_alloc km (ll_allocator l) (word_of_nat sizeof_list_t + dsz) m;
     m2 \<leftarrow> copy_list_data p data (unat dsz) m1;
     m3 \<leftarrow> list_add p (list_head_p pos) m2;
     let l1 = (if llist_pos_equal pos (ll_head l)
               then l\<lparr>ll_begin := llist_pos_init p (ll_self l)\<rparr> else l);
     let l2 = (if llist_pos_equal pos (ll_end l1)
               then l1\<lparr>ll_end := llist_pos_init p (ll_self l)\<rparr> else l1);
     Some (0, l2\<lparr>list_count := list_count l2 + 1\<rparr>, m3)
   }"

text \<open>
  The part that \<open>llist_delete\<close> and \<open>llist_detach\<close> share: adjust \<open>begin\<close> or else \<open>end\<close>,
  unlink the node, count down.
\<close>

definition llist_unlink ::
  "llist \<Rightarrow> list_pos \<Rightarrow> 'z lmem_scheme \<Rightarrow> (llist \<times> 'z lmem_scheme) option" where
  "llist_unlink l pos m = do {
     l1 \<leftarrow> (if llist_pos_equal pos (ll_begin l) then do {
               nx \<leftarrow> rd_next (list_head_p pos) m;
               Some (l\<lparr>ll_begin := llist_pos_init nx (ll_self l)\<rparr>) }
            else if llist_pos_equal pos (ll_end l) then do {
               pv \<leftarrow> rd_prev (list_head_p pos) m;
               Some (l\<lparr>ll_end := llist_pos_init pv (ll_self l)\<rparr>) }
            else Some l);
     m1 \<leftarrow> list_del (list_head_p pos) m;
     Some (l1\<lparr>list_count := list_count l1 - 1\<rparr>, m1)
   }"

text \<open>\<open>container_of\<close> is the identity here: \<open>list_head\<close> is the first member of \<open>list_t\<close>.\<close>

definition llist_delete ::
  "llist \<Rightarrow> list_pos \<Rightarrow> 'z lmem_scheme \<Rightarrow> (int \<times> llist \<times> 'z lmem_scheme) option" where
  "llist_delete l pos m = do {
     let p = list_head_p pos;
     (l1, m1) \<leftarrow> llist_unlink l pos m;
     m2 \<leftarrow> allocator_mem_free (ll_allocator l1) p m1;
     Some (0, l1, m2)
   }"

definition llist_detach ::
  "llist \<Rightarrow> list_pos \<Rightarrow> 'z lmem_scheme \<Rightarrow> (addr \<times> llist \<times> 'z lmem_scheme) option" where
  "llist_detach l pos m = do {
     let p = list_head_p pos;
     (l1, m1) \<leftarrow> llist_unlink l pos m;
     Some (p, l1, m1)
   }"

definition llist_push_front ::
  "kmalloc_fn \<Rightarrow> llist \<Rightarrow> bytes \<Rightarrow> 'z lmem_scheme \<Rightarrow> (int \<times> llist \<times> 'z lmem_scheme) option" where
  "llist_push_front km l data m = llist_insert km l (ll_head l) data m"

definition llist_push_back ::
  "kmalloc_fn \<Rightarrow> llist \<Rightarrow> bytes \<Rightarrow> 'z lmem_scheme \<Rightarrow> (int \<times> llist \<times> 'z lmem_scheme) option" where
  "llist_push_back km l data m = llist_insert km l (ll_end l) data m"

definition llist_pop_back ::
  "llist \<Rightarrow> 'z lmem_scheme \<Rightarrow> (int \<times> llist \<times> 'z lmem_scheme) option" where
  "llist_pop_back l m = llist_delete l (ll_end l) m"

definition llist_pop_front ::
  "llist \<Rightarrow> 'z lmem_scheme \<Rightarrow> (int \<times> llist \<times> 'z lmem_scheme) option" where
  "llist_pop_front l m = llist_delete l (ll_begin l) m"

definition llist_detach_back ::
  "llist \<Rightarrow> 'z lmem_scheme \<Rightarrow> (addr \<times> llist \<times> 'z lmem_scheme) option" where
  "llist_detach_back l m = llist_detach l (ll_end l) m"

definition llist_detach_front ::
  "llist \<Rightarrow> 'z lmem_scheme \<Rightarrow> (addr \<times> llist \<times> 'z lmem_scheme) option" where
  "llist_detach_front l m = llist_detach l (ll_begin l) m"

text \<open>
  The loops of \<open>llist_destroy\<close> and \<open>llist_for_each\<close> read the next position before the body
  runs, as \<open>list_for_each_safe\<close> does, and start at the cached first position.
\<close>

definition llist_destroy ::
  "llist \<Rightarrow> 'z lmem_scheme \<Rightarrow> (int \<times> llist \<times> 'z lmem_scheme) option" where
  "llist_destroy l m = do {
     let pos = llist_begin l;
     next \<leftarrow> llist_pos_next pos m;
     (l1, m1) \<leftarrow> for_each_safe_from (\<lambda>p (l, m). rd_next p m)
        (\<lambda>p (l, m). do {
           (r, l', m') \<leftarrow> llist_delete l (llist_pos_init p (pos_llist pos)) m;
           Some (l', m') })
        (list_head_p (ll_head l)) (list_head_p pos) (list_head_p next) (l, m);
     m2 \<leftarrow> (if llist_pos_equal (ll_head l1) (ll_begin l1)
            then allocator_mem_free (ll_allocator l1) (list_head_p (ll_head l1)) m1
            else Some m1);
     Some (0, l1, m2)
   }"

definition llist_for_each ::
  "(addr \<Rightarrow> 'z lmem_scheme \<Rightarrow> 'z lmem_scheme option) \<Rightarrow> llist \<Rightarrow> 'z lmem_scheme \<Rightarrow>
     'z lmem_scheme option" where
  "llist_for_each func l m = do {
     let pos = llist_begin l;
     next \<leftarrow> llist_pos_next pos m;
     for_each_safe_from rd_next func (list_head_p (ll_head l)) (list_head_p pos)
       (list_head_p next) m
   }"

section \<open>The representation invariant\<close>

text \<open>
  \<open>llist_ok l m xs\<close>: the structure \<open>l\<close> holds the nodes \<open>xs\<close> in the store \<open>m\<close>. The cached
  end is stated apart (\<open>end_ok\<close>), because not every operation keeps it.
\<close>

definition sentinel :: "llist \<Rightarrow> addr" where
  "sentinel l = list_head_p (ll_head l)"

definition node_size :: "llist \<Rightarrow> nat" where
  "node_size l = sizeof_list_t + unat (data_size l)"

definition llist_ok :: "llist \<Rightarrow> 'z lmem_scheme \<Rightarrow> addr list \<Rightarrow> bool" where
  "llist_ok l m xs =
     (dlist m (sentinel l) xs \<and>
      list_head_p (ll_begin l) = hd (xs @ [sentinel l]) \<and>
      list_count l = word_of_nat (length xs) \<and>
      (sentinel l, sizeof_list_head) \<in> set (blocks m) \<and>
      (\<forall>x \<in> set xs. (x, node_size l) \<in> set (blocks m)) \<and>
      node_size l < 2 ^ 32)"

definition end_ok :: "llist \<Rightarrow> addr list \<Rightarrow> bool" where
  "end_ok l xs = (list_head_p (ll_end l) = last (sentinel l # xs))"

definition llist_env :: "kmalloc_fn \<Rightarrow> llist \<Rightarrow> 'z lmem_scheme \<Rightarrow> bool" where
  "llist_env km l m =
     (kmalloc_ok km \<and> mem_ok m \<and> sys_registered m \<and> sys_allocator (ll_allocator l))"

text \<open>What may differ after an operation that works on the nodes \<open>A\<close>.\<close>

definition touches :: "addr set \<Rightarrow> 'z lmem_scheme \<Rightarrow> 'z lmem_scheme \<Rightarrow> bool" where
  "touches A m m' =
     ((\<forall>a. a \<notin> A \<longrightarrow> lnext m' a = lnext m a \<and> lprev m' a = lprev m a \<and> ldata m' a = ldata m a) \<and>
      hptr m' = hptr m \<and> hpprev m' = hpprev m \<and> allocator_modules m' = allocator_modules m \<and>
      lmem.more m' = lmem.more m \<and>
      (\<forall>b s. b \<notin> A \<longrightarrow> (b, s) \<in> set (blocks m) \<longrightarrow> (b, s) \<in> set (blocks m')))"

lemma touches_refl [simp]: "touches A m m"
  by (simp add: touches_def)

lemma touches_trans:
  "touches A m m1 \<Longrightarrow> touches B m1 m2 \<Longrightarrow> touches (A \<union> B) m m2"
  unfolding touches_def by simp

lemma touches_mono: "touches A m m' \<Longrightarrow> A \<subseteq> B \<Longrightarrow> touches B m m'"
  unfolding touches_def by blast

lemma touches_only_links: "only_links A m m' \<Longrightarrow> touches A m m'"
  by (auto simp: only_links_def touches_def)

lemma touches_kmalloc: "kmalloc km n m = (p, m') \<Longrightarrow> touches A m (m' :: 'z lmem_scheme)"
  by (auto simp: touches_def kmalloc_def Let_def split: if_splits)

lemma touches_kfree: "kfree p m = Some m' \<Longrightarrow> p \<in> A \<Longrightarrow> touches A m (m' :: 'z lmem_scheme)"
  by (auto simp: touches_def kfree_def split: if_splits)

lemma touches_sys_registered: "touches A m m' \<Longrightarrow> sys_registered m' = sys_registered m"
  by (simp add: touches_def sys_registered_def)

lemma llist_ok_block:
  "llist_ok l m xs \<Longrightarrow> x \<in> set (sentinel l # xs) \<Longrightarrow> \<exists>s. 0 < s \<and> (x, s) \<in> set (blocks m)"
proof -
  assume ok: "llist_ok l m xs" and "x \<in> set (sentinel l # xs)"
  moreover have "0 < node_size l" and "0 < sizeof_list_head"
    by (simp_all add: node_size_def sizeof_list_t_def sizeof_list_head_def)
  ultimately show ?thesis unfolding llist_ok_def by (metis set_ConsD)
qed

text \<open>A list is not affected by work on other nodes.\<close>

lemma llist_ok_touches:
  assumes "touches A m m'" and "A \<inter> set (sentinel l # xs) = {}" and "llist_ok l m xs"
  shows "llist_ok l m' xs"
proof -
  have b: "(sentinel l, sizeof_list_head) \<in> set (blocks m')"
      "\<forall>x \<in> set xs. (x, node_size l) \<in> set (blocks m')"
    using assms by (auto simp: touches_def llist_ok_def)
  have "links m' (sentinel l # xs @ [sentinel l])"
  proof (rule links_cong)
    show "links m (sentinel l # xs @ [sentinel l])" using assms(3) by (simp add: llist_ok_def dlist_def)
    show "valid m' a sizeof_list_head" if "a \<in> set (sentinel l # xs @ [sentinel l])" for a
      using that b valid_block [of a _ m' sizeof_list_head]
      by (auto simp: node_size_def sizeof_list_head_def sizeof_list_t_def)
    show "lnext m' a = lnext m a" if "a \<in> set (butlast (sentinel l # xs @ [sentinel l]))" for a
      using that assms(1,2) by (auto simp: touches_def butlast_append)
    show "lprev m' a = lprev m a" if "a \<in> set (tl (sentinel l # xs @ [sentinel l]))" for a
      using that assms(1,2) by (auto simp: touches_def)
  qed
  with assms(3) b show ?thesis by (simp add: llist_ok_def dlist_def)
qed

lemma kmalloc_not_node:
  assumes "llist_env km l m" and "llist_ok l m xs"
    and "kmalloc km n m = (p, m1)" and "p \<noteq> NULL" and "0 < n"
  shows "p \<notin> set (sentinel l # xs)"
proof
  assume "p \<in> set (sentinel l # xs)"
  with llist_ok_block [OF assms(2)] obtain s where "0 < s" "(p, s) \<in> set (blocks m)" by blast
  then have "valid m p s" by (simp add: valid_block)
  from kmalloc_fresh [OF _ assms(5,3,4) this] assms(1,5) \<open>0 < s\<close> show False
    by (auto simp: llist_env_def)
qed

section \<open>Creation\<close>

lemma llist_init_spec:
  assumes "llist_env km l m" and "kmalloc km 8 m = (h, m1)" and "h \<noteq> NULL"
    and "unat dsz + 12 < 2 ^ 32"
  shows "\<exists>l' m'. llist_init km l dsz m = Some (0, l', m') \<and> llist_ok l' m' [] \<and> end_ok l' []
           \<and> llist_env km l' m' \<and> sentinel l' = h \<and> data_size l' = dsz \<and> touches {h} m m'"
proof -
  have "valid m1 h sizeof_list_head"
    using kmalloc_valid_new [OF assms(2,3)] by (simp add: sizeof_list_head_def)
  from INIT_LIST_HEAD_spec [OF this] obtain m' where
    m': "INIT_LIST_HEAD h m1 = Some m'" "dlist m' h []" "only_links {h} m1 m'"
    by blast
  let ?pos = "llist_pos_init h (ll_self l)"
  let ?l = "l\<lparr>data_size := dsz, list_count := 0, ll_begin := ?pos, ll_end := ?pos, ll_head := ?pos\<rparr>"
  have b: "blocks m' = (h, 8) # blocks m"
    using only_links_fields(1) [OF m'(3)] kmalloc_some [OF assms(2,3)] by simp
  have t: "touches {h} m m'"
    using touches_trans [OF touches_kmalloc [OF assms(2), of "{h}"] touches_only_links [OF m'(3)]]
    by simp
  have "llist_init km l dsz m = Some (0, ?l, m')"
    using assms(1,2) m'(1)
    by (simp add: llist_init_def llist_env_def sizeof_list_head_def llist_pos_init_def Let_def)
  moreover have "llist_ok ?l m' []"
    using m'(2) b assms(4)
    by (simp add: llist_ok_def sentinel_def llist_pos_init_def sizeof_list_head_def node_size_def
        sizeof_list_t_def)
  moreover have "mem_ok m'"
    using kmalloc_mem_ok [OF _ _ _ assms(2)] assms(1) only_links_fields(1) [OF m'(3)]
    by (simp add: llist_env_def)
  then have "llist_env km ?l m'"
    using assms(1) touches_sys_registered [OF t] by (simp add: llist_env_def)
  moreover have "end_ok ?l []" "sentinel ?l = h" "data_size ?l = dsz"
    by (simp_all add: end_ok_def sentinel_def llist_pos_init_def)
  ultimately show ?thesis using t by blast
qed

section \<open>Insertion\<close>

lemma last_Cons_eq_head: "distinct (h # xs) \<Longrightarrow> last (h # xs) = h \<longleftrightarrow> xs = []"
  by (cases xs rule: rev_cases) auto

lemma last_prefix_eq:
  "distinct (h # xs @ ys) \<Longrightarrow> last (h # xs) = last (h # xs @ ys) \<longleftrightarrow> ys = []"
proof (cases ys rule: rev_cases)
  case (snoc zs z)
  assume d: "distinct (h # xs @ ys)"
  have "last (h # xs) \<in> set (h # xs)" by (rule last_in_set) simp
  moreover have "last (h # xs @ ys) = z" and "ys \<noteq> []" using snoc by simp_all
  moreover have "z \<notin> set (h # xs)" using d snoc by auto
  ultimately show ?thesis by metis
qed simp

lemma llist_insert_spec:
  assumes env: "llist_env km l m" and ok: "llist_ok l m (xs @ ys)"
    and pos: "list_head_p pos = last (sentinel l # xs)"
    and data: "unat (data_size l) \<le> length data"
    and alloc: "kmalloc km (node_size l) m = (p, m1)" and p: "p \<noteq> NULL"
  shows "\<exists>l' m'. llist_insert km l pos data m = Some (0, l', m') \<and> llist_ok l' m' (xs @ p # ys)
           \<and> llist_env km l' m' \<and> sentinel l' = sentinel l \<and> data_size l' = data_size l
           \<and> ldata m' = (ldata m)(p := take (unat (data_size l)) data)
           \<and> (end_ok l (xs @ ys) \<longrightarrow> end_ok l' (xs @ p # ys))
           \<and> p \<notin> set (sentinel l # xs @ ys)
           \<and> touches (insert p (set (sentinel l # xs @ ys))) m m'"
proof -
  let ?h = "sentinel l" and ?d = "unat (data_size l)"
  have sz: "unat (word_of_nat sizeof_list_t + data_size l) = node_size l"
    using ok by (simp add: llist_ok_def node_size_def sizeof_list_t_def unat_word_ariths)
  have n0: "0 < node_size l" by (simp add: node_size_def sizeof_list_t_def)
  have new: "p \<notin> set (?h # xs @ ys)"
    by (rule kmalloc_not_node [OF env ok alloc p n0])
  let ?m2 = "m1\<lparr>ldata := (ldata m1)(p := take ?d data)\<rparr>"
  have m1: "m1 = m\<lparr>ticks := Suc (ticks m), blocks := (p, node_size l) # blocks m\<rparr>"
    by (rule kmalloc_some [OF alloc p])
  have "valid m1 p (offset_list_data + ?d)"
    using valid_shrink [OF kmalloc_valid_new [OF alloc p]]
    by (simp add: node_size_def offset_list_data_def sizeof_list_t_def)
  with data have c: "copy_list_data p data ?d m1 = Some ?m2"
    by (simp add: copy_list_data_def)
  have v2: "valid ?m2 a k = valid m1 a k" for a k by (simp add: valid_def)
  have d0: "dlist m ?h (xs @ ys)" using ok by (simp add: llist_ok_def)
  have d2: "dlist ?m2 ?h (xs @ ys)"
  proof -
    have "valid ?m2 a k" if "valid m a k" for a k
      using kmalloc_valid_mono [OF alloc that] v2 by simp
    then have "links ?m2 zs" if "links m zs" for zs
      by (rule links_cong [OF _ _ _ that]) (auto simp: kmalloc_cells [OF alloc])
    with d0 show ?thesis by (simp add: dlist_def)
  qed
  have vp: "valid ?m2 p sizeof_list_head"
    using valid_shrink [OF kmalloc_valid_new [OF alloc p], of sizeof_list_head] v2
    by (simp add: node_size_def sizeof_list_t_def sizeof_list_head_def)
  from list_add_spec [OF d2 refl vp new] obtain m3 where
    m3: "list_add p (last (?h # xs)) ?m2 = Some m3" "dlist m3 ?h (xs @ p # ys)"
      "only_links (set (p # ?h # xs @ ys)) ?m2 m3"
    by blast
  let ?q = "llist_pos_init p (ll_self l)"
  let ?l1 = "if xs = [] then l\<lparr>ll_begin := ?q\<rparr> else l"
  let ?l2 = "if llist_pos_equal pos (ll_end l) then ?l1\<lparr>ll_end := ?q\<rparr> else ?l1"
  let ?l = "?l2\<lparr>list_count := list_count l + 1\<rparr>"
  have dh: "distinct (?h # xs @ ys)" using d0 by (simp add: dlist_def)
  have hd_eq: "llist_pos_equal pos (ll_head l) = (xs = [])"
    using last_Cons_eq_head [of ?h xs] dh pos by (auto simp: llist_pos_equal_def sentinel_def)
  have eq: "llist_insert km l pos data m = Some (0, ?l, m3)"
    using env alloc c m3(1) pos sz hd_eq
    by (auto simp: llist_insert_def llist_env_def llist_pos_equal_def Let_def
        simp del: last.simps)
  have b3: "blocks m3 = (p, node_size l) # blocks m"
    using only_links_fields(1) [OF m3(3)] m1 by simp
  have sl: "sentinel ?l = ?h" "node_size ?l = node_size l" "ll_allocator ?l = ll_allocator l"
      "data_size ?l = data_size l"
    by (simp_all add: sentinel_def node_size_def)
  have begin_ok: "list_head_p (ll_begin ?l) = hd ((xs @ p # ys) @ [?h])"
    using ok by (cases xs) (auto simp: llist_ok_def llist_pos_init_def)
  have "llist_ok ?l m3 (xs @ p # ys)"
    using ok m3(2) b3 begin_ok unfolding llist_ok_def sl by (auto simp: llist_ok_def)
  moreover have "mem_ok m3" "touches (insert p (set (?h # xs @ ys))) m m3"
  proof -
    show "mem_ok m3"
      using kmalloc_mem_ok [OF _ _ n0 alloc] env only_links_fields(1) [OF m3(3)]
      by (simp add: llist_env_def)
    have "touches {p} m1 ?m2" by (simp add: touches_def)
    from touches_trans [OF touches_trans [OF touches_kmalloc [OF alloc, of "{}"] this]
        touches_only_links [OF m3(3)]]
    show "touches (insert p (set (?h # xs @ ys))) m m3" by (rule touches_mono) auto
  qed
  moreover from calculation(2,3) have "llist_env km ?l m3"
    using env touches_sys_registered [OF calculation(3)] sl by (simp add: llist_env_def)
  moreover have "end_ok ?l (xs @ p # ys)" if "end_ok l (xs @ ys)"
    using that pos last_prefix_eq [OF dh] unfolding end_ok_def sl
    by (auto simp: llist_pos_equal_def llist_pos_init_def)
  moreover have "ldata m3 = (ldata m)(p := take ?d data)"
    using m3(3) m1 by (auto simp: only_links_def)
  ultimately show ?thesis using eq sl new by blast
qed


section \<open>Removal\<close>

text \<open>
  Unlinking keeps the list. The cached end stays right unless the removed node was the only
  one: then \<open>begin\<close> is adjusted and, because of the \<open>else\<close>, \<open>end\<close> is not.
\<close>

lemma llist_unlink_spec:
  assumes ok: "llist_ok l m (xs @ e # ys)" and pos: "list_head_p pos = e"
  shows "\<exists>l' m'. llist_unlink l pos m = Some (l', m') \<and> llist_ok l' m' (xs @ ys)
           \<and> only_links (set (sentinel l # xs @ e # ys)) m m'
           \<and> lnext m' e = LIST_POISON1 \<and> lprev m' e = LIST_POISON2
           \<and> sentinel l' = sentinel l \<and> data_size l' = data_size l
           \<and> ll_allocator l' = ll_allocator l
           \<and> (end_ok l (xs @ e # ys) \<and> xs @ ys \<noteq> [] \<longrightarrow> end_ok l' (xs @ ys))
           \<and> (xs = [] \<longrightarrow> ll_end l' = ll_end l)"
proof -
  let ?h = "sentinel l"
  have d: "dlist m ?h (xs @ e # ys)" using ok by (simp add: llist_ok_def)
  then have dd: "distinct (?h # xs @ e # ys)" by (simp add: dlist_def)
  have r: "rd_prev e m = Some (last (?h # xs))" "rd_next e m = Some (hd (ys @ [?h]))"
    using list_unlink [OF d] by auto
  from list_del_spec [OF d] obtain m1 where
    m1: "list_del e m = Some m1" "dlist m1 ?h (xs @ ys)" "lnext m1 e = LIST_POISON1"
      "lprev m1 e = LIST_POISON2" "only_links (set (?h # xs @ e # ys)) m m1"
    by blast
  have beg: "llist_pos_equal pos (ll_begin l) = (xs = [])"
    using ok pos dd by (cases xs) (auto simp: llist_ok_def llist_pos_equal_def)
  let ?l1 = "if xs = [] then l\<lparr>ll_begin := llist_pos_init (hd (ys @ [?h])) (ll_self l)\<rparr>
    else if llist_pos_equal pos (ll_end l)
      then l\<lparr>ll_end := llist_pos_init (last (?h # xs)) (ll_self l)\<rparr> else l"
  let ?l = "?l1\<lparr>list_count := list_count l - 1\<rparr>"
  have eq: "llist_unlink l pos m = Some (?l, m1)"
    using beg r m1(1) pos by (auto simp: llist_unlink_def Let_def simp del: last.simps)
  have sl: "sentinel ?l = ?h" "node_size ?l = node_size l" "ll_allocator ?l = ll_allocator l"
      "data_size ?l = data_size l"
    by (simp_all add: sentinel_def node_size_def)
  have b: "list_head_p (ll_begin ?l) = hd ((xs @ ys) @ [?h])"
    using ok by (cases xs) (auto simp: llist_ok_def llist_pos_init_def)
  have "llist_ok ?l m1 (xs @ ys)"
    using ok m1(2) b only_links_fields(1) [OF m1(5)] unfolding llist_ok_def sl
    by (auto simp: llist_ok_def)
  moreover have "end_ok ?l (xs @ ys)" if e: "end_ok l (xs @ e # ys)" and ne: "xs @ ys \<noteq> []"
  proof (cases "ys = []")
    case True
    with e ne pos dd show ?thesis unfolding end_ok_def sl
      by (auto simp: llist_pos_equal_def llist_pos_init_def)
  next
    case False
    then have "last ys \<in> set ys" by simp
    with dd have "last ys \<noteq> e" by auto
    with e False pos show ?thesis unfolding end_ok_def sl
      by (auto simp: llist_pos_equal_def)
  qed
  moreover have "xs = [] \<longrightarrow> ll_end ?l = ll_end l" by simp
  ultimately show ?thesis using eq m1(3-5) sl by blast
qed

lemma llist_delete_spec:
  assumes env: "llist_env km l m" and ok: "llist_ok l m (xs @ e # ys)" and pos: "list_head_p pos = e"
  shows "\<exists>l' m'. llist_delete l pos m = Some (0, l', m') \<and> llist_ok l' m' (xs @ ys)
           \<and> llist_env km l' m' \<and> touches (set (sentinel l # xs @ e # ys)) m m'
           \<and> blocks m' = filter (\<lambda>(b, s). b \<noteq> e) (blocks m) \<and> \<not> valid m' e 1
           \<and> lnext m' e = LIST_POISON1 \<and> ldata m' = ldata m
           \<and> sentinel l' = sentinel l \<and> data_size l' = data_size l
           \<and> (end_ok l (xs @ e # ys) \<and> xs @ ys \<noteq> [] \<longrightarrow> end_ok l' (xs @ ys))
           \<and> (xs = [] \<longrightarrow> ll_end l' = ll_end l)"
proof -
  let ?h = "sentinel l"
  from llist_unlink_spec [OF ok pos] obtain l' m1 where
    u: "llist_unlink l pos m = Some (l', m1)" "llist_ok l' m1 (xs @ ys)"
      "only_links (set (?h # xs @ e # ys)) m m1" "lnext m1 e = LIST_POISON1"
      "sentinel l' = ?h" "data_size l' = data_size l" "ll_allocator l' = ll_allocator l"
      "end_ok l (xs @ e # ys) \<and> xs @ ys \<noteq> [] \<longrightarrow> end_ok l' (xs @ ys)"
      "xs = [] \<longrightarrow> ll_end l' = ll_end l"
    by blast
  have b1: "blocks m1 = blocks m" by (rule only_links_fields(1) [OF u(3)])
  have blk: "(e, node_size l) \<in> set (blocks m1)" using ok b1 by (simp add: llist_ok_def)
  then obtain m' where f: "kfree e m1 = Some m'" by (metis kfree_block)
  have env1: "sys_registered m1" "mem_ok m1" "sys_allocator (ll_allocator l')"
    using env u(7) b1 touches_sys_registered [OF touches_only_links [OF u(3)]]
    by (simp_all add: llist_env_def)
  have ne: "e \<noteq> NULL"
    using blocks_ok_good [OF env1(2) blk] by (simp add: good_block_def)
  have eq: "llist_delete l pos m = Some (0, l', m')"
    using u(1) f env1 pos by (simp add: llist_delete_def)
  have t: "touches {e} m1 m'" by (rule touches_kfree [OF f]) simp
  have "{e} \<inter> set (sentinel l' # xs @ ys) = {}"
    using ok u(5) by (auto simp: llist_ok_def dlist_def)
  from llist_ok_touches [OF t this u(2)] have ok': "llist_ok l' m' (xs @ ys)" .
  moreover have "llist_env km l' m'"
    using env env1 kfree_mem_ok [OF env1(2) f] sys_registered_kfree [OF f]
    by (simp add: llist_env_def)
  moreover have "touches (set (?h # xs @ e # ys)) m m'"
    by (rule touches_mono [OF touches_trans [OF touches_only_links [OF u(3)] t]]) auto
  moreover have "blocks m' = filter (\<lambda>(b, s). b \<noteq> e) (blocks m)"
    using f ne b1 by (auto simp: kfree_def split: if_splits)
  moreover have "\<not> valid m' e 1"
    by (rule kfree_invalid [OF env1(2) f blk]) (simp_all add: node_size_def sizeof_list_t_def)
  moreover have "lnext m' e = LIST_POISON1" using kfree_cells(1) [OF f] u(4) by simp
  moreover have "ldata m' = ldata m"
    using f u(3) by (auto simp: kfree_def only_links_def split: if_splits)
  ultimately show ?thesis using eq u(5,6,8,9) by blast
qed

lemma llist_detach_spec:
  assumes env: "llist_env km l m" and ok: "llist_ok l m (xs @ e # ys)" and pos: "list_head_p pos = e"
  shows "\<exists>l' m'. llist_detach l pos m = Some (e, l', m') \<and> llist_ok l' m' (xs @ ys)
           \<and> llist_env km l' m' \<and> touches (set (sentinel l # xs @ e # ys)) m m'
           \<and> blocks m' = blocks m \<and> lnext m' e = LIST_POISON1 \<and> ldata m' = ldata m
           \<and> sentinel l' = sentinel l \<and> data_size l' = data_size l
           \<and> (end_ok l (xs @ e # ys) \<and> xs @ ys \<noteq> [] \<longrightarrow> end_ok l' (xs @ ys))
           \<and> (xs = [] \<longrightarrow> ll_end l' = ll_end l)"
proof -
  from llist_unlink_spec [OF ok pos] obtain l' m1 where
    u: "llist_unlink l pos m = Some (l', m1)" "llist_ok l' m1 (xs @ ys)"
      "only_links (set (sentinel l # xs @ e # ys)) m m1" "lnext m1 e = LIST_POISON1"
      "sentinel l' = sentinel l" "data_size l' = data_size l" "ll_allocator l' = ll_allocator l"
      "end_ok l (xs @ e # ys) \<and> xs @ ys \<noteq> [] \<longrightarrow> end_ok l' (xs @ ys)"
      "xs = [] \<longrightarrow> ll_end l' = ll_end l"
    by blast
  have b1: "blocks m1 = blocks m" by (rule only_links_fields(1) [OF u(3)])
  have "llist_detach l pos m = Some (e, l', m1)"
    using u(1) pos by (simp add: llist_detach_def)
  moreover have "llist_env km l' m1"
    using env u(7) b1 touches_sys_registered [OF touches_only_links [OF u(3)]]
    by (simp add: llist_env_def)
  moreover have "ldata m1 = ldata m" using u(3) by (auto simp: only_links_def)
  ultimately show ?thesis using u b1 touches_only_links [OF u(3)] by blast
qed

text \<open>
  A list whose cached end is a node that was unlinked cannot be appended to: the stale node
  still holds the poison value in \<open>next\<close>, even when its memory was allocated again.
\<close>

lemma push_back_stale_end:
  assumes env: "llist_env km l m" and high: "kmalloc_high km" "high_mem m"
    and e: "list_head_p (ll_end l) = e" and poison: "lnext m e = LIST_POISON1"
  shows "llist_push_back km l data m = None"
proof -
  obtain p m1 where a: "kmalloc km (unat (word_of_nat sizeof_list_t + data_size l)) m = (p, m1)"
    by fastforce
  have h1: "high_mem m1" by (rule high_mem_kmalloc [OF high a])
  have "list_add p e m2 = None"
    if c: "copy_list_data p data n m1 = Some m2" for m2 n
  proof -
    have b: "blocks m2 = blocks m1" "lnext m2 e = LIST_POISON1"
      using c poison kmalloc_cells(1) [OF a] by (auto simp: copy_list_data_def split: if_splits)
    have "\<not> valid m2 LIST_POISON1 sizeof_list_head"
      by (rule high_mem_invalid) (use h1 b high_mem_blocks [OF b(1)] in
        \<open>simp_all add: LIST_POISON1_def PAGE_OFFSET_def\<close>)
    with b show ?thesis
      by (simp add: list_add_def list_add_between_def access_defs)
  qed
  with env a e show ?thesis
    by (cases "copy_list_data p data (unat (data_size l)) m1")
      (simp_all add: llist_push_back_def llist_insert_def llist_env_def Let_def)
qed

text \<open>
  Removing from an empty list is not detected: the sentinel itself is unlinked and handed
  out, the counter wraps around and the list is unusable.
\<close>

lemma llist_detach_front_empty:
  assumes ok: "llist_ok l m []"
  shows "\<exists>l' m'. llist_detach_front l m = Some (sentinel l, l', m') \<and> list_count l' = - 1
           \<and> lnext m' (sentinel l) = LIST_POISON1 \<and> ll_end l' = ll_end l \<and> ll_head l' = ll_head l
           \<and> only_links {sentinel l} m m' \<and> ll_allocator l' = ll_allocator l"
proof -
  let ?h = "sentinel l"
  have h: "lnext m ?h = ?h" "lprev m ?h = ?h" "valid m ?h sizeof_list_head"
      "list_head_p (ll_begin l) = ?h"
    using ok by (auto simp: llist_ok_def dlist_def)
  let ?m = "m\<lparr>lnext := (lnext m)(?h := LIST_POISON1), lprev := (lprev m)(?h := LIST_POISON2)\<rparr>"
  have d: "list_del ?h m = Some ?m"
    using h by (simp add: list_del_def list_del_between_def access_defs)
  let ?l = "l\<lparr>ll_begin := llist_pos_init ?h (ll_self l), list_count := - 1\<rparr>"
  have "llist_detach_front l m = Some (?h, ?l, ?m)"
    using ok h d by (simp add: llist_detach_front_def llist_detach_def llist_unlink_def
        llist_pos_equal_def rd_next_def llist_ok_def Let_def)
  moreover have "only_links {?h} m ?m" by (rule only_linksI [OF refl]) auto
  ultimately show ?thesis by (intro exI [of _ ?l] exI [of _ ?m]) simp
qed


section \<open>Traversal and destruction\<close>

text \<open>
  What \<open>llist_destroy\<close> keeps while it runs: the nodes \<open>ys\<close> are left, exactly the blocks of
  the other nodes of \<open>xs\<close> have been released.
\<close>

definition destroying ::
  "kmalloc_fn \<Rightarrow> addr \<Rightarrow> 'z lmem_scheme \<Rightarrow> addr list \<Rightarrow> addr list \<Rightarrow> llist \<times> 'z lmem_scheme \<Rightarrow> bool"
where
  "destroying km h m0 xs ys s =
     (touches (set (h # xs)) m0 (snd s) \<and> llist_env km (fst s) (snd s) \<and> llist_ok (fst s) (snd s) ys \<and> sentinel (fst s) = h \<and>
      (\<exists>zs. xs = zs @ ys \<and> blocks (snd s) = filter (\<lambda>(b, t). b \<notin> set zs) (blocks m0)))"

lemma destroying_step:
  assumes "destroying km h m0 xs (y # ys) (l, m)"
  shows "\<exists>l' m'. llist_delete l (llist_pos_init y q) m = Some (0, l', m')
           \<and> destroying km h m0 xs ys (l', m')"
proof -
  from assms obtain zs where zs: "xs = zs @ y # ys" "blocks m = filter (\<lambda>(b, t). b \<notin> set zs) (blocks m0)"
    and I: "llist_env km l m" "llist_ok l m ([] @ y # ys)" "sentinel l = h"
      "touches (set (h # xs)) m0 m"
    by (auto simp: destroying_def)
  have "list_head_p (llist_pos_init y q) = y" by (simp add: llist_pos_init_def)
  from llist_delete_spec [OF I(1,2) this] obtain l' m' where
    d: "llist_delete l (llist_pos_init y q) m = Some (0, l', m')" "llist_ok l' m' ys"
      "llist_env km l' m'" "blocks m' = filter (\<lambda>(b, t). b \<noteq> y) (blocks m)" "sentinel l' = sentinel l"
      "touches (set (sentinel l # [] @ y # ys)) m m'"
    by auto
  have "blocks m' = filter (\<lambda>(b, t). b \<notin> set (zs @ [y])) (blocks m0)"
    unfolding d(4) zs(2) by (auto intro: filter_cong)
  moreover have "touches (set (h # xs)) m0 m'"
    by (rule touches_mono [OF touches_trans [OF I(4) d(6)]]) (use zs(1) I(3) in auto)
  ultimately have "destroying km h m0 xs ys (l', m')"
    using zs(1) d(2,3,5) I(3) unfolding destroying_def by (auto intro!: exI [of _ "zs @ [y]"])
  with d(1) show ?thesis by blast
qed

lemma llist_pos_next_begin:
  assumes "llist_ok l m (y # ys)"
  shows "llist_pos_next (ll_begin l) m = Some (llist_pos_init (hd (ys @ [sentinel l])) (pos_llist (ll_begin l)))"
  using assms dlist_reads(2) [of m "sentinel l" "y # ys" "[]" y ys]
  by (simp add: llist_pos_next_def llist_ok_def)

lemma llist_destroy_spec:
  assumes env: "llist_env km l m" and ok: "llist_ok l m xs"
  shows "\<exists>l' m'. llist_destroy l m = Some (0, l', m')
           \<and> blocks m' = filter (\<lambda>(b, s). b \<notin> set (sentinel l # xs)) (blocks m) \<and> mem_ok m'
           \<and> touches (set (sentinel l # xs)) m m'"
proof -
  let ?h = "sentinel l"
  let ?rd = "\<lambda>p (l :: llist, m). rd_next p m"
  let ?body = "\<lambda>p (l1, m1). do {
       (r, l2, m2) \<leftarrow> llist_delete l1 (llist_pos_init p (pos_llist (llist_begin l))) m1; Some (l2, m2) }"
  let ?I = "destroying km ?h m xs"
  have start: "?I xs (l, m)" using env ok by (auto simp: destroying_def)
  have d: "dlist m ?h xs" using ok by (simp add: llist_ok_def)
  have step: "\<exists>t. ?body y s = Some t \<and> ?I ys t" if "?I (y # ys) s" for y ys s
    using destroying_step [of km ?h m xs y ys "fst s" "snd s" "pos_llist (llist_begin l)"] that
    by (cases s) auto
  obtain nx where nx: "llist_pos_next (llist_begin l) m = Some nx"
    and nx': "\<And>y zs. xs = y # zs \<Longrightarrow> list_head_p nx = hd (zs @ [?h])"
  proof (cases xs)
    case Nil
    with ok dlist_reads(1) [OF d] that show ?thesis
      by (auto simp: llist_pos_next_def llist_begin_def llist_ok_def)
  next
    case (Cons y ys)
    with ok llist_pos_next_begin [of l m y ys] that show ?thesis
      by (auto simp: llist_begin_def llist_pos_init_def)
  qed
  have "for_each_safe_from ?rd (?body) ?h (hd (xs @ [?h])) (list_head_p nx) (l, m)
      = foldM (?body) xs (l, m)"
  proof (rule for_each_safe_from_foldM [where I = ?I, OF start])
    show "?h \<notin> set xs" using d by (simp add: dlist_def)
    show "?I ys t" if "?I (y # ys) s" "?body y s = Some t" for y ys s t
      using step [OF that(1)] that(2) by (metis option.inject)
    show "?rd y s = Some (hd (ys @ [?h]))" if "?I (y # ys) s" for y ys s
      using that dlist_reads(2) [of "snd s" ?h "y # ys" "[]" y ys]
      by (auto simp: destroying_def llist_ok_def split: prod.splits)
    show "?rd ?h s \<noteq> None" if "?I [] s" for s
      using that dlist_reads(1) [of "snd s" ?h "[]"]
      by (auto simp: destroying_def llist_ok_def split: prod.splits)
    show "list_head_p nx = hd (zs @ [?h])" if "xs = y # zs" for y zs by (rule nx' [OF that])
  qed
  moreover obtain l1 m1 where f: "foldM (?body) xs (l, m) = Some (l1, m1)" and I1: "?I [] (l1, m1)"
  proof -
    obtain t where "foldM ?body xs (l, m) = Some t" and "?I [] t"
      using foldM_total [of ?I xs "(l, m)" ?body, OF start step] by blast
    with that show ?thesis by (cases t) simp
  qed
  moreover have bg: "list_head_p (llist_begin l) = hd (xs @ [?h])"
    using ok by (simp add: llist_begin_def llist_ok_def)
  ultimately have loop: "for_each_safe_from ?rd (?body) (list_head_p (ll_head l))
      (list_head_p (llist_begin l)) (list_head_p nx) (l, m) = Some (l1, m1)"
    by (simp add: sentinel_def)
  have e1: "llist_env km l1 m1" "llist_ok l1 m1 []" "sentinel l1 = ?h"
      "blocks m1 = filter (\<lambda>(b, t). b \<notin> set xs) (blocks m)"
      "touches (set (?h # xs)) m m1"
    using I1 by (auto simp: destroying_def)
  have hb: "(?h, sizeof_list_head) \<in> set (blocks m1)" using e1(2,3) by (simp add: llist_ok_def)
  then obtain m2 where m2: "kfree ?h m1 = Some m2" by (metis kfree_block)
  have m1ok: "mem_ok m1" using e1(1) by (simp add: llist_env_def)
  have "?h \<noteq> NULL" using blocks_ok_good [OF m1ok hb] by (simp add: good_block_def)
  with m2 e1(4) have "blocks m2 = filter (\<lambda>(b, t). b \<notin> set (?h # xs)) (blocks m)"
    by (auto simp: kfree_def split: if_splits intro: filter_cong)
  moreover have "llist_pos_equal (ll_head l1) (ll_begin l1)"
    using e1(2) by (simp add: llist_ok_def llist_pos_equal_def sentinel_def)
  with nx loop m2 e1(1,3) have "llist_destroy l m = Some (0, l1, m2)"
    by (simp add: llist_destroy_def Let_def llist_env_def sentinel_def)
  moreover have "touches (set (?h # xs)) m m2"
    using touches_trans [OF e1(5) touches_kfree [OF m2, of "set (?h # xs)"]] by simp
  ultimately show ?thesis using kfree_mem_ok [OF m1ok m2] by blast
qed

text \<open>A visitor that leaves the links alone is called on each node once, in list order.\<close>

lemma llist_for_each_spec:
  assumes ok: "llist_ok l m xs" and P: "P m"
    and func: "\<And>x m t. x \<in> set xs \<Longrightarrow> P m \<Longrightarrow> func x m = Some t \<Longrightarrow>
          P t \<and> lnext t = lnext m \<and> lprev t = lprev m \<and> blocks t = blocks m"
  shows "llist_for_each func l m = foldM func xs m"
proof -
  let ?h = "sentinel l"
  let ?I = "\<lambda>ys t. P t \<and> dlist t ?h xs \<and> (\<exists>us. xs = us @ ys)"
  have d: "dlist m ?h xs" using ok by (simp add: llist_ok_def)
  obtain nx where nx: "llist_pos_next (llist_begin l) m = Some nx"
    and nx': "\<And>y zs. xs = y # zs \<Longrightarrow> list_head_p nx = hd (zs @ [?h])"
  proof (cases xs)
    case Nil
    with ok dlist_reads(1) [OF d] that show ?thesis
      by (auto simp: llist_pos_next_def llist_begin_def llist_ok_def)
  next
    case (Cons y ys)
    with ok llist_pos_next_begin [of l m y ys] that show ?thesis
      by (auto simp: llist_begin_def llist_pos_init_def)
  qed
  have keep: "dlist t ?h xs"
    if "dlist u ?h xs" "lnext t = lnext u" "lprev t = lprev u" "blocks t = blocks u" for t u :: "'a lmem_scheme"
    using that unfolding dlist_def by (auto intro!: links_cong [where m = u] simp: valid_def)
  have "for_each_safe_from rd_next func ?h (hd (xs @ [?h])) (list_head_p nx) m = foldM func xs m"
  proof (rule for_each_safe_from_foldM [where I = ?I])
    show "?I xs m" using P d by auto
    show "?h \<notin> set xs" using d by (simp add: dlist_def)
    show "?I ys t" if "?I (y # ys) s" "func y s = Some t" for y ys s t
    proof -
      from that(1) obtain us where us: "xs = us @ y # ys" by blast
      with that func [of y s t] keep [of s t] show ?thesis
        by (auto intro!: exI [of _ "us @ [y]"])
    qed
    show "rd_next y s = Some (hd (ys @ [?h]))" if "?I (y # ys) s" for y ys s
      using that dlist_reads(2) by metis
    show "rd_next ?h s \<noteq> None" if "?I [] s" for s
      using that dlist_reads(1) by (metis option.discI)
    show "list_head_p nx = hd (zs @ [?h])" if "xs = y # zs" for y zs by (rule nx' [OF that])
  qed
  with nx ok show ?thesis
    by (simp add: llist_for_each_def Let_def sentinel_def llist_begin_def llist_ok_def)
qed

section \<open>The queue interface\<close>

text \<open>
  What a client that appends at the back and detaches at the front relies on. \<open>repr s xs\<close>
  says that the state \<open>s\<close> holds the elements \<open>xs\<close>, \<open>emptied s\<close> that the last element was detached:
  that is not the state of a fresh queue here, since the list then keeps its old end.
\<close>

fun deq_many :: "('s \<Rightarrow> ('a \<times> 's) option) \<Rightarrow> nat \<Rightarrow> 's \<Rightarrow> ('a list \<times> 's) option" where
  "deq_many deq 0 s = Some ([], s)"
| "deq_many deq (Suc n) s = do {
     (x, s1) \<leftarrow> deq s;
     (xs, s2) \<leftarrow> deq_many deq n s1;
     Some (x # xs, s2)
   }"

locale fifo =
  fixes repr :: "'s \<Rightarrow> 'a list \<Rightarrow> bool"
    and enq :: "'a \<Rightarrow> 's \<Rightarrow> 's option"
    and deq :: "'s \<Rightarrow> ('a \<times> 's) option"
    and emptied :: "'s \<Rightarrow> bool"
  assumes enq_repr: "repr s xs \<Longrightarrow> enq x s = Some s' \<Longrightarrow> repr s' (xs @ [x])"
    and deq_repr: "repr s (x # y # xs) \<Longrightarrow> \<exists>s'. deq s = Some (x, s') \<and> repr s' (y # xs)"
    and deq_last: "repr s [x] \<Longrightarrow> \<exists>s'. deq s = Some (x, s') \<and> emptied s'"
begin

lemma enq_all_repr: "repr s xs \<Longrightarrow> foldM enq ys s = Some s' \<Longrightarrow> repr s' (xs @ ys)"
proof (induction ys arbitrary: s xs)
  case (Cons y ys)
  from Cons.prems(2) obtain t where t: "enq y s = Some t" "foldM enq ys t = Some s'"
    by (auto split: Option.bind_splits)
  from Cons.IH [OF enq_repr [OF Cons.prems(1) t(1)] t(2)] show ?case by simp
qed simp

lemma deq_many_repr:
  "repr s xs \<Longrightarrow> n \<le> length xs \<Longrightarrow> \<exists>s'. deq_many deq n s = Some (take n xs, s') \<and>
    (if n = 0 \<or> n < length xs then repr s' (drop n xs) else emptied s')"
proof (induction n arbitrary: s xs)
  case (Suc n)
  then obtain x zs where xs: "xs = x # zs" by (cases xs) auto
  show ?case
  proof (cases zs)
    case Nil
    then show ?thesis using deq_last [of s x] Suc.prems xs by auto
  next
    case (Cons y ys)
    with Suc.prems(1) xs obtain s1 where s1: "deq s = Some (x, s1)" "repr s1 zs"
      using deq_repr by blast
    from Suc.IH [OF s1(2)] Suc.prems(2) xs obtain s' where
      "deq_many deq n s1 = Some (take n zs, s')" "if n = 0 \<or> n < length zs then repr s' (drop n zs) else emptied s'"
      by auto
    with s1(1) xs Cons show ?thesis by (auto split: if_splits)
  qed
qed simp

text \<open>First in, first out: what was enqueued comes out in the same order, down to the last element.\<close>

lemma fifo_order:
  assumes "repr s []" and "foldM enq xs s = Some s1" and "n \<le> length xs"
  shows "\<exists>s2. deq_many deq n s1 = Some (take n xs, s2) \<and>
    (if n = 0 \<or> n < length xs then repr s2 (drop n xs) else emptied s2)"
  using deq_many_repr [OF _ assms(3)] enq_all_repr [OF assms(1,2)] by simp

end

text \<open>The list container as a queue of byte strings.\<close>

definition llist_repr :: "kmalloc_fn \<Rightarrow> llist \<times> 'z lmem_scheme \<Rightarrow> bytes list \<Rightarrow> bool" where
  "llist_repr km s ds =
     (llist_env km (fst s) (snd s) \<and>
      (\<exists>xs. llist_ok (fst s) (snd s) xs \<and> end_ok (fst s) xs \<and> map (ldata (snd s)) xs = ds))"

text \<open>
  The list whose only element was detached: no node hangs off the head any more, but the cached
  end does not name the head.
\<close>

definition llist_emptied :: "kmalloc_fn \<Rightarrow> llist \<times> 'z lmem_scheme \<Rightarrow> bool" where
  "llist_emptied km s = (llist_env km (fst s) (snd s) \<and> llist_ok (fst s) (snd s) [] \<and> \<not> end_ok (fst s) [])"

definition llist_enq ::
  "kmalloc_fn \<Rightarrow> bytes \<Rightarrow> llist \<times> 'z lmem_scheme \<Rightarrow> (llist \<times> 'z lmem_scheme) option" where
  "llist_enq km d s = do {
     assert_opt (length d = unat (data_size (fst s)));
     (r, l, m) \<leftarrow> llist_push_back km (fst s) d (snd s);
     Some (l, m)
   }"

definition llist_deq :: "llist \<times> 'z lmem_scheme \<Rightarrow> (bytes \<times> llist \<times> 'z lmem_scheme) option" where
  "llist_deq s = do {
     (p, l, m) \<leftarrow> llist_detach_front (fst s) (snd s);
     Some (ldata m p, l, m)
   }"

lemma copy_list_data_null: "mem_ok m \<Longrightarrow> copy_list_data NULL d n m = None"
  using valid_nonnull [of m NULL "offset_list_data + n"]
  by (auto simp: copy_list_data_def offset_list_data_def)

lemma push_back_failed_alloc:
  assumes "llist_env km l m" and "node_size l < 2 ^ 32" and "kmalloc km (node_size l) m = (NULL, m1)"
  shows "llist_push_back km l d m = None"
proof -
  have sz: "unat (word_of_nat sizeof_list_t + data_size l) = node_size l"
    using assms(2) by (simp add: node_size_def sizeof_list_t_def unat_word_ariths)
  have "mem_ok m1" using assms(1) kmalloc_null [OF assms(3)] by (simp add: llist_env_def)
  with sz assms(1,3) show ?thesis
    by (simp add: llist_push_back_def llist_insert_def llist_env_def copy_list_data_null Let_def)
qed

lemma push_back_spec:
  assumes env: "llist_env km l m" and ok: "llist_ok l m xs" and e: "end_ok l xs"
    and d: "length d = unat (data_size l)" and r: "llist_push_back km l d m = Some (r, l', m')"
  shows "llist_env km l' m' \<and> data_size l' = data_size l \<and> sentinel l' = sentinel l \<and>
    (\<exists>p. p \<notin> set (sentinel l # xs) \<and> llist_ok l' m' (xs @ [p]) \<and> end_ok l' (xs @ [p]) \<and>
      ldata m' = (ldata m)(p := d) \<and> touches (insert p (set (sentinel l # xs))) m m')"
proof -
  obtain p m1 where a: "kmalloc km (node_size l) m = (p, m1)" by fastforce
  have p: "p \<noteq> NULL"
  proof
    assume "p = NULL"
    with push_back_failed_alloc [OF env _ a [unfolded \<open>p = NULL\<close>]] ok r show False
      by (simp add: llist_ok_def)
  qed
  have pos: "list_head_p (ll_end l) = last (sentinel l # xs)" using e by (simp add: end_ok_def)
  have ok0: "llist_ok l m (xs @ [])" using ok by simp
  have "unat (data_size l) \<le> length d" using d by simp
  from llist_insert_spec [OF env ok0 pos this a p] r d e show ?thesis
    by (auto simp: llist_push_back_def)
qed

interpretation lq: fifo "llist_repr km" "llist_enq km" llist_deq "llist_emptied km" for km
proof (unfold_locales, goal_cases)
  case (1 s ds d s')
  from 1(2) have d: "length d = unat (data_size (fst s))"
    by (auto simp: llist_enq_def split: Option.bind_splits)
  then obtain r where r: "llist_push_back km (fst s) d (snd s) = Some (r, fst s', snd s')"
    using 1(2) by (auto simp: llist_enq_def split: Option.bind_splits)
  from 1(1) obtain xs where xs: "llist_env km (fst s) (snd s)" "llist_ok (fst s) (snd s) xs"
      "end_ok (fst s) xs" "map (ldata (snd s)) xs = ds"
    by (auto simp: llist_repr_def)
  from push_back_spec [OF xs(1-3) d r] obtain p where
    "llist_env km (fst s') (snd s')" and p: "p \<notin> set xs" "llist_ok (fst s') (snd s') (xs @ [p])"
      "end_ok (fst s') (xs @ [p])" "ldata (snd s') = (ldata (snd s))(p := d)"
    by auto
  moreover have "map (ldata (snd s')) (xs @ [p]) = ds @ [d]"
    using p(1,4) xs(4) by auto
  ultimately show ?case unfolding llist_repr_def by blast
next
  case (2 s d1 d2 ds)
  then obtain xs where xs: "llist_env km (fst s) (snd s)" "llist_ok (fst s) (snd s) xs"
      "end_ok (fst s) xs" "map (ldata (snd s)) xs = d1 # d2 # ds"
    by (auto simp: llist_repr_def)
  then obtain x y zs where x: "xs = x # y # zs" by (auto simp: map_eq_Cons_conv)
  with xs(2) have ok: "llist_ok (fst s) (snd s) ([] @ x # (y # zs))" by simp
  have "list_head_p (ll_begin (fst s)) = x" using ok by (simp add: llist_ok_def)
  from llist_detach_spec [OF xs(1) ok this] xs(3,4) x obtain l' m' where
    "llist_detach (fst s) (ll_begin (fst s)) (snd s) = Some (x, l', m')" "llist_ok l' m' (y # zs)"
    "llist_env km l' m'" "end_ok l' (y # zs)" "ldata m' = ldata (snd s)"
    by auto
  with xs(4) x show ?case
    by (auto simp: llist_repr_def llist_deq_def llist_detach_front_def)
next
  case (3 s d)
  then obtain x where xs: "llist_env km (fst s) (snd s)" "llist_ok (fst s) (snd s) ([] @ x # [])"
      "end_ok (fst s) [x]" "ldata (snd s) x = d"
    by (auto simp: llist_repr_def map_eq_Cons_conv)
  have "list_head_p (ll_begin (fst s)) = x" using xs(2) by (simp add: llist_ok_def)
  from llist_detach_spec [OF xs(1,2) this] obtain l' m' where
    d: "llist_detach (fst s) (ll_begin (fst s)) (snd s) = Some (x, l', m')" "llist_ok l' m' []"
      "llist_env km l' m'" "ldata m' = ldata (snd s)" "sentinel l' = sentinel (fst s)" "ll_end l' = ll_end (fst s)"
    by auto
  have "x \<noteq> sentinel (fst s)" using xs(2) by (auto simp: llist_ok_def dlist_def)
  then have "\<not> end_ok l' []" using xs(3) d(5,6) by (simp add: end_ok_def)
  with d xs(4) show ?case
    by (auto simp: llist_emptied_def llist_deq_def llist_detach_front_def)
qed

section \<open>A sample list\<close>

text \<open>A list of two elements, reached by the operations from the empty store.\<close>

definition lmem0 :: lmem where
  "lmem0 = \<lparr>blocks = [], ticks = 0, lnext = (\<lambda>_. NULL), lprev = (\<lambda>_. NULL), hptr = (\<lambda>_. NULL),
     hpprev = (\<lambda>_. NULL), allocator_modules = [salloc, zero_module], ldata = (\<lambda>_. [])\<rparr>"

definition llist0 :: llist where
  "llist0 = \<lparr>ll_self = NULL, list_count = 0, data_size = 0, ll_begin = llist_pos_init NULL NULL,
     ll_end = llist_pos_init NULL NULL, ll_head = llist_pos_init NULL NULL, ll_lock_type = 0,
     ll_allocator = al0\<rparr>"

definition list2 :: llist where
  "list2 = llist0\<lparr>list_count := 2, data_size := 2, ll_begin := llist_pos_init 0xC0000008 NULL,
     ll_end := llist_pos_init 0xC0000018 NULL, ll_head := llist_pos_init 0xC0000000 NULL\<rparr>"

definition list2_mem :: lmem where
  "list2_mem = lmem0\<lparr>blocks := [(0xC0000018, 14), (0xC0000008, 14), (0xC0000000, 8)], ticks := 3,
     lnext := (\<lambda>_. NULL)(0xC0000000 := 0xC0000008, 0xC0000018 := 0xC0000000, 0xC0000008 := 0xC0000018),
     lprev := (\<lambda>_. NULL)(0xC0000008 := 0xC0000000, 0xC0000000 := 0xC0000018, 0xC0000018 := 0xC0000008),
     ldata := (\<lambda>_. [])(0xC0000008 := [1, 2], 0xC0000018 := [3, 4])\<rparr>"

lemmas llist_run_defs = access_defs bump_defs valid_def INIT_LIST_HEAD_def list_add_def
  list_add_between_def copy_list_data_def llist_init_def llist_insert_def llist_push_back_def
  llist_pos_init_def llist_pos_equal_def sizeof_list_head_def sizeof_list_t_def
  offset_list_data_def sys_registered_def sys_allocator_def lmem0_def llist0_def al0_def

lemma list2_reached:
  "do { (r, l, m) \<leftarrow> llist_init bump llist0 2 lmem0;
        (r, l, m) \<leftarrow> llist_push_back bump l [1, 2] m;
        (r, l, m) \<leftarrow> llist_push_back bump l [3, 4] m;
        Some (l, m) } = Some (list2, list2_mem)"
  by (simp add: llist_run_defs list2_def list2_mem_def)

lemma list2_env: "llist_env bump list2 list2_mem"
  by (simp add: llist_env_def bump_ok list2_mem_def list2_def lmem0_def llist0_def sys_registered_def
      blocks_ok_def disjoint_blocks_def good_block_def)

lemma list2_ok: "llist_ok list2 list2_mem [0xC0000008, 0xC0000018]" "end_ok list2 [0xC0000008, 0xC0000018]"
  by (simp_all add: llist_ok_def end_ok_def dlist_def sentinel_def node_size_def list2_def list2_mem_def
      lmem0_def llist0_def valid_def sizeof_list_head_def sizeof_list_t_def llist_pos_init_def)

section \<open>Properties\<close>

text \<open>C5. The list container is a queue: elements appended with \<open>llist_push_back\<close> are taken out by
  \<open>llist_detach_front\<close> in the order in which they were put in, down to the last one. While elements
  stay, the list is the queue of those; after the last one was taken out, no node hangs off the
  head any more, but the cached end does not name the head, unlike in a fresh list.\<close>

theorem llist_fifo:
  assumes "llist_repr km s []" and "foldM (llist_enq km) ds s = Some s1" and "n \<le> length ds"
  shows "\<exists>s2. deq_many llist_deq n s1 = Some (take n ds, s2) \<and>
    (if n = 0 \<or> n < length ds then llist_repr km s2 (drop n ds)
     else llist_ok (fst s2) (snd s2) [] \<and> \<not> end_ok (fst s2) [])"
proof -
  from lq.fifo_order [of km s ds s1 n] assms obtain s2 where "deq_many llist_deq n s1 = Some (take n ds, s2)"
    "if n = 0 \<or> n < length ds then llist_repr km s2 (drop n ds) else llist_emptied km s2" by blast
  then show ?thesis by (intro exI [of _ s2]) (auto simp: llist_emptied_def split: if_splits)
qed

theorem llist_fifo_witness:
  "\<exists>(s :: llist \<times> lmem) s1 s2. foldM (llist_enq bump) [[1, 2], [3, 4], [5, 6]] s = Some s1 \<and>
     deq_many llist_deq 3 s1 = Some ([[1, 2], [3, 4], [5, 6]], s2) \<and> llist_ok (fst s2) (snd s2) []"
proof -
  have e0: "llist_env bump llist0 lmem0"
    by (simp add: llist_env_def bump_ok lmem0_def llist0_def sys_registered_def blocks_ok_def)
  obtain m1 where k: "kmalloc bump 8 lmem0 = (0xC0000000, m1)" by (simp add: bump_defs lmem0_def)
  have nz: "(0xC0000000 :: addr) \<noteq> NULL" "unat (2 :: u32) + 12 < 2 ^ 32" by simp_all
  obtain l m where i: "llist_init bump llist0 2 lmem0 = Some (0, l, m)" "llist_ok l m []" "end_ok l []"
      "llist_env bump l m"
    using llist_init_spec [OF e0 k nz] by auto
  have r: "llist_repr bump (l, m) []" using i by (auto simp: llist_repr_def)
  have "do { (r, l, m) \<leftarrow> llist_init bump llist0 2 lmem0;
      foldM (llist_enq bump) [[1, 2], [3, 4], [5, 6]] (l, m) } \<noteq> None"
    by (simp add: llist_run_defs llist_enq_def)
  with i(1) obtain s1 where s1: "foldM (llist_enq bump) [[1, 2], [3, 4], [5, 6]] (l, m) = Some s1" by auto
  from llist_fifo [OF r s1, of 3] have
    "\<exists>s2. deq_many llist_deq 3 s1 = Some ([[1, 2], [3, 4], [5, 6]], s2) \<and> llist_ok (fst s2) (snd s2) []"
    by auto
  with s1 show ?thesis by blast
qed

text \<open>C19. \<open>llist_insert\<close> puts a copy of the data behind the given position, at any position of the
  list, keeps the list well formed and touches no memory but the list's own nodes.\<close>

theorem llist_insert_refines:
  assumes "llist_env km l m" and "llist_ok l m (xs @ ys)" and "end_ok l (xs @ ys)"
    and "list_head_p pos = last (sentinel l # xs)" and "length data = unat (data_size l)"
    and "kmalloc km (node_size l) m = (p, m1)" and "p \<noteq> NULL"
  shows "\<exists>l' m'. llist_insert km l pos data m = Some (0, l', m') \<and> llist_ok l' m' (xs @ p # ys) \<and>
    end_ok l' (xs @ p # ys) \<and> ldata m' = (ldata m)(p := data) \<and> p \<notin> set (xs @ ys) \<and>
    touches (insert p (set (sentinel l # xs @ ys))) m m'"
proof -
  have "unat (data_size l) \<le> length data" using assms(5) by simp
  from llist_insert_spec [OF assms(1,2,4) this assms(6,7)] assms(3,5) show ?thesis by auto
qed

theorem llist_insert_refines_witness:
  "\<exists>l' m'. llist_insert bump list2 (llist_pos_init 0xC0000008 NULL) [9, 9] list2_mem = Some (0, l', m') \<and>
     llist_ok l' m' ([0xC0000008] @ 0xC0000028 # [0xC0000018])"
proof -
  obtain m1 where k: "kmalloc bump (node_size list2) list2_mem = (0xC0000028, m1)"
    by (simp add: bump_defs node_size_def list2_def list2_mem_def sizeof_list_t_def)
  have "llist_ok list2 list2_mem ([0xC0000008] @ [0xC0000018])" "end_ok list2 ([0xC0000008] @ [0xC0000018])"
    using list2_ok by simp_all
  from llist_insert_refines [OF list2_env this, of "llist_pos_init 0xC0000008 NULL" "[9, 9]", OF _ _ k]
  show ?thesis by (auto simp: llist_pos_init_def list2_def)
qed

text \<open>C11. \<open>llist_delete\<close> removes exactly the given node, keeps the list well formed, and releases
  exactly the node's block, which cannot be accessed any more.\<close>

theorem llist_delete_refines:
  assumes "llist_env km l m" and "llist_ok l m (xs @ e # ys)" and "list_head_p pos = e"
  shows "\<exists>l' m'. llist_delete l pos m = Some (0, l', m') \<and> llist_ok l' m' (xs @ ys) \<and>
    blocks m' = filter (\<lambda>(b, s). b \<noteq> e) (blocks m) \<and> \<not> valid m' e 1 \<and> ldata m' = ldata m"
  using llist_delete_spec [OF assms] by blast

theorem llist_delete_refines_witness:
  "\<exists>l' m'. llist_delete list2 (llist_pos_init 0xC0000018 NULL) list2_mem = Some (0, l', m') \<and>
     llist_ok l' m' ([0xC0000008] @ []) \<and> \<not> valid m' 0xC0000018 1"
proof -
  have "llist_ok list2 list2_mem ([0xC0000008] @ 0xC0000018 # [])" using list2_ok by simp
  from llist_delete_refines [OF list2_env this, of "llist_pos_init 0xC0000018 NULL"]
  show ?thesis by (auto simp: llist_pos_init_def)
qed

text \<open>C24. \<open>llist_destroy\<close> terminates on every well-formed list and releases exactly the blocks of
  the nodes and of the sentinel.\<close>

theorem llist_destroy_releases:
  assumes "llist_env km l m" and "llist_ok l m xs"
  shows "\<exists>l' m'. llist_destroy l m = Some (0, l', m') \<and> mem_ok m' \<and>
    blocks m' = filter (\<lambda>(b, s). b \<notin> set (sentinel l # xs)) (blocks m)"
  using llist_destroy_spec [OF assms] by blast

theorem llist_destroy_releases_witness:
  "\<exists>l' m'. llist_destroy list2 list2_mem = Some (0, l', m') \<and> blocks m' = []"
  using llist_destroy_releases [OF list2_env list2_ok(1)]
  by (auto simp: list2_mem_def lmem0_def list2_def sentinel_def llist_pos_init_def)

text \<open>C36. Removing the only element leaves the cached end at the released node, so that the next
  \<open>llist_push_back\<close> is undefined behaviour: a queue that ran empty cannot be used again.\<close>

theorem pop_last_then_push_faults:
  assumes "llist_env km l m" and "llist_ok l m [e]" and "end_ok l [e]"
    and "kmalloc_high km" and "high_mem m"
  shows "\<exists>l' m'. llist_pop_front l m = Some (0, l', m') \<and> llist_ok l' m' [] \<and>
    llist_push_back km l' data m' = None"
proof -
  have ok: "llist_ok l m ([] @ e # [])" using assms(2) by simp
  have b: "list_head_p (ll_begin l) = e" "list_head_p (ll_end l) = e"
    using assms(2,3) by (simp_all add: llist_ok_def end_ok_def)
  from llist_delete_spec [OF assms(1) ok b(1)] obtain l' m' where
    d: "llist_delete l (ll_begin l) m = Some (0, l', m')" "llist_ok l' m' []" "llist_env km l' m'"
      "blocks m' = filter (\<lambda>(b, s). b \<noteq> e) (blocks m)" "lnext m' e = LIST_POISON1" "ll_end l' = ll_end l"
    by auto
  have "high_mem m'" using assms(5) d(4) by (auto simp: high_mem_def)
  from push_back_stale_end [OF d(3) assms(4) this _ d(5)] d(6) b(2)
  have "llist_push_back km l' data m' = None" by simp
  with d(1,2) show ?thesis by (auto simp: llist_pop_front_def)
qed

theorem pop_last_then_push_faults_witness:
  "do { (r, l, m) \<leftarrow> llist_init bump llist0 2 lmem0;
        (r, l, m) \<leftarrow> llist_push_back bump l [1, 2] m;
        (r, l, m) \<leftarrow> llist_pop_front l m;
        llist_push_back bump l [3, 4] m } = None"
proof -
  let ?l = "llist0\<lparr>list_count := 1, data_size := 2, ll_begin := llist_pos_init 0xC0000008 NULL,
     ll_end := llist_pos_init 0xC0000008 NULL, ll_head := llist_pos_init 0xC0000000 NULL\<rparr>"
  let ?m = "lmem0\<lparr>blocks := [(0xC0000008, 14), (0xC0000000, 8)], ticks := 2,
     lnext := (\<lambda>_. NULL)(0xC0000000 := 0xC0000008, 0xC0000008 := 0xC0000000),
     lprev := (\<lambda>_. NULL)(0xC0000008 := 0xC0000000, 0xC0000000 := 0xC0000008),
     ldata := (\<lambda>_. [])(0xC0000008 := [1, 2])\<rparr>"
  have r: "do { (r, l, m) \<leftarrow> llist_init bump llist0 2 lmem0; llist_push_back bump l [1, 2] m } = Some (0, ?l, ?m)"
    by (simp add: llist_run_defs fun_upd_twist)
  have "llist_env bump ?l ?m"
    by (simp add: llist_env_def bump_ok lmem0_def llist0_def sys_registered_def
        blocks_ok_def disjoint_blocks_def good_block_def)
  moreover have "llist_ok ?l ?m [0xC0000008]" "end_ok ?l [0xC0000008]" "high_mem ?m"
    by (simp_all add: llist_ok_def end_ok_def dlist_def sentinel_def node_size_def high_mem_def PAGE_OFFSET_def
      lmem0_def llist0_def valid_def sizeof_list_head_def sizeof_list_t_def llist_pos_init_def)
  ultimately have "\<exists>l' m'. llist_pop_front ?l ?m = Some (0, l', m') \<and> llist_ok l' m' [] \<and>
      llist_push_back bump l' [3, 4] m' = None"
    using pop_last_then_push_faults [OF _ _ _ bump_high] by blast
  with r show ?thesis by (auto split: Option.bind_splits)
qed

end
