(* ===== verification/Kernel_Hlist.thy ===== *)
theory Kernel_Hlist
  imports Kernel_List
begin

text \<open>
  The hash chains of \<open>driver/include/libdata_structure/list.h\<close>: \<open>hlist_head\<close> and
  \<open>hlist_node\<close> with the back pointer \<open>pprev\<close> to the cell that points at a node. Both the
  \<open>first\<close> of a head and the \<open>next\<close> of a node lie at offset 0, so that a \<open>pprev\<close> is the
  address of a head or of the preceding node, and \<open>*pprev = x\<close> is a write to that cell.
  The abstraction \<open>hlist m h xs\<close> says that the chain of the head \<open>h\<close> is \<open>xs\<close>.
\<close>

section \<open>Checked access\<close>

definition sizeof_hlist_head :: nat where "sizeof_hlist_head = 4"
definition sizeof_hlist_node :: nat where "sizeof_hlist_node = 8"

definition rd_first :: "addr \<Rightarrow> 'z mem_scheme \<Rightarrow> addr option" where
  "rd_first h m = (if valid m h sizeof_hlist_head then Some (hptr m h) else None)"

definition wr_first :: "addr \<Rightarrow> addr \<Rightarrow> 'z mem_scheme \<Rightarrow> 'z mem_scheme option" where
  "wr_first h v m =
     (if valid m h sizeof_hlist_head then Some (m\<lparr>hptr := (hptr m)(h := v)\<rparr>) else None)"

definition rd_hnext :: "addr \<Rightarrow> 'z mem_scheme \<Rightarrow> addr option" where
  "rd_hnext n m = (if valid m n sizeof_hlist_node then Some (hptr m n) else None)"

definition wr_hnext :: "addr \<Rightarrow> addr \<Rightarrow> 'z mem_scheme \<Rightarrow> 'z mem_scheme option" where
  "wr_hnext n v m =
     (if valid m n sizeof_hlist_node then Some (m\<lparr>hptr := (hptr m)(n := v)\<rparr>) else None)"

definition rd_pprev :: "addr \<Rightarrow> 'z mem_scheme \<Rightarrow> addr option" where
  "rd_pprev n m = (if valid m n sizeof_hlist_node then Some (hpprev m n) else None)"

definition wr_pprev :: "addr \<Rightarrow> addr \<Rightarrow> 'z mem_scheme \<Rightarrow> 'z mem_scheme option" where
  "wr_pprev n v m =
     (if valid m n sizeof_hlist_node then Some (m\<lparr>hpprev := (hpprev m)(n := v)\<rparr>) else None)"

text \<open>A write through a pointer to a link cell, \<open>*pprev = v\<close>.\<close>

definition wr_through :: "addr \<Rightarrow> addr \<Rightarrow> 'z mem_scheme \<Rightarrow> 'z mem_scheme option" where
  "wr_through p v m =
     (if valid m p sizeof_hlist_head then Some (m\<lparr>hptr := (hptr m)(p := v)\<rparr>) else None)"

lemmas haccess_defs = rd_first_def wr_first_def rd_hnext_def wr_hnext_def rd_pprev_def
  wr_pprev_def wr_through_def

section \<open>The primitives\<close>

definition INIT_HLIST_NODE :: "addr \<Rightarrow> 'z mem_scheme \<Rightarrow> 'z mem_scheme option" where
  "INIT_HLIST_NODE n m = do { m1 \<leftarrow> wr_hnext n NULL m; wr_pprev n NULL m1 }"

definition hlist_unhashed :: "addr \<Rightarrow> 'z mem_scheme \<Rightarrow> bool option" where
  "hlist_unhashed n m = do { p \<leftarrow> rd_pprev n m; Some (p = NULL) }"

definition hlist_empty :: "addr \<Rightarrow> 'z mem_scheme \<Rightarrow> bool option" where
  "hlist_empty h m = do { p \<leftarrow> rd_first h m; Some (p = NULL) }"

text \<open>\<open>__hlist_del\<close> of the header.\<close>

definition hlist_del_raw :: "addr \<Rightarrow> 'z mem_scheme \<Rightarrow> 'z mem_scheme option" where
  "hlist_del_raw n m = do {
     next \<leftarrow> rd_hnext n m;
     pprev \<leftarrow> rd_pprev n m;
     m1 \<leftarrow> wr_through pprev next m;
     if next \<noteq> NULL then wr_pprev next pprev m1 else Some m1
   }"

definition hlist_del :: "addr \<Rightarrow> 'z mem_scheme \<Rightarrow> 'z mem_scheme option" where
  "hlist_del n m = do {
     m1 \<leftarrow> hlist_del_raw n m;
     m2 \<leftarrow> wr_hnext n LIST_POISON1 m1;
     wr_pprev n LIST_POISON2 m2
   }"

definition hlist_del_init :: "addr \<Rightarrow> 'z mem_scheme \<Rightarrow> 'z mem_scheme option" where
  "hlist_del_init n m = do {
     u \<leftarrow> hlist_unhashed n m;
     if \<not> u then do { m1 \<leftarrow> hlist_del_raw n m; INIT_HLIST_NODE n m1 } else Some m
   }"

definition hlist_add_head :: "addr \<Rightarrow> addr \<Rightarrow> 'z mem_scheme \<Rightarrow> 'z mem_scheme option" where
  "hlist_add_head n h m = do {
     first \<leftarrow> rd_first h m;
     m1 \<leftarrow> wr_hnext n first m;
     m2 \<leftarrow> (if first \<noteq> NULL then wr_pprev first n m1 else Some m1);
     m3 \<leftarrow> wr_first h n m2;
     wr_pprev n h m3
   }"

definition hlist_add_before :: "addr \<Rightarrow> addr \<Rightarrow> 'z mem_scheme \<Rightarrow> 'z mem_scheme option" where
  "hlist_add_before n next m = do {
     pp \<leftarrow> rd_pprev next m;
     m1 \<leftarrow> wr_pprev n pp m;
     m2 \<leftarrow> wr_hnext n next m1;
     m3 \<leftarrow> wr_pprev next n m2;
     pp1 \<leftarrow> rd_pprev n m3;
     wr_through pp1 n m3
   }"

definition hlist_add_after :: "addr \<Rightarrow> addr \<Rightarrow> 'z mem_scheme \<Rightarrow> 'z mem_scheme option" where
  "hlist_add_after n next m = do {
     nn \<leftarrow> rd_hnext n m;
     m1 \<leftarrow> wr_hnext next nn m;
     m2 \<leftarrow> wr_hnext n next m1;
     m3 \<leftarrow> wr_pprev next n m2;
     nn1 \<leftarrow> rd_hnext next m3;
     if nn1 \<noteq> NULL then wr_pprev nn1 next m3 else Some m3
   }"

text \<open>
  The loop of \<open>hlist_for_each_safe(pos, n, head)\<close>: a body that returns \<open>Some r\<close> leaves the
  enclosing function with \<open>r\<close>; \<open>None\<close> goes on to the node read before the body ran.
\<close>

partial_function (option) hlist_for_each_from ::
  "(addr \<Rightarrow> 'z mem_scheme \<Rightarrow> ('r option \<times> 'z mem_scheme) option) \<Rightarrow> addr \<Rightarrow> 'z mem_scheme \<Rightarrow>
     ('r option \<times> 'z mem_scheme) option"
where
  "hlist_for_each_from body pos m =
     (if pos = NULL then Some (None, m)
      else do {
        n \<leftarrow> rd_hnext pos m;
        (r, m1) \<leftarrow> body pos m;
        (case r of
           Some v \<Rightarrow> Some (Some v, m1)
         | None \<Rightarrow> hlist_for_each_from body n m1)
      })"

declare hlist_for_each_from.simps [code]

definition hlist_for_each_safe ::
  "(addr \<Rightarrow> 'z mem_scheme \<Rightarrow> ('r option \<times> 'z mem_scheme) option) \<Rightarrow> addr \<Rightarrow> 'z mem_scheme \<Rightarrow>
     ('r option \<times> 'z mem_scheme) option" where
  "hlist_for_each_safe body head m = do { pos \<leftarrow> rd_first head m; hlist_for_each_from body pos m }"

section \<open>The abstraction\<close>

text \<open>The cells from the link cell at \<open>q\<close> along \<open>xs\<close>, without the last link.\<close>

fun hseg :: "'z mem_scheme \<Rightarrow> addr \<Rightarrow> addr list \<Rightarrow> bool" where
  "hseg m q [] = valid m q sizeof_hlist_head"
| "hseg m q (x # xs) =
     (valid m q sizeof_hlist_head \<and> hptr m q = x \<and> x \<noteq> NULL \<and>
      valid m x sizeof_hlist_node \<and> hpprev m x = q \<and> hseg m x xs)"

definition hlist :: "'z mem_scheme \<Rightarrow> addr \<Rightarrow> addr list \<Rightarrow> bool" where
  "hlist m h xs = (distinct (h # xs) \<and> hseg m h xs \<and> hptr m (last (h # xs)) = NULL)"

lemma hseg_append: "hseg m q (xs @ ys) = (hseg m q xs \<and> hseg m (last (q # xs)) ys)"
proof (induction xs arbitrary: q)
  case Nil
  show ?case by (cases ys) auto
next
  case (Cons x xs)
  then show ?case by simp
qed

lemma hseg_valid_cell: "hseg m q xs \<Longrightarrow> a \<in> set (q # xs) \<Longrightarrow> valid m a sizeof_hlist_head"
  by (induction xs arbitrary: q) auto

lemma hseg_nodes: "hseg m q xs \<Longrightarrow> a \<in> set xs \<Longrightarrow> valid m a sizeof_hlist_node \<and> a \<noteq> NULL"
  by (induction xs arbitrary: q) auto

lemma hseg_cong:
  assumes "\<And>a k. valid m' a k = valid m a k"
    and "\<And>a. a \<in> set (butlast (q # xs)) \<Longrightarrow> hptr m' a = hptr m a"
    and "\<And>a. a \<in> set xs \<Longrightarrow> hpprev m' a = hpprev m a"
  shows "hseg m' q xs = hseg m q xs"
  using assms(2,3)
proof (induction xs arbitrary: q)
  case (Cons x xs)
  then have "hseg m' x xs = hseg m x xs" by auto
  with Cons.prems show ?case by (simp add: assms(1))
qed (simp add: assms(1))

lemma hseg_mono:
  assumes "\<And>a. a \<in> set (q # xs) \<Longrightarrow> valid m a sizeof_hlist_head \<Longrightarrow> valid m' a sizeof_hlist_head"
    and "\<And>a. a \<in> set xs \<Longrightarrow> valid m a sizeof_hlist_node \<Longrightarrow> valid m' a sizeof_hlist_node"
    and "\<And>a. a \<in> set (butlast (q # xs)) \<Longrightarrow> hptr m' a = hptr m a"
    and "\<And>a. a \<in> set xs \<Longrightarrow> hpprev m' a = hpprev m a"
    and "hseg m q xs"
  shows "hseg m' q xs"
  using assms
proof (induction xs arbitrary: q)
  case (Cons x xs)
  have "hseg m' x xs" by (rule Cons.IH) (use Cons.prems in auto)
  with Cons.prems show ?case by simp
qed simp

lemma hlist_nodes: "hlist m h xs \<Longrightarrow> a \<in> set xs \<Longrightarrow> valid m a sizeof_hlist_node \<and> a \<noteq> NULL"
  by (auto simp: hlist_def dest: hseg_nodes)

lemma hlist_head_valid: "hlist m h xs \<Longrightarrow> valid m h sizeof_hlist_head"
  by (cases xs) (auto simp: hlist_def)

lemma hlist_first: "hlist m h xs \<Longrightarrow> hptr m h = (case xs of [] \<Rightarrow> NULL | x # _ \<Rightarrow> x)"
  by (cases xs) (auto simp: hlist_def)

lemma hlist_next:
  assumes "hlist m h (xs @ x # ys)"
  shows "hptr m x = (case ys of [] \<Rightarrow> NULL | y # _ \<Rightarrow> y)"
  using assms by (cases ys) (auto simp: hlist_def hseg_append)

section \<open>What the primitives do\<close>

text \<open>Everything but the chain links of the given cells is unchanged.\<close>

definition only_hlinks :: "addr set \<Rightarrow> 'z mem_scheme \<Rightarrow> 'z mem_scheme \<Rightarrow> bool" where
  "only_hlinks A m m' = (\<exists>f g. m' = m\<lparr>hptr := f, hpprev := g\<rparr> \<and>
     (\<forall>a. a \<notin> A \<longrightarrow> f a = hptr m a \<and> g a = hpprev m a))"

lemma only_hlinksI:
  assumes "m' = m\<lparr>hptr := f, hpprev := g\<rparr>"
    and "\<And>a. a \<notin> A \<Longrightarrow> f a = hptr m a" and "\<And>a. a \<notin> A \<Longrightarrow> g a = hpprev m a"
  shows "only_hlinks A m m'"
  using assms unfolding only_hlinks_def by blast

lemma only_hlinks_fields:
  assumes "only_hlinks A m m'"
  shows "blocks m' = blocks m" "ticks m' = ticks m" "lnext m' = lnext m" "lprev m' = lprev m"
    "mem.more m' = mem.more m" "valid m' a k = valid m a k"
    "a \<notin> A \<Longrightarrow> hptr m' a = hptr m a" "a \<notin> A \<Longrightarrow> hpprev m' a = hpprev m a"
  using assms by (auto simp: only_hlinks_def valid_def)

lemma only_hlinks_mono: "only_hlinks A m m' \<Longrightarrow> A \<subseteq> B \<Longrightarrow> only_hlinks B m m'"
  unfolding only_hlinks_def by blast

lemma only_hlinks_trans:
  "only_hlinks A m m1 \<Longrightarrow> only_hlinks A m1 m2 \<Longrightarrow> only_hlinks A m m2"
  unfolding only_hlinks_def by (elim exE conjE, rule exI, rule exI) auto

lemma only_hlinks_hlist:
  assumes "only_hlinks A m m'" and "A \<inter> set (h # xs) = {}"
  shows "hlist m' h xs = hlist m h xs"
proof -
  have "hseg m' h xs = hseg m h xs"
  proof (rule hseg_cong)
    show "hptr m' a = hptr m a" if "a \<in> set (butlast (h # xs))" for a
      using in_set_butlastD [OF that] assms(2) by (intro only_hlinks_fields(7) [OF assms(1)]) auto
    show "hpprev m' a = hpprev m a" if "a \<in> set xs" for a
      using that assms(2) by (intro only_hlinks_fields(8) [OF assms(1)]) auto
  qed (rule only_hlinks_fields(6) [OF assms(1)])
  moreover have "last (h # xs) \<notin> A"
    using assms(2) last_in_set [of "h # xs"] by blast
  ultimately show ?thesis
    by (simp del: last.simps add: hlist_def only_hlinks_fields(7) [OF assms(1)])
qed

lemma INIT_HLIST_NODE_spec:
  assumes "valid m n sizeof_hlist_node"
  shows "\<exists>m'. INIT_HLIST_NODE n m = Some m' \<and> only_hlinks {n} m m' \<and> hpprev m' n = NULL"
proof -
  let ?m = "m\<lparr>hptr := (hptr m)(n := NULL), hpprev := (hpprev m)(n := NULL)\<rparr>"
  have "INIT_HLIST_NODE n m = Some ?m"
    using assms by (simp add: INIT_HLIST_NODE_def haccess_defs)
  moreover have "only_hlinks {n} m ?m" by (rule only_hlinksI [OF refl]) auto
  ultimately show ?thesis by auto
qed

lemma hlist_empty_spec: "hlist m h xs \<Longrightarrow> hlist_empty h m = Some (xs = [])"
  by (cases xs) (auto simp: hlist_empty_def haccess_defs hlist_def)

lemma hlist_add_head_spec:
  assumes l: "hlist m h xs" and v: "valid m n sizeof_hlist_node" and "n \<noteq> NULL"
    and new: "n \<notin> set (h # xs)"
  shows "\<exists>m'. hlist_add_head n h m = Some m' \<and> hlist m' h (n # xs)
           \<and> only_hlinks (insert n (set (h # xs))) m m'"
proof (cases xs)
  case Nil
  let ?m = "m\<lparr>hptr := (hptr m)(n := NULL, h := n), hpprev := (hpprev m)(n := h)\<rparr>"
  have "hlist_add_head n h m = Some ?m" "hlist ?m h [n]"
    using Nil l v assms(3) new
    by (auto simp: hlist_add_head_def haccess_defs hlist_def sizeof_hlist_head_def
        sizeof_hlist_node_def intro: valid_shrink)
  moreover have "only_hlinks (insert n (set (h # xs))) m ?m"
    by (rule only_hlinksI [OF refl]) auto
  ultimately show ?thesis using Nil by blast
next
  case (Cons x ys)
  let ?m = "m\<lparr>hptr := (hptr m)(n := x, h := n), hpprev := (hpprev m)(x := n, n := h)\<rparr>"
  have e: "hlist_add_head n h m = Some ?m"
    using Cons l v assms(3) new by (auto simp: hlist_add_head_def haccess_defs hlist_def)
  have s: "hseg ?m x ys = hseg m x ys"
  proof (rule hseg_cong)
    show "hptr ?m a = hptr m a" if "a \<in> set (butlast (x # ys))" for a
      using in_set_butlastD [OF that] Cons l new by (auto simp: hlist_def)
    show "hpprev ?m a = hpprev m a" if "a \<in> set ys" for a
      using that Cons l new by (auto simp: hlist_def)
  qed (simp add: valid_def)
  have "last (x # ys) \<in> set (x # ys)" by (rule last_in_set) simp
  with Cons l new have "last (x # ys) \<noteq> n" "last (x # ys) \<noteq> h" by (auto simp: hlist_def)
  then have "hlist ?m h (n # xs)"
    using Cons l v assms(3) new s
    by (auto simp: hlist_def sizeof_hlist_head_def sizeof_hlist_node_def intro: valid_shrink)
  moreover have "only_hlinks (insert n (set (h # xs))) m ?m"
    using Cons by (intro only_hlinksI [OF refl]) auto
  ultimately show ?thesis using e by blast
qed

lemma hlist_unlink:
  assumes l: "hlist m h (xs @ n # ys)" and p: "p = last (h # xs)"
    and nx: "nx = (case ys of [] \<Rightarrow> NULL | y # _ \<Rightarrow> y)"
    and f: "\<And>a. a \<noteq> n \<Longrightarrow> f a = ((hptr m)(p := nx)) a"
    and g: "\<And>a. a \<noteq> n \<Longrightarrow> g a = (if nx = NULL then hpprev m else (hpprev m)(nx := p)) a"
  shows "hlist (m\<lparr>hptr := f, hpprev := g\<rparr>) h (xs @ ys)"
proof -
  let ?m = "m\<lparr>hptr := f, hpprev := g\<rparr>"
  have d: "distinct (h # xs @ n # ys)" and s: "hseg m h xs" "hseg m p (n # ys)"
    and e: "hptr m (last (n # ys)) = NULL"
    using l by (simp_all add: hlist_def hseg_append p)
  have pin: "p \<in> set (h # xs)" unfolding p by (rule last_in_set) simp
  have pb: "p \<notin> set (butlast (h # xs))"
    using d unfolding p
    by (metis append_butlast_last_id distinct_append list.discI append_Cons not_distinct_conv_prefix)
  have h1: "hseg ?m h xs"
  proof (rule iffD2 [OF hseg_cong s(1)])
    show "hptr ?m a = hptr m a" if "a \<in> set (butlast (h # xs))" for a
    proof -
      have "a \<in> set (h # xs)" by (rule in_set_butlastD [OF that])
      with d have "a \<noteq> n" by auto
      moreover have "a \<noteq> p" using that pb by metis
      ultimately show ?thesis using f [of a] by simp
    qed
    show "hpprev ?m a = hpprev m a" if "a \<in> set xs" for a
    proof -
      have "a \<noteq> n" and "nx \<noteq> NULL \<Longrightarrow> a \<noteq> nx"
        using that d nx by (auto split: list.splits)
      with g [of a] show ?thesis by simp
    qed
  qed (simp add: valid_def)
  show ?thesis
  proof (cases ys)
    case Nil
    have "p \<noteq> n" using pin d by auto
    with Nil h1 d nx f [of p] show ?thesis by (simp add: hlist_def p)
  next
    case (Cons y zs)
    have ne: "p \<noteq> n" "y \<noteq> n" "y \<noteq> p" "y \<noteq> NULL" using pin d Cons s(2) by auto
    have "hseg ?m y zs"
    proof (rule iffD2 [OF hseg_cong])
      show "hseg m y zs" using s(2) Cons by simp
      show "hptr ?m a = hptr m a" if "a \<in> set (butlast (y # zs))" for a
      proof -
        have "a \<noteq> n" and "a \<noteq> p" using in_set_butlastD [OF that] d Cons pin by auto
        with f [of a] show ?thesis by simp
      qed
      show "hpprev ?m a = hpprev m a" if "a \<in> set zs" for a
      proof -
        have "a \<noteq> n" and "nx \<noteq> NULL \<Longrightarrow> a \<noteq> nx" using that d Cons nx by auto
        with g [of a] show ?thesis by simp
      qed
    qed (simp add: valid_def)
    with ne s(2) Cons nx f [of p] g [of y] have "hseg ?m p ys" by simp
    moreover have "last (y # zs) \<in> set (y # zs)" by (rule last_in_set) simp
    with d Cons pin have "last (y # zs) \<noteq> n" "last (y # zs) \<noteq> p" by auto
    with e Cons f [of "last (y # zs)"] have "hptr ?m (last (h # xs @ ys)) = NULL" by simp
    ultimately show ?thesis using h1 d by (auto simp: hlist_def hseg_append p)
  qed
qed

lemma hlist_del_spec:
  assumes l: "hlist m h (xs @ n # ys)"
  shows "\<exists>m'. hlist_del n m = Some m' \<and> hlist m' h (xs @ ys)
           \<and> only_hlinks (set (h # xs @ n # ys)) m m'"
proof -
  define p where "p = last (h # xs)"
  define nx where "nx = (case ys of [] \<Rightarrow> NULL | y # _ \<Rightarrow> y)"
  let ?f = "(hptr m)(p := nx, n := LIST_POISON1)"
  let ?g = "(if nx = NULL then hpprev m else (hpprev m)(nx := p))(n := LIST_POISON2)"
  have pin: "p \<in> set (h # xs)" unfolding p_def by (rule last_in_set) simp
  have s: "hseg m h xs" "hseg m p (n # ys)" using l by (simp_all add: hlist_def hseg_append p_def)
  have r: "hptr m n = nx" using hlist_next [OF l] by (simp add: nx_def)
  have v: "nx \<noteq> NULL \<Longrightarrow> valid m nx sizeof_hlist_node"
    using hlist_nodes [OF l, of nx] by (auto simp: nx_def split: list.splits)
  have "hlist_del n m = Some (m\<lparr>hptr := ?f, hpprev := ?g\<rparr>)"
    using s r v by (simp add: hlist_del_def hlist_del_raw_def haccess_defs)
  moreover have "hlist (m\<lparr>hptr := ?f, hpprev := ?g\<rparr>) h (xs @ ys)"
    by (rule hlist_unlink [OF l p_def nx_def]) auto
  moreover have "only_hlinks (set (h # xs @ n # ys)) m (m\<lparr>hptr := ?f, hpprev := ?g\<rparr>)"
    by (rule only_hlinksI [OF refl]) (use pin in \<open>auto simp: nx_def split: list.splits\<close>)
  ultimately show ?thesis by blast
qed

lemma hlist_del_init_spec:
  assumes l: "hlist m h (xs @ n # ys)" and hz: "h \<noteq> NULL"
  shows "\<exists>m'. hlist_del_init n m = Some m' \<and> hlist m' h (xs @ ys) \<and> hlist_unhashed n m' = Some True
           \<and> only_hlinks (set (h # xs @ n # ys)) m m'"
proof -
  define p where "p = last (h # xs)"
  define nx where "nx = (case ys of [] \<Rightarrow> NULL | y # _ \<Rightarrow> y)"
  let ?f = "(hptr m)(p := nx, n := NULL)"
  let ?g = "(if nx = NULL then hpprev m else (hpprev m)(nx := p))(n := NULL)"
  have pin: "p \<in> set (h # xs)" unfolding p_def by (rule last_in_set) simp
  have s: "hseg m h xs" "hseg m p (n # ys)" using l by (simp_all add: hlist_def hseg_append p_def)
  have r: "hptr m n = nx" using hlist_next [OF l] by (simp add: nx_def)
  have v: "nx \<noteq> NULL \<Longrightarrow> valid m nx sizeof_hlist_node"
    using hlist_nodes [OF l, of nx] by (auto simp: nx_def split: list.splits)
  have "p \<noteq> NULL" using pin hz hlist_nodes [OF l, of p] by auto
  with s r v have "hlist_del_init n m = Some (m\<lparr>hptr := ?f, hpprev := ?g\<rparr>)"
    by (simp add: hlist_del_init_def hlist_unhashed_def hlist_del_raw_def INIT_HLIST_NODE_def haccess_defs)
  moreover have "hlist (m\<lparr>hptr := ?f, hpprev := ?g\<rparr>) h (xs @ ys)"
    by (rule hlist_unlink [OF l p_def nx_def]) auto
  moreover have "only_hlinks (set (h # xs @ n # ys)) m (m\<lparr>hptr := ?f, hpprev := ?g\<rparr>)"
    by (rule only_hlinksI [OF refl]) (use pin in \<open>auto simp: nx_def split: list.splits\<close>)
  ultimately show ?thesis using s(2) by (auto simp: hlist_unhashed_def haccess_defs)
qed

text \<open>
  A read-only body visits the nodes in chain order and stops at the first one for which it
  returns a value.
\<close>

fun first_of :: "('a \<Rightarrow> 'r option option) \<Rightarrow> 'a list \<Rightarrow> 'r option option" where
  "first_of b [] = Some None"
| "first_of b (x # xs) = (case b x of
     None \<Rightarrow> None | Some (Some r) \<Rightarrow> Some (Some r) | Some None \<Rightarrow> first_of b xs)"

lemma hlist_for_each_safe_first:
  assumes l: "hlist m h xs" and b: "\<And>x. x \<in> set xs \<Longrightarrow> body x m = map_option (\<lambda>r. (r, m)) (b x)"
  shows "hlist_for_each_safe body h m = map_option (\<lambda>r. (r, m)) (first_of b xs)"
proof -
  have "hlist_for_each_from body (hptr m q) m = map_option (\<lambda>r. (r, m)) (first_of b ys)"
    if "hseg m q ys" "hptr m (last (q # ys)) = NULL" "set ys \<subseteq> set xs" for q ys
    using that
  proof (induction ys arbitrary: q)
    case Nil
    then show ?case by (simp add: hlist_for_each_from.simps)
  next
    case (Cons y ys)
    from Cons.prems have y: "hptr m q = y" "y \<noteq> NULL" "valid m y sizeof_hlist_node"
      and IH: "hlist_for_each_from body (hptr m y) m = map_option (\<lambda>r. (r, m)) (first_of b ys)"
      using Cons.IH [of y] by auto
    have "body y m = map_option (\<lambda>r. (r, m)) (b y)" using b [of y] Cons.prems(3) by simp
    then show ?case
      unfolding y(1) hlist_for_each_from.simps [of body y m]
      using y(2,3) IH by (auto simp: haccess_defs split: option.splits)
  qed
  from this [of h xs] l show ?thesis
    by (simp add: hlist_for_each_safe_def rd_first_def hlist_head_valid [OF l] hlist_def)
qed

end
