(* ===== verification/Hash_Map.thy ===== *)
theory Hash_Map
  imports Link_List Kernel_Hlist
begin

text \<open>
  The hash map \<open>driver/libdata_structure/hash_map\<close> and the \<open>pair_t\<close> helper of
  \<open>hash_list.h\<close>. An element is one byte string whose first \<open>key_size\<close> bytes are its key; the
  buckets are hash chains, and the map caches the position of its first node. The hash and
  comparison functions are function values in the structure, as in C; the two defaults of
  the header are given. Diagnostic output and the empty lock functions leave no trace here.
\<close>

section \<open>Data\<close>

record hash_map_pos =
  hlist_node_p :: addr
  bucket_pos :: u32
  pos_hlist :: addr
  pos_hmap :: addr

type_synonym hash_fn = "bytes \<Rightarrow> u32 \<Rightarrow> u32 \<Rightarrow> u32 option"
type_synonym key_cmp_fn = "bytes \<Rightarrow> bytes \<Rightarrow> u32 \<Rightarrow> int option"

record hash_map =
  hm_self :: addr
  hm_bucket_size :: u32
  hm_data_size :: u32
  hm_key_size :: u32
  hm_hash_func :: hash_fn
  hm_key_cmp_func :: key_cmp_fn
  hm_hlist :: addr
  hm_begin :: hash_map_pos
  hm_end :: hash_map_pos
  hm_lock_type :: u8
  hm_allocator :: allocator

text \<open>
  The store gains the fields of \<open>struct hash_map_node\<close>: \<open>value_pos\<close> at offset 8,
  \<open>data_size\<close> at offset 12 and the bytes from \<open>key\<close> (offset 16) on.
\<close>

record hmem = lmem +
  hn_value_pos :: "addr \<Rightarrow> u8"
  hn_data_size :: "addr \<Rightarrow> u32"
  hn_key :: "addr \<Rightarrow> bytes"

definition sizeof_hash_map_node :: nat where "sizeof_hash_map_node = 20"
definition offset_hn_key :: nat where "offset_hn_key = 16"
definition sizeof_hash_map_t :: nat where "sizeof_hash_map_t = 76"

section \<open>Pairs and the default functions\<close>

record pair =
  pair_p :: addr
  pair_data_len :: u16
  pair_key_len :: u32
  pair_value_len :: u32
  pair_data :: bytes

definition sizeof_pair_t :: nat where "sizeof_pair_t = 16"

text \<open>The lengths are \<open>int\<close> values in C, added to a 32-bit \<open>size_t\<close>.\<close>

definition create_pair ::
  "kmalloc_fn \<Rightarrow> u32 \<Rightarrow> u32 \<Rightarrow> 'z mem_scheme \<Rightarrow> (pair \<times> 'z mem_scheme) option" where
  "create_pair km key_len value_len m = do {
     let (p, m1) = kmalloc km (unat (word_of_nat sizeof_pair_t + key_len + value_len)) m;
     assert_opt (p \<noteq> NULL \<and> valid m1 p sizeof_pair_t);
     Some (\<lparr>pair_p = p, pair_data_len = ucast (key_len + value_len), pair_key_len = key_len,
       pair_value_len = value_len, pair_data = []\<rparr>, m1)
   }"

text \<open>The data starts at offset 12.\<close>

definition make_pair :: "pair \<Rightarrow> bytes \<Rightarrow> bytes \<Rightarrow> 'z mem_scheme \<Rightarrow> pair option" where
  "make_pair p key val m = do {
     let k = unat (pair_key_len p);
     let v = unat (pair_value_len p);
     assert_opt (k \<le> length key \<and> v \<le> length val \<and> valid m (pair_p p) (12 + k + v));
     Some (p\<lparr>pair_data := take k key @ take v val\<rparr>)
   }"

definition destroy_pair :: "pair \<Rightarrow> 'z mem_scheme \<Rightarrow> (int \<times> 'z mem_scheme) option" where
  "destroy_pair p m = do { m1 \<leftarrow> kfree (pair_p p) m; Some (0, m1) }"

text \<open>\<open>memcmp\<close> of the C library: the difference at the first byte that differs.\<close>

fun memcmp :: "bytes \<Rightarrow> bytes \<Rightarrow> nat \<Rightarrow> int option" where
  "memcmp xs ys 0 = Some 0"
| "memcmp (x # xs) (y # ys) (Suc n) =
     (if x = y then memcmp xs ys n else Some (uint x - uint y))"
| "memcmp xs ys (Suc n) = None"

definition default_key_cmp_func :: key_cmp_fn where
  "default_key_cmp_func key1 key2 sz = memcmp key1 key2 (unat sz)"

fun hash_sum :: "bytes \<Rightarrow> nat \<Rightarrow> u32 \<Rightarrow> u32 option" where
  "hash_sum key 0 acc = Some acc"
| "hash_sum (b # key) (Suc n) acc = hash_sum key n (acc + ucast b)"
| "hash_sum [] (Suc n) acc = None"

definition default_hash_func :: hash_fn where
  "default_hash_func key sz buckets = do {
     sum \<leftarrow> hash_sum key (unat sz) 0;
     if buckets = 0 then None else Some (sum mod buckets)
   }"

section \<open>Operations\<close>

definition hash_map_create ::
  "kmalloc_fn \<Rightarrow> hash_map \<Rightarrow> allocator \<Rightarrow> u8 \<Rightarrow> 'z amem_scheme \<Rightarrow> (hash_map \<times> 'z amem_scheme) option"
where
  "hash_map_create km stale alloc lock_type m = do {
     (p, m1) \<leftarrow> allocator_mem_alloc km alloc (word_of_nat sizeof_hash_map_t) m;
     assert_opt (p \<noteq> NULL);
     Some (stale\<lparr>hm_self := p, hm_allocator := alloc, hm_lock_type := lock_type\<rparr>, m1)
   }"

definition hash_map_pos_init :: "addr \<Rightarrow> u32 \<Rightarrow> addr \<Rightarrow> addr \<Rightarrow> hash_map_pos" where
  "hash_map_pos_init node b hl hmap =
     \<lparr>hlist_node_p = node, bucket_pos = b, pos_hlist = hl, pos_hmap = hmap\<rparr>"

text \<open>\<open>memset(a, 0, n)\<close> on an array of hash chain heads.\<close>

definition clear_heads :: "addr \<Rightarrow> nat \<Rightarrow> 'z mem_scheme \<Rightarrow> 'z mem_scheme option" where
  "clear_heads a n m =
     (if n = 0 then Some m
      else if valid m a n
      then Some (m\<lparr>hptr := (\<lambda>p. if unat a \<le> unat p \<and> unat p < unat a + n then NULL else hptr m p)\<rparr>)
      else None)"

definition hash_map_init ::
  "kmalloc_fn \<Rightarrow> hash_map \<Rightarrow> u32 \<Rightarrow> u32 \<Rightarrow> u32 \<Rightarrow> hash_fn \<Rightarrow> key_cmp_fn \<Rightarrow> 'z amem_scheme \<Rightarrow>
     (int \<times> hash_map \<times> 'z amem_scheme) option" where
  "hash_map_init km h ksz dsz bsz hash cmp m = do {
     let h1 = h\<lparr>hm_data_size := dsz, hm_key_size := ksz, hm_bucket_size := bsz,
        hm_hash_func := hash, hm_key_cmp_func := cmp\<rparr>;
     let bytes = word_of_nat sizeof_hlist_head * bsz;
     (p, m1) \<leftarrow> allocator_mem_alloc km (hm_allocator h1) bytes m;
     m2 \<leftarrow> clear_heads p (unat bytes) m1;
     Some (0, h1\<lparr>hm_hlist := p, hm_begin := hash_map_pos_init NULL 0 p (hm_self h1),
        hm_end := hash_map_pos_init NULL (bsz - 1) p (hm_self h1)\<rparr>, m2)
   }"

text \<open>The address of \<open>hlist[i]\<close>.\<close>

definition bucket_head :: "addr \<Rightarrow> u32 \<Rightarrow> addr" where
  "bucket_head hl i = hl + word_of_nat sizeof_hlist_head * i"

text \<open>\<open>memcpy(mnode->key, data, n)\<close> and the two assignments that follow it.\<close>

definition fill_node ::
  "addr \<Rightarrow> bytes \<Rightarrow> u32 \<Rightarrow> u32 \<Rightarrow> 'z hmem_scheme \<Rightarrow> 'z hmem_scheme option" where
  "fill_node p data dsz ksz m =
     (if valid m p (offset_hn_key + unat dsz) \<and> unat dsz \<le> length data
      then Some (m\<lparr>hn_key := (hn_key m)(p := take (unat dsz) data),
        hn_value_pos := (hn_value_pos m)(p := ucast ksz), hn_data_size := (hn_data_size m)(p := dsz)\<rparr>)
      else None)"

definition rd_node_key :: "addr \<Rightarrow> 'z hmem_scheme \<Rightarrow> bytes option" where
  "rd_node_key p m = (if valid m p offset_hn_key then Some (hn_key m p) else None)"

text \<open>
  When the hash function gives a bucket out of range, \<open>hash_map_insert\<close> returns \<open>-1\<close> and
  keeps the new node allocated.
\<close>

definition hash_map_insert ::
  "kmalloc_fn \<Rightarrow> hash_map \<Rightarrow> bytes \<Rightarrow> 'z hmem_scheme \<Rightarrow> (int \<times> hash_map \<times> 'z hmem_scheme) option"
where
  "hash_map_insert km h data m = do {
     let dsz = hm_data_size h;
     let ksz = hm_key_size h;
     (p, m1) \<leftarrow> allocator_mem_alloc km (hm_allocator h) (word_of_nat sizeof_hash_map_node + dsz) m;
     if p = NULL then Some (-1, h, m1)
     else do {
       m2 \<leftarrow> fill_node p data dsz ksz m1;
       m3 \<leftarrow> INIT_HLIST_NODE p m2;
       key \<leftarrow> rd_node_key p m3;
       b \<leftarrow> hm_hash_func h key ksz (hm_bucket_size h);
       if hm_bucket_size h \<le> b then Some (-1, h, m3)
       else do {
         m4 \<leftarrow> hlist_add_head p (bucket_head (hm_hlist h) b) m3;
         if hlist_node_p (hm_begin h) = NULL \<or> b \<le> bucket_pos (hm_begin h)
         then do {
           f \<leftarrow> rd_first (bucket_head (hm_hlist h) b) m4;
           Some (0, h\<lparr>hm_begin := hash_map_pos_init f b (hm_hlist h) (hm_self h)\<rparr>, m4) }
         else Some (0, h, m4)
       }
     }
   }"

text \<open>The body of the search loop: return the position of a node whose key compares equal.\<close>

definition search_body ::
  "hash_map \<Rightarrow> u32 \<Rightarrow> bytes \<Rightarrow> addr \<Rightarrow> 'z hmem_scheme \<Rightarrow> (hash_map_pos option \<times> 'z hmem_scheme) option"
where
  "search_body h b key pos m = do {
     k \<leftarrow> rd_node_key pos m;
     c \<leftarrow> hm_key_cmp_func h k key (hm_key_size h);
     Some (if c = 0 then Some (hash_map_pos_init pos b (hm_hlist h) (hm_self h)) else None, m)
   }"

definition hash_map_search ::
  "hash_map \<Rightarrow> bytes \<Rightarrow> 'z hmem_scheme \<Rightarrow> hash_map_pos option" where
  "hash_map_search h key m = do {
     b \<leftarrow> hm_hash_func h key (hm_key_size h) (hm_bucket_size h);
     if hm_bucket_size h \<le> b then Some (hash_map_pos_init NULL b (hm_hlist h) (hm_self h))
     else do {
       (r, m1) \<leftarrow> hlist_for_each_safe (search_body h b key) (bucket_head (hm_hlist h) b) m;
       Some (case r of Some pos \<Rightarrow> pos
             | None \<Rightarrow> hash_map_pos_init NULL b (hm_hlist h) (hm_self h))
     }
   }"

definition hash_map_pos_equal :: "hash_map_pos \<Rightarrow> hash_map_pos \<Rightarrow> bool" where
  "hash_map_pos_equal pos1 pos2 = (hlist_node_p pos1 = hlist_node_p pos2)"

text \<open>The scan for the next bucket that is not empty, from bucket \<open>b\<close> on.\<close>

function next_bucket :: "addr \<Rightarrow> u32 \<Rightarrow> u32 \<Rightarrow> 'z mem_scheme \<Rightarrow> (addr \<times> u32) option option" where
  "next_bucket hl bsz b m =
     (if b < bsz then do {
        f \<leftarrow> rd_first (bucket_head hl b) m;
        if f \<noteq> NULL then Some (Some (f, b)) else next_bucket hl bsz (b + 1) m
      } else Some None)"
  by pat_completeness auto
termination
proof (relation "measure (\<lambda>(hl, bsz, b, m). unat bsz - unat b)", goal_cases)
  case (2 hl bsz b m f)
  then show ?case using unat_plus_one [of b bsz] by (simp add: word_less_nat_alt)
qed simp

declare next_bucket.simps [simp del]

text \<open>\<open>h\<close> is the map that \<open>pos.hmap\<close> points to.\<close>

definition hash_map_pos_next ::
  "hash_map \<Rightarrow> hash_map_pos \<Rightarrow> 'z mem_scheme \<Rightarrow> hash_map_pos option" where
  "hash_map_pos_next h pos m = do {
     let b = bucket_pos pos;
     let hl = pos_hlist pos;
     let bsz = hm_bucket_size h;
     nx \<leftarrow> rd_hnext (hlist_node_p pos) m;
     if nx \<noteq> NULL then Some (hash_map_pos_init nx b hl (pos_hmap pos))
     else if b < bsz - 1 then do {
       r \<leftarrow> next_bucket hl bsz (b + 1) m;
       (case r of
          Some (f, b') \<Rightarrow> Some (hash_map_pos_init f b' hl (pos_hmap pos))
        | None \<Rightarrow> Some (hash_map_pos_init NULL (bsz - 1) hl (pos_hmap pos))) }
     else if b = bsz - 1 then Some (hash_map_pos_init NULL b hl (pos_hmap pos))
     else Some pos
   }"

text \<open>\<open>container_of\<close> is the identity: \<open>hlist_node\<close> is the first member.\<close>

definition hash_map_delete ::
  "hash_map \<Rightarrow> hash_map_pos \<Rightarrow> 'z hmem_scheme \<Rightarrow> (int \<times> hash_map \<times> 'z hmem_scheme) option" where
  "hash_map_delete h pos m = do {
     h1 \<leftarrow> (if hash_map_pos_equal pos (hm_begin h) then do {
              nx \<leftarrow> hash_map_pos_next h pos m;
              Some (h\<lparr>hm_begin := hash_map_pos_init (hlist_node_p nx) (bucket_pos nx)
                 (pos_hlist pos) (hm_self h)\<rparr>) }
           else Some h);
     m1 \<leftarrow> hlist_del (hlist_node_p pos) m;
     m2 \<leftarrow> (if hlist_node_p pos \<noteq> NULL
            then allocator_mem_free (hm_allocator h) (hlist_node_p pos) m1 else Some m1);
     Some (0, h1, m2)
   }"

definition hash_map_end :: "hash_map \<Rightarrow> hash_map_pos" where
  "hash_map_end h = hm_end h"

partial_function (option) hash_map_destroy_loop ::
  "hash_map \<Rightarrow> 'z hmem_scheme \<Rightarrow> (hash_map \<times> 'z hmem_scheme) option" where
  "hash_map_destroy_loop h m =
     (if hash_map_pos_equal (hm_begin h) (hm_end h) then Some (h, m)
      else do {
        (r, h1, m1) \<leftarrow> hash_map_delete h (hm_begin h) m;
        hash_map_destroy_loop h1 m1
      })"

declare hash_map_destroy_loop.simps [code]

definition hash_map_begin :: "hash_map \<Rightarrow> hash_map_pos" where
  "hash_map_begin h = hm_begin h"

text \<open>The C function is declared \<open>int\<close> but returns no value.\<close>

definition hash_map_destroy ::
  "hash_map \<Rightarrow> 'z hmem_scheme \<Rightarrow> (hash_map \<times> 'z hmem_scheme) option" where
  "hash_map_destroy h m = do {
     (h1, m1) \<leftarrow> hash_map_destroy_loop h m;
     m2 \<leftarrow> (if hash_map_pos_equal (hm_end h1) (hm_begin h1)
            then allocator_mem_free (hm_allocator h1) (hm_hlist h1) m1 else Some m1);
     Some (h1, m2)
   }"

definition hash_map_pos_get_pointer :: "hash_map_pos \<Rightarrow> 'z hmem_scheme \<Rightarrow> addr option" where
  "hash_map_pos_get_pointer pos m =
     (if valid m (hlist_node_p pos) offset_hn_key
      then Some (hlist_node_p pos + word_of_nat offset_hn_key + ucast (hn_value_pos m (hlist_node_p pos)))
      else None)"

partial_function (option) hash_map_for_each_from ::
  "(addr \<Rightarrow> 'z hmem_scheme \<Rightarrow> 'z hmem_scheme option) \<Rightarrow> hash_map \<Rightarrow> hash_map_pos \<Rightarrow>
     'z hmem_scheme \<Rightarrow> 'z hmem_scheme option" where
  "hash_map_for_each_from func h pos m =
     (if hash_map_pos_equal pos (hash_map_end h) then Some m
      else do {
        m1 \<leftarrow> func (hlist_node_p pos) m;
        nx \<leftarrow> hash_map_pos_next h pos m1;
        hash_map_for_each_from func h nx m1
      })"

declare hash_map_for_each_from.simps [code]

definition hash_map_for_each ::
  "(addr \<Rightarrow> 'z hmem_scheme \<Rightarrow> 'z hmem_scheme option) \<Rightarrow> hash_map \<Rightarrow>
     'z hmem_scheme \<Rightarrow> 'z hmem_scheme option" where
  "hash_map_for_each func h m = hash_map_for_each_from func h (hash_map_begin h) m"

section \<open>The representation invariant\<close>

text \<open>
  \<open>chains_ok h m B\<close>: bucket \<open>i\<close> of the map \<open>h\<close> is the chain \<open>B ! i\<close>; every node is a live
  block of the right size and lies in the bucket of its key.
\<close>

definition sizeof_node :: "hash_map \<Rightarrow> nat" where
  "sizeof_node h = sizeof_hash_map_node + unat (hm_data_size h)"

definition head_of :: "hash_map \<Rightarrow> nat \<Rightarrow> addr" where
  "head_of h i = bucket_head (hm_hlist h) (word_of_nat i)"

definition node_ok :: "hash_map \<Rightarrow> 'z hmem_scheme \<Rightarrow> nat \<Rightarrow> addr \<Rightarrow> bool" where
  "node_ok h m i x =
     ((x, sizeof_node h) \<in> set (blocks m) \<and> length (hn_key m x) = unat (hm_data_size h) \<and>
      hn_value_pos m x = ucast (hm_key_size h) \<and>
      hm_hash_func h (hn_key m x) (hm_key_size h) (hm_bucket_size h) = Some (word_of_nat i))"

definition chains_ok :: "hash_map \<Rightarrow> 'z hmem_scheme \<Rightarrow> addr list list \<Rightarrow> bool" where
  "chains_ok h m B =
     (length B = unat (hm_bucket_size h) \<and> 0 < length B \<and>
      (hm_hlist h, 4 * length B) \<in> set (blocks m) \<and> unat (hm_hlist h) + 4 * length B \<le> 2 ^ 32 \<and>
      unat (hm_key_size h) \<le> unat (hm_data_size h) \<and> sizeof_node h < 2 ^ 32 \<and>
      distinct (concat B) \<and>
      (\<forall>i < length B. head_of h i \<notin> set (concat B) \<and> hlist m (head_of h i) (B ! i) \<and>
         (\<forall>x \<in> set (B ! i). node_ok h m i x)))"

definition hmap_env :: "kmalloc_fn \<Rightarrow> hash_map \<Rightarrow> 'z hmem_scheme \<Rightarrow> bool" where
  "hmap_env km h m =
     (kmalloc_ok km \<and> mem_ok m \<and> sys_registered m \<and> sys_allocator (hm_allocator h))"

text \<open>
  What the map needs of its functions: they are defined on keys of the right length, the
  hash is a bucket number that depends on the key bytes only, the comparison is 0 for equal
  keys only.
\<close>

definition hash_ok :: "hash_map \<Rightarrow> bool" where
  "hash_ok h =
     ((\<forall>k. unat (hm_key_size h) \<le> length k \<longrightarrow>
        (\<exists>b < hm_bucket_size h. hm_hash_func h k (hm_key_size h) (hm_bucket_size h) = Some b)) \<and>
      (\<forall>k l. unat (hm_key_size h) \<le> length k \<longrightarrow> unat (hm_key_size h) \<le> length l \<longrightarrow>
        take (unat (hm_key_size h)) k = take (unat (hm_key_size h)) l \<longrightarrow>
        hm_hash_func h k (hm_key_size h) (hm_bucket_size h) =
        hm_hash_func h l (hm_key_size h) (hm_bucket_size h)) \<and>
      (\<forall>k l. unat (hm_key_size h) \<le> length k \<longrightarrow> unat (hm_key_size h) \<le> length l \<longrightarrow>
        (\<exists>c. hm_key_cmp_func h k l (hm_key_size h) = Some c \<and>
          (c = 0) = (take (unat (hm_key_size h)) k = take (unat (hm_key_size h)) l))))"

lemma hash_ok_begin_upd [simp]: "hash_ok (h\<lparr>hm_begin := b\<rparr>) = hash_ok h"
  by (simp add: hash_ok_def)

lemma memcmp_take:
  "n \<le> length xs \<Longrightarrow> n \<le> length ys \<Longrightarrow> \<exists>c. memcmp xs ys n = Some c \<and> (c = 0) = (take n xs = take n ys)"
proof (induction n arbitrary: xs ys)
  case (Suc n)
  then obtain x xs' y ys' where "xs = x # xs'" "ys = y # ys'"
    by (metis Suc_le_length_iff)
  with Suc show ?case by (auto simp: word_uint_eq_iff)
qed simp

lemma hash_sum_take: "n \<le> length key \<Longrightarrow> hash_sum key n acc = Some (acc + sum_list (map ucast (take n key)))"
proof (induction n arbitrary: key acc)
  case (Suc n)
  then obtain b r where "key = b # r" by (metis Suc_le_length_iff)
  with Suc show ?case by (simp add: add.assoc)
qed simp

lemma default_hash_ok:
  assumes "hm_hash_func h = default_hash_func" and "hm_key_cmp_func h = default_key_cmp_func"
    and "hm_bucket_size h \<noteq> 0"
  shows "hash_ok h"
  unfolding hash_ok_def assms(1,2)
proof (intro conjI allI impI)
  fix k :: bytes assume "unat (hm_key_size h) \<le> length k"
  then show "\<exists>b < hm_bucket_size h. default_hash_func k (hm_key_size h) (hm_bucket_size h) = Some b"
    using assms(3) by (simp add: default_hash_func_def hash_sum_take word_mod_less_divisor word_gt_0)
next
  fix k l :: bytes
  assume "unat (hm_key_size h) \<le> length k" "unat (hm_key_size h) \<le> length l"
    "take (unat (hm_key_size h)) k = take (unat (hm_key_size h)) l"
  then show "default_hash_func k (hm_key_size h) (hm_bucket_size h) =
      default_hash_func l (hm_key_size h) (hm_bucket_size h)"
    by (simp add: default_hash_func_def hash_sum_take)
next
  fix k l :: bytes
  assume "unat (hm_key_size h) \<le> length k" "unat (hm_key_size h) \<le> length l"
  then show "\<exists>c. default_key_cmp_func k l (hm_key_size h) = Some c \<and>
      (c = 0) = (take (unat (hm_key_size h)) k = take (unat (hm_key_size h)) l)"
    by (simp add: default_key_cmp_func_def memcmp_take)
qed

section \<open>Addresses of the buckets\<close>

lemma unat_head_of:
  assumes "unat (hm_hlist h) + 4 * n \<le> 2 ^ 32" and "i < n"
  shows "unat (head_of h i) = unat (hm_hlist h) + 4 * i"
proof -
  have "head_of h i = word_of_nat (unat (hm_hlist h) + 4 * i)"
    by (simp add: head_of_def bucket_head_def sizeof_hlist_head_def)
  moreover have "unat (hm_hlist h) + 4 * i < 2 ^ LENGTH(32)" using assms by simp
  note unat_word_of_nat [OF this]
  ultimately show ?thesis by (simp only:)
qed

lemma head_of_inj:
  assumes "unat (hm_hlist h) + 4 * n \<le> 2 ^ 32" and "i < n" and "j < n" and "head_of h i = head_of h j"
  shows "i = j"
  using unat_head_of [OF assms(1,2)] unat_head_of [OF assms(1,3)] unfolding assms(4) by linarith

lemma head_of_valid:
  assumes "(hm_hlist h, 4 * n) \<in> set (blocks m)" and "unat (hm_hlist h) + 4 * n \<le> 2 ^ 32" and "i < n"
  shows "valid m (head_of h i) sizeof_hlist_head"
proof -
  have "unat (hm_hlist h) \<le> unat (head_of h i)"
    and "unat (head_of h i) + sizeof_hlist_head \<le> unat (hm_hlist h) + 4 * n"
    using unat_head_of [OF assms(2,3)] assms(3) by (simp_all add: sizeof_hlist_head_def)
  with assms(1) show ?thesis unfolding valid_iff by blast
qed

lemma head_of_0: "head_of h 0 = hm_hlist h"
  by (simp add: head_of_def bucket_head_def)

section \<open>Frames\<close>

definition hm_touches :: "addr set \<Rightarrow> 'z hmem_scheme \<Rightarrow> 'z hmem_scheme \<Rightarrow> bool" where
  "hm_touches A m m' =
     ((\<forall>a. a \<notin> A \<longrightarrow> hptr m' a = hptr m a \<and> hpprev m' a = hpprev m a \<and>
         hn_key m' a = hn_key m a \<and> hn_value_pos m' a = hn_value_pos m a) \<and>
      lnext m' = lnext m \<and> lprev m' = lprev m \<and> ldata m' = ldata m \<and>
      allocator_modules m' = allocator_modules m \<and> hmem.more m' = hmem.more m \<and>
      (\<forall>b s. b \<notin> A \<longrightarrow> (b, s) \<in> set (blocks m) \<longrightarrow> (b, s) \<in> set (blocks m')))"

lemma hm_touches_refl [simp]: "hm_touches A m m"
  by (simp add: hm_touches_def)

lemma hm_touches_trans:
  "hm_touches A m m1 \<Longrightarrow> hm_touches B m1 m2 \<Longrightarrow> hm_touches (A \<union> B) m m2"
  unfolding hm_touches_def by simp

lemma hm_touches_mono: "hm_touches A m m' \<Longrightarrow> A \<subseteq> B \<Longrightarrow> hm_touches B m m'"
  unfolding hm_touches_def by blast

lemma hm_touches_only_hlinks: "only_hlinks A m m' \<Longrightarrow> hm_touches A m (m' :: 'z hmem_scheme)"
  by (auto simp: only_hlinks_def hm_touches_def)

lemma hm_touches_kmalloc: "kmalloc km n m = (p, m') \<Longrightarrow> hm_touches A m (m' :: 'z hmem_scheme)"
  by (auto simp: hm_touches_def kmalloc_def Let_def split: if_splits)

lemma hm_touches_kfree: "kfree p m = Some m' \<Longrightarrow> p \<in> A \<Longrightarrow> hm_touches A m (m' :: 'z hmem_scheme)"
  by (auto simp: hm_touches_def kfree_def split: if_splits)

lemma hm_touches_sys_registered: "hm_touches A m m' \<Longrightarrow> sys_registered m' = sys_registered m"
  by (simp add: hm_touches_def sys_registered_def)

lemma node_ok_valid: "node_ok h m i x \<Longrightarrow> k \<le> sizeof_node h \<Longrightarrow> valid m x k"
  by (auto simp: node_ok_def intro: valid_block)

text \<open>A chain of live nodes is intact as long as its links are.\<close>

lemma hlist_transfer:
  assumes "hlist m q xs" and "valid m' q sizeof_hlist_head"
    and "\<And>x. x \<in> set xs \<Longrightarrow> valid m' x sizeof_hlist_node"
    and "\<And>a. a \<in> set (q # xs) \<Longrightarrow> hptr m' a = hptr m a \<and> hpprev m' a = hpprev m a"
  shows "hlist m' q xs"
proof -
  have "hseg m' q xs"
  proof (rule hseg_mono)
    show "hseg m q xs" using assms(1) by (simp add: hlist_def)
    show "valid m' a sizeof_hlist_head" if "a \<in> set (q # xs)" for a
      using that assms(2,3) valid_shrink [of m' a sizeof_hlist_node sizeof_hlist_head]
      by (auto simp: sizeof_hlist_head_def sizeof_hlist_node_def)
    show "hptr m' a = hptr m a" if "a \<in> set (butlast (q # xs))" for a
      using assms(4) in_set_butlastD [OF that] by blast
  qed (use assms(3,4) in auto)
  moreover have "last (q # xs) \<in> set (q # xs)" by (rule last_in_set) simp
  ultimately show ?thesis using assms(1) assms(4) [of "last (q # xs)"]
    by (simp del: last.simps add: hlist_def)
qed

lemma sizeof_node_ge: "sizeof_hlist_node \<le> sizeof_node h"
  by (simp add: sizeof_node_def sizeof_hlist_node_def sizeof_hash_map_node_def)

text \<open>Replacing the chain of one bucket; the rest of the map is not touched.\<close>

lemma chains_ok_update:
  assumes ok: "chains_ok h m (P @ c # Q)" and t: "hm_touches A m m'"
    and hl: "(hm_hlist h, 4 * length (P @ c # Q)) \<in> set (blocks m')"
    and c': "hlist m' (head_of h (length P)) c'" "\<And>x. x \<in> set c' \<Longrightarrow> node_ok h m' (length P) x"
      "\<And>i. i < length (P @ c # Q) \<Longrightarrow> head_of h i \<notin> set c'"
      "set c' \<inter> set (concat P @ concat Q) = {}"
    and A: "A \<inter> set (concat P @ concat Q) = {}"
      "\<And>i. i < length (P @ c # Q) \<Longrightarrow> i \<noteq> length P \<Longrightarrow> head_of h i \<notin> A"
  shows "chains_ok h m' (P @ c' # Q)"
proof -
  let ?B = "P @ c # Q" and ?B' = "P @ c' # Q"
  have "hlist m' (head_of h i) (?B ! i) \<and> (\<forall>x \<in> set (?B ! i). node_ok h m' i x)"
    if i: "i < length ?B" "i \<noteq> length P" for i
  proof -
    have o: "hlist m (head_of h i) (?B ! i)" "\<And>x. x \<in> set (?B ! i) \<Longrightarrow> node_ok h m i x"
      using ok i(1) by (auto simp: chains_ok_def)
    have "?B ! i \<in> set P \<or> ?B ! i \<in> set Q"
      using i by (auto simp: nth_append nth_Cons' not_less)
    with A have dA: "set (?B ! i) \<inter> A = {}" by auto
    have nodes: "node_ok h m' i x" if "x \<in> set (?B ! i)" for x
      using o(2) [OF that] that dA t unfolding node_ok_def hm_touches_def
      by (metis disjoint_iff)
    have "hlist m' (head_of h i) (?B ! i)"
    proof (rule hlist_transfer [OF o(1)])
      show "valid m' (head_of h i) sizeof_hlist_head"
        by (rule head_of_valid [OF hl _ i(1)]) (use ok in \<open>simp add: chains_ok_def\<close>)
      show "valid m' x sizeof_hlist_node" if "x \<in> set (?B ! i)" for x
        by (rule node_ok_valid [OF nodes [OF that] sizeof_node_ge])
      show "hptr m' a = hptr m a \<and> hpprev m' a = hpprev m a" if "a \<in> set (head_of h i # ?B ! i)" for a
        using that dA A(2) [OF i] t unfolding hm_touches_def by auto
    qed
    with nodes show ?thesis by blast
  qed
  moreover have "?B' ! i = ?B ! i" if "i \<noteq> length P" for i
    using that by (simp add: nth_append nth_Cons')
  ultimately have each: "hlist m' (head_of h i) (?B' ! i) \<and> (\<forall>x \<in> set (?B' ! i). node_ok h m' i x)"
    if "i < length ?B" for i
    using that c'(1,2) by (cases "i = length P") auto
  have "distinct (concat ?B')"
    using ok c'(1,4) by (auto simp: chains_ok_def hlist_def)
  moreover have "head_of h i \<notin> set (concat ?B')" if "i < length ?B" for i
    using ok c'(3) [OF that] that by (auto simp: chains_ok_def)
  ultimately show ?thesis using each ok hl by (simp add: chains_ok_def)
qed

section \<open>Positions\<close>

text \<open>All positions of the map in iteration order, from bucket \<open>i\<close> on.\<close>

fun positions :: "hash_map \<Rightarrow> nat \<Rightarrow> addr list list \<Rightarrow> hash_map_pos list" where
  "positions h i [] = []"
| "positions h i (c # B) =
     map (\<lambda>x. hash_map_pos_init x (word_of_nat i) (hm_hlist h) (hm_self h)) c @ positions h (Suc i) B"

abbreviation pos_of :: "hash_map \<Rightarrow> nat \<Rightarrow> addr \<Rightarrow> hash_map_pos" where
  "pos_of h i x \<equiv> hash_map_pos_init x (word_of_nat i) (hm_hlist h) (hm_self h)"

lemma pos_init_simps [simp]:
  "hlist_node_p (hash_map_pos_init x b hl hp) = x"
  "bucket_pos (hash_map_pos_init x b hl hp) = b"
  "pos_hlist (hash_map_pos_init x b hl hp) = hl"
  "pos_hmap (hash_map_pos_init x b hl hp) = hp"
  by (simp_all add: hash_map_pos_init_def)

lemma positions_nodes: "map hlist_node_p (positions h i B) = concat B"
  by (induction B arbitrary: i) (auto simp: comp_def)

lemma positions_append: "positions h i (P @ Q) = positions h i P @ positions h (i + length P) Q"
  by (induction P arbitrary: i) auto

lemma positions_empty: "positions h i B = [] \<longleftrightarrow> concat B = []"
  by (metis positions_nodes map_is_Nil_conv)

definition begin_ok :: "hash_map \<Rightarrow> addr list list \<Rightarrow> bool" where
  "begin_ok h B = (case positions h 0 B of
     [] \<Rightarrow> hlist_node_p (hm_begin h) = NULL | p # _ \<Rightarrow> hm_begin h = p)"

definition hmap_ok :: "hash_map \<Rightarrow> 'z hmem_scheme \<Rightarrow> addr list list \<Rightarrow> bool" where
  "hmap_ok h m B = (chains_ok h m B \<and> begin_ok h B \<and> hlist_node_p (hm_end h) = NULL)"

lemma chains_ok_node:
  assumes "chains_ok h m B" and "x \<in> set (concat B)"
  shows "x \<noteq> NULL \<and> (x, sizeof_node h) \<in> set (blocks m) \<and> length (hn_key m x) = unat (hm_data_size h)
    \<and> hn_value_pos m x = ucast (hm_key_size h)"
proof -
  obtain i where i: "i < length B" "x \<in> set (B ! i)"
    using assms(2) by (metis in_set_conv_nth set_concat UN_E)
  with assms(1) hlist_nodes [of m "head_of h i" "B ! i" x] show ?thesis
    by (auto simp: chains_ok_def node_ok_def)
qed

lemma positions_bucket:
  "q \<in> set (positions h i B) \<Longrightarrow> \<exists>k < length B. q = pos_of h (i + k) (hlist_node_p q) \<and> hlist_node_p q \<in> set (B ! k)"
proof (induction B arbitrary: i)
  case (Cons c B)
  show ?case
  proof (cases "q \<in> set (positions h (Suc i) B)")
    case True
    with Cons.IH [OF this] obtain k where "k < length B" "q = pos_of h (Suc i + k) (hlist_node_p q)"
      "hlist_node_p q \<in> set (B ! k)" by blast
    then show ?thesis by (intro exI [of _ "Suc k"]) simp
  next
    case False
    with Cons.prems show ?thesis by (intro exI [of _ 0]) auto
  qed
qed simp

lemma positions_fields:
  "q \<in> set (positions h i B) \<Longrightarrow> hash_map_pos_init (hlist_node_p q) (bucket_pos q) (hm_hlist h) (hm_self h) = q"
  by (induction B arbitrary: i) auto

lemma pos_of_cong:
  "hm_hlist h' = hm_hlist h \<Longrightarrow> hm_self h' = hm_self h \<Longrightarrow> positions h' i B = positions h i B"
  by (induction B arbitrary: i) auto

lemma chains_ok_begin_upd [simp]: "chains_ok (h\<lparr>hm_begin := b\<rparr>) m B = chains_ok h m B"
  by (simp add: chains_ok_def head_of_def node_ok_def sizeof_node_def)

lemma chains_ok_size: "chains_ok h m B \<Longrightarrow> length B = unat (hm_bucket_size h) \<and> B \<noteq> []"
  by (auto simp: chains_ok_def)

lemma chains_ok_facts:
  assumes "chains_ok h m B"
  shows "(hm_hlist h, 4 * length B) \<in> set (blocks m)" "unat (hm_hlist h) + 4 * length B \<le> 2 ^ 32"
    "unat (hm_key_size h) \<le> unat (hm_data_size h)" "sizeof_node h < 2 ^ 32" "distinct (concat B)"
    "i < length B \<Longrightarrow> head_of h i \<notin> set (concat B)" "i < length B \<Longrightarrow> hlist m (head_of h i) (B ! i)"
    "i < length B \<Longrightarrow> x \<in> set (B ! i) \<Longrightarrow> node_ok h m i x"
  using assms unfolding chains_ok_def by blast+

lemma chains_ok_length:
  assumes "chains_ok h m B" and "i \<le> length B"
  shows "unat (word_of_nat i :: u32) = i"
proof -
  have "i < 2 ^ LENGTH(32)"
    using assms unsigned_less [of "hm_bucket_size h"] by (simp add: chains_ok_def)
  then show ?thesis by (rule unat_word_of_nat)
qed

lemma chains_ok_bucket_lt:
  assumes "chains_ok h m B" and "i < length B"
  shows "(word_of_nat i :: u32) < hm_bucket_size h"
  using assms(2) chains_ok_length [OF assms(1), of i] chains_ok_size [OF assms(1)]
  by (simp add: word_less_nat_alt)

text \<open>The scan finds the first node of the buckets that are left.\<close>

lemma next_bucket_spec:
  assumes ok: "chains_ok h m B" and "i \<le> length B"
  shows "next_bucket (hm_hlist h) (hm_bucket_size h) (word_of_nat i) m =
    Some (case positions h i (drop i B) of [] \<Rightarrow> None | p # _ \<Rightarrow> Some (hlist_node_p p, bucket_pos p))"
  using assms(2)
proof (induction "length B - i" arbitrary: i)
  case 0
  then have "\<not> (word_of_nat i :: u32) < hm_bucket_size h"
    using ok chains_ok_length [OF ok, of i] by (simp add: word_less_nat_alt chains_ok_def)
  with 0 show ?case by (simp add: next_bucket.simps)
next
  case (Suc k)
  then have i: "i < length B" by simp
  have "hlist m (head_of h i) (B ! i)" using ok i by (simp add: chains_ok_def)
  then have r: "rd_first (bucket_head (hm_hlist h) (word_of_nat i)) m =
      Some (case B ! i of [] \<Rightarrow> NULL | x # _ \<Rightarrow> x)"
    and n: "\<And>x. x \<in> set (B ! i) \<Longrightarrow> x \<noteq> NULL"
    using hlist_head_valid hlist_first hlist_nodes unfolding head_of_def rd_first_def by fastforce+
  have d: "drop i B = B ! i # drop (Suc i) B" using i by (simp add: Cons_nth_drop_Suc)
  have IH: "next_bucket (hm_hlist h) (hm_bucket_size h) (word_of_nat (Suc i)) m =
    Some (case positions h (Suc i) (drop (Suc i) B) of [] \<Rightarrow> None
      | p # _ \<Rightarrow> Some (hlist_node_p p, bucket_pos p))"
    using Suc i by (intro Suc.hyps) auto
  have w: "(word_of_nat i :: u32) + 1 = word_of_nat (Suc i)" by simp
  show ?case
  proof (cases "B ! i")
    case Nil
    then show ?thesis unfolding next_bucket.simps [of _ _ "word_of_nat i"] w
      using IH r d chains_ok_bucket_lt [OF ok i] by simp
  next
    case (Cons x xs)
    then show ?thesis unfolding next_bucket.simps [of _ _ "word_of_nat i"]
      using r n d chains_ok_bucket_lt [OF ok i] by simp
  qed
qed

lemma positions_split:
  assumes "positions h i B = ps @ p # qs"
  obtains P xs x ys Q where "B = P @ (xs @ x # ys) # Q" and "p = pos_of h (i + length P) x"
    and "qs = map (pos_of h (i + length P)) ys @ positions h (i + length P + 1) Q"
    and "ps = positions h i P @ map (pos_of h (i + length P)) xs"
  using assms
proof (induction B arbitrary: i ps thesis)
  case (Cons c B)
  have e: "map (pos_of h i) c @ positions h (Suc i) B = ps @ p # qs" using Cons.prems(2) by simp
  show ?case
  proof (cases "length ps < length c")
    case True
    then have c: "c = take (length ps) c @ c ! length ps # drop (Suc (length ps)) c"
      by (simp add: id_take_nth_drop)
    have "(map (pos_of h i) c @ positions h (Suc i) B) ! length ps = pos_of h i (c ! length ps)"
      using True by (simp add: nth_append)
    with e have p: "p = pos_of h i (c ! length ps)" by simp
    have "drop (Suc (length ps)) (map (pos_of h i) c @ positions h (Suc i) B)
        = map (pos_of h i) (drop (Suc (length ps)) c) @ positions h (Suc i) B"
      using True by (simp add: drop_map)
    with e have q: "qs = map (pos_of h i) (drop (Suc (length ps)) c) @ positions h (Suc i) B"
      by simp
    have "take (length ps) (map (pos_of h i) c @ positions h (Suc i) B) = map (pos_of h i) (take (length ps) c)"
      using True by (simp add: take_map)
    with e have ps: "ps = map (pos_of h i) (take (length ps) c)" by simp
    show ?thesis
      by (rule Cons.prems(1) [of "[]" "take (length ps) c" "c ! length ps" "drop (Suc (length ps)) c" B])
        (use c p q ps in auto)
  next
    case False
    have s: "positions h (Suc i) B = drop (length c) ps @ p # qs"
      "ps = map (pos_of h i) c @ drop (length c) ps"
      using arg_cong [OF e, of "drop (length c)"] arg_cong [OF e, of "take (length c)"] False
        append_take_drop_id [of "length c" ps] by simp_all
    from s(1) obtain P xs x ys Q where "B = P @ (xs @ x # ys) # Q" "p = pos_of h (Suc i + length P) x"
      "qs = map (pos_of h (Suc i + length P)) ys @ positions h (Suc i + length P + 1) Q"
      "drop (length c) ps = positions h (Suc i) P @ map (pos_of h (Suc i + length P)) xs"
      by (rule Cons.IH [rotated])
    with s(2) show ?thesis by (intro Cons.prems(1) [of "c # P" xs x ys Q]) auto
  qed
qed simp

text \<open>Stepping through the map follows the order of \<open>positions\<close>.\<close>

lemma hash_map_pos_next_spec:
  assumes ok: "chains_ok h m B" and p: "positions h 0 B = ps @ p # qs"
  shows "\<exists>q. hash_map_pos_next h p m = Some q \<and>
    (case qs of [] \<Rightarrow> hlist_node_p q = NULL | q' # _ \<Rightarrow> q = q')"
proof -
  obtain P xs x ys Q where B: "B = P @ (xs @ x # ys) # Q" "p = pos_of h (0 + length P) x"
    "qs = map (pos_of h (0 + length P)) ys @ positions h (0 + length P + 1) Q"
    by (rule positions_split [OF p])
  let ?i = "length P"
  have i: "?i < length B" "B ! ?i = xs @ x # ys" using B by simp_all
  have l: "hlist m (head_of h ?i) (xs @ x # ys)" using ok i by (auto simp: chains_ok_def)
  have r: "rd_hnext x m = Some (case ys of [] \<Rightarrow> NULL | y # _ \<Rightarrow> y)"
    using hlist_nodes [OF l] hlist_next [OF l] by (simp add: rd_hnext_def)
  have y0: "y \<noteq> NULL" if "y \<in> set ys" for y using hlist_nodes [OF l, of y] that by simp
  show ?thesis
  proof (cases ys)
    case (Cons y zs)
    with r y0 B(2,3) show ?thesis by (simp add: hash_map_pos_next_def Let_def)
  next
    case Nil
    have lb: "length B = unat (hm_bucket_size h)" "B \<noteq> []" using chains_ok_size [OF ok] by blast+
    from lb(2) have "0 < length B" by simp
    with lb(1) have "0 < unat (hm_bucket_size h)" by linarith
    then have "1 \<le> unat (hm_bucket_size h)" by simp
    then have bs: "unat (hm_bucket_size h - 1) = length B - 1"
      unfolding lb(1) by (simp only: unat_sub_if_size unsigned_1 if_True)
    have ui: "unat (word_of_nat ?i :: u32) = ?i" using chains_ok_length [OF ok, of ?i] i by simp
    have w: "(word_of_nat ?i :: u32) + 1 = word_of_nat (Suc ?i)" by simp
    have dr: "drop (Suc ?i) B = Q" using B(1) by simp
    have nb: "next_bucket (hm_hlist h) (hm_bucket_size h) (word_of_nat (Suc ?i)) m =
        Some (case qs of [] \<Rightarrow> None | p # _ \<Rightarrow> Some (hlist_node_p p, bucket_pos p))"
      using next_bucket_spec [OF ok, of "Suc ?i"] i dr B(3) Nil by simp
    show ?thesis
    proof (cases "Suc ?i < length B")
      case True
      then have "(word_of_nat ?i :: u32) < hm_bucket_size h - 1"
        using bs ui by (simp add: word_less_nat_alt)
      then have "hash_map_pos_next h p m = Some (case qs of [] \<Rightarrow>
            hash_map_pos_init NULL (hm_bucket_size h - 1) (hm_hlist h) (hm_self h)
          | q # _ \<Rightarrow> hash_map_pos_init (hlist_node_p q) (bucket_pos q) (hm_hlist h) (hm_self h))"
        using r Nil B(2) nb unfolding hash_map_pos_next_def Let_def
        by (simp only: w pos_init_simps add_0) (simp split: list.splits)
      moreover have qs: "positions h (Suc ?i) Q = qs" using B(3) Nil by simp
      note positions_fields [of _ h "Suc ?i" Q, unfolded qs]
      ultimately show ?thesis by (cases qs) simp_all
    next
      case False
      then have "Q = []" "word_of_nat ?i = hm_bucket_size h - 1"
        using B(1) bs ui i by (auto simp: word_unat_eq_iff)
      then show ?thesis using r Nil B(2,3) by (simp add: hash_map_pos_next_def Let_def)
    qed
  qed
qed

section \<open>Insertion\<close>

lemma new_block_not_valid:
  assumes "kmalloc_ok km" and "0 < n" and "kmalloc km n m = (p, m1)" and "p \<noteq> NULL"
    and "valid m a k" and "0 < k"
  shows "p \<noteq> a"
  using kmalloc_fresh [OF assms] assms(2,6) by auto

lemma sizeof_node_pos: "0 < sizeof_node h"
  by (simp add: sizeof_node_def sizeof_hash_map_node_def)

lemma fresh_node:
  assumes env: "hmap_env km h m" and ok: "chains_ok h m B"
    and a: "kmalloc km (sizeof_node h) m = (p, m1)" "p \<noteq> NULL"
  shows "p \<notin> set (concat B)" and "i < length B \<Longrightarrow> p \<noteq> head_of h i"
proof -
  note n0 = sizeof_node_pos [of h]
  have km: "kmalloc_ok km" using env by (simp add: hmap_env_def)
  show "p \<notin> set (concat B)"
  proof
    assume p: "p \<in> set (concat B)"
    have "valid m p (sizeof_node h)"
      using chains_ok_node [OF ok p] by (auto intro: valid_block)
    from new_block_not_valid [OF km n0 a this n0] show False by simp
  qed
  show "p \<noteq> head_of h i" if i: "i < length B"
  proof -
    have "valid m (head_of h i) sizeof_hlist_head"
      by (rule head_of_valid [OF chains_ok_facts(1,2) [OF ok] i])
    then show ?thesis
      by (rule new_block_not_valid [OF km n0 a]) (simp add: sizeof_hlist_head_def)
  qed
qed

lemma begin_ok_insert:
  assumes ok: "chains_ok h m (P @ c # Q)" and b: "begin_ok h (P @ c # Q)" and h: "hm_hlist h' = hm_hlist h"
    "hm_self h' = hm_self h"
    and beg: "hm_begin h' =
      (if hlist_node_p (hm_begin h) = NULL \<or> word_of_nat (length P) \<le> bucket_pos (hm_begin h)
       then pos_of h (length P) p else hm_begin h)"
  shows "begin_ok h' (P @ (p # c) # Q)"
proof -
  let ?i = "length P" and ?B = "P @ c # Q"
  have len: "unat (word_of_nat k :: u32) = k" if "k < length ?B" for k
    using chains_ok_length [OF ok, of k] that by simp
  have pos: "positions h' 0 (P @ (p # c) # Q) =
      positions h 0 P @ pos_of h ?i p # map (pos_of h ?i) c @ positions h (Suc ?i) Q"
    using pos_of_cong [OF h] by (simp add: positions_append h)
  show ?thesis
  proof (cases "positions h 0 P")
    case Nil
    then have eq: "positions h 0 ?B = positions h ?i (c # Q)" by (simp add: positions_append)
    have "hlist_node_p (hm_begin h) = NULL \<or> word_of_nat ?i \<le> bucket_pos (hm_begin h)"
    proof (cases "positions h 0 ?B")
      case (Cons q qs)
      then have "q \<in> set (positions h ?i (c # Q))" using eq by simp
      from positions_bucket [OF this] obtain k where
        k: "k < length (c # Q)" "q = pos_of h (?i + k) (hlist_node_p q)" by blast
      then have "unat (word_of_nat ?i :: u32) \<le> unat (word_of_nat (?i + k) :: u32)"
        using len [of ?i] len [of "?i + k"] by simp
      moreover have "bucket_pos q = word_of_nat (?i + k)" using k(2) by (metis pos_init_simps(2))
      ultimately show ?thesis using b Cons by (simp add: begin_ok_def word_le_nat_alt)
    qed (use b in \<open>simp add: begin_ok_def\<close>)
    with beg pos Nil show ?thesis by (simp add: begin_ok_def)
  next
    case (Cons q qs)
    then have "q \<in> set (positions h 0 P)" by simp
    from positions_bucket [OF this] obtain k where
      k: "k < length P" "q = pos_of h (0 + k) (hlist_node_p q)" "hlist_node_p q \<in> set (P ! k)" by blast
    have "bucket_pos q = word_of_nat k" using k(2) by (metis pos_init_simps(2) add_0)
    then have "\<not> word_of_nat ?i \<le> bucket_pos q"
      using k(1) len [of k] len [of ?i] by (simp add: word_le_nat_alt)
    moreover have "hlist_node_p q \<noteq> NULL"
      using chains_ok_node [OF ok, of "hlist_node_p q"] k(1,3) by (auto dest: nth_mem)
    moreover have "hm_begin h = q" using b Cons by (simp add: begin_ok_def positions_append)
    ultimately show ?thesis using beg pos Cons by (simp add: begin_ok_def)
  qed
qed

text \<open>Making the node: the memory after it has been filled and initialised.\<close>

lemma new_node_spec:
  assumes co: "chains_ok h m B" and data: "unat (hm_data_size h) \<le> length data"
    and a: "kmalloc km (sizeof_node h) m = (p, m1)" "p \<noteq> NULL"
  shows "\<exists>m2 m3. fill_node p data (hm_data_size h) (hm_key_size h) m1 = Some m2 \<and> INIT_HLIST_NODE p m2 = Some m3
    \<and> rd_node_key p m3 = Some (take (unat (hm_data_size h)) data) \<and> hm_touches {p} m m3
    \<and> blocks m3 = (p, sizeof_node h) # blocks m \<and> hn_key m3 = (hn_key m)(p := take (unat (hm_data_size h)) data)
    \<and> hn_value_pos m3 = (hn_value_pos m)(p := ucast (hm_key_size h)) \<and> (\<forall>x k. valid m x k \<longrightarrow> valid m3 x k)
    \<and> valid m3 p sizeof_hlist_node"
proof -
  let ?ks = "hm_key_size h" and ?key = "take (unat (hm_data_size h)) data"
  have m1: "m1 = m\<lparr>ticks := Suc (ticks m), blocks := (p, sizeof_node h) # blocks m\<rparr>" by (rule kmalloc_some [OF a])
  let ?m2 = "m1\<lparr>hn_key := (hn_key m1)(p := ?key), hn_value_pos := (hn_value_pos m1)(p := ucast ?ks),
      hn_data_size := (hn_data_size m1)(p := hm_data_size h)\<rparr>"
  have v1: "valid m1 p k" if "k \<le> sizeof_node h" for k
    by (rule valid_shrink [OF kmalloc_valid_new [OF a] that])
  have v2: "valid ?m2 x k = valid m1 x k" for x k by (simp add: valid_def)
  have f: "fill_node p data (hm_data_size h) ?ks m1 = Some ?m2"
    using v1 data by (simp add: fill_node_def offset_hn_key_def sizeof_node_def sizeof_hash_map_node_def)
  obtain m3 where m3: "INIT_HLIST_NODE p ?m2 = Some m3" "only_hlinks {p} ?m2 m3"
    using INIT_HLIST_NODE_spec [of ?m2 p] v1 v2 sizeof_node_ge by metis
  have k: "rd_node_key p m3 = Some ?key"
    using only_hlinks_fields(5,6) [OF m3(2)] v1 v2
    by (simp add: rd_node_key_def offset_hn_key_def sizeof_node_def sizeof_hash_map_node_def
        only_hlinks_def) (use m3(2) in \<open>auto simp: only_hlinks_def\<close>)
  have "hm_touches {p} m1 ?m2" by (simp add: hm_touches_def)
  from hm_touches_trans [OF hm_touches_trans [OF hm_touches_kmalloc [OF a(1), of "{}"] this]
      hm_touches_only_hlinks [OF m3(2)]] have t: "hm_touches {p} m m3" by simp
  have b: "blocks m3 = (p, sizeof_node h) # blocks m" using only_hlinks_fields(1) [OF m3(2)] m1 by simp
  then have "valid m3 x k" if "valid m x k" for x k using that by (auto simp: valid_iff)
  moreover have "valid m3 p sizeof_hlist_node" using v1 v2 sizeof_node_ge only_hlinks_fields(6) [OF m3(2)] by blast
  moreover have "hn_key m3 = (hn_key m)(p := ?key)" "hn_value_pos m3 = (hn_value_pos m)(p := ucast ?ks)"
    using m3(2) m1 by (auto simp: only_hlinks_def)
  ultimately show ?thesis using f m3(1) k t b by blast
qed

text \<open>Linking a new node at the head of its chain.\<close>

lemma chains_ok_push:
  assumes env: "hmap_env km h m" and co: "chains_ok h m (P @ c # Q)" and a: "kmalloc km (sizeof_node h) m = (p, m1)" "p \<noteq> NULL"
    and t: "hm_touches (insert p (insert (head_of h (length P)) (set c))) m m4"
    and l: "hlist m4 (head_of h (length P)) (p # c)" and b: "blocks m4 = (p, sizeof_node h) # blocks m"
    and k: "hn_key m4 = (hn_key m)(p := key)" "hn_value_pos m4 = (hn_value_pos m)(p := ucast (hm_key_size h))"
    and key: "length key = unat (hm_data_size h)" "hm_hash_func h key (hm_key_size h) (hm_bucket_size h) = Some (word_of_nat (length P))"
  shows "chains_ok h m4 (P @ (p # c) # Q)"
proof -
  let ?B = "P @ c # Q" and ?i = "length P"
  have il: "?i < length ?B" by simp
  have fr: "p \<notin> set (concat ?B)" "\<And>i. i < length ?B \<Longrightarrow> p \<noteq> head_of h i"
    using fresh_node [OF env co a] by blast+
  have d: "distinct (concat ?B)" "head_of h ?i \<notin> set (concat ?B)"
    using chains_ok_facts(5) [OF co] chains_ok_facts(6) [OF co il] by blast+
  show ?thesis
  proof (rule chains_ok_update [OF co t _ l])
    show "(hm_hlist h, 4 * length ?B) \<in> set (blocks m4)" using chains_ok_facts(1) [OF co] b by simp
    show "node_ok h m4 ?i x" if "x \<in> set (p # c)" for x
    proof (cases "x = p")
      case True
      with b k key show ?thesis by (simp add: node_ok_def)
    next
      case False
      with that have "node_ok h m ?i x" using co il by (auto simp: chains_ok_def nth_append)
      with False b k show ?thesis by (auto simp: node_ok_def)
    qed
    show "head_of h i \<notin> set (p # c)" if "i < length ?B" for i
      using fr(2) [of i] that chains_ok_facts(6) [OF co, of i] by auto
    show "set (p # c) \<inter> set (concat P @ concat Q) = {}" using fr(1) d by auto
    show "insert p (insert (head_of h ?i) (set c)) \<inter> set (concat P @ concat Q) = {}" using fr(1) d by auto
    show "head_of h i \<notin> insert p (insert (head_of h ?i) (set c))" if i: "i < length ?B" "i \<noteq> ?i" for i
      using head_of_inj [OF chains_ok_facts(2) [OF co] i(1) il] i fr(2) [of i] chains_ok_facts(6) [OF co, of i] by auto
  qed
qed

lemma hash_map_insert_spec:
  assumes env: "hmap_env km h m" and ok: "hmap_ok h m B" and hs: "hash_ok h"
    and data: "unat (hm_data_size h) \<le> length data"
    and a: "kmalloc km (sizeof_node h) m = (p, m1)" "p \<noteq> NULL"
  shows "\<exists>h' m' P c Q beg. hash_map_insert km h data m = Some (0, h', m') \<and> B = P @ c # Q
    \<and> h' = h\<lparr>hm_begin := beg\<rparr> \<and> hmap_ok h' m' (P @ (p # c) # Q) \<and> hmap_env km h' m'
    \<and> hm_hash_func h data (hm_key_size h) (hm_bucket_size h) = Some (word_of_nat (length P))
    \<and> hn_key m' = (hn_key m)(p := take (unat (hm_data_size h)) data)
    \<and> p \<notin> set (concat B) \<and> hm_touches (insert p (insert (head_of h (length P)) (set c))) m m'"
proof -
  let ?ks = "hm_key_size h" and ?bs = "hm_bucket_size h" and ?key = "take (unat (hm_data_size h)) data"
  have co: "chains_ok h m B" and bo: "begin_ok h B" and eo: "hlist_node_p (hm_end h) = NULL"
    using ok by (auto simp: hmap_ok_def)
  have sz: "unat (word_of_nat sizeof_hash_map_node + hm_data_size h) = sizeof_node h"
    and kd: "unat ?ks \<le> unat (hm_data_size h)"
    using co by (simp_all add: chains_ok_def sizeof_node_def sizeof_hash_map_node_def unat_word_ariths)
  from new_node_spec [OF co data a] obtain m2 m3 where
    f: "fill_node p data (hm_data_size h) ?ks m1 = Some m2" "INIT_HLIST_NODE p m2 = Some m3" "rd_node_key p m3 = Some ?key"
    and t3: "hm_touches {p} m m3" and m3: "blocks m3 = (p, sizeof_node h) # blocks m" "hn_key m3 = (hn_key m)(p := ?key)"
      "hn_value_pos m3 = (hn_value_pos m)(p := ucast ?ks)"
    and v3: "\<And>x k. valid m x k \<Longrightarrow> valid m3 x k" "valid m3 p sizeof_hlist_node" by blast
  obtain b where b: "b < ?bs" "hm_hash_func h ?key ?ks ?bs = Some b" "hm_hash_func h data ?ks ?bs = Some b"
  proof -
    have "unat ?ks \<le> length ?key" "unat ?ks \<le> length data" "take (unat ?ks) ?key = take (unat ?ks) data"
      using kd data by (auto simp: min_def)
    with hs that show ?thesis unfolding hash_ok_def by metis
  qed
  define P c Q where "P = take (unat b) B" and "c = B ! unat b" and "Q = drop (Suc (unat b)) B"
  have il: "unat b < length B" using b(1) co by (simp add: chains_ok_def word_less_nat_alt)
  have B: "B = P @ c # Q" unfolding P_def c_def Q_def by (rule id_take_nth_drop [OF il])
  have lP: "length P = unat b" using il by (simp add: P_def)
  then have bw: "b = word_of_nat (length P)" and head: "bucket_head (hm_hlist h) b = head_of h (length P)"
    by (simp_all add: head_of_def)
  let ?hd = "head_of h (length P)"
  have fr: "p \<notin> set (concat B)" "p \<notin> set (?hd # c)" using fresh_node(1) [OF env co a] fresh_node(2) [OF env co a, of "length P"] B by auto
  have lc: "hlist m ?hd c" using co il lP by (auto simp: chains_ok_def c_def)
  have "hlist m3 ?hd c"
  proof (rule hlist_transfer [OF lc])
    show "valid m3 ?hd sizeof_hlist_head" by (rule v3(1) [OF hlist_head_valid [OF lc]])
    show "valid m3 x sizeof_hlist_node" if "x \<in> set c" for x using v3(1) hlist_nodes [OF lc that] by blast
    show "hptr m3 a = hptr m a \<and> hpprev m3 a = hpprev m a" if "a \<in> set (?hd # c)" for a
      using t3 that fr(2) unfolding hm_touches_def by (metis singletonD)
  qed
  from hlist_add_head_spec [OF this v3(2) a(2) fr(2)] obtain m4 where
    m4: "hlist_add_head p ?hd m3 = Some m4" "hlist m4 ?hd (p # c)" "only_hlinks (insert p (set (?hd # c))) m3 m4" by blast
  let ?beg = "if hlist_node_p (hm_begin h) = NULL \<or> b \<le> bucket_pos (hm_begin h) then pos_of h (length P) p else hm_begin h"
  have rf: "rd_first ?hd m4 = Some p"
    using hlist_head_valid [OF m4(2)] hlist_first [OF m4(2)] by (simp add: rd_first_def)
  have nb: "\<not> ?bs \<le> b" using b(1) by simp
  have eq: "hash_map_insert km h data m = Some (0, h\<lparr>hm_begin := ?beg\<rparr>, m4)"
    using env a sz f b(2) nb m4(1) rf head by (simp add: hash_map_insert_def Let_def hmap_env_def lP)
  have t4: "hm_touches (insert p (insert ?hd (set c))) m m4"
    by (rule hm_touches_mono [OF hm_touches_trans [OF t3 hm_touches_only_hlinks [OF m4(3)]]]) auto
  have f4: "blocks m4 = (p, sizeof_node h) # blocks m" "hn_key m4 = (hn_key m)(p := ?key)"
      "hn_value_pos m4 = (hn_value_pos m)(p := ucast ?ks)"
    using m4(3) m3 by (auto simp: only_hlinks_def)
  have "chains_ok h m4 (P @ (p # c) # Q)"
    by (rule chains_ok_push [OF env co [unfolded B] a t4 m4(2) f4]) (use data b(2) bw in simp_all)
  moreover have "begin_ok (h\<lparr>hm_begin := ?beg\<rparr>) (P @ (p # c) # Q)"
    by (rule begin_ok_insert [OF co [unfolded B] bo [unfolded B]]) (simp_all add: lP)
  ultimately have ok4: "hmap_ok (h\<lparr>hm_begin := ?beg\<rparr>) m4 (P @ (p # c) # Q)"
    using eo by (simp add: hmap_ok_def)
  have "mem_ok m4"
    using kmalloc_mem_ok [OF _ _ sizeof_node_pos a(1)] env f4(1) kmalloc_some [OF a] by (simp add: hmap_env_def)
  then have env4: "hmap_env km (h\<lparr>hm_begin := ?beg\<rparr>) m4"
    using env hm_touches_sys_registered [OF t4] by (simp add: hmap_env_def)
  show ?thesis
    using eq B ok4 env4 b(3) [unfolded bw] f4(2) fr(1) t4
    by (intro exI [of _ "h\<lparr>hm_begin := ?beg\<rparr>"] exI [of _ m4] exI [of _ P] exI [of _ c] exI [of _ Q]
        exI [of _ ?beg] conjI) (assumption | rule refl)+
qed

section \<open>Search\<close>

text \<open>The key and the value of a node.\<close>

definition node_key :: "hash_map \<Rightarrow> 'z hmem_scheme \<Rightarrow> addr \<Rightarrow> bytes" where
  "node_key h m x = take (unat (hm_key_size h)) (hn_key m x)"

definition node_value :: "hash_map \<Rightarrow> 'z hmem_scheme \<Rightarrow> addr \<Rightarrow> bytes" where
  "node_value h m x = drop (unat (hm_key_size h)) (hn_key m x)"

lemma first_of_find:
  assumes "\<And>x. x \<in> set xs \<Longrightarrow> b x = Some (if P x then Some (g x) else None)"
  shows "first_of b xs = Some (map_option g (find P xs))"
  using assms by (induction xs) auto

lemma find_concat_bucket:
  assumes "i < length B" and "\<And>j x. j < length B \<Longrightarrow> x \<in> set (B ! j) \<Longrightarrow> P x \<Longrightarrow> j = i"
  shows "find P (concat B) = find P (B ! i)"
proof -
  define L R where "L = take i B" and "R = drop (Suc i) B"
  have B: "B = L @ B ! i # R" and lL: "length L = i"
    using assms(1) by (simp_all add: L_def R_def id_take_nth_drop [symmetric])
  have "\<not> P x" if "x \<in> set (L ! j)" "j < length L" for x j
    using assms(2) [of j x] that lL assms(1) by (auto simp: L_def)
  then have "find P (concat L) = None" unfolding find_None_iff by (metis UN_E in_set_conv_nth set_concat)
  moreover have "\<not> P x" if "x \<in> set (R ! j)" "j < length R" for x j
  proof -
    have "Suc i + j < length B" using that(2) by (simp add: R_def)
    with assms(2) [of "Suc i + j" x] that assms(1) show ?thesis by (auto simp: R_def)
  qed
  then have "find P (concat R) = None" unfolding find_None_iff by (metis UN_E in_set_conv_nth set_concat)
  moreover have "find P (xs @ ys) = (case find P xs of None \<Rightarrow> find P ys | Some r \<Rightarrow> Some r)" for xs ys
    by (induction xs) auto
  moreover have "concat B = concat L @ (B ! i) @ concat R"
    by (subst B) simp
  ultimately show ?thesis by (simp split: option.splits)
qed

lemma node_key_length:
  assumes "chains_ok h m B" and "x \<in> set (concat B)"
  shows "unat (hm_key_size h) \<le> length (hn_key m x)"
  using chains_ok_node [OF assms] chains_ok_facts(3) [OF assms(1)] by simp

lemma same_key_same_bucket:
  assumes ok: "chains_ok h m B" and hs: "hash_ok h" and k: "unat (hm_key_size h) \<le> length key"
    and b: "hm_hash_func h key (hm_key_size h) (hm_bucket_size h) = Some b"
    and j: "j < length B" "x \<in> set (B ! j)" "node_key h m x = take (unat (hm_key_size h)) key"
  shows "j = unat b"
proof -
  have "x \<in> set (concat B)" using j(1,2) by (auto intro: nth_mem)
  from node_key_length [OF ok this] j(3) hs k
  have "hm_hash_func h (hn_key m x) (hm_key_size h) (hm_bucket_size h) = Some b"
    unfolding hash_ok_def node_key_def b [symmetric] by blast
  with chains_ok_facts(8) [OF ok j(1,2)] have "word_of_nat j = b" by (simp add: node_ok_def)
  with chains_ok_length [OF ok, of j] j(1) show ?thesis by auto
qed

lemma hash_map_search_spec:
  assumes ok: "chains_ok h m B" and hs: "hash_ok h" and k: "unat (hm_key_size h) \<le> length key"
  shows "\<exists>i < length B. hash_map_search h key m =
    Some (case find (\<lambda>x. node_key h m x = take (unat (hm_key_size h)) key) (concat B) of
      None \<Rightarrow> pos_of h i NULL | Some x \<Rightarrow> pos_of h i x)"
proof -
  let ?ks = "hm_key_size h" and ?bs = "hm_bucket_size h"
  let ?P = "\<lambda>x. node_key h m x = take (unat ?ks) key"
  obtain b where b: "b < ?bs" "hm_hash_func h key ?ks ?bs = Some b"
    using hs k unfolding hash_ok_def by blast
  let ?i = "unat b"
  have i: "?i < length B" using b(1) chains_ok_size [OF ok] by (simp add: word_less_nat_alt)
  have other: "j = ?i" if "j < length B" "x \<in> set (B ! j)" "?P x" for j x
    by (rule same_key_same_bucket [OF ok hs k b(2) that])
  have l: "hlist m (head_of h ?i) (B ! ?i)" by (rule chains_ok_facts(7) [OF ok i])
  let ?b = "\<lambda>x. Some (if ?P x then Some (pos_of h ?i x) else None)"
  have "search_body h b key x m = map_option (\<lambda>r. (r, m)) (?b x)" if "x \<in> set (B ! ?i)" for x
  proof -
    have xc: "x \<in> set (concat B)" using that i by (auto intro: nth_mem)
    have "valid m x offset_hn_key"
      by (rule node_ok_valid [OF chains_ok_facts(8) [OF ok i that]])
        (simp add: offset_hn_key_def sizeof_node_def sizeof_hash_map_node_def)
    moreover obtain c where "hm_key_cmp_func h (hn_key m x) key ?ks = Some c" "(c = 0) = ?P x"
      using hs k node_key_length [OF ok xc] unfolding hash_ok_def node_key_def by blast
    ultimately show ?thesis by (simp add: search_body_def rd_node_key_def)
  qed
  from hlist_for_each_safe_first [where b = ?b and body = "search_body h b key", OF l this] have
    "hlist_for_each_safe (search_body h b key) (head_of h ?i) m =
       Some (map_option (pos_of h ?i) (find ?P (B ! ?i)), m)"
    by (simp add: first_of_find [where P = ?P and g = "pos_of h ?i"])
  moreover have "head_of h ?i = bucket_head (hm_hlist h) b" by (simp add: head_of_def)
  moreover have "find ?P (concat B) = find ?P (B ! ?i)" by (rule find_concat_bucket [OF i other])
  ultimately have "hash_map_search h key m = Some (case find ?P (concat B) of
      None \<Rightarrow> pos_of h ?i NULL | Some x \<Rightarrow> pos_of h ?i x)"
    using b by (simp add: hash_map_search_def split: option.splits)
  with i show ?thesis by blast
qed

section \<open>Removal\<close>

lemma hmap_ok_distinct: "hmap_ok h m B \<Longrightarrow> distinct (map hlist_node_p (positions h 0 B))"
  unfolding hmap_ok_def positions_nodes by (blast dest: chains_ok_facts(5))

text \<open>A node unlinked from its chain and released: the chains that are left are well-formed.\<close>

lemma chains_ok_unlink:
  assumes co: "chains_ok h m B" and B: "B = P @ (xs @ x # ys) # Q"
  shows "\<exists>m1 m2. hlist_del x m = Some m1 \<and> kfree x m1 = Some m2 \<and> x \<noteq> NULL
    \<and> only_hlinks (set (head_of h (length P) # xs @ x # ys)) m m1
    \<and> blocks m2 = filter (\<lambda>(b, s). b \<noteq> x) (blocks m)
    \<and> hm_touches (set (head_of h (length P) # xs @ x # ys)) m m2
    \<and> chains_ok h m2 (P @ (xs @ ys) # Q)"
proof -
  let ?i = "length P" and ?c = "xs @ x # ys"
  let ?A = "set (head_of h ?i # ?c)"
  have i: "?i < length B" "B ! ?i = ?c" using B by simp_all
  have l: "hlist m (head_of h ?i) ?c" using chains_ok_facts(7) [OF co i(1)] i(2) by simp
  obtain m1 where m1: "hlist_del x m = Some m1" "hlist m1 (head_of h ?i) (xs @ ys)"
      "only_hlinks (set (head_of h ?i # ?c)) m m1"
    using hlist_del_spec [OF l] by blast
  have xb: "(x, sizeof_node h) \<in> set (blocks m)" and x0: "x \<noteq> NULL"
    using chains_ok_node [OF co, of x] B by auto
  have b1: "blocks m1 = blocks m" by (rule only_hlinks_fields(1) [OF m1(3)])
  obtain m2 where m2: "kfree x m1 = Some m2" using kfree_block [of x _ m1] xb b1 by auto
  have b2: "blocks m2 = filter (\<lambda>(b, s). b \<noteq> x) (blocks m)"
    using m2 b1 x0 by (auto simp: kfree_Some_iff)
  have t: "hm_touches ?A m m2"
  proof -
    have "hm_touches ?A m1 m2" by (rule hm_touches_kfree [OF m2]) simp
    from hm_touches_trans [OF hm_touches_only_hlinks [OF m1(3)] this] show ?thesis by simp
  qed
  have f2: "hptr m2 = hptr m1" "hpprev m2 = hpprev m1" "hn_key m2 = hn_key m" "hn_value_pos m2 = hn_value_pos m"
    using m2 m1(3) x0 by (auto simp: kfree_Some_iff only_hlinks_def)
  have dB: "distinct (concat (P @ ?c # Q))" using chains_ok_facts(5) [OF co] unfolding B .
  have hd_in: "head_of h j \<notin> set (concat B)" if "j < length B" for j
    by (rule chains_ok_facts(6) [OF co that])
  have hl: "(hm_hlist h, 4 * length (P @ ?c # Q)) \<in> set (blocks m2)"
    using chains_ok_facts(1) [OF co] hd_in [of 0] b2 i(1) B by (auto simp: head_of_0)
  have nodes: "node_ok h m2 ?i y" if "y \<in> set (xs @ ys)" for y
  proof -
    have "node_ok h m ?i y" using chains_ok_facts(8) [OF co i(1), of y] i(2) that by auto
    moreover have "y \<noteq> x" using that dB by auto
    ultimately show ?thesis using b2 f2(3,4) by (auto simp: node_ok_def)
  qed
  have hv: "valid m2 (head_of h ?i) sizeof_hlist_head"
    by (rule head_of_valid [OF hl chains_ok_facts(2) [OF co, unfolded B]]) simp
  have nv: "valid m2 y sizeof_hlist_node" if "y \<in> set (xs @ ys)" for y
    by (rule node_ok_valid [OF nodes [OF that] sizeof_node_ge])
  have "chains_ok h m2 (P @ (xs @ ys) # Q)"
  proof (rule chains_ok_update [OF co [unfolded B] t hl])
    show "hlist m2 (head_of h ?i) (xs @ ys)"
      by (rule hlist_transfer [OF m1(2) hv nv]) (use f2 in auto)
    show "node_ok h m2 ?i y" if "y \<in> set (xs @ ys)" for y by (rule nodes [OF that])
    show "head_of h j \<notin> set (xs @ ys)" if "j < length (P @ ?c # Q)" for j
      using hd_in [of j] that B by auto
    show "set (xs @ ys) \<inter> set (concat P @ concat Q) = {}" using dB by auto
    show "?A \<inter> set (concat P @ concat Q) = {}" using dB hd_in [OF i(1)] B by auto
    show "head_of h j \<notin> ?A" if "j < length (P @ ?c # Q)" "j \<noteq> ?i" for j
      using head_of_inj [OF chains_ok_facts(2) [OF co], of j ?i] hd_in [of j] that i(1) B by auto
  qed
  then show ?thesis using m1(1,3) m2 x0 b2 t by blast
qed

text \<open>
  \<open>hash_map_delete\<close> at any position of the map: the node leaves its chain and its block is
  released, the cached first position stays right, everything else is kept.
\<close>

lemma hash_map_delete_spec:
  assumes env: "hmap_env km h m" and ok: "hmap_ok h m B" and p: "positions h 0 B = ps @ p # qs"
  shows "\<exists>h' m' P xs ys Q beg. hash_map_delete h p m = Some (0, h', m')
    \<and> B = P @ (xs @ hlist_node_p p # ys) # Q \<and> h' = h\<lparr>hm_begin := beg\<rparr>
    \<and> hmap_ok h' m' (P @ (xs @ ys) # Q) \<and> hmap_env km h' m'
    \<and> blocks m' = filter (\<lambda>(b, s). b \<noteq> hlist_node_p p) (blocks m)
    \<and> hm_touches (set (head_of h (length P) # xs @ hlist_node_p p # ys)) m m'"
proof -
  have co: "chains_ok h m B" and bo: "begin_ok h B" and eo: "hlist_node_p (hm_end h) = NULL"
    using ok by (auto simp: hmap_ok_def)
  obtain P xs x ys Q where B: "B = P @ (xs @ x # ys) # Q" and px: "p = pos_of h (0 + length P) x"
    and qs: "qs = map (pos_of h (0 + length P)) ys @ positions h (0 + length P + 1) Q"
    and ps: "ps = positions h 0 P @ map (pos_of h (0 + length P)) xs"
    by (rule positions_split [OF p])
  have xn: "hlist_node_p p = x" using px by simp
  let ?A = "set (head_of h (length P) # xs @ x # ys)"
  obtain m1 m2 where m1: "hlist_del x m = Some m1" "only_hlinks ?A m m1" and m2: "kfree x m1 = Some m2" and x0: "x \<noteq> NULL"
    and b2: "blocks m2 = filter (\<lambda>(b, s). b \<noteq> x) (blocks m)" and t: "hm_touches ?A m m2"
    and co': "chains_ok h m2 (P @ (xs @ ys) # Q)"
    using chains_ok_unlink [OF co B] by blast
  have b1: "blocks m1 = blocks m" by (rule only_hlinks_fields(1) [OF m1(2)])
  obtain q where q: "hash_map_pos_next h p m = Some q"
      "case qs of [] \<Rightarrow> hlist_node_p q = NULL | q' # _ \<Rightarrow> q = q'"
    using hash_map_pos_next_spec [OF co p] by blast
  have dn: "distinct (map hlist_node_p (ps @ p # qs))" using hmap_ok_distinct [OF ok] p by simp
  have is_beg: "hash_map_pos_equal p (hm_begin h) = (ps = [])"
    using bo p dn by (cases ps) (auto simp: begin_ok_def hash_map_pos_equal_def)
  let ?nb = "hash_map_pos_init (hlist_node_p q) (bucket_pos q) (hm_hlist h) (hm_self h)"
  let ?beg = "if ps = [] then ?nb else hm_begin h"
  let ?h = "h\<lparr>hm_begin := ?beg\<rparr>"
  have sr: "sys_registered m1"
    using env hm_touches_sys_registered [OF hm_touches_only_hlinks [OF m1(2)]] by (simp add: hmap_env_def)
  have ph: "pos_hlist p = hm_hlist h" using px by simp
  have eq: "hash_map_delete h p m = Some (0, ?h, m2)"
    using env sr is_beg q(1) m1(1) m2 x0 xn ph by (simp add: hash_map_delete_def hmap_env_def)
  have "positions ?h 0 (P @ (xs @ ys) # Q) = ps @ qs"
    using pos_of_cong [of ?h h] ps qs by (simp add: positions_append)
  then have "begin_ok ?h (P @ (xs @ ys) # Q)"
    using bo p q(2) positions_fields [of _ h 0 B] by (cases ps; cases qs) (auto simp: begin_ok_def)
  with co' have ok': "hmap_ok ?h m2 (P @ (xs @ ys) # Q)" using eo by (simp add: hmap_ok_def)
  have "mem_ok m2" using kfree_mem_ok [OF _ m2] b1 env by (simp add: hmap_env_def)
  then have env': "hmap_env km ?h m2"
    using env hm_touches_sys_registered [OF t] by (simp add: hmap_env_def)
  show ?thesis
    unfolding xn using eq B ok' env' b2 t
    by (intro exI [of _ ?h] exI [of _ m2] exI [of _ P] exI [of _ xs] exI [of _ ys] exI [of _ Q]
        exI [of _ ?beg] conjI) (assumption | rule refl)+
qed

text \<open>Destroying the map ends and releases exactly the nodes and the bucket array.\<close>

definition map_cells :: "hash_map \<Rightarrow> addr list list \<Rightarrow> addr set" where
  "map_cells h B = insert (hm_hlist h) (head_of h ` {..<length B} \<union> set (concat B))"

lemma hash_map_destroy_loop_spec:
  assumes "hmap_env km h m" and "hmap_ok h m B"
  shows "\<exists>h' m' B'. hash_map_destroy_loop h m = Some (h', m') \<and> hmap_env km h' m' \<and> hmap_ok h' m' B'
    \<and> concat B' = [] \<and> hm_hlist h' = hm_hlist h \<and> length B' = length B
    \<and> blocks m' = filter (\<lambda>(b, s). b \<notin> set (concat B)) (blocks m)
    \<and> hm_touches (map_cells h B) m m'"
  using assms
proof (induction "length (concat B)" arbitrary: h m B)
  case 0
  then have e: "concat B = []" by simp
  then have "hash_map_pos_equal (hm_begin h) (hm_end h)"
    using 0 positions_empty [of h 0 B] by (simp add: hmap_ok_def begin_ok_def hash_map_pos_equal_def)
  then have "hash_map_destroy_loop h m = Some (h, m)" by (subst hash_map_destroy_loop.simps) simp
  moreover have "blocks m = filter (\<lambda>(b, s). b \<notin> set (concat B)) (blocks m)"
    unfolding e by (simp add: case_prod_unfold)
  ultimately show ?case using 0(2,3) e hm_touches_refl by blast
next
  case (Suc n)
  have "positions h 0 B \<noteq> []" using Suc.hyps(2) positions_empty [of h 0 B] by (metis list.size(3) nat.distinct(1))
  then obtain p qs where p: "positions h 0 B = [] @ p # qs" by (cases "positions h 0 B") auto
  have pb: "hm_begin h = p" using Suc.prems(2) p by (simp add: hmap_ok_def begin_ok_def)
  have "hlist_node_p p \<in> set (concat B)" unfolding positions_nodes [of h 0 B, symmetric] p by simp
  then have "\<not> hash_map_pos_equal (hm_begin h) (hm_end h)"
    using chains_ok_node [of h m B] Suc.prems(2) pb by (simp add: hmap_ok_def hash_map_pos_equal_def)
  moreover from hash_map_delete_spec [OF Suc.prems p] obtain h1 m1 P xs ys Q beg where
    d: "hash_map_delete h p m = Some (0, h1, m1)" "B = P @ (xs @ hlist_node_p p # ys) # Q"
      "h1 = h\<lparr>hm_begin := beg\<rparr>" "hmap_ok h1 m1 (P @ (xs @ ys) # Q)" "hmap_env km h1 m1"
      "blocks m1 = filter (\<lambda>(b, s). b \<noteq> hlist_node_p p) (blocks m)"
      "hm_touches (set (head_of h (length P) # xs @ hlist_node_p p # ys)) m m1" by blast
  moreover have "n = length (concat (P @ (xs @ ys) # Q))" using Suc.hyps(2) d(2) by simp
  from Suc.hyps(1) [OF this d(5,4)] obtain h' m' B' where
    r: "hash_map_destroy_loop h1 m1 = Some (h', m')" "hmap_env km h' m'" "hmap_ok h' m' B'"
      "concat B' = []" "hm_hlist h' = hm_hlist h1" "length B' = length (P @ (xs @ ys) # Q)"
      "blocks m' = filter (\<lambda>(b, s). b \<notin> set (concat (P @ (xs @ ys) # Q))) (blocks m1)"
      "hm_touches (map_cells h1 (P @ (xs @ ys) # Q)) m1 m'" by blast
  ultimately have "hash_map_destroy_loop h m = Some (h', m')"
    using pb by (subst hash_map_destroy_loop.simps) simp
  moreover have "blocks m' = filter (\<lambda>(b, s). b \<notin> set (concat B)) (blocks m)"
    unfolding r(7) d(6) by (subst d(2)) (auto intro: filter_cong)
  moreover have "hm_touches (map_cells h B) m m'"
  proof (rule hm_touches_mono [OF hm_touches_trans [OF d(7) r(8)]])
    have "head_of h1 = head_of h" unfolding d(3) by (simp add: head_of_def fun_eq_iff)
    then show "set (head_of h (length P) # xs @ hlist_node_p p # ys) \<union> map_cells h1 (P @ (xs @ ys) # Q) \<subseteq> map_cells h B"
      unfolding map_cells_def d(3) using arg_cong [OF d(2), of set] arg_cong [OF d(2), of length] d(2) by auto
  qed
  ultimately show ?case using r d(2,3) by auto
qed

lemma hash_map_destroy_spec:
  assumes "hmap_env km h m" and "hmap_ok h m B"
  shows "\<exists>h' m'. hash_map_destroy h m = Some (h', m') \<and> mem_ok m'
    \<and> blocks m' = filter (\<lambda>(b, s). b \<notin> set (hm_hlist h # concat B)) (blocks m)
    \<and> hm_touches (map_cells h B) m m'"
proof -
  from hash_map_destroy_loop_spec [OF assms] obtain h1 m1 B' where
    r: "hash_map_destroy_loop h m = Some (h1, m1)" "hmap_env km h1 m1" "hmap_ok h1 m1 B'"
      "concat B' = []" "hm_hlist h1 = hm_hlist h"
      "blocks m1 = filter (\<lambda>(b, s). b \<notin> set (concat B)) (blocks m)"
      "hm_touches (map_cells h B) m m1" by blast
  have "hash_map_pos_equal (hm_end h1) (hm_begin h1)"
    using r(3,4) positions_empty [of h1 0 B'] by (simp add: hmap_ok_def begin_ok_def hash_map_pos_equal_def)
  moreover have hb: "(hm_hlist h1, 4 * length B') \<in> set (blocks m1)"
    using r(3) chains_ok_facts(1) by (auto simp: hmap_ok_def)
  then obtain m2 where m2: "kfree (hm_hlist h1) m1 = Some m2" using kfree_block by blast
  moreover have "hm_hlist h1 \<noteq> NULL"
    using blocks_ok_good [OF _ hb] r(2) by (simp add: hmap_env_def good_block_def)
  ultimately have "hash_map_destroy h m = Some (h1, m2)"
    using r(1,2) by (simp add: hash_map_destroy_def hmap_env_def)
  moreover have "blocks m2 = filter (\<lambda>(b, s). b \<notin> set (hm_hlist h # concat B)) (blocks m)"
    using m2 \<open>hm_hlist h1 \<noteq> NULL\<close> r(5,6) by (auto simp: kfree_Some_iff intro: filter_cong)
  moreover have "mem_ok m2" using kfree_mem_ok [OF _ m2] r(2) by (simp add: hmap_env_def)
  moreover have "hm_hlist h1 \<in> map_cells h B" using r(5) by (simp add: map_cells_def)
  from hm_touches_trans [OF r(7) hm_touches_kfree [OF m2 this]] have "hm_touches (map_cells h B) m m2" by simp
  ultimately show ?thesis by blast
qed

section \<open>Creation and traversal\<close>

lemma hash_map_init_spec:
  assumes env: "hmap_env km h m" and bs: "0 < unat bsz" "4 * unat bsz < 2 ^ 32"
    and sz: "unat ksz \<le> unat dsz" "unat dsz + 20 < 2 ^ 32"
    and a: "kmalloc km (4 * unat bsz) m = (p, m1)" "p \<noteq> NULL"
  shows "\<exists>h' m'. hash_map_init km h ksz dsz bsz hash cmp m = Some (0, h', m')
    \<and> hmap_ok h' m' (replicate (unat bsz) []) \<and> hmap_env km h' m'
    \<and> hm_hash_func h' = hash \<and> hm_key_cmp_func h' = cmp \<and> hm_hlist h' = p
    \<and> hm_key_size h' = ksz \<and> hm_data_size h' = dsz \<and> hm_bucket_size h' = bsz"
proof -
  let ?n = "4 * unat bsz"
  have n: "unat (word_of_nat sizeof_hlist_head * bsz) = ?n"
    using bs(2) by (simp add: sizeof_hlist_head_def unat_word_ariths)
  let ?m = "m1\<lparr>hptr := (\<lambda>q. if unat p \<le> unat q \<and> unat q < unat p + ?n then NULL else hptr m1 q)\<rparr>"
  have m1: "m1 = m\<lparr>ticks := Suc (ticks m), blocks := (p, ?n) # blocks m\<rparr>" by (rule kmalloc_some [OF a])
  have c: "clear_heads p ?n m1 = Some ?m"
    using kmalloc_valid_new [OF a] bs(1) by (simp add: clear_heads_def)
  let ?h = "h\<lparr>hm_data_size := dsz, hm_key_size := ksz, hm_bucket_size := bsz,
        hm_hash_func := hash, hm_key_cmp_func := cmp, hm_hlist := p, hm_begin := hash_map_pos_init NULL 0 p (hm_self h),
        hm_end := hash_map_pos_init NULL (bsz - 1) p (hm_self h)\<rparr>"
  have eq: "hash_map_init km h ksz dsz bsz hash cmp m = Some (0, ?h, ?m)"
    using env a(1) n c by (simp add: hash_map_init_def Let_def hmap_env_def)
  have mo: "mem_ok m1" using kmalloc_mem_ok [OF _ _ _ a(1)] env bs(1) by (simp add: hmap_env_def)
  have hb: "(p, ?n) \<in> set (blocks ?m)" using m1 by simp
  have top: "unat p + ?n \<le> 2 ^ 32"
    using blocks_ok_good [of "blocks m1" "(p, ?n)"] mo m1 by (simp add: good_block_def)
  have "hlist ?m (head_of ?h i) []" if "i < unat bsz" for i
  proof -
    have "unat (head_of ?h i) = unat p + 4 * i"
      using unat_head_of [of ?h "unat bsz" i] top that by simp
    moreover have "valid ?m (head_of ?h i) sizeof_hlist_head"
      by (rule head_of_valid [of ?h "unat bsz"]) (use hb top that in simp_all)
    ultimately show ?thesis using that by (simp add: hlist_def)
  qed
  then have "chains_ok ?h ?m (replicate (unat bsz) [])"
    using hb top sz bs by (simp add: chains_ok_def sizeof_node_def sizeof_hash_map_node_def)
  moreover have "positions ?h i (replicate k []) = []" for i k
    by (induction k arbitrary: i) auto
  then have "begin_ok ?h (replicate (unat bsz) [])" by (simp add: begin_ok_def)
  ultimately have "hmap_ok ?h ?m (replicate (unat bsz) [])" by (simp add: hmap_ok_def)
  moreover have "hmap_env km ?h ?m" using env mo m1 by (simp add: hmap_env_def sys_registered_def)
  ultimately show ?thesis using eq by (intro exI [of _ ?h] exI [of _ ?m]) simp
qed

text \<open>A visitor that keeps the map intact is called on each node once, bucket by bucket.\<close>

lemma hash_map_for_each_spec:
  assumes ok: "hmap_ok h m B" and I: "I m"
    and func: "\<And>x m t. x \<in> set (concat B) \<Longrightarrow> I m \<Longrightarrow> chains_ok h m B \<Longrightarrow> func x m = Some t \<Longrightarrow> I t \<and> chains_ok h t B"
  shows "hash_map_for_each func h m = foldM func (concat B) m"
proof -
  have e0: "hlist_node_p (hm_end h) = NULL" using ok by (simp add: hmap_ok_def)
  have step: "hash_map_for_each_from func h (case qs of [] \<Rightarrow> q | p # _ \<Rightarrow> p) m
      = foldM func (map hlist_node_p qs) m"
    if "positions h 0 B = ps @ qs" "qs = [] \<Longrightarrow> hlist_node_p q = NULL" "I m" "chains_ok h m B" for ps qs q m
    using that
  proof (induction qs arbitrary: ps q m)
    case Nil
    then show ?case
      by (simp add: hash_map_for_each_from.simps hash_map_pos_equal_def hash_map_end_def e0)
  next
    case (Cons p qs)
    have pn: "hlist_node_p p \<in> set (concat B)"
      unfolding positions_nodes [of h 0 B, symmetric] Cons.prems(1) by simp
    have p0: "hlist_node_p p \<noteq> NULL" using chains_ok_node [OF Cons.prems(4) pn] by simp
    show ?case
    proof (cases "func (hlist_node_p p) m")
      case None
      then show ?thesis using p0
        by (simp add: hash_map_for_each_from.simps [of func h p] hash_map_pos_equal_def hash_map_end_def e0)
    next
      case (Some t)
      note t = func [OF pn Cons.prems(3,4) Some]
      obtain q' where q': "hash_map_pos_next h p t = Some q'"
        "case qs of [] \<Rightarrow> hlist_node_p q' = NULL | r # _ \<Rightarrow> q' = r"
        using hash_map_pos_next_spec [of h t B ps p qs] t Cons.prems(1) by blast
      have "hash_map_for_each_from func h (case qs of [] \<Rightarrow> q' | r # _ \<Rightarrow> r) t
          = foldM func (map hlist_node_p qs) t"
        by (rule Cons.IH [of "ps @ [p]"]) (use Cons.prems(1) q' t in \<open>auto split: list.splits\<close>)
      moreover have "(case qs of [] \<Rightarrow> q' | r # _ \<Rightarrow> r) = q'" using q'(2) by (cases qs) auto
      ultimately show ?thesis using Some p0 q'(1)
        by (simp add: hash_map_for_each_from.simps [of func h p] hash_map_pos_equal_def hash_map_end_def e0)
    qed
  qed
  have "hash_map_for_each func h m = foldM func (map hlist_node_p (positions h 0 B)) m"
  proof (cases "positions h 0 B")
    case Nil
    then show ?thesis using step [of "[]" "[]" "hm_begin h" m] ok I
      by (simp add: hash_map_for_each_def hash_map_begin_def hmap_ok_def begin_ok_def)
  next
    case (Cons p qs)
    then show ?thesis using step [of "[]" "p # qs" "hm_begin h" m] ok I
      by (simp add: hash_map_for_each_def hash_map_begin_def hmap_ok_def begin_ok_def)
  qed
  then show ?thesis by (simp only: positions_nodes)
qed

section \<open>The interface of a table\<close>

text \<open>
  What a client relies on that only inserts and looks up: \<open>repr s f\<close> says that the state \<open>s\<close>
  represents the finite map \<open>f\<close> on the keys that are \<open>ok_key\<close>.
\<close>

locale table =
  fixes repr :: "'s \<Rightarrow> ('k \<Rightarrow> 'v option) \<Rightarrow> bool"
    and ok_key :: "'k \<Rightarrow> bool"
    and put :: "'k \<Rightarrow> 'v \<Rightarrow> 's \<Rightarrow> 's option"
    and get :: "'k \<Rightarrow> 's \<Rightarrow> 'v option option"
  assumes put_repr: "repr s f \<Longrightarrow> put k v s = Some s' \<Longrightarrow> repr s' (f(k \<mapsto> v))"
    and get_repr: "repr s f \<Longrightarrow> ok_key k \<Longrightarrow> get k s = Some (f k)"
begin

lemma puts_repr:
  "repr s f \<Longrightarrow> foldM (\<lambda>(k, v). put k v) kvs s = Some s' \<Longrightarrow> repr s' (f ++ map_of (rev kvs))"
proof (induction kvs arbitrary: s f)
  case (Cons kv kvs)
  obtain k v where kv: "kv = (k, v)" by (cases kv)
  with Cons.prems(2) obtain t where t: "put k v s = Some t" "foldM (\<lambda>(k, v). put k v) kvs t = Some s'"
    by (auto split: Option.bind_splits)
  have "f(k \<mapsto> v) ++ map_of (rev kvs) = f ++ map_of (rev (kv # kvs))"
    by (auto simp: kv map_add_def fun_eq_iff split: option.splits)
  with Cons.IH [OF put_repr [OF Cons.prems(1) t(1)] t(2)] show ?case by (simp only:)
qed simp

text \<open>The last value put under a key is the one found; a key never put is not found.\<close>

lemma get_after_puts:
  assumes "repr s (\<lambda>_. None)" and "foldM (\<lambda>(k, v). put k v) kvs s = Some s'" and "ok_key k"
  shows "get k s' = Some (map_of (rev kvs) k)"
  using get_repr [OF puts_repr [OF assms(1,2)] assms(3)] by simp

lemma get_distinct_puts:
  assumes "repr s (\<lambda>_. None)" and "foldM (\<lambda>(k, v). put k v) kvs s = Some s'"
    and "distinct (map fst kvs)" and "(k, v) \<in> set kvs" and "ok_key k"
  shows "get k s' = Some (Some v)"
  using get_after_puts [OF assms(1,2,5)] assms(3,4)
  by (simp add: distinct_map rev_map [symmetric] map_of_eq_Some_iff)

end

text \<open>The hash map as a table of byte strings, for key sizes that fit in \<open>value_pos\<close>.\<close>

definition hmap_abs :: "hash_map \<Rightarrow> 'z hmem_scheme \<Rightarrow> addr list list \<Rightarrow> bytes \<Rightarrow> bytes option" where
  "hmap_abs h m B k = map_option (node_value h m) (find (\<lambda>x. node_key h m x = k) (concat B))"

definition hmap_repr ::
  "kmalloc_fn \<Rightarrow> nat \<Rightarrow> hash_map \<times> 'z hmem_scheme \<Rightarrow> (bytes \<Rightarrow> bytes option) \<Rightarrow> bool" where
  "hmap_repr km n s f =
     (hmap_env km (fst s) (snd s) \<and> hash_ok (fst s) \<and> unat (hm_key_size (fst s)) = n \<and> n < 256 \<and>
      (\<exists>B. hmap_ok (fst s) (snd s) B \<and> f = hmap_abs (fst s) (snd s) B))"

definition hmap_put ::
  "kmalloc_fn \<Rightarrow> bytes \<Rightarrow> bytes \<Rightarrow> hash_map \<times> 'z hmem_scheme \<Rightarrow> (hash_map \<times> 'z hmem_scheme) option"
where
  "hmap_put km k v s = do {
     assert_opt (length k = unat (hm_key_size (fst s)) \<and> length (k @ v) = unat (hm_data_size (fst s)));
     (r, h, m) \<leftarrow> hash_map_insert km (fst s) (k @ v) (snd s);
     assert_opt (r = 0);
     Some (h, m)
   }"

text \<open>The bytes of a node from the address \<open>a\<close> inside its \<open>key\<close> array on.\<close>

definition bytes_from :: "addr \<Rightarrow> addr \<Rightarrow> 'z hmem_scheme \<Rightarrow> bytes" where
  "bytes_from node a m = drop (unat (a - node) - offset_hn_key) (hn_key m node)"

definition hmap_get :: "bytes \<Rightarrow> hash_map \<times> 'z hmem_scheme \<Rightarrow> bytes option option" where
  "hmap_get k s = do {
     pos \<leftarrow> hash_map_search (fst s) k (snd s);
     if hlist_node_p pos = NULL then Some None
     else do {
       a \<leftarrow> hash_map_pos_get_pointer pos (snd s);
       Some (Some (bytes_from (hlist_node_p pos) a (snd s))) }
   }"

lemma hmap_put_repr:
  assumes r: "hmap_repr km n s f" and p: "hmap_put km k v s = Some s'"
  shows "hmap_repr km n s' (f(k \<mapsto> v))"
proof -
  obtain h m where s: "s = (h, m)" by fastforce
  obtain h' m' where s': "s' = (h', m')" by fastforce
  let ?ks = "unat (hm_key_size h)"
  from r s obtain B where env: "hmap_env km h m" and hs: "hash_ok h" and n: "?ks = n" "n < 256"
    and ok: "hmap_ok h m B" and f: "f = hmap_abs h m B"
    by (auto simp: hmap_repr_def)
  from p s s' have len: "length k = ?ks" "length (k @ v) = unat (hm_data_size h)"
    and ins: "hash_map_insert km h (k @ v) m = Some (0, h', m')"
    by (auto simp: hmap_put_def split: Option.bind_splits)
  have co: "chains_ok h m B" using ok by (simp add: hmap_ok_def)
  have sz: "unat (word_of_nat sizeof_hash_map_node + hm_data_size h) = sizeof_node h"
    using chains_ok_facts(4) [OF co] by (simp add: sizeof_node_def sizeof_hash_map_node_def unat_word_ariths)
  obtain q m1 where a: "kmalloc km (sizeof_node h) m = (q, m1)" by fastforce
  have q: "q \<noteq> NULL" using ins env a sz by (auto simp: hash_map_insert_def hmap_env_def Let_def)
  have "unat (hm_data_size h) \<le> length (k @ v)" using len(2) by simp
  from hash_map_insert_spec [OF env ok hs this a q] ins obtain P c Q beg where
    B: "B = P @ c # Q" and h': "h' = h\<lparr>hm_begin := beg\<rparr>" and ok': "hmap_ok h' m' (P @ (q # c) # Q)"
    and env': "hmap_env km h' m'"
    and b: "hm_hash_func h (k @ v) (hm_key_size h) (hm_bucket_size h) = Some (word_of_nat (length P))"
    and key: "hn_key m' = (hn_key m)(q := k @ v)" and new: "q \<notin> set (concat B)"
    using len(2) by auto
  let ?B = "P @ (q # c) # Q"
  have hs': "hash_ok h'" using hs unfolding h' by simp
  have co': "chains_ok h' m' ?B" using ok' by (simp add: hmap_ok_def)
  have nk: "node_key h' m' x = (if x = q then k else node_key h m x)"
    "node_value h' m' x = (if x = q then v else node_value h m x)" for x
    using h' key len(1) by (simp_all add: node_key_def node_value_def)
  have "hmap_abs h' m' ?B k' = (f(k \<mapsto> v)) k'" for k'
  proof (cases "k' = k")
    case True
    have uw: "unat (word_of_nat (length P) :: u32) = length P"
      using chains_ok_length [OF co, of "length P"] B by simp
    have "find (\<lambda>x. node_key h' m' x = k) (concat ?B) = find (\<lambda>x. node_key h' m' x = k) (?B ! length P)"
    proof (rule find_concat_bucket)
      fix j x assume j: "j < length ?B" "x \<in> set (?B ! j)" "node_key h' m' x = k"
      have "unat (hm_key_size h') \<le> length (k @ v)"
        "hm_hash_func h' (k @ v) (hm_key_size h') (hm_bucket_size h') = Some (word_of_nat (length P))"
        "node_key h' m' x = take (unat (hm_key_size h')) (k @ v)"
        using h' len(1) b j(3) by auto
      from same_key_same_bucket [OF co' hs' this(1,2) j(1,2) this(3)] show "j = length P" by (simp add: uw)
    qed simp
    then show ?thesis using True nk by (simp add: hmap_abs_def)
  next
    case False
    have nq: "q \<notin> set (concat P)" "q \<notin> set c" "q \<notin> set (concat Q)" using new B by auto
    have e: "find (\<lambda>x. node_key h' m' x = k') xs = find (\<lambda>x. node_key h m x = k') xs" if "q \<notin> set xs" for xs
      using that nk by (induction xs) auto
    have app: "find P' (xs @ ys) = (case find P' xs of None \<Rightarrow> find P' ys | Some r \<Rightarrow> Some r)" for P' and xs ys :: "addr list"
      by (induction xs) auto
    have "find (\<lambda>x. node_key h' m' x = k') (q # c) = find (\<lambda>x. node_key h m x = k') c"
      using False nk(1) [of q] e [OF nq(2)] by simp
    then have "find (\<lambda>x. node_key h' m' x = k') (concat ?B) = find (\<lambda>x. node_key h m x = k') (concat B)"
      by (simp only: B concat_append concat.simps app e [OF nq(1)] e [OF nq(3)])
    moreover have "x \<noteq> q" if "find (\<lambda>x. node_key h m x = k') (concat B) = Some x" for x
      using that new by (metis find_Some_iff nth_mem)
    ultimately show ?thesis using False nk(2) f
      by (cases "find (\<lambda>x. node_key h m x = k') (concat B)") (auto simp: hmap_abs_def)
  qed
  then have "f(k \<mapsto> v) = hmap_abs h' m' ?B" by (simp add: fun_eq_iff)
  then show ?thesis using env' hs' h' n ok' unfolding hmap_repr_def s' by auto
qed

lemma hmap_get_repr:
  assumes r: "hmap_repr km n s f" and k: "length k = n"
  shows "hmap_get k s = Some (f k)"
proof -
  obtain h m where s: "s = (h, m)" by fastforce
  from r s obtain B where hs: "hash_ok h" and n: "unat (hm_key_size h) = n" "n < 256"
    and ok: "hmap_ok h m B" and f: "f = hmap_abs h m B"
    by (auto simp: hmap_repr_def)
  have co: "chains_ok h m B" using ok by (simp add: hmap_ok_def)
  have "unat (hm_key_size h) \<le> length k" "take (unat (hm_key_size h)) k = k" using k n by simp_all
  with hash_map_search_spec [OF co hs this(1)] obtain i where
    se: "hash_map_search h k m = Some (case find (\<lambda>x. node_key h m x = k) (concat B) of
      None \<Rightarrow> pos_of h i NULL | Some x \<Rightarrow> pos_of h i x)" by auto
  show ?thesis
  proof (cases "find (\<lambda>x. node_key h m x = k) (concat B)")
    case None
    with se s f show ?thesis by (simp add: hmap_get_def hmap_abs_def)
  next
    case (Some x)
    then have x: "x \<in> set (concat B)" by (metis find_Some_iff nth_mem)
    note nd = chains_ok_node [OF co x]
    have "valid m x offset_hn_key"
      by (rule valid_block [of x "sizeof_node h"])
        (use nd in \<open>simp_all add: offset_hn_key_def sizeof_node_def sizeof_hash_map_node_def\<close>)
    moreover have "unat (ucast (ucast (hm_key_size h) :: u8) :: addr) = n"
      using n by (simp add: unsigned_ucast_eq unsigned_take_bit_eq take_bit_nat_eq_self)
    then have "unat (word_of_nat offset_hn_key + ucast (ucast (hm_key_size h) :: u8) :: addr) = 16 + n"
      using n(2) by (simp add: offset_hn_key_def unat_word_ariths)
    ultimately show ?thesis using Some se s f nd n
      by (simp add: hmap_get_def hmap_abs_def hash_map_pos_get_pointer_def bytes_from_def
          node_value_def offset_hn_key_def add.assoc)
  qed
qed

interpretation hm: table "hmap_repr km n" "\<lambda>k. length k = n" "hmap_put km" hmap_get for km n
  by unfold_locales (fact hmap_put_repr hmap_get_repr)+

section \<open>A sample map\<close>

text \<open>Two-byte keys with one-byte values, five buckets, the entries 1,1 and 1,2.\<close>

definition hmem0 :: hmem where
  "hmem0 = \<lparr>blocks = [], ticks = 0, lnext = (\<lambda>_. NULL), lprev = (\<lambda>_. NULL), hptr = (\<lambda>_. NULL),
     hpprev = (\<lambda>_. NULL), allocator_modules = [salloc, zero_module], ldata = (\<lambda>_. []),
     hn_value_pos = (\<lambda>_. 0), hn_data_size = (\<lambda>_. 0), hn_key = (\<lambda>_. [])\<rparr>"

definition hmap0 :: hash_map where
  "hmap0 = \<lparr>hm_self = NULL, hm_bucket_size = 0, hm_data_size = 0, hm_key_size = 0,
     hm_hash_func = default_hash_func, hm_key_cmp_func = default_key_cmp_func, hm_hlist = NULL,
     hm_begin = hash_map_pos_init NULL 0 NULL NULL, hm_end = hash_map_pos_init NULL 0 NULL NULL,
     hm_lock_type = 0, hm_allocator = al0\<rparr>"

definition hmap2 :: hash_map where
  "hmap2 = hmap0\<lparr>hm_bucket_size := 5, hm_data_size := 3, hm_key_size := 2, hm_hlist := 0xC0000000,
     hm_begin := hash_map_pos_init 0xC0000030 2 0xC0000000 NULL,
     hm_end := hash_map_pos_init NULL 4 0xC0000000 NULL\<rparr>"

definition hmap2_mem :: hmem where
  "hmap2_mem = hmem0\<lparr>blocks := [(0xC0000030, 23), (0xC0000018, 23), (0xC0000000, 20)], ticks := 3,
     hptr := (\<lambda>_. NULL)(0xC000000C := 0xC0000018, 0xC0000008 := 0xC0000030),
     hpprev := (\<lambda>_. NULL)(0xC0000018 := 0xC000000C, 0xC0000030 := 0xC0000008),
     hn_value_pos := (\<lambda>_. 0)(0xC0000018 := 2, 0xC0000030 := 2),
     hn_data_size := (\<lambda>_. 0)(0xC0000018 := 3, 0xC0000030 := 3),
     hn_key := (\<lambda>_. [])(0xC0000018 := [1, 2, 7], 0xC0000030 := [1, 1, 8])\<rparr>"

definition hmap2_chains :: "addr list list" where
  "hmap2_chains = [[], [], [0xC0000030], [0xC0000018], []]"

lemma all_less_Suc_five: "(\<forall>i < 5. P i) = (P 0 \<and> P (Suc 0) \<and> P 2 \<and> P 3 \<and> P (4 :: nat))"
proof -
  have "(i < 5) = (i = 0 \<or> i = Suc 0 \<or> i = 2 \<or> i = 3 \<or> i = (4 :: nat))" for i by auto
  then show ?thesis by auto
qed

lemma hmem0_ok: "hmap_env bump hmap0 hmem0"
  by (simp add: hmap_env_def bump_ok hmem0_def hmap0_def sys_registered_def blocks_ok_def)

lemma hmap2_env: "hmap_env bump hmap2 hmap2_mem"
  by (simp add: hmap_env_def bump_ok hmem0_def hmap0_def hmap2_def hmap2_mem_def sys_registered_def
      blocks_ok_def disjoint_blocks_def good_block_def)

lemma hmap2_length: "length hmap2_chains = 5"
  by (simp add: hmap2_chains_def)

lemma hmap2_ok: "hmap_ok hmap2 hmap2_mem hmap2_chains"
proof -
  have "chains_ok hmap2 hmap2_mem hmap2_chains"
    unfolding chains_ok_def hmap2_length all_less_Suc_five
    by (simp add: hmap2_chains_def hmap2_def hmap2_mem_def hmap0_def hmem0_def head_of_def bucket_head_def
        sizeof_hlist_head_def sizeof_hlist_node_def sizeof_node_def sizeof_hash_map_node_def hlist_def
        valid_def node_ok_def default_hash_func_def hash_sum_take)
  then show ?thesis
    by (simp add: hmap_ok_def begin_ok_def hmap2_chains_def hmap2_def hmap0_def)
qed

lemma hmap2_hash: "hash_ok hmap2"
  by (rule default_hash_ok) (simp_all add: hmap2_def hmap0_def)

section \<open>Properties\<close>

text \<open>C4. The hash map is a finite map: after any sequence of insertions into an empty map, a lookup
  finds the value put last under the key, and nothing for a key that was never put.\<close>

theorem hash_map_is_a_map:
  assumes "hmap_repr km n s (\<lambda>_. None)" and "foldM (\<lambda>(k, v). hmap_put km k v) kvs s = Some s'"
    and "length k = n"
  shows "hmap_get k s' = Some (map_of (rev kvs) k)"
  using hm.get_after_puts [OF assms] .

theorem hash_map_is_a_map_witness:
  "\<exists>(s :: hash_map \<times> hmem) s'. foldM (\<lambda>(k, v). hmap_put bump k v) [([1, 2], [7]), ([2, 1], [8]), ([1, 2], [9])] s = Some s' \<and>
     hmap_get [1, 2] s' = Some (Some [9]) \<and> hmap_get [2, 1] s' = Some (Some [8]) \<and> hmap_get [3, 3] s' = Some None"
proof -
  let ?kvs = "[([1, 2], [7]), ([2, 1], [8]), ([1, 2], [9])] :: (bytes \<times> bytes) list"
  have u: "0 < unat (5 :: u32)" "4 * unat (5 :: u32) < 2 ^ 32" "unat (2 :: u32) \<le> unat (3 :: u32)"
    "unat (3 :: u32) + 20 < 2 ^ 32" by simp_all
  obtain m1 where k: "kmalloc bump (4 * unat (5 :: u32)) hmem0 = (0xC0000000, m1)"
    by (simp add: bump_defs hmem0_def)
  obtain h m where i: "hash_map_init bump hmap0 2 3 5 default_hash_func default_key_cmp_func hmem0 = Some (0, h, m)"
      "hmap_ok h m (replicate (unat (5 :: u32)) [])" "hmap_env bump h m" "hm_hash_func h = default_hash_func"
      "hm_key_cmp_func h = default_key_cmp_func" "hm_key_size h = 2" "hm_bucket_size h = 5"
    using hash_map_init_spec [OF hmem0_ok u k, where hash = default_hash_func and cmp = default_key_cmp_func]
    by auto
  have "hash_ok h" by (rule default_hash_ok) (use i in simp_all)
  moreover have "hmap_abs h m (replicate (unat (5 :: u32)) []) = (\<lambda>_. None)"
    by (simp add: hmap_abs_def fun_eq_iff)
  ultimately have r: "hmap_repr bump 2 (h, m) (\<lambda>_. None)" using i unfolding hmap_repr_def by fastforce
  have "do { (r, h, m) \<leftarrow> hash_map_init bump hmap0 2 3 5 default_hash_func default_key_cmp_func hmem0;
      foldM (\<lambda>(k, v). hmap_put bump k v) ?kvs (h, m) } \<noteq> None"
    by (simp add: hash_map_init_def hmap0_def hmem0_def clear_heads_def hmap_put_def hash_map_insert_def
        bump_defs valid_def fill_node_def sizeof_hash_map_node_def INIT_HLIST_NODE_def haccess_defs
        sizeof_hlist_node_def rd_node_key_def hlist_add_head_def bucket_head_def default_hash_func_def
        offset_hn_key_def sys_registered_def sizeof_hlist_head_def hash_sum_take hash_map_pos_init_def)
  with i(1) obtain s' where s': "foldM (\<lambda>(k, v). hmap_put bump k v) ?kvs (h, m) = Some s'" by auto
  from hash_map_is_a_map [OF r s'] have
    "hmap_get [1, 2] s' = Some (Some [9])" "hmap_get [2, 1] s' = Some (Some [8])" "hmap_get [3, 3] s' = Some None"
    by simp_all
  with s' show ?thesis by blast
qed

text \<open>C18. \<open>hash_map_insert\<close> keeps the representation invariant: the new node becomes the first of the
  chain of its key's bucket, all other chains are as before, and the cached first position is the
  first node of the lowest bucket in use.\<close>

theorem hash_map_insert_invariant:
  assumes "hmap_env km h m" and "hmap_ok h m B" and "hash_ok h" and "length data = unat (hm_data_size h)"
    and "kmalloc km (sizeof_node h) m = (p, m1)" and "p \<noteq> NULL"
  shows "\<exists>h' m' P c Q. hash_map_insert km h data m = Some (0, h', m') \<and> B = P @ c # Q \<and>
    hmap_ok h' m' (P @ (p # c) # Q) \<and>
    hm_hash_func h data (hm_key_size h) (hm_bucket_size h) = Some (word_of_nat (length P)) \<and>
    hn_key m' = (hn_key m)(p := data) \<and> p \<notin> set (concat B)"
proof -
  have "unat (hm_data_size h) \<le> length data" using assms(4) by simp
  from hash_map_insert_spec [OF assms(1-3) this assms(5,6)] obtain h' m' P c Q where
    "hash_map_insert km h data m = Some (0, h', m')" "B = P @ c # Q" "hmap_ok h' m' (P @ (p # c) # Q)"
    "hm_hash_func h data (hm_key_size h) (hm_bucket_size h) = Some (word_of_nat (length P))"
    "hn_key m' = (hn_key m)(p := take (unat (hm_data_size h)) data)" "p \<notin> set (concat B)"
    by blast
  moreover have "take (unat (hm_data_size h)) data = data" using assms(4) by simp
  ultimately show ?thesis by metis
qed

theorem hash_map_insert_invariant_witness:
  "\<exists>h' m' P c Q. hash_map_insert bump hmap2 [4, 3, 5] hmap2_mem = Some (0, h', m') \<and>
     hmap2_chains = P @ c # Q \<and> hmap_ok h' m' (P @ (0xC0000048 # c) # Q) \<and> length P = 2"
proof -
  obtain m1 where k: "kmalloc bump (sizeof_node hmap2) hmap2_mem = (0xC0000048, m1)"
    by (simp add: bump_defs sizeof_node_def sizeof_hash_map_node_def hmap2_def hmap2_mem_def)
  have "length [4, 3, 5 :: u8] = unat (hm_data_size hmap2)" by (simp add: hmap2_def)
  from hash_map_insert_invariant [OF hmap2_env hmap2_ok hmap2_hash this k] obtain h' m' P c Q where
    r: "hash_map_insert bump hmap2 [4, 3, 5] hmap2_mem = Some (0, h', m')" "hmap2_chains = P @ c # Q"
      "hmap_ok h' m' (P @ (0xC0000048 # c) # Q)"
      "hm_hash_func hmap2 [4, 3, 5] (hm_key_size hmap2) (hm_bucket_size hmap2) = Some (word_of_nat (length P))"
    by auto
  have "(2 :: u32) = word_of_nat (length P)"
    using r(4) by (simp add: hmap2_def hmap0_def default_hash_func_def hash_sum_take)
  moreover have "length P < 5" using arg_cong [OF r(2), of length] by (simp add: hmap2_length)
  ultimately have "length P = 2" using unat_word_of_nat [of "length P", where 'a = 32]
    by (auto dest: arg_cong [of _ _ unat])
  with r show ?thesis by blast
qed

text \<open>C12. \<open>hash_map_delete\<close> at any position of the map unlinks exactly that node, releases its block and
  keeps the invariant, the cached first position included.\<close>

theorem hash_map_delete_invariant:
  assumes "hmap_env km h m" and "hmap_ok h m B" and "positions h 0 B = ps @ p # qs"
  shows "\<exists>h' m' P xs ys Q. hash_map_delete h p m = Some (0, h', m') \<and>
    B = P @ (xs @ hlist_node_p p # ys) # Q \<and> hmap_ok h' m' (P @ (xs @ ys) # Q) \<and>
    blocks m' = filter (\<lambda>(b, s). b \<noteq> hlist_node_p p) (blocks m)"
  using hash_map_delete_spec [OF assms] by blast

theorem hash_map_delete_invariant_witness:
  "\<exists>h' m'. hash_map_delete hmap2 (hm_begin hmap2) hmap2_mem = Some (0, h', m') \<and>
     blocks m' = [(0xC0000018, 23), (0xC0000000, 20)]"
proof -
  have "positions hmap2 0 hmap2_chains = [] @ hm_begin hmap2 # [hash_map_pos_init 0xC0000018 3 0xC0000000 NULL]"
    by (simp add: hmap2_chains_def hmap2_def hmap0_def)
  from hash_map_delete_invariant [OF hmap2_env hmap2_ok this] show ?thesis
    by (auto simp: hmap2_def hmap2_mem_def)
qed

text \<open>C23. \<open>hash_map_destroy\<close> terminates on every well-formed map and releases exactly the blocks of its
  nodes and of its bucket array.\<close>

theorem hash_map_destroy_releases:
  assumes "hmap_env km h m" and "hmap_ok h m B"
  shows "\<exists>h' m'. hash_map_destroy h m = Some (h', m') \<and> mem_ok m' \<and>
    blocks m' = filter (\<lambda>(b, s). b \<notin> set (hm_hlist h # concat B)) (blocks m)"
  using hash_map_destroy_spec [OF assms] by blast

theorem hash_map_destroy_releases_witness:
  "\<exists>h' m'. hash_map_destroy hmap2 hmap2_mem = Some (h', m') \<and> blocks m' = []"
  using hash_map_destroy_releases [OF hmap2_env hmap2_ok]
  by (auto simp: hmap2_chains_def hmap2_def hmap2_mem_def)

text \<open>C27. \<open>hash_map_for_each\<close> calls a visitor that leaves the map intact on every node exactly once, bucket
  after bucket, each chain from its newest node on.\<close>

theorem hash_map_for_each_visits_all:
  assumes "hmap_ok h m B"
    and "\<And>x m t. x \<in> set (concat B) \<Longrightarrow> chains_ok h m B \<Longrightarrow> func x m = Some t \<Longrightarrow> chains_ok h t B"
  shows "hash_map_for_each func h m = foldM func (concat B) m \<and> distinct (concat B)"
  using hash_map_for_each_spec [where I = "\<lambda>_. True", OF assms(1)] assms
  by (auto simp: hmap_ok_def dest: chains_ok_facts(5))

theorem hash_map_for_each_visits_all_witness:
  "hash_map_for_each (\<lambda>x m. Some m) hmap2 hmap2_mem =
     foldM (\<lambda>x m. Some m) [0xC0000030, 0xC0000018] hmap2_mem"
  using hash_map_for_each_visits_all [OF hmap2_ok, of "\<lambda>x m. Some m"] by (simp add: hmap2_chains_def)

end
