(* ===== verification/Text_Num.thy ===== *)
theory Text_Num
  imports Prelude
begin

text \<open>
  C strings and the number parsers of \<open>driver/libproto_analyzer/protocol_format_set.c\<close>. A C
  string is the list of its bytes without the terminator; a pointer to one is an option,
  \<open>None\<close> for NULL. Overflow of \<open>int\<close> wraps, as the kernel is compiled to do.
\<close>

section \<open>C strings\<close>

definition chars :: "string \<Rightarrow> bytes" where
  "chars s = map (\<lambda>c. word_of_nat (of_char c)) s"

text \<open>The string stored in an array: the bytes up to the first zero.\<close>

definition cstr :: "bytes \<Rightarrow> bytes" where
  "cstr b = takeWhile (\<lambda>c. c \<noteq> 0) b"

text \<open>\<open>strcpy(dst, src)\<close> into an array; a source that does not fit overruns it.\<close>

definition strcpy :: "bytes \<Rightarrow> bytes \<Rightarrow> bytes option" where
  "strcpy dst src =
     (if length src + 1 \<le> length dst then Some (src @ 0 # drop (length src + 1) dst) else None)"

definition strncmp2 :: "bytes \<Rightarrow> bytes \<Rightarrow> bool" where
  "strncmp2 s p = (take 2 s = p)"

section \<open>Numbers\<close>

fun hexstr_digits :: "bytes \<Rightarrow> u32 \<Rightarrow> u32" where
  "hexstr_digits [] ret = ret"
| "hexstr_digits (c # s) ret =
     (let t = (if 65 \<le> c \<and> c \<le> 70 then ucast c - 55 else ucast c - 48)
      in hexstr_digits s (push_bit 4 ret OR t))"

definition hexstr2num :: "bytes \<Rightarrow> u32" where
  "hexstr2num s =
     (if \<not> strncmp2 s [48, 120] \<and> \<not> strncmp2 s [48, 88] then - 1
      else if length s > 10 then - 1
      else hexstr_digits (drop 2 s) 0)"

fun atoi_digits :: "bytes \<Rightarrow> u32 \<Rightarrow> u32 option" where
  "atoi_digits [] result = Some result"
| "atoi_digits (c # s) result =
     (if c < 48 \<or> 57 < c then None else atoi_digits s (result * 10 + (ucast c - 48)))"

definition atoi :: "bytes option \<Rightarrow> u32" where
  "atoi str = (case str of
     None \<Rightarrow> - 1
   | Some s \<Rightarrow>
       (let signed = (case s of c # _ \<Rightarrow> c = 43 \<or> c = 45 | [] \<Rightarrow> False);
            minus = (case s of c # _ \<Rightarrow> c = 45 | [] \<Rightarrow> False)
        in case atoi_digits (if signed then tl s else s) 0 of
             None \<Rightarrow> - 1
           | Some r \<Rightarrow> if minus then - r else r))"

text \<open>A NULL string is dereferenced by the comparison with the prefix.\<close>

definition str2num :: "bytes option \<Rightarrow> u32 option" where
  "str2num str = do {
     s \<leftarrow> str;
     Some (if \<not> strncmp2 s [48, 120] \<and> \<not> strncmp2 s [48, 88] then atoi str else hexstr2num s)
   }"

section \<open>What the parsers compute\<close>

text \<open>The value of a digit string in a base, most significant digit first.\<close>

definition digits_value :: "nat \<Rightarrow> nat list \<Rightarrow> nat" where
  "digits_value base ds = foldl (\<lambda>v d. base * v + d) 0 ds"

definition dec_char :: "nat \<Rightarrow> u8" where
  "dec_char d = word_of_nat (48 + d)"

definition hex_char :: "nat \<Rightarrow> u8" where
  "hex_char d = (if d < 10 then word_of_nat (48 + d) else word_of_nat (55 + d))"

lemma unat_dec_char: "d < 10 \<Longrightarrow> unat (dec_char d) = 48 + d"
  unfolding dec_char_def by (rule unat_word_of_nat) simp

lemma unat_hex_char: "d < 16 \<Longrightarrow> unat (hex_char d) = (if d < 10 then 48 + d else 55 + d)"
  unfolding hex_char_def
  using unat_word_of_nat [of "48 + d", where 'a = 8] unat_word_of_nat [of "55 + d", where 'a = 8] by auto

lemma ucast_of_unat: "unat (c :: u8) = n \<Longrightarrow> (ucast c :: u32) = word_of_nat n"
  using of_nat_unat [of c] by auto

lemma atoi_digits_dec:
  "\<forall>d \<in> set ds. d < 10 \<Longrightarrow>
     atoi_digits (map dec_char ds) (word_of_nat v) = Some (word_of_nat (foldl (\<lambda>v d. 10 * v + d) v ds))"
proof (induction ds arbitrary: v)
  case (Cons d ds)
  then have u: "unat (dec_char d) = 48 + d" by (simp add: unat_dec_char)
  then have "\<not> dec_char d < 48" "\<not> 57 < dec_char d"
    using Cons.prems by (simp_all add: word_less_nat_alt)
  moreover have "(word_of_nat v * 10 + (ucast (dec_char d) - 48) :: u32) = word_of_nat (10 * v + d)"
    using ucast_of_unat [OF u] by simp
  ultimately have "atoi_digits (map dec_char (d # ds)) (word_of_nat v) = atoi_digits (map dec_char ds) (word_of_nat (10 * v + d))"
    by (simp only: list.map atoi_digits.simps) simp
  with Cons show ?case by (simp del: of_nat_add of_nat_mult)
qed simp

text \<open>A decimal number with an optional sign is read modulo $2^{32}$.\<close>

lemma dec_char_no_sign: "d < 10 \<Longrightarrow> dec_char d \<noteq> 43 \<and> dec_char d \<noteq> 45"
  using unat_dec_char [of d] by auto

lemma atoi_dec:
  assumes "\<forall>d \<in> set ds. d < 10"
  shows "atoi (Some (map dec_char ds)) = word_of_nat (digits_value 10 ds)"
    and "atoi (Some (45 # map dec_char ds)) = - word_of_nat (digits_value 10 ds)"
    and "atoi (Some (43 # map dec_char ds)) = word_of_nat (digits_value 10 ds)"
  using assms atoi_digits_dec [of ds 0] dec_char_no_sign
  by (cases ds; auto simp: atoi_def digits_value_def Let_def)+

lemma hexstr_digits_hex:
  "\<forall>d \<in> set ds. d < 16 \<Longrightarrow>
     hexstr_digits (map hex_char ds) (word_of_nat v) = word_of_nat (foldl (\<lambda>v d. 16 * v + d) v ds)"
proof (induction ds arbitrary: v)
  case (Cons d ds)
  have d: "d < 16" using Cons.prems by simp
  then have u: "unat (hex_char d) = (if d < 10 then 48 + d else 55 + d)" by (rule unat_hex_char)
  have "(if 65 \<le> hex_char d \<and> hex_char d \<le> 70 then ucast (hex_char d) - 55 else ucast (hex_char d) - 48)
      = (word_of_nat d :: u32)"
    using d u ucast_of_unat [OF u] by (auto simp: word_le_nat_alt split: if_splits)
  moreover have "push_bit 4 (word_of_nat v) OR word_of_nat d = (word_of_nat (16 * v + d) :: u32)"
  proof -
    have td: "take_bit 4 d = d" using d by (simp add: take_bit_nat_eq_self)
    have "\<not> bit (word_of_nat d :: u32) n" if "4 \<le> n" for n
      using that by (subst td [symmetric]) (auto simp: bit_of_nat_iff bit_take_bit_iff)
    then have "push_bit 4 (word_of_nat v) AND word_of_nat d = (0 :: u32)"
      by (auto simp: bit_eq_iff bit_and_iff bit_push_bit_iff)
    then have "push_bit 4 (word_of_nat v) OR word_of_nat d = (push_bit 4 (word_of_nat v) + word_of_nat d :: u32)"
      by (simp add: disjunctive_add_eq_or)
    then show ?thesis by (simp add: push_bit_eq_mult mult.commute)
  qed
  ultimately have "hexstr_digits (map hex_char (d # ds)) (word_of_nat v) = hexstr_digits (map hex_char ds) (word_of_nat (16 * v + d))"
    by (simp only: list.map hexstr_digits.simps Let_def)
  with Cons show ?case by (simp del: of_nat_add of_nat_mult)
qed simp

lemma hexstr2num_hex:
  assumes "\<forall>d \<in> set ds. d < 16" and "length ds \<le> 8" and "x = 120 \<or> x = 88"
  shows "hexstr2num (48 # x # map hex_char ds) = word_of_nat (digits_value 16 ds)"
  using assms hexstr_digits_hex [OF assms(1), of 0]
  by (auto simp: hexstr2num_def strncmp2_def digits_value_def)

text \<open>Lower-case digits are not decoded: \<open>0xa\<close> gives 49.\<close>

lemma hexstr2num_lower: "hexstr2num (chars ''0xa'') = 49"
  by (simp add: hexstr2num_def strncmp2_def chars_def of_char_def)

section \<open>Properties\<close>

text \<open>C40. \<open>atoi\<close> reads the decimal notation of a number, with or without a sign, modulo $2^{32}$.\<close>

theorem atoi_reads_decimal:
  assumes "\<forall>d \<in> set ds. d < 10"
  shows "atoi (Some (map dec_char ds)) = word_of_nat (digits_value 10 ds) \<and>
    atoi (Some (45 # map dec_char ds)) = - word_of_nat (digits_value 10 ds) \<and>
    atoi (Some (43 # map dec_char ds)) = word_of_nat (digits_value 10 ds)"
  using atoi_dec [OF assms] by blast

theorem atoi_reads_decimal_witness:
  "atoi (Some (map dec_char [1, 0, 7])) = 107 \<and> atoi (Some (45 # map dec_char [1, 0, 7])) = - 107"
  using atoi_reads_decimal [of "[1, 0, 7]"] by (simp add: digits_value_def)

text \<open>\<open>hexstr2num\<close> reads up to eight hexadecimal digits behind the prefix \<open>0x\<close> or \<open>0X\<close>, provided the
  letters are upper case; a lower-case digit is decoded as if it were a decimal one.\<close>

theorem hexstr2num_reads_upper_hex:
  assumes "\<forall>d \<in> set ds. d < 16" and "length ds \<le> 8" and "x = 120 \<or> x = 88"
  shows "hexstr2num (48 # x # map hex_char ds) = word_of_nat (digits_value 16 ds) \<and>
    hexstr2num (chars ''0xa'') = 49"
  using hexstr2num_hex [OF assms] hexstr2num_lower by blast

theorem hexstr2num_reads_upper_hex_witness:
  "hexstr2num (48 # 120 # map hex_char [15, 10, 1]) = 0xFA1 \<and> hexstr2num (chars ''0xa'') = 49"
  using hexstr2num_reads_upper_hex [of "[15, 10, 1]" 120] by (simp add: digits_value_def)

end
