(* ===== verification/Protocol_Format.thy ===== *)
theory Protocol_Format
  imports Hash_Map Text_Num
begin

text \<open>
  The protocol formats of \<open>driver/libproto_analyzer/protocol_format_set.c\<close>: a format is a
  kernel list of field descriptions (\<open>proto_info_list_t\<close>) behind a counted head
  (\<open>proto_head_list_t\<close>); the format set is a table of list heads indexed by protocol number.
  The structures live in the store, under the address of the structure; a list node is the
  \<open>list_head\<close> inside the structure, at offset 68 of a field and at offset 4 of a head.
\<close>

section \<open>Data\<close>

datatype free_mem_fn = Free_proto_info_list_mem

record proto_info =
  pi_name :: bytes
  vlenth_index :: bytes
  vlenth_flag :: bool
  vlenth_flag_bak :: bool
  vlenth_value_flag :: bool
  vlenth_value_assigned_flag :: bool
  byte_pos :: u8
  bit_pos :: u8
  pi_len :: u16
  len_unit :: u8
  bit_len :: u32
  pi_data :: u32
  buf_len :: u16
  buf_data_p :: addr
  free_mem :: "free_mem_fn option"
  mem_used :: addr

definition MAX_NAME_LEN :: nat where "MAX_NAME_LEN = 20"
definition sizeof_proto_info :: nat where "sizeof_proto_info = 80"
definition offset_info_list :: addr where "offset_info_list = 68"
definition sizeof_proto_head :: nat where "sizeof_proto_head = 16"
definition offset_head_list :: addr where "offset_head_list = 4"

text \<open>
  The store gains the field descriptions, the counts and allocators of the list heads, the
  contents of byte buffers and the cells of pointer tables.
\<close>

record pmem = hmem +
  pinfo :: "addr \<Rightarrow> proto_info"
  hl_count :: "addr \<Rightarrow> u8"
  hl_allocator :: "addr \<Rightarrow> allocator"
  bufs :: "addr \<Rightarrow> bytes"
  ptrs :: "addr \<Rightarrow> addr"

record format_set =
  pfs_self :: addr
  list_head_p2 :: addr
  proto_total_num :: u32
  proto_max_num :: u32
  proto_base_addr :: u32
  pfs_allocator :: allocator

definition sizeof_format_set :: nat where "sizeof_format_set = 100"

text \<open>\<open>container_of\<close> for the two structures.\<close>

definition info_of :: "addr \<Rightarrow> addr" where "info_of pos = pos - offset_info_list"
definition head_base :: "addr \<Rightarrow> addr" where "head_base hl = hl - offset_head_list"

definition rd_info :: "addr \<Rightarrow> 'z pmem_scheme \<Rightarrow> proto_info option" where
  "rd_info p m = (if valid m p sizeof_proto_info then Some (pinfo m p) else None)"

definition wr_info :: "addr \<Rightarrow> proto_info \<Rightarrow> 'z pmem_scheme \<Rightarrow> 'z pmem_scheme option" where
  "wr_info p v m =
     (if valid m p sizeof_proto_info then Some (m\<lparr>pinfo := (pinfo m)(p := v)\<rparr>) else None)"

definition rd_count :: "addr \<Rightarrow> 'z pmem_scheme \<Rightarrow> u8 option" where
  "rd_count h m = (if valid m h sizeof_proto_head then Some (hl_count m h) else None)"

definition wr_count :: "addr \<Rightarrow> u8 \<Rightarrow> 'z pmem_scheme \<Rightarrow> 'z pmem_scheme option" where
  "wr_count h v m =
     (if valid m h sizeof_proto_head then Some (m\<lparr>hl_count := (hl_count m)(h := v)\<rparr>) else None)"

definition rd_allocator :: "addr \<Rightarrow> 'z pmem_scheme \<Rightarrow> allocator option" where
  "rd_allocator h m = (if valid m h sizeof_proto_head then Some (hl_allocator m h) else None)"

definition wr_allocator :: "addr \<Rightarrow> allocator \<Rightarrow> 'z pmem_scheme \<Rightarrow> 'z pmem_scheme option" where
  "wr_allocator h v m =
     (if valid m h sizeof_proto_head
      then Some (m\<lparr>hl_allocator := (hl_allocator m)(h := v)\<rparr>) else None)"

definition rd_ptr :: "addr \<Rightarrow> 'z pmem_scheme \<Rightarrow> addr option" where
  "rd_ptr a m = (if valid m a 4 then Some (ptrs m a) else None)"

definition wr_ptr :: "addr \<Rightarrow> addr \<Rightarrow> 'z pmem_scheme \<Rightarrow> 'z pmem_scheme option" where
  "wr_ptr a v m = (if valid m a 4 then Some (m\<lparr>ptrs := (ptrs m)(a := v)\<rparr>) else None)"

lemmas paccess_defs = rd_info_def wr_info_def rd_count_def wr_count_def rd_allocator_def
  wr_allocator_def rd_ptr_def wr_ptr_def

section \<open>Field descriptions\<close>

definition zero_info :: proto_info where
  "zero_info = \<lparr>pi_name = replicate MAX_NAME_LEN 0, vlenth_index = replicate MAX_NAME_LEN 0,
     vlenth_flag = False, vlenth_flag_bak = False, vlenth_value_flag = False,
     vlenth_value_assigned_flag = False, byte_pos = 0, bit_pos = 0, pi_len = 0, len_unit = 0,
     bit_len = 0, pi_data = 0, buf_len = 0, buf_data_p = NULL, free_mem = None, mem_used = NULL\<rparr>"

definition free_proto_info_list_mem :: "addr \<Rightarrow> 'z pmem_scheme \<Rightarrow> 'z pmem_scheme option" where
  "free_proto_info_list_mem p m = (if p \<noteq> NULL then kfree p m else Some m)"

definition init_proto_info_list :: "addr \<Rightarrow> 'z pmem_scheme \<Rightarrow> 'z pmem_scheme option" where
  "init_proto_info_list p m = do {
     i \<leftarrow> rd_info p m;
     wr_info p (i\<lparr>free_mem := Some Free_proto_info_list_mem, mem_used := NULL\<rparr>) m
   }"

text \<open>The attribute names of the configuration.\<close>

definition set_proto_info_attribs :: "bytes \<Rightarrow> bytes option \<Rightarrow> proto_info \<Rightarrow> proto_info option" where
  "set_proto_info_attribs name attr_value i =
     (if name = chars ''name'' then do {
        v \<leftarrow> attr_value;
        n \<leftarrow> strcpy (pi_name i) v;
        Some (i\<lparr>pi_name := n\<rparr>) }
      else if name = chars ''byte_pos'' then Some (i\<lparr>byte_pos := ucast (atoi attr_value)\<rparr>)
      else if name = chars ''bit_pos'' then Some (i\<lparr>bit_pos := ucast (atoi attr_value)\<rparr>)
      else if name = chars ''len'' then Some (i\<lparr>pi_len := ucast (atoi attr_value)\<rparr>)
      else if name = chars ''len_unit'' then Some (i\<lparr>len_unit := ucast (atoi attr_value)\<rparr>)
      else if name = chars ''vlenth_index'' then
        (case attr_value of
           None \<Rightarrow> Some i
         | Some v \<Rightarrow> do {
             n \<leftarrow> strcpy (vlenth_index i) v;
             let i1 = i\<lparr>vlenth_index := n\<rparr>;
             if cstr n \<noteq> [] then Some (i1\<lparr>vlenth_flag := True, vlenth_flag_bak := True\<rparr>)
             else do { n2 \<leftarrow> strcpy n (chars ''N/A''); Some (i1\<lparr>vlenth_index := n2\<rparr>) } })
      else if name = chars ''value'' then
        (let i1 = i\<lparr>bit_len := ucast (pi_len i) * ucast (len_unit i)\<rparr>
         in if bit_len i1 div 8 \<le> 4 then Some (i1\<lparr>pi_data := atoi attr_value\<rparr>)
            else Some (i1\<lparr>buf_data_p := NULL\<rparr>))
      else Some i)"

section \<open>Lists of fields\<close>

text \<open>The address of the embedded list head; NULL when the allocation fails.\<close>

definition pfs_create_head_list ::
  "kmalloc_fn \<Rightarrow> allocator \<Rightarrow> 'z pmem_scheme \<Rightarrow> (addr \<times> 'z pmem_scheme) option" where
  "pfs_create_head_list km al m = do {
     (h, m1) \<leftarrow> allocator_mem_alloc km al (word_of_nat sizeof_proto_head) m;
     if h = NULL then Some (NULL, m1)
     else do { m2 \<leftarrow> wr_allocator h al m1; Some (h + offset_head_list, m2) }
   }"

definition pfs_init_head_list :: "addr \<Rightarrow> 'z pmem_scheme \<Rightarrow> 'z pmem_scheme option" where
  "pfs_init_head_list hl m = do {
     m1 \<leftarrow> wr_count (head_base hl) 0 m;
     INIT_LIST_HEAD hl m1
   }"

definition pfs_release_head_list :: "addr \<Rightarrow> 'z pmem_scheme \<Rightarrow> 'z pmem_scheme option" where
  "pfs_release_head_list hl m = do {
     al \<leftarrow> rd_allocator (head_base hl) m;
     allocator_mem_free al (head_base hl) m
   }"

definition pfs_add_list :: "addr \<Rightarrow> addr \<Rightarrow> 'z pmem_scheme \<Rightarrow> 'z pmem_scheme option" where
  "pfs_add_list new_head hl m = do {
     m1 \<leftarrow> list_add_tail new_head hl m;
     c \<leftarrow> rd_count (head_base hl) m1;
     wr_count (head_base hl) (c + 1) m1
   }"

definition pfs_del_list :: "addr \<Rightarrow> addr \<Rightarrow> 'z pmem_scheme \<Rightarrow> 'z pmem_scheme option" where
  "pfs_del_list del_head hl m = do {
     m1 \<leftarrow> list_del del_head m;
     c \<leftarrow> rd_count (head_base hl) m1;
     m2 \<leftarrow> wr_count (head_base hl) (c - 1) m1;
     i \<leftarrow> rd_info (info_of del_head) m2;
     al \<leftarrow> rd_allocator (head_base hl) m2;
     m3 \<leftarrow> (if buf_len i > 0 then allocator_mem_free al (buf_data_p i) m2 else Some m2);
     allocator_mem_free al (info_of del_head) m3
   }"

definition pfs_del_list_for_each :: "addr \<Rightarrow> 'z pmem_scheme \<Rightarrow> 'z pmem_scheme option" where
  "pfs_del_list_for_each hl m = do {
     m1 \<leftarrow> list_for_each_safe rd_next (\<lambda>pos. pfs_del_list pos hl) hl m;
     pfs_release_head_list hl m1
   }"

definition pfs_set_proto_info ::
  "kmalloc_fn \<Rightarrow> bytes \<Rightarrow> bytes option \<Rightarrow> bytes \<Rightarrow> bytes option \<Rightarrow> bytes \<Rightarrow> bytes option \<Rightarrow>
     bytes \<Rightarrow> bytes option \<Rightarrow> bytes \<Rightarrow> bytes option \<Rightarrow> bytes \<Rightarrow> bytes option \<Rightarrow> addr \<Rightarrow>
     'z pmem_scheme \<Rightarrow> (addr \<times> 'z pmem_scheme) option" where
  "pfs_set_proto_info km name name_value bytep bytep_value bitp bitp_value ln ln_value
     unt unt_value vindex vindex_value hl m = do {
     al \<leftarrow> rd_allocator (head_base hl) m;
     (p, m1) \<leftarrow> allocator_mem_alloc km al (word_of_nat sizeof_proto_info) m;
     if p = NULL then Some (NULL, m1)
     else do {
       i1 \<leftarrow> set_proto_info_attribs name name_value zero_info;
       i2 \<leftarrow> set_proto_info_attribs bytep bytep_value i1;
       i3 \<leftarrow> set_proto_info_attribs bitp bitp_value i2;
       i4 \<leftarrow> set_proto_info_attribs ln ln_value i3;
       i5 \<leftarrow> set_proto_info_attribs unt unt_value i4;
       i6 \<leftarrow> set_proto_info_attribs vindex vindex_value i5;
       m2 \<leftarrow> wr_info p i6 m1;
       m3 \<leftarrow> pfs_add_list (p + offset_info_list) hl m2;
       Some (p, m3)
     }
   }"

section \<open>The format set\<close>

definition MAX_PROTOCOL_NUM :: u32 where "MAX_PROTOCOL_NUM = 200"

definition table_cell :: "format_set \<Rightarrow> u32 \<Rightarrow> addr" where
  "table_cell pfs i = list_head_p2 pfs + 4 * i"

definition pfs_add_proto_link_list ::
  "u32 \<Rightarrow> addr \<Rightarrow> format_set \<Rightarrow> 'z pmem_scheme \<Rightarrow> (int \<times> format_set \<times> 'z pmem_scheme) option" where
  "pfs_add_proto_link_list llist_num new_llist pfs m =
     (if llist_num > MAX_PROTOCOL_NUM then Some (-1, pfs, m)
      else if new_llist = NULL then Some (-1, pfs, m)
      else do {
        m1 \<leftarrow> wr_ptr (table_cell pfs llist_num) new_llist m;
        Some (0, pfs\<lparr>proto_total_num := proto_total_num pfs + 1\<rparr>, m1)
      })"

definition pfs_create_proto_format_set ::
  "kmalloc_fn \<Rightarrow> allocator \<Rightarrow> 'z pmem_scheme \<Rightarrow> (format_set \<times> 'z pmem_scheme) option" where
  "pfs_create_proto_format_set km al m = do {
     (p, m1) \<leftarrow> allocator_mem_alloc km al (word_of_nat sizeof_format_set) m;
     assert_opt (p \<noteq> NULL);
     Some (\<lparr>pfs_self = p, list_head_p2 = NULL, proto_total_num = 0, proto_max_num = 0,
       proto_base_addr = 0, pfs_allocator = al\<rparr>, m1)
   }"

text \<open>\<open>memset(p, 0, n)\<close> on a table of pointers.\<close>

definition clear_ptrs :: "addr \<Rightarrow> nat \<Rightarrow> 'z pmem_scheme \<Rightarrow> 'z pmem_scheme option" where
  "clear_ptrs a n m =
     (if n = 0 then Some m
      else if valid m a n
      then Some (m\<lparr>ptrs := (\<lambda>p. if unat a \<le> unat p \<and> unat p < unat a + n then NULL else ptrs m p)\<rparr>)
      else None)"

definition init_proto_format_set ::
  "kmalloc_fn \<Rightarrow> u32 \<Rightarrow> u32 \<Rightarrow> format_set \<Rightarrow> 'z pmem_scheme \<Rightarrow> (format_set \<times> 'z pmem_scheme) option" where
  "init_proto_format_set km base max_num pfs m = do {
     (p, m1) \<leftarrow> allocator_mem_alloc km (pfs_allocator pfs) (4 * max_num) m;
     m2 \<leftarrow> clear_ptrs p (unat (4 * max_num)) m1;
     Some (pfs\<lparr>proto_base_addr := base, list_head_p2 := p, proto_total_num := 0,
       proto_max_num := max_num\<rparr>, m2)
   }"

definition pfs_del_proto_link_list :: "format_set \<Rightarrow> u32 \<Rightarrow> 'z pmem_scheme \<Rightarrow> 'z pmem_scheme option" where
  "pfs_del_proto_link_list pfs llist_num m =
     (if list_head_p2 pfs = NULL then Some m
      else do {
        hl \<leftarrow> rd_ptr (table_cell pfs llist_num) m;
        pfs_del_list_for_each hl m
      })"

text \<open>The loop counter of \<open>pfs_destroy_protocol_format_set\<close> is an \<open>uint8_t\<close>.\<close>

partial_function (option) pfs_destroy_from ::
  "format_set \<Rightarrow> u8 \<Rightarrow> 'z pmem_scheme \<Rightarrow> 'z pmem_scheme option" where
  "pfs_destroy_from pfs i m =
     (if ucast i < proto_max_num pfs then do {
        hl \<leftarrow> rd_ptr (table_cell pfs (ucast i)) m;
        m1 \<leftarrow> (if hl \<noteq> NULL then do {
                 m2 \<leftarrow> pfs_del_proto_link_list pfs (ucast i) m;
                 wr_ptr (table_cell pfs (ucast i)) NULL m2 }
               else Some m);
        pfs_destroy_from pfs (i + 1) m1
      } else Some m)"

declare pfs_destroy_from.simps [code]

definition pfs_destroy_protocol_format_set ::
  "format_set \<Rightarrow> 'z pmem_scheme \<Rightarrow> 'z pmem_scheme option" where
  "pfs_destroy_protocol_format_set pfs m =
     (if list_head_p2 pfs = NULL then Some m
      else do {
        m1 \<leftarrow> pfs_destroy_from pfs 0 m;
        m2 \<leftarrow> allocator_mem_free (pfs_allocator pfs) (list_head_p2 pfs) m1;
        allocator_mem_free (pfs_allocator pfs) (pfs_self pfs) m2
      })"

end
