(* ===== verification/Field_Data.thy ===== *)
theory Field_Data
  imports Prelude
begin

text \<open>
  Reading and writing the fields of a protocol frame: the bit and byte routines of
  \<open>driver/libproto_analyzer/protocol_analyzer.c\<close>. A frame is the array \<open>protocol_data\<close>; an
  access past its end, and a shift by 32 bits or more, is undefined behaviour. On ARM
  \<open>char\<close> is unsigned, so that the test \<open>t_pos_set < 0\<close> of the C code is never true and the
  position wraps to 255, which is 7 modulo 8 as intended.
\<close>

section \<open>Array access\<close>

definition arr_get :: "bytes \<Rightarrow> nat \<Rightarrow> u8 option" where
  "arr_get dp i = (if i < length dp then Some (dp ! i) else None)"

definition arr_set :: "bytes \<Rightarrow> nat \<Rightarrow> u8 \<Rightarrow> bytes option" where
  "arr_set dp i v = (if i < length dp then Some (dp[i := v]) else None)"

section \<open>Bit slices\<close>

text \<open>
  The static function \<open>pow\<close>: the loop runs for \<open>i = 0, \<dots>, y\<close>, hence \<open>y + 1\<close> times. For
  the largest \<open>y\<close> the test \<open>i <= y\<close> never fails.
\<close>

fun pow_loop :: "u32 \<Rightarrow> nat \<Rightarrow> u32 \<Rightarrow> u32" where
  "pow_loop x 0 acc = acc"
| "pow_loop x (Suc n) acc = pow_loop x n (acc * x)"

definition pow_u32 :: "u32 \<Rightarrow> u32 \<Rightarrow> u32 option" where
  "pow_u32 x y = (if y = - 1 then None else Some (pow_loop x (unat y + 1) 1))"

definition get_bit_data :: "u32 \<Rightarrow> u8 \<Rightarrow> u8 \<Rightarrow> u8 option" where
  "get_bit_data data bit_pos len = do {
     assert_opt (unat bit_pos < 32);
     p \<leftarrow> pow_u32 2 (ucast len);
     Some (ucast (drop_bit (unat bit_pos) data AND (p - 1)))
   }"

text \<open>The new value of \<open>*buf\<close>.\<close>

definition set_bit_data :: "u8 \<Rightarrow> u8 \<Rightarrow> u8 \<Rightarrow> u8 \<Rightarrow> u8 option" where
  "set_bit_data buf data bit_pos len = do {
     assert_opt (unat bit_pos < 32);
     p \<leftarrow> pow_u32 2 (ucast len);
     Some (ucast (ucast buf OR push_bit (unat bit_pos) (ucast data AND (p - 1)) :: u32))
   }"

section \<open>Byte fields\<close>

function set_bytes_from :: "u32 \<Rightarrow> nat \<Rightarrow> nat \<Rightarrow> nat \<Rightarrow> bytes \<Rightarrow> bytes option" where
  "set_bytes_from data byte_pos len i dp =
     (if i < len then do {
        assert_opt (8 * (len - i - 1) < 32);
        dp1 \<leftarrow> arr_set dp (byte_pos + i) (ucast (drop_bit (8 * (len - i - 1)) data AND 0xff));
        set_bytes_from data byte_pos len (i + 1) dp1
      } else Some dp)"
  by pat_completeness auto
termination by (relation "measure (\<lambda>(data, byte_pos, len, i, dp). len - i)") auto

declare set_bytes_from.simps [simp del]

definition pa_set_protocol_byte_data :: "u32 \<Rightarrow> u8 \<Rightarrow> u8 \<Rightarrow> u16 \<Rightarrow> bytes \<Rightarrow> bytes option" where
  "pa_set_protocol_byte_data data byte_pos bit_pos len dp =
     set_bytes_from data (unat byte_pos) (unat len) 0 dp"

text \<open>\<open>t_len\<close> is the length as a \<open>short\<close>: from 32768 on it is negative and no round is run.\<close>

function get_bytes_from :: "bytes \<Rightarrow> nat \<Rightarrow> nat \<Rightarrow> nat \<Rightarrow> u32 \<Rightarrow> u32 option" where
  "get_bytes_from dp byte_pos t_len i data =
     (if i < t_len then do {
        b \<leftarrow> arr_get dp (byte_pos + i);
        assert_opt (8 * (t_len - i - 1) < 32);
        get_bytes_from dp byte_pos t_len (i + 1) (data OR push_bit (8 * (t_len - i - 1)) (ucast b))
      } else Some data)"
  by pat_completeness auto
termination by (relation "measure (\<lambda>(dp, byte_pos, t_len, i, data). t_len - i)") auto

declare get_bytes_from.simps [simp del]

definition short_len :: "u16 \<Rightarrow> nat" where
  "short_len len = (if unat len < 32768 then unat len else 0)"

definition get_byte_value :: "bytes \<Rightarrow> u8 \<Rightarrow> u16 \<Rightarrow> u32 option" where
  "get_byte_value dp byte_pos len = get_bytes_from dp (unat byte_pos) (short_len len) 0 0"

section \<open>Bit fields\<close>

text \<open>
  One round of the loop handles the bits that fall into the byte \<open>byte_pos + i\<close>:
  \<open>t_len_get\<close> bits from bit \<open>t_pos mod 8\<close> of that byte downwards.
\<close>

definition chunk :: "nat \<Rightarrow> u8 \<Rightarrow> nat" where
  "chunk t_len t_pos = (if t_len > unat t_pos mod 8 + 1 then unat t_pos mod 8 + 1 else t_len)"

lemma chunk_pos: "0 < t_len \<Longrightarrow> 0 < chunk t_len t_pos \<and> chunk t_len t_pos \<le> t_len \<and> chunk t_len t_pos \<le> 8"
  by (auto simp: chunk_def)

function set_bits_from :: "u32 \<Rightarrow> nat \<Rightarrow> nat \<Rightarrow> u8 \<Rightarrow> nat \<Rightarrow> bytes \<Rightarrow> bytes option" where
  "set_bits_from data byte_pos t_len t_pos i dp =
     (if 0 < t_len then do {
        let g = chunk t_len t_pos;
        d \<leftarrow> get_bit_data data (word_of_nat (t_len - g)) (word_of_nat g);
        b \<leftarrow> arr_get dp (byte_pos + i);
        b1 \<leftarrow> set_bit_data b d (word_of_nat (unat t_pos mod 8 + 1 - g)) (word_of_nat g);
        dp1 \<leftarrow> arr_set dp (byte_pos + i) b1;
        set_bits_from data byte_pos (t_len - g) (t_pos - word_of_nat g) (i + 1) dp1
      } else Some dp)"
  by pat_completeness auto
termination
  by (relation "measure (\<lambda>(data, byte_pos, t_len, t_pos, i, dp). t_len)")
    (auto simp: chunk_pos)

declare set_bits_from.simps [simp del]

definition pa_set_protocol_bit_data :: "u32 \<Rightarrow> u8 \<Rightarrow> u8 \<Rightarrow> u16 \<Rightarrow> bytes \<Rightarrow> bytes option" where
  "pa_set_protocol_bit_data data byte_pos bit_pos len dp =
     set_bits_from data (unat byte_pos) (short_len len) bit_pos 0 dp"

function get_bits_from :: "bytes \<Rightarrow> nat \<Rightarrow> nat \<Rightarrow> u8 \<Rightarrow> nat \<Rightarrow> u32 \<Rightarrow> u32 option" where
  "get_bits_from dp byte_pos t_len t_pos i data =
     (if 0 < t_len then do {
        let g = chunk t_len t_pos;
        b \<leftarrow> arr_get dp (byte_pos + i);
        d \<leftarrow> get_bit_data (ucast b) (word_of_nat (unat t_pos mod 8 + 1 - g)) (word_of_nat g);
        assert_opt (t_len - g < 32);
        get_bits_from dp byte_pos (t_len - g) (t_pos - word_of_nat g) (i + 1)
          (data OR push_bit (t_len - g) (ucast d))
      } else Some data)"
  by pat_completeness auto
termination
  by (relation "measure (\<lambda>(dp, byte_pos, t_len, t_pos, i, data). t_len)")
    (auto simp: chunk_pos)

declare get_bits_from.simps [simp del]

definition get_bit_value :: "bytes \<Rightarrow> u8 \<Rightarrow> u8 \<Rightarrow> u16 \<Rightarrow> u32 option" where
  "get_bit_value dp byte_pos bit_pos len =
     get_bits_from dp (unat byte_pos) (short_len len) bit_pos 0 0"

section \<open>Buffers\<close>

text \<open>\<open>memcpy(dp + pos, data, n)\<close> and \<open>memcpy(buf, dp + pos, n)\<close>.\<close>

definition blit :: "bytes \<Rightarrow> nat \<Rightarrow> bytes \<Rightarrow> nat \<Rightarrow> bytes option" where
  "blit dp pos data n =
     (if pos + n \<le> length dp \<and> n \<le> length data
      then Some (take pos dp @ take n data @ drop (pos + n) dp) else None)"

definition slice_of :: "bytes \<Rightarrow> nat \<Rightarrow> nat \<Rightarrow> bytes option" where
  "slice_of dp pos n = (if pos + n \<le> length dp then Some (take n (drop pos dp)) else None)"

definition pa_set_protocol_buf :: "bytes \<Rightarrow> u32 \<Rightarrow> u8 \<Rightarrow> u8 \<Rightarrow> bytes \<Rightarrow> bytes option" where
  "pa_set_protocol_buf data len byte_pos bit_pos dp =
     (if bit_pos \<noteq> 0 then Some dp else blit dp (unat byte_pos) data (unat len))"

section \<open>What the byte routines compute\<close>

text \<open>The big-endian layout: byte \<open>j\<close> from the end holds the bits from \<open>8 * j\<close> on.\<close>

definition be_byte :: "u32 \<Rightarrow> nat \<Rightarrow> u8" where
  "be_byte data j = ucast (drop_bit (8 * j) data)"

lemma arr_set_Some: "i < length dp \<Longrightarrow> arr_set dp i v = Some (dp[i := v])"
  by (simp add: arr_set_def)

lemma byte_of_and_0xff: "ucast (x AND 0xff :: u32) = (ucast x :: u8)"
proof -
  have "x AND 0xff = take_bit 8 x" by (simp add: take_bit_eq_mask mask_eq_exp_minus_1)
  then show ?thesis by (simp add: bit_eq_iff bit_simps)
qed

lemma byte_window: "8 * k \<le> b \<Longrightarrow> b < 8 * k + 8 \<Longrightarrow> b div 8 = k \<and> b mod 8 = b - 8 * (k :: nat)"
proof -
  assume "8 * k \<le> b" and "b < 8 * k + 8"
  then have "b div 8 = k" by (intro div_nat_eqI) auto
  then show ?thesis by (simp add: modulo_nat_def mult.commute)
qed

lemma pred_mult_8_mod: "0 < k \<Longrightarrow> (8 * k - 1) mod 8 = (7 :: nat)"
  by (cases k) (simp_all add: mod_mult_self3 add.commute [of 7])

lemma set_bytes_from_spec:
  assumes "i \<le> len" and "len \<le> 4" and "p + len \<le> length dp"
  shows "\<exists>dp'. set_bytes_from data p len i dp = Some dp' \<and> length dp' = length dp \<and>
    (\<forall>k. dp' ! k = (if p + i \<le> k \<and> k < p + len then be_byte data (len - 1 - (k - p)) else dp ! k))"
  using assms
proof (induction "len - i" arbitrary: i dp)
  case 0
  then show ?case by (intro exI [of _ dp]) (auto simp: set_bytes_from.simps)
next
  case (Suc d)
  let ?v = "ucast (drop_bit (8 * (len - i - 1)) data AND 0xff) :: u8"
  let ?dp = "dp[p + i := ?v]"
  have i: "i < len" "8 * (len - i - 1) < 32" and l: "p + i < length dp" using Suc by auto
  have v: "?v = be_byte data (len - 1 - i)"
    by (simp add: be_byte_def byte_of_and_0xff diff_right_commute)
  have "d = len - (i + 1)" "i + 1 \<le> len" "p + len \<le> length ?dp" using Suc.hyps(2) Suc.prems(3) by auto
  from Suc.hyps(1) [OF this(1,2) Suc.prems(2) this(3)] obtain dp' where
    r: "set_bytes_from data p len (i + 1) ?dp = Some dp'" "length dp' = length dp"
      "\<And>k. dp' ! k = (if p + (i + 1) \<le> k \<and> k < p + len then be_byte data (len - 1 - (k - p)) else ?dp ! k)"
    by (auto simp only: length_list_update)
  have "set_bytes_from data p len i dp = Some dp'"
    using i r(1) arr_set_Some [OF l] by (simp add: set_bytes_from.simps [of data p len i])
  moreover have "dp' ! k = (if p + i \<le> k \<and> k < p + len then be_byte data (len - 1 - (k - p)) else dp ! k)" for k
    using r(3) [of k] v l i(1) by (cases "k = p + i") auto
  ultimately show ?case using r(2) by blast
qed

lemma get_bytes_from_spec:
  assumes "i \<le> n" and "n \<le> 4" and "p + n \<le> length dp"
  shows "\<exists>r. get_bytes_from dp p n i acc = Some r \<and>
    (\<forall>b < 32. bit r b = (bit acc b \<or> (b < 8 * (n - i) \<and> bit (dp ! (p + n - 1 - b div 8)) (b mod 8))))"
  using assms
proof (induction "n - i" arbitrary: i acc)
  case 0
  then show ?case by (auto simp: get_bytes_from.simps)
next
  case (Suc d)
  let ?x = "dp ! (p + i)"
  let ?acc = "acc OR push_bit (8 * (n - i - 1)) (ucast ?x)"
  have i: "i < n" "8 * (n - i - 1) < 32" "p + i < length dp" using Suc by auto
  have "d = n - (i + 1)" "i + 1 \<le> n" using Suc.hyps(2) by auto
  from Suc.hyps(1) [OF this Suc.prems(2,3), of ?acc] obtain r where
    r: "get_bytes_from dp p n (i + 1) ?acc = Some r"
      "\<And>b. b < 32 \<Longrightarrow> bit r b = (bit ?acc b \<or> (b < 8 * (n - (i + 1)) \<and> bit (dp ! (p + n - 1 - b div 8)) (b mod 8)))"
    by blast
  have eq: "get_bytes_from dp p n i acc = Some r"
    using i r(1) by (simp add: get_bytes_from.simps [of dp p n i] arr_get_def)
  have "bit r b = (bit acc b \<or> (b < 8 * (n - i) \<and> bit (dp ! (p + n - 1 - b div 8)) (b mod 8)))"
    if b: "b < 32" for b
  proof -
    let ?o = "8 * (n - i - 1)"
    have "bit (push_bit ?o (ucast ?x) :: u32) b = (?o \<le> b \<and> b < ?o + 8 \<and> bit ?x (b - ?o))"
      using b by (auto simp: bit_simps dest: bit_imp_le_length)
    moreover have "b - ?o = b mod 8" "p + n - 1 - b div 8 = p + i" if "?o \<le> b" "b < ?o + 8"
    proof -
      note w = byte_window [OF that]
      then show "p + n - 1 - b div 8 = p + i" using i(1) by simp
      show "b - ?o = b mod 8" using w by simp
    qed
    moreover have "(b < 8 * (n - i)) = (b < 8 * (n - (i + 1)) \<or> (?o \<le> b \<and> b < ?o + 8))"
      using i(1) by auto
    moreover have "\<not> (?o \<le> b \<and> b < 8 * (n - (i + 1)))" by auto
    ultimately show ?thesis using r(2) [OF b] by (auto simp: bit_simps)
  qed
  with eq show ?case by blast
qed

text \<open>Reading back what was written gives the low bits of the value.\<close>

lemma byte_field_roundtrip:
  assumes n: "unat len \<le> 4" and p: "unat byte_pos + unat len \<le> length dp"
  shows "\<exists>dp'. pa_set_protocol_byte_data data byte_pos bit_pos len dp = Some dp' \<and> length dp' = length dp
    \<and> get_byte_value dp' byte_pos len = Some (take_bit (8 * unat len) data)"
proof -
  let ?n = "unat len" and ?p = "unat byte_pos"
  from set_bytes_from_spec [OF le0 n p] obtain dp' where
    s: "set_bytes_from data ?p ?n 0 dp = Some dp'" "length dp' = length dp"
      "\<And>k. dp' ! k = (if ?p \<le> k \<and> k < ?p + ?n then be_byte data (?n - 1 - (k - ?p)) else dp ! k)"
    by auto
  have p': "?p + ?n \<le> length dp'" using p s(2) by simp
  from get_bytes_from_spec [OF le0 n p', of 0] obtain r where
    g: "get_bytes_from dp' ?p ?n 0 0 = Some r"
      "\<And>b. b < 32 \<Longrightarrow> bit r b = (b < 8 * ?n \<and> bit (dp' ! (?p + ?n - 1 - b div 8)) (b mod 8))"
    by auto
  have "r = take_bit (8 * ?n) data"
  proof (rule bit_word_eqI)
    fix b assume b: "b < LENGTH(32)"
    have "dp' ! (?p + ?n - 1 - b div 8) = be_byte data (b div 8)" if "b < 8 * ?n"
    proof -
      have "b div 8 < ?n" using that by (simp add: less_mult_imp_div_less)
      then show ?thesis by (subst s(3)) (auto intro: arg_cong [of _ _ "be_byte data"])
    qed
    moreover have "8 * (b div 8) + b mod 8 = b" by simp
    ultimately show "bit r b = bit (take_bit (8 * ?n) data) b"
      using g(2) b by (auto simp: be_byte_def bit_simps)
  qed
  with s g(1) n show ?thesis
    by (simp add: pa_set_protocol_byte_data_def get_byte_value_def short_len_def)
qed

section \<open>What the bit routines compute\<close>

text \<open>The bits of a frame in transmission order: bit 7 of byte 0 first.\<close>

definition frame_bit :: "bytes \<Rightarrow> nat \<Rightarrow> bool" where
  "frame_bit dp s = bit (dp ! (s div 8)) (7 - s mod 8)"

text \<open>Where a field starts that is placed at bit \<open>t_pos mod 8\<close> of byte \<open>p\<close>.\<close>

definition start_of :: "nat \<Rightarrow> u8 \<Rightarrow> nat" where
  "start_of p t_pos = 8 * p + (7 - unat t_pos mod 8)"

lemma pow_loop_2: "pow_loop 2 n acc = acc * 2 ^ n"
  by (induction n arbitrary: acc) (auto simp: algebra_simps)

text \<open>The mask has one bit more than the \<open>len\<close> bits that are wanted.\<close>

lemma pow_mask:
  assumes "g \<le> 8"
  shows "\<exists>p. pow_u32 2 (ucast (word_of_nat g :: u8)) = Some p \<and> p - 1 = mask (g + 1)"
proof -
  have u: "unat (ucast (word_of_nat g :: u8) :: u32) = g"
    using assms by (simp add: unsigned_ucast_eq unsigned_of_nat take_bit_nat_eq_self)
  have "ucast (word_of_nat g :: u8) \<noteq> (- 1 :: u32)"
  proof
    assume "ucast (word_of_nat g :: u8) = (- 1 :: u32)"
    with u have "unat (- 1 :: u32) = g" by simp
    with assms show False by (simp add: unsigned_minus_1_eq_mask mask_eq_exp_minus_1)
  qed
  with u show ?thesis by (simp add: pow_u32_def pow_loop_2 mask_eq_exp_minus_1)
qed

lemma get_bit_data_spec:
  assumes "g \<le> 8" and "sh < 32"
  shows "\<exists>d. get_bit_data data (word_of_nat sh) (word_of_nat g) = Some d
    \<and> (\<forall>j < 8. bit d j = (j \<le> g \<and> bit data (sh + j)))"
proof -
  have "unat (word_of_nat sh :: u8) = sh" using assms(2) by (simp add: unat_word_of_nat)
  with pow_mask [OF assms(1)] assms(2) show ?thesis
    by (auto simp: get_bit_data_def bit_simps)
qed

lemma set_bit_data_spec:
  assumes "g \<le> 8" and "sh < 8"
  shows "\<exists>b1. set_bit_data b d (word_of_nat sh) (word_of_nat g) = Some b1
    \<and> (\<forall>j < 8. bit b1 j = (bit b j \<or> (sh \<le> j \<and> j - sh \<le> g \<and> bit d (j - sh))))"
proof -
  have "unat (word_of_nat sh :: u8) = sh" using assms(2) by (simp add: unat_word_of_nat)
  with pow_mask [OF assms(1)] assms(2) show ?thesis
    by (auto simp: set_bit_data_def bit_simps)
qed

text \<open>After a full chunk the position is 7 again.\<close>

lemma pos_step:
  assumes "g = n mod 8 + 1"
  shows "(if g \<le> n then n - g else n + 256 - g) mod 8 = (7 :: nat)"
proof -
  obtain a q where n: "n = 8 * a + q" "q < 8" by (metis mult_div_mod_eq mod_less_divisor zero_less_numeral)
  then have g: "g = q + 1" using assms by simp
  show ?thesis
  proof (cases a)
    case 0
    with n g show ?thesis using pred_mult_8_mod [of 32] by simp
  next
    case (Suc b)
    with n g show ?thesis using pred_mult_8_mod [of a] by simp
  qed
qed

lemma next_pos_mod:
  assumes "g = unat (t_pos :: u8) mod 8 + 1"
  shows "unat (t_pos - word_of_nat g) mod 8 = 7"
proof -
  have "g < 2 ^ LENGTH(8)" using assms by simp
  then have gu: "unat (word_of_nat g :: u8) = g" by (rule unat_word_of_nat)
  have "unat (t_pos - word_of_nat g) = (if g \<le> unat t_pos then unat t_pos - g else unat t_pos + 256 - g)"
    by (simp add: unat_sub_if' gu)
  then show ?thesis using pos_step [OF assms] by simp
qed

lemma frame_bit_update:
  assumes "q < length dp"
  shows "frame_bit (dp[q := b]) s = (if s div 8 = q then bit b (7 - s mod 8) else frame_bit dp s)"
  using assms by (simp add: frame_bit_def)

text \<open>The bits of one chunk, and where the next one begins.\<close>

lemma chunk_bounds:
  assumes "0 < t_len"
  shows "0 < chunk t_len t_pos" and "chunk t_len t_pos \<le> t_len" and "chunk t_len t_pos \<le> 8"
    and "chunk t_len t_pos \<le> unat t_pos mod 8 + 1"
  using assms by (auto simp: chunk_def)

lemma chunk_next:
  assumes "chunk t_len t_pos < t_len"
  shows "unat (t_pos - word_of_nat (chunk t_len t_pos)) mod 8 = 7"
    and "start_of (p + (i + 1)) (t_pos - word_of_nat (chunk t_len t_pos)) = start_of (p + i) t_pos + chunk t_len t_pos"
proof -
  have g: "chunk t_len t_pos = unat t_pos mod 8 + 1" using assms by (auto simp: chunk_def split: if_splits)
  from next_pos_mod [OF g] show q7: "unat (t_pos - word_of_nat (chunk t_len t_pos)) mod 8 = 7" .
  have "unat t_pos mod 8 < 8" by simp
  with q7 g show "start_of (p + (i + 1)) (t_pos - word_of_nat (chunk t_len t_pos)) = start_of (p + i) t_pos + chunk t_len t_pos"
    by (simp add: start_of_def)
qed

lemma chunk_inside:
  assumes "0 < t_len" and "start_of k t_pos + t_len \<le> 8 * length dp"
  shows "k < length dp"
proof -
  have "unat t_pos mod 8 < 8" by simp
  with assms show ?thesis by (simp add: start_of_def)
qed

text \<open>The byte that a chunk is written to, bit by bit.\<close>

lemma set_chunk_byte:
  assumes n: "0 < t_len" "t_len \<le> 32" and g: "g = chunk t_len t_pos"
  shows "\<exists>d b1. get_bit_data data (word_of_nat (t_len - g)) (word_of_nat g) = Some d \<and>
    set_bit_data b d (word_of_nat (unat t_pos mod 8 + 1 - g)) (word_of_nat g) = Some b1 \<and>
    (\<forall>j < 8. bit b1 j = (bit b j \<or>
      (unat t_pos mod 8 + 1 - g \<le> j \<and> j \<le> unat t_pos mod 8 \<and> bit data (t_len - 1 - (unat t_pos mod 8 - j))) \<or>
      (j = unat t_pos mod 8 + 1 \<and> bit data t_len)))"
proof -
  let ?q = "unat t_pos mod 8"
  have q8: "?q < 8" by simp
  note gb = chunk_bounds [OF n(1), of t_pos, folded g]
  have "t_len - g < 32" "?q + 1 - g < 8" using n gb(1) q8 by simp_all
  then obtain d b1 where d: "get_bit_data data (word_of_nat (t_len - g)) (word_of_nat g) = Some d"
      "\<And>j. j < 8 \<Longrightarrow> bit d j = (j \<le> g \<and> bit data (t_len - g + j))"
    and b1: "set_bit_data b d (word_of_nat (?q + 1 - g)) (word_of_nat g) = Some b1"
      "\<And>j. j < 8 \<Longrightarrow> bit b1 j = (bit b j \<or> (?q + 1 - g \<le> j \<and> j - (?q + 1 - g) \<le> g \<and> bit d (j - (?q + 1 - g))))"
    using get_bit_data_spec [OF gb(3)] set_bit_data_spec [OF gb(3)] by metis
  have "bit b1 j = (bit b j \<or> (?q + 1 - g \<le> j \<and> j \<le> ?q \<and> bit data (t_len - 1 - (?q - j))) \<or>
      (j = ?q + 1 \<and> bit data t_len))" if j: "j < 8" for j
  proof -
    have "t_len - g + (j - (?q + 1 - g)) = t_len - 1 - (?q - j)" if "?q + 1 - g \<le> j" "j \<le> ?q"
      using that gb by simp
    moreover have "t_len - g + (j - (?q + 1 - g)) = t_len" if "j = ?q + 1"
      using that gb by simp
    ultimately show ?thesis using b1(2) [OF j] d(2) [of "j - (?q + 1 - g)"] j gb
      by (cases "j \<le> ?q"; cases "j = ?q + 1") auto
  qed
  with d(1) b1(1) show ?thesis by blast
qed

text \<open>The same bits as bits of the frame.\<close>

lemma chunk_frame_bits:
  assumes k: "k < length dp" and g: "0 < g" "g \<le> unat t_pos mod 8 + 1"
    and b1: "\<forall>j < 8. bit b1 j = (bit (dp ! k) j \<or>
      (unat t_pos mod 8 + 1 - g \<le> j \<and> j \<le> unat t_pos mod 8 \<and> bit data (t_len - 1 - (unat t_pos mod 8 - j))) \<or>
      (j = unat t_pos mod 8 + 1 \<and> bit data t_len))"
  shows "frame_bit (dp[k := b1]) s = (frame_bit dp s \<or>
    (start_of k t_pos \<le> s \<and> s < start_of k t_pos + g \<and> bit data (t_len - 1 - (s - start_of k t_pos))) \<or>
    (s + 1 = start_of k t_pos \<and> unat t_pos mod 8 < 7 \<and> bit data t_len))"
proof (cases "s div 8 = k")
  case True
  let ?j = "7 - s mod 8" and ?q = "unat t_pos mod 8" and ?s0 = "start_of k t_pos"
  have q8: "?q < 8" by simp
  obtain r where s: "s mod 8 = r" "s = 8 * k + r" "r < 8"
    using True by (metis mult_div_mod_eq mod_less_divisor zero_less_numeral)
  have "(?q + 1 - g \<le> ?j) = (s < ?s0 + g)" "(?j \<le> ?q) = (?s0 \<le> s)"
    unfolding s(1) using s(2,3) q8 g by (simp_all add: start_of_def) linarith+
  moreover have "?q - ?j = s - ?s0" if "?s0 \<le> s"
    unfolding s(1) using that s(2,3) q8 by (simp add: start_of_def)
  moreover have "(?j = ?q + 1) = (s + 1 = ?s0 \<and> ?q < 7)"
    unfolding s(1) using s(2,3) q8 by (simp add: start_of_def) linarith
  moreover have "frame_bit (dp[k := b1]) s = bit b1 ?j" "frame_bit dp s = bit (dp ! k) ?j"
    using frame_bit_update [OF k, of b1 s] True by (simp_all add: frame_bit_def)
  moreover have "?j < 8" by simp
  note b1 [rule_format, OF this]
  ultimately show ?thesis by metis
next
  case False
  have q8: "unat t_pos mod 8 < 8" by simp
  have "\<not> (start_of k t_pos \<le> s \<and> s < start_of k t_pos + g)"
  proof
    assume "start_of k t_pos \<le> s \<and> s < start_of k t_pos + g"
    then have "8 * k \<le> s" "s < 8 * k + 8" using g(2) q8 by (auto simp: start_of_def)
    with byte_window [of k s] False show False by simp
  qed
  moreover have "\<not> (s + 1 = start_of k t_pos \<and> unat t_pos mod 8 < 7)"
  proof
    assume "s + 1 = start_of k t_pos \<and> unat t_pos mod 8 < 7"
    then have "8 * k \<le> s" "s < 8 * k + 8" by (auto simp: start_of_def)
    with byte_window [of k s] False show False by simp
  qed
  ultimately show ?thesis using False frame_bit_update [OF k, of b1 s] by (simp only: if_False) blast
qed

lemma set_bits_chunk:
  assumes n: "0 < t_len" "t_len \<le> 32" and fits: "start_of (p + i) t_pos + t_len \<le> 8 * length dp" and g: "g = chunk t_len t_pos"
  shows "\<exists>b1. set_bits_from data p t_len t_pos i dp =
      set_bits_from data p (t_len - g) (t_pos - word_of_nat g) (i + 1) (dp[p + i := b1]) \<and>
    (\<forall>s. frame_bit (dp[p + i := b1]) s = (frame_bit dp s \<or>
      (start_of (p + i) t_pos \<le> s \<and> s < start_of (p + i) t_pos + g \<and> bit data (t_len - 1 - (s - start_of (p + i) t_pos))) \<or>
      (s + 1 = start_of (p + i) t_pos \<and> unat t_pos mod 8 < 7 \<and> bit data t_len)))"
proof -
  have k: "p + i < length dp" by (rule chunk_inside [OF n(1) fits])
  note gb = chunk_bounds [OF n(1), of t_pos, folded g]
  from set_chunk_byte [OF n g, where b = "dp ! (p + i)" and data = data] obtain d b1 where
    d: "get_bit_data data (word_of_nat (t_len - g)) (word_of_nat g) = Some d"
      "set_bit_data (dp ! (p + i)) d (word_of_nat (unat t_pos mod 8 + 1 - g)) (word_of_nat g) = Some b1"
    and b1: "\<forall>j < 8. bit b1 j = (bit (dp ! (p + i)) j \<or>
      (unat t_pos mod 8 + 1 - g \<le> j \<and> j \<le> unat t_pos mod 8 \<and> bit data (t_len - 1 - (unat t_pos mod 8 - j))) \<or>
      (j = unat t_pos mod 8 + 1 \<and> bit data t_len))"
    by blast
  have "set_bits_from data p t_len t_pos i dp =
      set_bits_from data p (t_len - g) (t_pos - word_of_nat g) (i + 1) (dp[p + i := b1])"
    using n d k unfolding g by (subst set_bits_from.simps) (simp add: arr_get_def arr_set_def Let_def)
  then show ?thesis using chunk_frame_bits [OF k gb(1,4) b1] by blast
qed

text \<open>
  Writing \<open>t_len\<close> bits sets the bits of the field. The wide mask lets bit \<open>t_len\<close> of the value through
  as well: it is or-ed into the bit above the field, unless the field starts at bit 7 of its byte.
\<close>

lemma set_bits_from_exact:
  assumes "t_len \<le> 32" and "start_of (p + i) t_pos + t_len \<le> 8 * length dp"
  shows "\<exists>dp'. set_bits_from data p t_len t_pos i dp = Some dp' \<and> length dp' = length dp \<and>
    (\<forall>s < 8 * length dp. frame_bit dp' s = (frame_bit dp s \<or>
       (start_of (p + i) t_pos \<le> s \<and> s < start_of (p + i) t_pos + t_len \<and>
        bit data (t_len - 1 - (s - start_of (p + i) t_pos))) \<or>
       (s + 1 = start_of (p + i) t_pos \<and> 0 < t_len \<and> unat t_pos mod 8 < 7 \<and> bit data t_len)))"
  using assms
proof (induction t_len arbitrary: t_pos i dp rule: less_induct)
  case (less t_len)
  let ?s0 = "start_of (p + i) t_pos" and ?g = "chunk t_len t_pos"
  show ?case
  proof (cases "t_len = 0")
    case True
    then show ?thesis by (auto simp: set_bits_from.simps)
  next
    case False
    then have n: "0 < t_len" by simp
    note g = chunk_bounds [OF n, of t_pos]
    from set_bits_chunk [OF n less.prems refl] obtain b1 where
      step: "set_bits_from data p t_len t_pos i dp =
        set_bits_from data p (t_len - ?g) (t_pos - word_of_nat ?g) (i + 1) (dp[p + i := b1])"
      and first: "\<And>s. frame_bit (dp[p + i := b1]) s = (frame_bit dp s \<or>
        (?s0 \<le> s \<and> s < ?s0 + ?g \<and> bit data (t_len - 1 - (s - ?s0))) \<or>
        (s + 1 = ?s0 \<and> unat t_pos mod 8 < 7 \<and> bit data t_len))" by blast
    show ?thesis
    proof (cases "?g < t_len")
      case last: False
      then have "?g = t_len" using g(2) by simp
      with step first n show ?thesis by (auto simp: set_bits_from.simps [of data p 0])
    next
      case True
      note nx = chunk_next(1) [OF True] chunk_next(2) [OF True, of p i]
      have lt: "t_len - ?g < t_len" and le: "t_len - ?g \<le> 32" using g less.prems(1) by auto
      have "start_of (p + (i + 1)) (t_pos - word_of_nat ?g) + (t_len - ?g) \<le> 8 * length (dp[p + i := b1])"
        unfolding nx(2) using less.prems(2) g(2) by simp
      from less.IH [OF lt le this] obtain dp' where
        r: "set_bits_from data p (t_len - ?g) (t_pos - word_of_nat ?g) (i + 1) (dp[p + i := b1]) = Some dp'"
          "length dp' = length dp"
          "\<And>s. s < 8 * length dp \<Longrightarrow> frame_bit dp' s = (frame_bit (dp[p + i := b1]) s \<or>
            (?s0 + ?g \<le> s \<and> s < ?s0 + ?g + (t_len - ?g) \<and> bit data (t_len - ?g - 1 - (s - (?s0 + ?g)))))"
        unfolding nx by auto
      have "frame_bit dp' s = (frame_bit dp s \<or> (?s0 \<le> s \<and> s < ?s0 + t_len \<and> bit data (t_len - 1 - (s - ?s0))) \<or>
          (s + 1 = ?s0 \<and> 0 < t_len \<and> unat t_pos mod 8 < 7 \<and> bit data t_len))"
        if "s < 8 * length dp" for s
      proof -
        have "t_len - ?g - 1 - (s - (?s0 + ?g)) = t_len - 1 - (s - ?s0)" if "?s0 + ?g \<le> s"
          using that g(2) by simp
        then show ?thesis using r(3) [of s] first [of s] that g(2) n by auto
      qed
      with step r(1,2) show ?thesis by auto
    qed
  qed
qed

text \<open>Nothing spills when the value has no bit there.\<close>

lemma set_bits_from_spec:
  assumes "t_len \<le> 32" and "unat t_pos mod 8 = 7 \<or> \<not> bit data t_len"
    and "start_of (p + i) t_pos + t_len \<le> 8 * length dp"
  shows "\<exists>dp'. set_bits_from data p t_len t_pos i dp = Some dp' \<and> length dp' = length dp \<and>
    (\<forall>s < 8 * length dp. frame_bit dp' s = (frame_bit dp s \<or>
       (start_of (p + i) t_pos \<le> s \<and> s < start_of (p + i) t_pos + t_len \<and>
        bit data (t_len - 1 - (s - start_of (p + i) t_pos)))))"
  using set_bits_from_exact [OF assms(1,3), of data] assms(2) by auto

text \<open>What a chunk adds to the value that is read: its bits, and the bit above them.\<close>

lemma get_chunk_bits:
  assumes n: "0 < t_len" "t_len \<le> 32" and g: "g = chunk t_len t_pos"
    and d: "\<forall>j < 8. bit (d :: u8) j = (j \<le> g \<and> bit (ucast (dp ! k) :: u32) (unat t_pos mod 8 + 1 - g + j))"
    and b: "b < 32"
  shows "bit (acc OR push_bit (t_len - g) (ucast d) :: u32) b =
    (bit acc b \<or> (t_len - g \<le> b \<and> b < t_len \<and> frame_bit dp (start_of k t_pos + t_len - 1 - b)) \<or>
     (b = t_len \<and> unat t_pos mod 8 < 7 \<and> bit (dp ! k) (unat t_pos mod 8 + 1)))"
proof -
  let ?q = "unat t_pos mod 8" and ?s0 = "start_of k t_pos"
  have q8: "?q < 8" by simp
  note gb = chunk_bounds [OF n(1), of t_pos, folded g]
  have a: "bit (acc OR push_bit (t_len - g) (ucast d) :: u32) b =
      (bit acc b \<or> (t_len - g \<le> b \<and> b - (t_len - g) < 8 \<and> bit d (b - (t_len - g))))"
    using b by (auto simp: bit_simps dest: bit_imp_le_length)
  have dk: "bit d (b - (t_len - g)) = bit (dp ! k) (?q + 1 - g + (b - (t_len - g)))"
    if "t_len - g \<le> b" "b \<le> t_len" "b - (t_len - g) < 8"
    using d [rule_format, OF that(3)] that gb by (auto simp: bit_simps dest: bit_imp_le_length)
  consider "b < t_len - g" | "t_len - g \<le> b" "b < t_len" | "b = t_len" | "t_len < b" by linarith
  then show ?thesis
  proof cases
    case 2
    then have w: "8 * k \<le> ?s0 + t_len - 1 - b" "?s0 + t_len - 1 - b < 8 * k + 8"
      using gb q8 by (auto simp: start_of_def)
    from byte_window [OF w] have "frame_bit dp (?s0 + t_len - 1 - b) = bit (dp ! k) (?q + 1 - g + (b - (t_len - g)))"
      using 2 gb q8 by (simp add: frame_bit_def start_of_def)
    with a dk 2 gb show ?thesis by auto
  next
    case 3
    have "?q + 1 - g + (t_len - (t_len - g)) = ?q + 1" using gb by simp
    moreover have "g < 8 \<or> ?q = 7" using gb(3,4) q8 by linarith
    moreover have "bit (dp ! k) (?q + 1) = False" if "?q = 7" using that by (auto dest: bit_imp_le_length)
    ultimately show ?thesis using a dk 3 gb q8 by (cases "?q = 7"; cases "g = 8") auto
  next
    case 4
    then have "\<not> bit d (b - (t_len - g))" if "b - (t_len - g) < 8"
      using d [rule_format, OF that] gb by auto
    with a 4 show ?thesis by auto
  qed (use a gb in auto)
qed

lemma get_bits_chunk:
  assumes n: "0 < t_len" "t_len \<le> 32" and fits: "start_of (p + i) t_pos + t_len \<le> 8 * length dp"
    and g: "g = chunk t_len t_pos"
  shows "\<exists>acc'. get_bits_from dp p t_len t_pos i acc =
      get_bits_from dp p (t_len - g) (t_pos - word_of_nat g) (i + 1) acc' \<and>
    (\<forall>b < 32. bit acc' b =
      (bit acc b \<or> (t_len - g \<le> b \<and> b < t_len \<and> frame_bit dp (start_of (p + i) t_pos + t_len - 1 - b)) \<or>
       (b = t_len \<and> unat t_pos mod 8 < 7 \<and> bit (dp ! (p + i)) (unat t_pos mod 8 + 1))))"
proof -
  let ?q = "unat t_pos mod 8"
  have k: "p + i < length dp" by (rule chunk_inside [OF n(1) fits])
  note gb = chunk_bounds [OF n(1), of t_pos, folded g]
  have "?q + 1 - g < 32" by (simp add: less_imp_diff_less)
  from get_bit_data_spec [OF gb(3) this] obtain d where
    d: "get_bit_data (ucast (dp ! (p + i))) (word_of_nat (?q + 1 - g)) (word_of_nat g) = Some d"
      "\<forall>j < 8. bit d j = (j \<le> g \<and> bit (ucast (dp ! (p + i)) :: u32) (?q + 1 - g + j))" by blast
  have "t_len - g < 32" using n gb(1) by simp
  then have "get_bits_from dp p t_len t_pos i acc =
      get_bits_from dp p (t_len - g) (t_pos - word_of_nat g) (i + 1) (acc OR push_bit (t_len - g) (ucast d))"
    using n d(1) k by (subst get_bits_from.simps) (simp add: arr_get_def g [symmetric] Let_def)
  with get_chunk_bits [OF n g d(2)] show ?thesis by blast
qed

text \<open>
  Reading gives the bits of the field and, because of the wide mask, also the bit above the
  field's first bit when the field does not start at bit 7 of its byte.
\<close>

lemma get_bits_from_spec:
  assumes "t_len \<le> 32" and "start_of (p + i) t_pos + t_len \<le> 8 * length dp"
  shows "\<exists>r. get_bits_from dp p t_len t_pos i acc = Some r \<and>
    (\<forall>n < 32. bit r n = (bit acc n \<or> (n < t_len \<and> frame_bit dp (start_of (p + i) t_pos + t_len - 1 - n)) \<or>
       (n = t_len \<and> 0 < t_len \<and> unat t_pos mod 8 < 7 \<and> bit (dp ! (p + i)) (unat t_pos mod 8 + 1))))"
  using assms
proof (induction t_len arbitrary: t_pos i acc rule: less_induct)
  case (less t_len)
  let ?q = "unat t_pos mod 8" and ?s0 = "start_of (p + i) t_pos" and ?g = "chunk t_len t_pos"
  show ?case
  proof (cases "t_len = 0")
    case True
    then show ?thesis by (auto simp: get_bits_from.simps)
  next
    case False
    then have n: "0 < t_len" by simp
    note g = chunk_bounds [OF n, of t_pos]
    from get_bits_chunk [OF n less.prems refl, of acc] obtain acc' where
      step: "get_bits_from dp p t_len t_pos i acc =
        get_bits_from dp p (t_len - ?g) (t_pos - word_of_nat ?g) (i + 1) acc'"
      and first: "\<And>n. n < 32 \<Longrightarrow> bit acc' n =
        (bit acc n \<or> (t_len - ?g \<le> n \<and> n < t_len \<and> frame_bit dp (?s0 + t_len - 1 - n)) \<or>
         (n = t_len \<and> ?q < 7 \<and> bit (dp ! (p + i)) (?q + 1)))" by blast
    show ?thesis
    proof (cases "?g < t_len")
      case last: False
      then have "?g = t_len" using g(2) by simp
      with step first n show ?thesis by (auto simp: get_bits_from.simps [of dp p 0])
    next
      case True
      note nx = chunk_next(1) [OF True] chunk_next(2) [OF True, of p i]
      have lt: "t_len - ?g < t_len" and le: "t_len - ?g \<le> 32" using g less.prems(1) by auto
      have "start_of (p + (i + 1)) (t_pos - word_of_nat ?g) + (t_len - ?g) \<le> 8 * length dp"
        unfolding nx(2) using less.prems(2) g(2) by simp
      from less.IH [OF lt le this, of acc'] obtain r where
        r: "get_bits_from dp p (t_len - ?g) (t_pos - word_of_nat ?g) (i + 1) acc' = Some r"
          "\<And>n. n < 32 \<Longrightarrow> bit r n = (bit acc' n \<or> (n < t_len - ?g \<and> frame_bit dp (?s0 + ?g + (t_len - ?g) - 1 - n)))"
        unfolding nx by auto
      have "bit r k = (bit acc k \<or> (k < t_len \<and> frame_bit dp (?s0 + t_len - 1 - k)) \<or>
          (k = t_len \<and> 0 < t_len \<and> ?q < 7 \<and> bit (dp ! (p + i)) (?q + 1)))" if "k < 32" for k
        using r(2) [OF that] first [OF that] g(1,2) n by (cases "k < t_len - ?g") auto
      with step r(1) show ?thesis by auto
    qed
  qed
qed

text \<open>
  The value read back from a field that was clear before it was written: the value itself,
  and above it the neighbouring bit of the frame.
\<close>

lemma bit_field_readback:
  assumes n: "0 < unat len" "unat len \<le> 32"
    and fits: "start_of (unat byte_pos) bit_pos + unat len \<le> 8 * length dp"
    and clear: "\<And>s. start_of (unat byte_pos) bit_pos \<le> s \<Longrightarrow> s < start_of (unat byte_pos) bit_pos + unat len \<Longrightarrow>
      \<not> frame_bit dp s"
    and small: "take_bit (unat len) data = data"
  shows "\<exists>dp'. pa_set_protocol_bit_data data byte_pos bit_pos len dp = Some dp' \<and> length dp' = length dp \<and>
    get_bit_value dp' byte_pos bit_pos len = Some (data OR
      (if unat bit_pos mod 8 < 7 \<and> bit (dp ! unat byte_pos) (unat bit_pos mod 8 + 1)
       then push_bit (unat len) 1 else 0))"
proof -
  let ?n = "unat len" and ?p = "unat byte_pos" and ?q = "unat bit_pos mod 8"
  let ?s0 = "start_of ?p bit_pos"
  have q8: "?q < 8" by simp
  have sm: "bit data b \<Longrightarrow> b < ?n" for b using small by (metis bit_take_bit_iff)
  have fits0: "start_of (?p + 0) bit_pos + ?n \<le> 8 * length dp" using fits by simp
  have nb: "unat bit_pos mod 8 = 7 \<or> \<not> bit data ?n" using sm by blast
  from set_bits_from_spec [OF n(2) nb fits0] obtain dp' where
    s: "set_bits_from data ?p ?n bit_pos 0 dp = Some dp'" "length dp' = length dp"
      "\<And>s. s < 8 * length dp \<Longrightarrow> frame_bit dp' s = (frame_bit dp s \<or>
         (?s0 \<le> s \<and> s < ?s0 + ?n \<and> bit data (?n - 1 - (s - ?s0))))"
    by auto
  have fits': "start_of (?p + 0) bit_pos + ?n \<le> 8 * length dp'" using fits s(2) by simp
  from get_bits_from_spec [OF n(2) fits', of 0] n(1) obtain r where
    g: "get_bits_from dp' ?p ?n bit_pos 0 0 = Some r"
      "\<And>b. b < 32 \<Longrightarrow> bit r b = ((b < ?n \<and> frame_bit dp' (?s0 + ?n - 1 - b)) \<or>
         (b = ?n \<and> ?q < 7 \<and> bit (dp' ! ?p) (?q + 1)))"
    by auto
  have field: "frame_bit dp' (?s0 + ?n - 1 - b) = bit data b" if "b < ?n" for b
  proof -
    have "?s0 \<le> ?s0 + ?n - 1 - b" "?s0 + ?n - 1 - b < ?s0 + ?n" "?s0 + ?n - 1 - b < 8 * length dp"
      "?n - 1 - (?s0 + ?n - 1 - b - ?s0) = b"
      using that fits by linarith+
    with s(3) clear show ?thesis by metis
  qed
  have above: "bit (dp' ! ?p) (?q + 1) = bit (dp ! ?p) (?q + 1)" if q: "?q < 7"
  proof -
    have w: "8 * ?p \<le> ?s0 - 1" "?s0 - 1 < 8 * ?p + 8" using q by (simp_all add: start_of_def)
    have "?s0 - 1 - 8 * ?p = 6 - ?q" using q by (simp add: start_of_def)
    with byte_window [OF w] have "(?s0 - 1) div 8 = ?p" "7 - (?s0 - 1) mod 8 = ?q + 1" using q by auto
    then have "frame_bit d (?s0 - 1) = bit (d ! ?p) (?q + 1)" for d by (simp add: frame_bit_def)
    moreover have "\<not> ?s0 \<le> ?s0 - 1" "?s0 - 1 < 8 * length dp" using q n(1) fits by (auto simp: start_of_def)
    with s(3) have "frame_bit dp' (?s0 - 1) = frame_bit dp (?s0 - 1)" by blast
    ultimately show ?thesis by simp
  qed
  have "r = data OR (if ?q < 7 \<and> bit (dp ! ?p) (?q + 1) then push_bit ?n 1 else 0)" (is "_ = ?r")
  proof (rule bit_word_eqI)
    fix b assume b: "b < LENGTH(32)"
    have "bit ?r b = (bit data b \<or> (?q < 7 \<and> bit (dp ! ?p) (?q + 1) \<and> b = ?n))"
      using b by (auto simp: bit_simps bit_1_iff)
    moreover have "\<not> bit data b" if "\<not> b < ?n" using that sm by blast
    ultimately show "bit r b = bit ?r b" using g(2) [of b] b field above by auto
  qed
  with s g(1) n show ?thesis
    by (auto simp: pa_set_protocol_bit_data_def get_bit_value_def short_len_def)
qed

section \<open>Properties\<close>

text \<open>C22. Byte fields of up to four bytes: what \<open>pa_set_protocol_byte_data\<close> writes big-endian at any
  place of a frame, the parser reads back as the low \<open>8 * len\<close> bits of the value.\<close>

theorem byte_field_write_read:
  assumes "unat len \<le> 4" and "unat byte_pos + unat len \<le> length dp"
  shows "\<exists>dp'. pa_set_protocol_byte_data data byte_pos bit_pos len dp = Some dp' \<and> length dp' = length dp
    \<and> get_byte_value dp' byte_pos len = Some (take_bit (8 * unat len) data)"
  using byte_field_roundtrip [OF assms] .

theorem byte_field_write_read_witness:
  "\<exists>dp'. pa_set_protocol_byte_data 0x12345 3 0 2 (replicate 8 0xee) = Some dp' \<and>
     get_byte_value dp' 3 2 = Some 0x2345"
  using byte_field_write_read [where len = 2 and byte_pos = 3 and dp = "replicate 8 0xee" and data = "0x12345" and
    bit_pos = 0]
  by (auto simp: take_bit_eq_mod)

text \<open>C15. What \<open>pa_set_protocol_bit_data\<close> does to a frame, for every value: the low \<open>len\<close> bits of the value
  are or-ed into the field, most significant bit first and across byte boundaries. If the value does
  not fit and the field does not start at bit 7 of its byte, bit \<open>len\<close> of the value is or-ed into the bit of the
  frame just above the field, because the mask made with \<open>pow\<close> is one bit too wide. Every other bit
  of the frame stays as it was.\<close>

theorem bit_field_write_exact:
  assumes "0 < unat len" and "unat len \<le> 32"
    and "start_of (unat byte_pos) bit_pos + unat len \<le> 8 * length dp"
  shows "\<exists>dp'. pa_set_protocol_bit_data data byte_pos bit_pos len dp = Some dp' \<and> length dp' = length dp \<and>
    (\<forall>s < 8 * length dp. frame_bit dp' s = (frame_bit dp s \<or>
       (start_of (unat byte_pos) bit_pos \<le> s \<and> s < start_of (unat byte_pos) bit_pos + unat len \<and>
        bit data (unat len - 1 - (s - start_of (unat byte_pos) bit_pos))) \<or>
       (s + 1 = start_of (unat byte_pos) bit_pos \<and> unat bit_pos mod 8 < 7 \<and> bit data (unat len))))"
  using set_bits_from_exact [of "unat len" "unat byte_pos" 0 bit_pos dp data] assms
  by (simp add: pa_set_protocol_bit_data_def short_len_def)

text \<open>Ten bits across two bytes, and the value 15 in a field of three bits, which sets the bit above it.\<close>

theorem bit_field_write_exact_witness:
  "(\<exists>dp'. pa_set_protocol_bit_data 0x2AB 1 3 10 (replicate 4 0) = Some dp' \<and> length dp' = 4 \<and>
     frame_bit dp' 12 \<and> \<not> frame_bit dp' 13 \<and> \<not> frame_bit dp' 11) \<and>
   (\<exists>dp'. pa_set_protocol_bit_data 0xF 0 3 3 [0] = Some dp' \<and> frame_bit dp' 3 \<and> frame_bit dp' 4 \<and> \<not> frame_bit dp' 2 \<and>
     \<not> frame_bit dp' 7)"
proof
  have pre: "0 < unat (10 :: u16)" "unat (10 :: u16) \<le> 32"
    "start_of (unat (1 :: u8)) 3 + unat (10 :: u16) \<le> 8 * length (replicate 4 (0 :: u8))"
    by (simp_all add: start_of_def)
  from bit_field_write_exact [OF pre, of "0x2AB"] obtain dp' where
    d: "pa_set_protocol_bit_data 0x2AB 1 3 10 (replicate 4 0) = Some dp'" "length dp' = 4"
      "\<And>s. s < 32 \<Longrightarrow> frame_bit dp' s = (frame_bit (replicate 4 0) s \<or> (12 \<le> s \<and> s < 22 \<and> bit (0x2AB :: u32) (9 - (s - 12))) \<or>
        (s + 1 = 12 \<and> bit (0x2AB :: u32) 10))"
    by (auto simp: start_of_def)
  have z: "\<not> frame_bit (replicate 4 0) s" if "s < 32" for s
    using that by (auto simp: frame_bit_def)
  have b: "bit (0x2AB :: u32) 9" "\<not> bit (0x2AB :: u32) 8" "\<not> bit (0x2AB :: u32) 10"
    by (simp_all add: bit_iff_odd_drop_bit drop_bit_eq_div)
  show "\<exists>dp'. pa_set_protocol_bit_data 0x2AB 1 3 10 (replicate 4 0) = Some dp' \<and> length dp' = 4 \<and>
     frame_bit dp' 12 \<and> \<not> frame_bit dp' 13 \<and> \<not> frame_bit dp' 11"
    using d z b by (intro exI [of _ dp'] conjI) simp_all
next
  have pre: "0 < unat (3 :: u16)" "unat (3 :: u16) \<le> 32" "start_of (unat (0 :: u8)) 3 + unat (3 :: u16) \<le> 8 * length [0 :: u8]"
    by (simp_all add: start_of_def)
  from bit_field_write_exact [OF pre, of "0xF"] obtain dp' where
    d: "pa_set_protocol_bit_data 0xF 0 3 3 [0] = Some dp'"
      "\<And>s. s < 8 \<Longrightarrow> frame_bit dp' s = (frame_bit [0] s \<or> (4 \<le> s \<and> s < 7 \<and> bit (0xF :: u32) (2 - (s - 4))) \<or>
        (s + 1 = 4 \<and> bit (0xF :: u32) 3))"
    by (auto simp: start_of_def)
  have z: "\<not> frame_bit [0] s" if "s < 8" for s using that by (auto simp: frame_bit_def)
  have b: "bit (0xF :: u32) 3" "bit (0xF :: u32) 2" by (simp_all add: bit_iff_odd_drop_bit drop_bit_eq_div)
  show "\<exists>dp'. pa_set_protocol_bit_data 0xF 0 3 3 [0] = Some dp' \<and> frame_bit dp' 3 \<and> frame_bit dp' 4 \<and> \<not> frame_bit dp' 2 \<and>
     \<not> frame_bit dp' 7"
    using d z b by (intro exI [of _ dp'] conjI) simp_all
qed

text \<open>C39. What \<open>pa_get_protocol_bit_data\<close> returns for a field written into a clear place of a frame: the
  value, but with the neighbouring bit above the field on top of it. The mask \<open>pow(2, len) - 1\<close>
  is one bit too wide, because \<open>pow(x, y)\<close> computes the power \<open>y + 1\<close>.\<close>

theorem bit_field_read_has_extra_bit:
  assumes "0 < unat len" and "unat len \<le> 32"
    and "start_of (unat byte_pos) bit_pos + unat len \<le> 8 * length dp"
    and "\<And>s. start_of (unat byte_pos) bit_pos \<le> s \<Longrightarrow> s < start_of (unat byte_pos) bit_pos + unat len \<Longrightarrow>
      \<not> frame_bit dp s"
    and "take_bit (unat len) data = data"
  shows "\<exists>dp'. pa_set_protocol_bit_data data byte_pos bit_pos len dp = Some dp' \<and>
    get_bit_value dp' byte_pos bit_pos len = Some (data OR
      (if unat bit_pos mod 8 < 7 \<and> bit (dp ! unat byte_pos) (unat bit_pos mod 8 + 1)
       then push_bit (unat len) 1 else 0))"
  using bit_field_readback [OF assms(1-3) _ assms(5)] assms(4) by blast

theorem bit_field_read_has_extra_bit_witness:
  "\<exists>dp'. pa_set_protocol_bit_data 5 0 3 3 [0x10] = Some dp' \<and> get_bit_value dp' 0 3 3 = Some 13"
proof -
  have z: "\<not> frame_bit [0x10 :: u8] s" if "4 \<le> s" "s < 7" for s
  proof -
    have "s = 4 \<or> s = 5 \<or> s = 6" using that by auto
    then show ?thesis by (auto simp: frame_bit_def bit_iff_odd_drop_bit drop_bit_eq_div)
  qed
  have e: "take_bit 3 (5 :: u32) = 5" by (simp add: take_bit_eq_mod)
  have t: "bit (0x10 :: u8) 4" by (simp add: bit_iff_odd_drop_bit drop_bit_eq_div)
  show ?thesis
    using bit_field_read_has_extra_bit [of 3 0 3 "[0x10]" 5] z e t
    by (simp add: start_of_def push_bit_eq_mult)
qed

end
