(* ===== verification/Protocol_Analyzer.thy ===== *)
theory Protocol_Analyzer
  imports Protocol_Format Field_Data
begin

text \<open>
  The protocol analyzer of \<open>driver/libproto_analyzer/protocol_analyzer.c\<close>: it copies the
  format of a protocol number, indexes the copied fields by name in a hash map, and then
  generates a frame from the field values or parses a frame into them. The analyzer structure
  is passed and returned; fields, lists, buffers and the hash map's nodes are in the store.
\<close>

section \<open>Data\<close>

definition MAX_PROTO_DATA_LEN :: nat where "MAX_PROTO_DATA_LEN = 100"
definition sizeof_analyzer :: nat where "sizeof_analyzer = 152"

record analyzer =
  pa_self :: addr
  pfs_p :: "format_set option"
  protocol_data :: bytes
  protocol_data_len :: u16
  protocol_num :: u32
  pf_list_head_p :: addr
  pa_list_head_p :: addr
  pa_allocator :: allocator
  pa_hmap :: "hash_map option"

section \<open>Finding and copying a format\<close>

definition pa_check_protocol_num :: "analyzer \<Rightarrow> int option" where
  "pa_check_protocol_num pa = do {
     pfs \<leftarrow> pfs_p pa;
     Some (if protocol_num pa > proto_base_addr pfs + proto_max_num pfs \<or>
              protocol_num pa < proto_base_addr pfs then -1 else 0)
   }"

definition pa_find_protocol_format :: "analyzer \<Rightarrow> 'z pmem_scheme \<Rightarrow> (int \<times> analyzer) option" where
  "pa_find_protocol_format pa m = do {
     ret \<leftarrow> pa_check_protocol_num pa;
     if ret < 0 then Some (ret, pa)
     else do {
       pfs \<leftarrow> pfs_p pa;
       hl \<leftarrow> rd_ptr (table_cell pfs (protocol_num pa - proto_base_addr pfs)) m;
       Some (if hl = NULL then -1 else ret, pa\<lparr>pf_list_head_p := hl\<rparr>)
     }
   }"

text \<open>\<open>memcpy\<close> of a field description; the embedded list links are overwritten afterwards.\<close>

definition copy_field ::
  "kmalloc_fn \<Rightarrow> allocator \<Rightarrow> addr \<Rightarrow> addr \<Rightarrow> 'z pmem_scheme \<Rightarrow> 'z pmem_scheme option" where
  "copy_field km al new_hl pos m = do {
     (p, m1) \<leftarrow> allocator_mem_alloc km al (word_of_nat sizeof_proto_info) m;
     i \<leftarrow> rd_info (info_of pos) m1;
     m2 \<leftarrow> wr_info p i m1;
     pfs_add_list (p + offset_info_list) new_hl m2
   }"

definition pa_copy_protocol_format ::
  "kmalloc_fn \<Rightarrow> analyzer \<Rightarrow> 'z pmem_scheme \<Rightarrow> (int \<times> analyzer \<times> 'z pmem_scheme) option" where
  "pa_copy_protocol_format km pa m =
     (if pf_list_head_p pa = NULL then Some (-1, pa, m)
      else do {
        let hl = pf_list_head_p pa;
        (h, m1) \<leftarrow> allocator_mem_alloc km (pa_allocator pa) (word_of_nat sizeof_proto_head) m;
        c \<leftarrow> rd_count (head_base hl) m1;
        m2 \<leftarrow> wr_count h c m1;
        m3 \<leftarrow> wr_allocator h (pa_allocator pa) m2;
        m4 \<leftarrow> wr_count h 0 m3;
        let new_hl = h + offset_head_list;
        m5 \<leftarrow> INIT_LIST_HEAD new_hl m4;
        m6 \<leftarrow> list_for_each_safe rd_next (copy_field km (pa_allocator pa) new_hl) hl m5;
        Some (0, pa\<lparr>pa_list_head_p := new_hl\<rparr>, m6)
      })"

section \<open>The index of the fields\<close>

definition addr_bytes :: "addr \<Rightarrow> bytes" where
  "addr_bytes a = [ucast (drop_bit 24 a AND 0xff), ucast (drop_bit 16 a AND 0xff),
     ucast (drop_bit 8 a AND 0xff), ucast (drop_bit 0 a AND 0xff)]"

definition addr_of_bytes :: "bytes \<Rightarrow> addr option" where
  "addr_of_bytes b = (case b of
     b0 # b1 # b2 # b3 # _ \<Rightarrow>
       Some (push_bit 24 (ucast b0) OR push_bit 16 (ucast b1) OR push_bit 8 (ucast b2) OR ucast b3)
   | _ \<Rightarrow> None)"

definition index_field ::
  "kmalloc_fn \<Rightarrow> pair \<Rightarrow> addr \<Rightarrow> hash_map \<times> 'z pmem_scheme \<Rightarrow> (hash_map \<times> 'z pmem_scheme) option" where
  "index_field km pr pos s = do {
     let p = info_of pos;
     i \<leftarrow> rd_info p (snd s);
     pr1 \<leftarrow> make_pair pr (pi_name i) (addr_bytes p) (snd s);
     (r, h, m) \<leftarrow> hash_map_insert km (fst s) (pair_data pr1) (snd s);
     Some (h, m)
   }"

definition INDEX_KEY_SIZE :: u32 where "INDEX_KEY_SIZE = 10"
definition INDEX_DATA_SIZE :: u32 where "INDEX_DATA_SIZE = 4"
definition INDEX_BUCKETS :: u32 where "INDEX_BUCKETS = 10"

text \<open>\<open>stale\<close> stands for the contents of the freshly allocated map structure.\<close>

definition pa_create_hash_table ::
  "kmalloc_fn \<Rightarrow> hash_map \<Rightarrow> analyzer \<Rightarrow> 'z pmem_scheme \<Rightarrow> (int \<times> analyzer \<times> 'z pmem_scheme) option"
where
  "pa_create_hash_table km stale pa m = do {
     let hl = pa_list_head_p pa;
     (pr, m1) \<leftarrow> create_pair km INDEX_KEY_SIZE INDEX_DATA_SIZE m;
     (h, m2) \<leftarrow> hash_map_create km stale (pa_allocator pa) 0 m1;
     (r, h1, m3) \<leftarrow> hash_map_init km h INDEX_KEY_SIZE (INDEX_DATA_SIZE + INDEX_KEY_SIZE) INDEX_BUCKETS
        default_hash_func default_key_cmp_func m2;
     if hl = NULL then Some (-1, pa, m3)
     else do {
       (h2, m4) \<leftarrow> list_for_each_safe (\<lambda>p s. rd_next p (snd s)) (index_field km pr) hl (h1, m3);
       Some (0, pa\<lparr>pa_hmap := Some h2\<rparr>, m4)
     }
   }"

text \<open>
  The lookup of a field by name. A name of ten characters or more is not copied into the
  local array \<open>key_str\<close>, which is then used uninitialised: \<open>vla\<close> stands for its contents.
\<close>

definition search_key :: "bytes \<Rightarrow> u32 \<Rightarrow> bytes \<Rightarrow> bytes" where
  "search_key vla ksz key =
     (if length key < unat ksz then key @ replicate (unat ksz - length key) 0 else vla)"

definition pa_find_key :: "bytes \<Rightarrow> bytes \<Rightarrow> analyzer \<Rightarrow> 'z pmem_scheme \<Rightarrow> addr option" where
  "pa_find_key vla key pa m = do {
     h \<leftarrow> pa_hmap pa;
     pos \<leftarrow> hash_map_search h (search_key vla (hm_key_size h) key) m;
     if hlist_node_p pos = NULL then Some NULL
     else do {
       a \<leftarrow> hash_map_pos_get_pointer pos m;
       addr_of_bytes (bytes_from (hlist_node_p pos) a m)
     }
   }"

section \<open>Life cycle\<close>

definition pa_create_protocol_analyzer ::
  "kmalloc_fn \<Rightarrow> allocator \<Rightarrow> 'z pmem_scheme \<Rightarrow> (analyzer \<times> 'z pmem_scheme) option" where
  "pa_create_protocol_analyzer km al m = do {
     (p, m1) \<leftarrow> allocator_mem_alloc km al (word_of_nat sizeof_analyzer) m;
     assert_opt (p \<noteq> NULL);
     Some (\<lparr>pa_self = p, pfs_p = None, protocol_data = replicate MAX_PROTO_DATA_LEN 0,
       protocol_data_len = 0, protocol_num = 0, pf_list_head_p = NULL, pa_list_head_p = NULL,
       pa_allocator = al, pa_hmap = None\<rparr>, m1)
   }"

text \<open>The results of the three steps are ignored.\<close>

definition pa_init_protocol_analyzer ::
  "kmalloc_fn \<Rightarrow> hash_map \<Rightarrow> u32 \<Rightarrow> format_set \<Rightarrow> analyzer \<Rightarrow> 'z pmem_scheme \<Rightarrow>
     (analyzer \<times> 'z pmem_scheme) option" where
  "pa_init_protocol_analyzer km stale proto_no pfs pa m = do {
     (r1, pa1) \<leftarrow> pa_find_protocol_format (pa\<lparr>protocol_num := proto_no, pfs_p := Some pfs\<rparr>) m;
     (r2, pa2, m2) \<leftarrow> pa_copy_protocol_format km pa1 m;
     (r3, pa3, m3) \<leftarrow> pa_create_hash_table km stale pa2 m2;
     Some (pa3, m3)
   }"

definition pa_destroy_protocol_analyzer :: "analyzer \<Rightarrow> 'z pmem_scheme \<Rightarrow> 'z pmem_scheme option" where
  "pa_destroy_protocol_analyzer pa m = do {
     m1 \<leftarrow> pfs_del_list_for_each (pa_list_head_p pa) m;
     h \<leftarrow> pa_hmap pa;
     (h1, m2) \<leftarrow> hash_map_destroy h m1;
     allocator_mem_free (pa_allocator pa) (pa_self pa) m2
   }"

section \<open>Field values\<close>

text \<open>\<open>memcpy\<close> to and from a heap buffer.\<close>

definition wr_buf :: "addr \<Rightarrow> bytes \<Rightarrow> nat \<Rightarrow> 'z pmem_scheme \<Rightarrow> 'z pmem_scheme option" where
  "wr_buf p data n m =
     (if n = 0 then Some m
      else if valid m p n \<and> n \<le> length data
      then Some (m\<lparr>bufs := (bufs m)(p := take n data @ drop n (bufs m p))\<rparr>) else None)"

definition rd_buf :: "addr \<Rightarrow> nat \<Rightarrow> 'z pmem_scheme \<Rightarrow> bytes option" where
  "rd_buf p n m =
     (if n = 0 then Some []
      else if valid m p n \<and> n \<le> length (bufs m p) then Some (take n (bufs m p)) else None)"

definition pa_set_buf ::
  "kmalloc_fn \<Rightarrow> bytes \<Rightarrow> bytes \<Rightarrow> bytes \<Rightarrow> u32 \<Rightarrow> analyzer \<Rightarrow> 'z pmem_scheme \<Rightarrow> (int \<times> 'z pmem_scheme) option"
where
  "pa_set_buf km vla key data len pa m = do {
     p \<leftarrow> pa_find_key vla key pa m;
     if p = NULL then Some (0, m)
     else do {
       i \<leftarrow> rd_info p m;
       if buf_data_p i = NULL then do {
         (b, m1) \<leftarrow> allocator_mem_alloc km (pa_allocator pa) len m;
         m2 \<leftarrow> wr_info p (i\<lparr>buf_data_p := b, buf_len := ucast len\<rparr>) m1;
         m3 \<leftarrow> wr_buf b data (unat len) m2;
         Some (0, m3) }
       else if len \<le> ucast (buf_len i) then do {
         m1 \<leftarrow> wr_buf (buf_data_p i) data (unat len) m;
         Some (0, m1) }
       else do {
         m1 \<leftarrow> allocator_mem_free (pa_allocator pa) (buf_data_p i) m;
         (b, m2) \<leftarrow> allocator_mem_alloc km (pa_allocator pa) len m1;
         m3 \<leftarrow> wr_info p (i\<lparr>buf_data_p := b, buf_len := ucast len\<rparr>) m2;
         m4 \<leftarrow> wr_buf b data (unat len) m3;
         Some (0, m4) }
     }
   }"

text \<open>No test for a name that is not found.\<close>

definition pa_set_value ::
  "bytes \<Rightarrow> bytes \<Rightarrow> u32 \<Rightarrow> analyzer \<Rightarrow> 'z pmem_scheme \<Rightarrow> (int \<times> 'z pmem_scheme) option" where
  "pa_set_value vla key val pa m = do {
     p \<leftarrow> pa_find_key vla key pa m;
     i \<leftarrow> rd_info p m;
     m1 \<leftarrow> wr_info p (i\<lparr>pi_data := val\<rparr>) m;
     Some (0, m1)
   }"

text \<open>The value as an unsigned word; \<open>-1\<close> when the name is not found.\<close>

definition pa_get_value :: "bytes \<Rightarrow> bytes \<Rightarrow> analyzer \<Rightarrow> 'z pmem_scheme \<Rightarrow> u32 option" where
  "pa_get_value vla key pa m = do {
     p \<leftarrow> pa_find_key vla key pa m;
     if p \<noteq> NULL then do { i \<leftarrow> rd_info p m; Some (pi_data i) } else Some (-1)
   }"

definition pa_set_variable_length_value ::
  "bytes \<Rightarrow> bytes \<Rightarrow> u32 \<Rightarrow> analyzer \<Rightarrow> 'z pmem_scheme \<Rightarrow> (int \<times> 'z pmem_scheme) option" where
  "pa_set_variable_length_value vla key val pa m = do {
     p \<leftarrow> pa_find_key vla key pa m;
     if p \<noteq> NULL then do {
       i \<leftarrow> rd_info p m;
       m1 \<leftarrow> wr_info p (i\<lparr>pi_data := val, vlenth_value_assigned_flag := True\<rparr>) m;
       Some (0, m1) }
     else Some (-1, m)
   }"

section \<open>Fields of variable length\<close>

text \<open>The loop \<open>for (pos = cur->next; pos != list_head_p; pos = pos->next)\<close>.\<close>

partial_function (option) shift_from :: "u8 \<Rightarrow> addr \<Rightarrow> addr \<Rightarrow> 'z pmem_scheme \<Rightarrow> 'z pmem_scheme option" where
  "shift_from d hl pos m =
     (if pos = hl then Some m
      else do {
        i \<leftarrow> rd_info (info_of pos) m;
        m1 \<leftarrow> wr_info (info_of pos) (i\<lparr>byte_pos := byte_pos i + d\<rparr>) m;
        nx \<leftarrow> rd_next pos m1;
        shift_from d hl nx m1
      })"

declare shift_from.simps [code]

definition pa_recompute_byte_pos ::
  "bytes \<Rightarrow> addr \<Rightarrow> analyzer \<Rightarrow> 'z pmem_scheme \<Rightarrow> (int \<times> 'z pmem_scheme) option" where
  "pa_recompute_byte_pos vla cur pa m =
     (if pa_list_head_p pa = NULL then Some (-1, m)
      else do {
        i \<leftarrow> rd_info (info_of cur) m;
        f \<leftarrow> pa_find_key vla (cstr (vlenth_index i)) pa m;
        if f = NULL then Some (-1, m)
        else do {
          fi \<leftarrow> rd_info f m;
          m1 \<leftarrow> wr_info (info_of cur) (i\<lparr>pi_len := ucast (pi_data fi)\<rparr>) m;
          fi1 \<leftarrow> rd_info f m1;
          let bits = pi_data fi1 * ucast (len_unit i);
          nx \<leftarrow> rd_next cur m1;
          m2 \<leftarrow> shift_from (ucast (bits div 8)) (pa_list_head_p pa) nx m1;
          Some (0, m2)
        }
      })"

definition mark_length_field ::
  "bytes \<Rightarrow> analyzer \<Rightarrow> addr \<Rightarrow> 'z pmem_scheme \<Rightarrow> 'z pmem_scheme option" where
  "mark_length_field vla pa pos m = do {
     i \<leftarrow> rd_info (info_of pos) m;
     if vlenth_flag i then do {
       f \<leftarrow> pa_find_key vla (cstr (vlenth_index i)) pa m;
       if f \<noteq> NULL then do {
         fi \<leftarrow> rd_info f m;
         wr_info f (fi\<lparr>vlenth_value_flag := True\<rparr>) m }
       else Some m }
     else Some m
   }"

definition pa_set_variable_length_flag ::
  "bytes \<Rightarrow> analyzer \<Rightarrow> 'z pmem_scheme \<Rightarrow> (int \<times> 'z pmem_scheme) option" where
  "pa_set_variable_length_flag vla pa m =
     (if pa_list_head_p pa = NULL then Some (-1, m)
      else do {
        m1 \<leftarrow> list_for_each_safe rd_next (mark_length_field vla pa) (pa_list_head_p pa) m;
        Some (0, m1)
      })"

definition reset_field :: "addr \<Rightarrow> 'z pmem_scheme \<Rightarrow> 'z pmem_scheme option" where
  "reset_field pos m = do {
     i \<leftarrow> rd_info (info_of pos) m;
     if vlenth_flag_bak i then wr_info (info_of pos) (i\<lparr>vlenth_flag := True\<rparr>) m else Some m
   }"

definition pa_reset_vlen_flag :: "analyzer \<Rightarrow> 'z pmem_scheme \<Rightarrow> (int \<times> 'z pmem_scheme) option" where
  "pa_reset_vlen_flag pa m =
     (if pa_list_head_p pa = NULL then Some (-1, m)
      else do {
        m1 \<leftarrow> list_for_each_safe rd_next reset_field (pa_list_head_p pa) m;
        Some (0, m1)
      })"

text \<open>What both loops do first with a field of variable length.\<close>

definition resolve_length ::
  "bytes \<Rightarrow> addr \<Rightarrow> analyzer \<Rightarrow> 'z pmem_scheme \<Rightarrow> 'z pmem_scheme option" where
  "resolve_length vla pos pa m = do {
     (r, m1) \<leftarrow> pa_recompute_byte_pos vla pos pa m;
     i \<leftarrow> rd_info (info_of pos) m1;
     wr_info (info_of pos) (i\<lparr>vlenth_flag := False\<rparr>) m1
   }"

section \<open>Generating a frame\<close>

text \<open>
  The loop state: the frame, the store, and the local variables \<open>byte_pos\<close> and \<open>len\<close>, which
  are uninitialised before the first round.
\<close>

type_synonym 'z gen_state = "bytes \<times> 'z pmem_scheme \<times> (u8 \<times> u16) option"

definition generate_field ::
  "bytes \<Rightarrow> analyzer \<Rightarrow> addr \<Rightarrow> bytes \<times> 'z pmem_scheme \<times> (u8 \<times> u16) option \<Rightarrow>
     (bytes \<times> 'z pmem_scheme \<times> (u8 \<times> u16) option) option" where
  "generate_field vla pa pos s = do {
     let (dp, m, loc) = s;
     i \<leftarrow> rd_info (info_of pos) m;
     m1 \<leftarrow> (if vlenth_flag i then resolve_length vla pos pa m else Some m);
     i1 \<leftarrow> rd_info (info_of pos) m1;
     let len = (if vlenth_flag i then pi_len i1 else pi_len i);
     let unt = (if vlenth_flag i then len_unit i1 else len_unit i);
     dp1 \<leftarrow> (if unt = 8 then
               (if len \<le> 4 then pa_set_protocol_byte_data (pi_data i) (byte_pos i) (bit_pos i) len dp
                else if bit_pos i \<noteq> 0 then Some dp
                else do {
                  b \<leftarrow> rd_buf (buf_data_p i1) (unat len) m1;
                  pa_set_protocol_buf b (ucast len) (byte_pos i) (bit_pos i) dp })
             else if unt = 1 then pa_set_protocol_bit_data (pi_data i) (byte_pos i) (bit_pos i) len dp
             else Some dp);
     Some (dp1, m1, Some (byte_pos i, len))
   }"

definition pa_generate_protocol_data ::
  "bytes \<Rightarrow> analyzer \<Rightarrow> 'z pmem_scheme \<Rightarrow> (int \<times> analyzer \<times> 'z pmem_scheme) option" where
  "pa_generate_protocol_data vla pa m =
     (if pa_list_head_p pa = NULL then Some (-1, pa, m)
      else do {
        (r, m1) \<leftarrow> pa_set_variable_length_flag vla pa m;
        (dp, m2, loc) \<leftarrow> list_for_each_safe (\<lambda>p (dp, m, loc). rd_next p m) (generate_field vla pa)
           (pa_list_head_p pa) (protocol_data pa, m1, None);
        (bp, len) \<leftarrow> loc;
        Some (0, pa\<lparr>protocol_data := dp, protocol_data_len := ucast bp + len\<rparr>, m2)
      })"

section \<open>Parsing a frame\<close>

text \<open>The new contents of the field's buffer are read from the frame.\<close>

definition fill_buf ::
  "analyzer \<Rightarrow> addr \<Rightarrow> addr \<Rightarrow> proto_info \<Rightarrow> 'z pmem_scheme \<Rightarrow> 'z pmem_scheme option" where
  "fill_buf pa p b i m = do {
     d \<leftarrow> slice_of (protocol_data pa) (unat (byte_pos i)) (unat (pi_len i));
     m1 \<leftarrow> wr_buf b d (unat (pi_len i)) m;
     wr_info p (i\<lparr>buf_data_p := b, buf_len := pi_len i\<rparr>) m1
   }"

definition pa_get_protocol_buf ::
  "kmalloc_fn \<Rightarrow> addr \<Rightarrow> analyzer \<Rightarrow> 'z pmem_scheme \<Rightarrow> 'z pmem_scheme option" where
  "pa_get_protocol_buf km p pa m = do {
     i \<leftarrow> rd_info p m;
     if buf_data_p i = NULL then do {
       (b, m1) \<leftarrow> allocator_mem_alloc km (pa_allocator pa) (ucast (pi_len i)) m;
       fill_buf pa p b i m1 }
     else if pi_len i \<le> buf_len i then fill_buf pa p (buf_data_p i) i m
     else do {
       m1 \<leftarrow> allocator_mem_free (pa_allocator pa) (buf_data_p i) m;
       (b, m2) \<leftarrow> allocator_mem_alloc km (pa_allocator pa) (ucast (pi_len i)) m1;
       fill_buf pa p b i m2 }
   }"

definition pa_get_protocol_byte_data :: "addr \<Rightarrow> analyzer \<Rightarrow> 'z pmem_scheme \<Rightarrow> 'z pmem_scheme option" where
  "pa_get_protocol_byte_data p pa m = do {
     i \<leftarrow> rd_info p m;
     v \<leftarrow> get_byte_value (protocol_data pa) (byte_pos i) (pi_len i);
     wr_info p (i\<lparr>pi_data := v\<rparr>) m
   }"

definition pa_get_protocol_bit_data :: "addr \<Rightarrow> analyzer \<Rightarrow> 'z pmem_scheme \<Rightarrow> 'z pmem_scheme option" where
  "pa_get_protocol_bit_data p pa m = do {
     i \<leftarrow> rd_info p m;
     v \<leftarrow> get_bit_value (protocol_data pa) (byte_pos i) (bit_pos i) (pi_len i);
     wr_info p (i\<lparr>pi_data := v\<rparr>) m
   }"

definition parse_field ::
  "kmalloc_fn \<Rightarrow> bytes \<Rightarrow> analyzer \<Rightarrow> addr \<Rightarrow> 'z pmem_scheme \<Rightarrow> 'z pmem_scheme option" where
  "parse_field km vla pa pos m = do {
     i \<leftarrow> rd_info (info_of pos) m;
     m1 \<leftarrow> (if vlenth_flag i then resolve_length vla pos pa m else Some m);
     i1 \<leftarrow> rd_info (info_of pos) m1;
     (if len_unit i1 = 8 then
        (if pi_len i1 \<le> 4 then pa_get_protocol_byte_data (info_of pos) pa m1
         else pa_get_protocol_buf km (info_of pos) pa m1)
      else if len_unit i1 = 1 then pa_get_protocol_bit_data (info_of pos) pa m1
      else Some m1)
   }"

definition pa_parse_protocol_data ::
  "kmalloc_fn \<Rightarrow> bytes \<Rightarrow> analyzer \<Rightarrow> 'z pmem_scheme \<Rightarrow> (int \<times> 'z pmem_scheme) option" where
  "pa_parse_protocol_data km vla pa m =
     (if pa_list_head_p pa = NULL then Some (-1, m)
      else if protocol_data_len pa = 0 then Some (-1, m)
      else do {
        m1 \<leftarrow> list_for_each_safe rd_next (parse_field km vla pa) (pa_list_head_p pa) m;
        Some (0, m1)
      })"

end
