(* ===== verification/Frame_Layout.thy ===== *)
theory Frame_Layout
  imports Protocol_Analyzer
begin

text \<open>
  What a field description says about a frame: the run of bits the field occupies, its bits,
  most significant first, and what writing one field, or all fields of a format, does to the
  bits of the frame. The writing part of \<open>pa_generate_protocol_data\<close> is related to it here.
\<close>

section \<open>The bits of a field\<close>

definition field_start :: "proto_info \<Rightarrow> nat" where
  "field_start i = (if len_unit i = 8 then 8 * unat (byte_pos i)
     else start_of (unat (byte_pos i)) (bit_pos i))"

definition field_bits :: "proto_info \<Rightarrow> nat" where
  "field_bits i = (if len_unit i = 8 then 8 * unat (pi_len i) else unat (pi_len i))"

definition wide :: "proto_info \<Rightarrow> bool" where
  "wide i = (len_unit i = 8 \<and> 4 < pi_len i)"

definition field_bit :: "(addr \<Rightarrow> bytes) \<Rightarrow> proto_info \<Rightarrow> nat \<Rightarrow> bool" where
  "field_bit bf i k = (if wide i then frame_bit (bf (buf_data_p i)) k
     else bit (pi_data i) (field_bits i - 1 - k))"

definition field_range :: "proto_info \<Rightarrow> nat set" where
  "field_range i = {field_start i ..< field_start i + field_bits i}"

text \<open>
  A field of \<open>n\<close>-byte frames that both directions support: bytes, with a buffer for more than
  four, or at most 32 bits.
\<close>

definition field_ok :: "'z pmem_scheme \<Rightarrow> nat \<Rightarrow> proto_info \<Rightarrow> bool" where
  "field_ok m n i =
     ((len_unit i = 8 \<or> len_unit i = 1 \<and> unat (pi_len i) \<le> 32) \<and>
      field_start i + field_bits i \<le> 8 * n \<and>
      (wide i \<longrightarrow> bit_pos i = 0 \<and> valid m (buf_data_p i) (unat (pi_len i)) \<and>
        unat (pi_len i) \<le> length (bufs m (buf_data_p i))))"

text \<open>The value of a bit field fits in the field.\<close>

definition value_ok :: "proto_info \<Rightarrow> bool" where
  "value_ok i = (len_unit i = 1 \<longrightarrow> take_bit (unat (pi_len i)) (pi_data i) = pi_data i)"

section \<open>Writing a field\<close>

text \<open>The part of \<open>generate_field\<close> after the length is known.\<close>

definition put_field :: "'z pmem_scheme \<Rightarrow> proto_info \<Rightarrow> bytes \<Rightarrow> bytes option" where
  "put_field m i dp =
     (if len_unit i = 8 then
        (if pi_len i \<le> 4 then pa_set_protocol_byte_data (pi_data i) (byte_pos i) (bit_pos i) (pi_len i) dp
         else if bit_pos i \<noteq> 0 then Some dp
         else do {
           b \<leftarrow> rd_buf (buf_data_p i) (unat (pi_len i)) m;
           pa_set_protocol_buf b (ucast (pi_len i)) (byte_pos i) (bit_pos i) dp })
      else if len_unit i = 1
      then pa_set_protocol_bit_data (pi_data i) (byte_pos i) (bit_pos i) (pi_len i) dp
      else Some dp)"

definition writes :: "'z pmem_scheme \<Rightarrow> proto_info \<Rightarrow> bytes \<Rightarrow> bytes \<Rightarrow> bool" where
  "writes m i dp dp' = (length dp' = length dp \<and> (\<forall>s < 8 * length dp.
     frame_bit dp' s = (if s \<in> field_range i then field_bit (bufs m) i (s - field_start i)
       else frame_bit dp s)))"

lemma frame_bit_split: "frame_bit dp (8 * k + r) = bit (dp ! k) (7 - r)" if "r < 8"
  using that by (simp add: frame_bit_def)

lemma put_bytes:
  assumes "len_unit i = 8" and "pi_len i \<le> 4" and "field_start i + field_bits i \<le> 8 * length dp"
  shows "\<exists>dp'. put_field m i dp = Some dp' \<and> writes m i dp dp'"
proof -
  let ?n = "unat (pi_len i)" and ?p = "unat (byte_pos i)"
  have n: "?n \<le> 4" using assms(2) by (simp add: word_le_nat_alt)
  have narrow: "\<not> wide i" using assms(2) by (auto simp: wide_def)
  have p: "?p + ?n \<le> length dp" using assms(1,3) by (simp add: field_start_def field_bits_def)
  from set_bytes_from_spec [OF le0 n p] obtain dp' where
    s: "set_bytes_from (pi_data i) ?p ?n 0 dp = Some dp'" "length dp' = length dp"
      "\<And>k. dp' ! k = (if ?p \<le> k \<and> k < ?p + ?n then be_byte (pi_data i) (?n - 1 - (k - ?p)) else dp ! k)"
    by auto
  have "frame_bit dp' t = (if t \<in> field_range i then field_bit (bufs m) i (t - field_start i) else frame_bit dp t)" for t
  proof -
    obtain k r where t: "t = 8 * k + r" and r: "r < 8"
      by (metis mult_div_mod_eq mod_less_divisor zero_less_numeral)
    have inr: "(t \<in> field_range i) = (?p \<le> k \<and> k < ?p + ?n)"
      using assms(1) r unfolding t field_range_def field_start_def field_bits_def by auto
    show ?thesis
    proof (cases "?p \<le> k \<and> k < ?p + ?n")
      case True
      then have "8 * ?n - 1 - (t - 8 * ?p) = 8 * (?n - 1 - (k - ?p)) + (7 - r)"
        using r unfolding t by linarith
      then have "field_bit (bufs m) i (t - field_start i) = bit (pi_data i) (8 * (?n - 1 - (k - ?p)) + (7 - r))"
        using assms(1) narrow by (simp add: field_bit_def field_bits_def field_start_def)
      moreover have "frame_bit dp' t = bit (be_byte (pi_data i) (?n - 1 - (k - ?p))) (7 - r)"
        unfolding t frame_bit_split [OF r] using s(3) [of k] True by simp
      moreover have "7 - r < 8" by simp
      ultimately show ?thesis using True inr by (simp add: be_byte_def bit_simps)
    next
      case False
      with inr s(3) [of k] show ?thesis unfolding t frame_bit_split [OF r] by simp
    qed
  qed
  with s assms(1,2) show ?thesis
    by (simp add: put_field_def pa_set_protocol_byte_data_def writes_def)
qed

lemma put_wide:
  assumes "wide i" and "field_ok m (length dp) i"
  shows "\<exists>dp'. put_field m i dp = Some dp' \<and> writes m i dp dp'"
proof -
  let ?n = "unat (pi_len i)" and ?p = "unat (byte_pos i)" and ?b = "bufs m (buf_data_p i)"
  have u: "len_unit i = 8" "\<not> pi_len i \<le> 4" "0 < ?n"
    using assms(1) by (auto simp: wide_def word_less_nat_alt word_le_nat_alt)
  have o: "bit_pos i = 0" "valid m (buf_data_p i) ?n" "?n \<le> length ?b" "?p + ?n \<le> length dp"
    using assms u(1) by (auto simp: field_ok_def field_start_def field_bits_def)
  have n32: "unat (ucast (pi_len i) :: u32) = ?n"
  proof -
    have "?n < 2 ^ LENGTH(16)" by (rule unsigned_less)
    then show ?thesis by (simp add: unsigned_ucast_eq take_bit_nat_eq_self)
  qed
  define dp' where "dp' = take ?p dp @ take ?n ?b @ drop (?p + ?n) dp"
  have put: "put_field m i dp = Some dp'" and len: "length dp' = length dp"
    using u o n32 by (auto simp: put_field_def rd_buf_def pa_set_protocol_buf_def blit_def dp'_def)
  have nth: "dp' ! k = (if ?p \<le> k \<and> k < ?p + ?n then ?b ! (k - ?p) else dp ! k)" if "k < length dp" for k
    using that o(3,4) by (auto simp: dp'_def nth_append min_def)
  have "frame_bit dp' t = (if t \<in> field_range i then field_bit (bufs m) i (t - field_start i) else frame_bit dp t)"
    if tl: "t < 8 * length dp" for t
  proof -
    obtain k r where t: "t = 8 * k + r" and r: "r < 8"
      by (metis mult_div_mod_eq mod_less_divisor zero_less_numeral)
    have k: "k < length dp" using tl t by simp
    have inr: "(t \<in> field_range i) = (?p \<le> k \<and> k < ?p + ?n)"
      using u(1) r unfolding t field_range_def field_start_def field_bits_def by auto
    show ?thesis
    proof (cases "?p \<le> k \<and> k < ?p + ?n")
      case True
      then have "t - field_start i = 8 * (k - ?p) + r" using u(1) unfolding t by (simp add: field_start_def diff_mult_distrib2)
      then have "field_bit (bufs m) i (t - field_start i) = bit (?b ! (k - ?p)) (7 - r)"
        using assms(1) r by (simp add: field_bit_def frame_bit_split)
      with True inr nth [OF k] show ?thesis unfolding t frame_bit_split [OF r] by simp
    next
      case False
      with inr nth [OF k] show ?thesis unfolding t frame_bit_split [OF r] by simp
    qed
  qed
  with put len show ?thesis by (auto simp: writes_def)
qed

text \<open>Bits are or-ed into the frame: the place of a bit field has to be clear.\<close>

lemma put_bits:
  assumes "len_unit i = 1" and "field_ok m (length dp) i" and "value_ok i"
    and clear: "\<And>s. s \<in> field_range i \<Longrightarrow> \<not> frame_bit dp s"
  shows "\<exists>dp'. put_field m i dp = Some dp' \<and> writes m i dp dp'"
proof -
  let ?n = "unat (pi_len i)" and ?p = "unat (byte_pos i)"
  have o: "?n \<le> 32" "start_of (?p + 0) (bit_pos i) + ?n \<le> 8 * length dp"
    "take_bit ?n (pi_data i) = pi_data i"
    using assms(1-3) by (auto simp: field_ok_def value_ok_def field_start_def field_bits_def)
  have "\<not> bit (pi_data i) ?n" using o(3) by (metis bit_take_bit_iff less_irrefl)
  with set_bits_from_spec [OF o(1) _ o(2)] obtain dp' where
    s: "set_bits_from (pi_data i) ?p ?n (bit_pos i) 0 dp = Some dp'" "length dp' = length dp"
      "\<And>s. s < 8 * length dp \<Longrightarrow> frame_bit dp' s = (frame_bit dp s \<or>
         (start_of ?p (bit_pos i) \<le> s \<and> s < start_of ?p (bit_pos i) + ?n \<and>
          bit (pi_data i) (?n - 1 - (s - start_of ?p (bit_pos i)))))"
    by auto
  have "put_field m i dp = Some dp'"
    using assms(1) o(1) s(1)
    by (simp add: put_field_def pa_set_protocol_bit_data_def short_len_def)
  moreover have "writes m i dp dp'"
    using s(2,3) assms(1) clear
    by (auto simp: writes_def field_range_def field_start_def field_bits_def field_bit_def wide_def)
  ultimately show ?thesis by blast
qed

lemma put_field_writes:
  assumes "field_ok m (length dp) i" and "value_ok i"
    and "len_unit i = 1 \<Longrightarrow> \<forall>s \<in> field_range i. \<not> frame_bit dp s"
  shows "\<exists>dp'. put_field m i dp = Some dp' \<and> writes m i dp dp'"
proof -
  consider "wide i" | "len_unit i = 8" "pi_len i \<le> 4" | "len_unit i = 1"
    using assms(1) by (fastforce simp: field_ok_def wide_def)
  then show ?thesis
  proof cases
    case 1
    then show ?thesis using assms(1) by (rule put_wide)
  next
    case 2
    with assms(1) show ?thesis by (intro put_bytes) (simp_all add: field_ok_def)
  next
    case 3
    with assms show ?thesis by (intro put_bits) blast+
  qed
qed

section \<open>Writing a format\<close>

definition separate :: "proto_info list \<Rightarrow> bool" where
  "separate is = sorted_wrt (\<lambda>i j. field_range i \<inter> field_range j = {}) is"

definition clear_for :: "proto_info list \<Rightarrow> bytes \<Rightarrow> bool" where
  "clear_for is dp = (\<forall>i \<in> set is. len_unit i = 1 \<longrightarrow> (\<forall>s \<in> field_range i. \<not> frame_bit dp s))"

text \<open>The frame carries the bits of every field and is untouched elsewhere.\<close>

definition carries :: "(addr \<Rightarrow> bytes) \<Rightarrow> proto_info \<Rightarrow> bytes \<Rightarrow> bool" where
  "carries bf i dp = (\<forall>k < field_bits i. frame_bit dp (field_start i + k) = field_bit bf i k)"

lemma field_range_bound: "field_ok m n i \<Longrightarrow> s \<in> field_range i \<Longrightarrow> s < 8 * n"
  by (auto simp: field_ok_def field_range_def)

lemma writes_carries: "writes m i dp dp' \<Longrightarrow> field_ok m (length dp) i \<Longrightarrow> carries (bufs m) i dp'"
  by (auto simp: writes_def carries_def field_ok_def field_range_def)

lemma put_fields_write:
  assumes "\<And>i. i \<in> set is \<Longrightarrow> field_ok m (length dp) i \<and> value_ok i"
    and "separate is" and "clear_for is dp"
  shows "\<exists>dp'. foldM (put_field m) is dp = Some dp' \<and> length dp' = length dp \<and>
    (\<forall>i \<in> set is. carries (bufs m) i dp') \<and>
    (\<forall>s < 8 * length dp. (\<forall>i \<in> set is. s \<notin> field_range i) \<longrightarrow> frame_bit dp' s = frame_bit dp s)"
  using assms
proof (induction "is" arbitrary: dp)
  case Nil
  then show ?case by simp
next
  case (Cons i "is")
  from put_field_writes [of m dp i] Cons.prems obtain d where
    d: "put_field m i dp = Some d" "writes m i dp d" by (auto simp: clear_for_def)
  then have len: "length d = length dp" by (simp add: writes_def)
  have keep: "frame_bit d s = frame_bit dp s" if "j \<in> set is" "s \<in> field_range j" for j s
  proof -
    have "s \<notin> field_range i" using Cons.prems(2) that by (auto simp: separate_def)
    moreover have "s < 8 * length dp" using Cons.prems(1) that field_range_bound by (meson list.set_intros(2))
    ultimately show ?thesis using d(2) by (simp add: writes_def)
  qed
  have "clear_for is d" using Cons.prems(3) keep by (auto simp: clear_for_def)
  moreover have "separate is" using Cons.prems(2) by (simp add: separate_def)
  moreover have "j \<in> set is \<Longrightarrow> field_ok m (length d) j \<and> value_ok j" for j
    using Cons.prems(1) len by simp
  ultimately obtain dp' where r: "foldM (put_field m) is d = Some dp'" "length dp' = length d"
    "\<And>j. j \<in> set is \<Longrightarrow> carries (bufs m) j dp'"
    "\<And>s. s < 8 * length d \<Longrightarrow> (\<forall>j \<in> set is. s \<notin> field_range j) \<Longrightarrow> frame_bit dp' s = frame_bit d s"
    using Cons.IH [of d] by blast
  have ok: "field_ok m (length dp) i" using Cons.prems(1) by simp
  have "frame_bit dp' s = frame_bit d s" if "s \<in> field_range i" for s
    using r(4) [of s] that field_range_bound [OF ok] len Cons.prems(2) by (auto simp: separate_def)
  with writes_carries [OF d(2) ok] have "carries (bufs m) i dp'"
    by (auto simp: carries_def field_range_def)
  with d r len show ?case by (auto simp: writes_def)
qed

end
