(* ===== verification/Frame_Generate.thy ===== *)
theory Frame_Generate
  imports Frame_Layout
begin

text \<open>
  \<open>pa_generate_protocol_data\<close> as a function on the field descriptions of a format: how the
  variable lengths are resolved, and which frame comes out.
\<close>

section \<open>Stores that differ in the fields only\<close>

definition fields_ok :: "'z pmem_scheme \<Rightarrow> addr \<Rightarrow> addr list \<Rightarrow> bool" where
  "fields_ok m hl xs =
     (dlist m hl xs \<and> (\<forall>x \<in> set xs. valid m (info_of x) sizeof_proto_info))"

lemma valid_fields [simp]:
  "valid (m\<lparr>pinfo := F\<rparr>) a n = valid m a n"
  "valid (m\<lparr>bufs := B\<rparr>) a n = valid m a n"
  "valid (m\<lparr>hl_count := C\<rparr>) a n = valid m a n"
  "valid (m\<lparr>hl_allocator := A\<rparr>) a n = valid m a n"
  "valid (m\<lparr>ptrs := P\<rparr>) a n = valid m a n"
  by (simp_all add: valid_def)

lemma links_fields [simp]:
  "links (m\<lparr>pinfo := F\<rparr>) xs = links m xs"
  "links (m\<lparr>bufs := B\<rparr>) xs = links m xs"
  "links (m\<lparr>hl_count := C\<rparr>) xs = links m xs"
  "links (m\<lparr>hl_allocator := A\<rparr>) xs = links m xs"
  by (induction m xs rule: links.induct) auto

lemma dlist_fields [simp]:
  "dlist (m\<lparr>pinfo := F\<rparr>) hl xs = dlist m hl xs"
  "dlist (m\<lparr>bufs := B\<rparr>) hl xs = dlist m hl xs"
  "dlist (m\<lparr>hl_count := C\<rparr>) hl xs = dlist m hl xs"
  "dlist (m\<lparr>hl_allocator := A\<rparr>) hl xs = dlist m hl xs"
  by (simp_all add: dlist_def)

lemma fields_ok_fields [simp]:
  "fields_ok (m\<lparr>pinfo := F\<rparr>) hl xs = fields_ok m hl xs"
  "fields_ok (m\<lparr>bufs := B\<rparr>) hl xs = fields_ok m hl xs"
  by (simp_all add: fields_ok_def)

lemma rd_next_fields [simp]:
  "rd_next p (m\<lparr>pinfo := F\<rparr>) = rd_next p m"
  "rd_next p (m\<lparr>bufs := B\<rparr>) = rd_next p m"
  by (simp_all add: rd_next_def)

lemma rd_info_fields [simp]:
  "rd_info p (m\<lparr>pinfo := F\<rparr>) = (if valid m p sizeof_proto_info then Some (F p) else None)"
  "rd_info p (m\<lparr>pinfo := F, bufs := B\<rparr>) = (if valid m p sizeof_proto_info then Some (F p) else None)"
  "wr_info p i (m\<lparr>pinfo := F\<rparr>) =
     (if valid m p sizeof_proto_info then Some (m\<lparr>pinfo := F(p := i)\<rparr>) else None)"
  "wr_info p i (m\<lparr>pinfo := F, bufs := B\<rparr>) =
     (if valid m p sizeof_proto_info then Some (m\<lparr>pinfo := F(p := i), bufs := B\<rparr>) else None)"
  by (simp_all add: rd_info_def wr_info_def)

lemma info_of_inj [simp]: "info_of x = info_of y \<longleftrightarrow> x = y"
  by (simp add: info_of_def)

lemma info_of_image [simp]: "info_of x \<in> info_of ` A \<longleftrightarrow> x \<in> A"
  by auto

section \<open>Variable lengths\<close>

text \<open>
  The index of the fields as a function from names to field addresses. It does not depend on
  what the fields hold.
\<close>

definition indexes :: "bytes \<Rightarrow> analyzer \<Rightarrow> 'z pmem_scheme \<Rightarrow> (bytes \<Rightarrow> addr) \<Rightarrow> addr list \<Rightarrow> bool" where
  "indexes vla pa m ix xs =
     (\<forall>key. (\<forall>F B. pa_find_key vla key pa (m\<lparr>pinfo := F, bufs := B\<rparr>) = Some (ix key)) \<and>
        (ix key = NULL \<or> ix key \<in> info_of ` set xs))"

text \<open>What a field of variable length at \<open>x\<close>, followed by \<open>ys\<close>, changes.\<close>

definition resolve_infos ::
  "(bytes \<Rightarrow> addr) \<Rightarrow> addr \<Rightarrow> addr list \<Rightarrow> (addr \<Rightarrow> proto_info) \<Rightarrow> addr \<Rightarrow> proto_info" where
  "resolve_infos ix x ys F =
     (let i = F (info_of x); f = ix (cstr (vlenth_index i)); d = pi_data (F f)
      in if \<not> vlenth_flag i then F
         else if f = NULL then F(info_of x := i\<lparr>vlenth_flag := False\<rparr>)
         else (\<lambda>p. if p = info_of x then i\<lparr>pi_len := ucast d, vlenth_flag := False\<rparr>
                 else if p \<in> info_of ` set ys
                 then (F p)\<lparr>byte_pos := byte_pos (F p) + ucast ((d * ucast (len_unit i)) div 8)\<rparr>
                 else F p))"

fun resolve_from :: "(bytes \<Rightarrow> addr) \<Rightarrow> addr list \<Rightarrow> (addr \<Rightarrow> proto_info) \<Rightarrow> addr \<Rightarrow> proto_info" where
  "resolve_from ix [] F = F"
| "resolve_from ix (x # ys) F = resolve_from ix ys (resolve_infos ix x ys F)"

lemma resolve_infos_other: "p \<noteq> info_of x \<Longrightarrow> p \<notin> info_of ` set ys \<Longrightarrow> resolve_infos ix x ys F p = F p"
  by (auto simp: resolve_infos_def Let_def)

lemma resolve_from_other: "p \<notin> info_of ` set xs \<Longrightarrow> resolve_from ix xs F p = F p"
  by (induction xs arbitrary: F) (auto simp: resolve_infos_other)

lemma resolve_infos_fixed: "\<not> vlenth_flag (F (info_of x)) \<Longrightarrow> resolve_infos ix x ys F = F"
  by (simp add: resolve_infos_def Let_def)

lemma resolve_from_fixed: "\<forall>x \<in> set xs. \<not> vlenth_flag (F (info_of x)) \<Longrightarrow> resolve_from ix xs F = F"
  by (induction xs arbitrary: F) (auto simp: resolve_infos_fixed)

lemma shift_from_spec:
  assumes "dlist m hl (us @ ys)" and "\<And>y. y \<in> set ys \<Longrightarrow> valid m (info_of y) sizeof_proto_info"
  shows "shift_from d hl (hd (ys @ [hl])) (m\<lparr>pinfo := F\<rparr>) =
    Some (m\<lparr>pinfo := \<lambda>p. if p \<in> info_of ` set ys then (F p)\<lparr>byte_pos := byte_pos (F p) + d\<rparr> else F p\<rparr>)"
  using assms
proof (induction ys arbitrary: us F)
  case Nil
  then show ?case by (simp add: shift_from.simps)
next
  case (Cons y ys)
  have "y \<noteq> hl" and y: "y \<notin> set ys" using Cons.prems(1) by (auto simp: dlist_def)
  have "rd_next y m = Some (hd (ys @ [hl]))"
    using dlist_reads(2) [OF Cons.prems(1)] by blast
  have dl: "dlist m hl ((us @ [y]) @ ys)" using Cons.prems(1) by simp
  define G where "G = F(info_of y := (F (info_of y))\<lparr>byte_pos := byte_pos (F (info_of y)) + d\<rparr>)"
  have sh: "shift_from d hl (hd (ys @ [hl])) (m\<lparr>pinfo := G\<rparr>) =
    Some (m\<lparr>pinfo := \<lambda>p. if p \<in> info_of ` set ys then (G p)\<lparr>byte_pos := byte_pos (G p) + d\<rparr> else G p\<rparr>)"
    using Cons.IH [OF dl, of G] Cons.prems(2) by simp
  have G: "(\<lambda>p. if p \<in> info_of ` set ys then (G p)\<lparr>byte_pos := byte_pos (G p) + d\<rparr> else G p) =
    (\<lambda>p. if p \<in> info_of ` set (y # ys) then (F p)\<lparr>byte_pos := byte_pos (F p) + d\<rparr> else F p)"
    using y by (auto simp: fun_eq_iff G_def)
  have "wr_info (info_of y) ((F (info_of y))\<lparr>byte_pos := byte_pos (F (info_of y)) + d\<rparr>) (m\<lparr>pinfo := F\<rparr>) =
    Some (m\<lparr>pinfo := G\<rparr>)"
    using Cons.prems(2) [of y] by (simp add: G_def)
  with Cons.prems(2) [of y] \<open>y \<noteq> hl\<close> \<open>rd_next y m = _\<close> sh [unfolded G] show ?case
    by (subst shift_from.simps) simp
qed

lemma resolve_length_spec:
  assumes "fields_ok m hl (us @ x # ys)" and "pa_list_head_p pa = hl" and "hl \<noteq> NULL"
    and "indexes vla pa m ix (us @ x # ys)" and "vlenth_flag (F (info_of x))"
  shows "resolve_length vla x pa (m\<lparr>pinfo := F\<rparr>) = Some (m\<lparr>pinfo := resolve_infos ix x ys F\<rparr>)"
proof -
  let ?i = "F (info_of x)"
  let ?f = "ix (cstr (vlenth_index ?i))"
  have vx: "valid m (info_of x) sizeof_proto_info" using assms(1) by (simp add: fields_ok_def)
  have "pa_find_key vla (cstr (vlenth_index ?i)) pa (m\<lparr>pinfo := F, bufs := bufs m\<rparr>) = Some ?f"
    and f: "?f = NULL \<or> ?f \<in> info_of ` set (us @ x # ys)"
    using assms(4) unfolding indexes_def by blast+
  then have find: "pa_find_key vla (cstr (vlenth_index ?i)) pa (m\<lparr>pinfo := F\<rparr>) = Some ?f" by simp
  show ?thesis
  proof (cases "?f = NULL")
    case True
    with find assms(2,3,5) vx show ?thesis
      by (simp add: resolve_length_def pa_recompute_byte_pos_def resolve_infos_def Let_def)
  next
    case False
    with f have vf: "valid m ?f sizeof_proto_info" using assms(1) by (auto simp: fields_ok_def)
    have dl: "dlist m hl ((us @ [x]) @ ys)" using assms(1) by (simp add: fields_ok_def)
    have nx: "rd_next x m = Some (hd (ys @ [hl]))"
      using dlist_reads(2) [of m hl "us @ x # ys" us x ys] assms(1) by (simp add: fields_ok_def)
    have x: "x \<notin> set ys" using dl by (auto simp: dlist_def)
    have vy: "valid m (info_of y) sizeof_proto_info" if "y \<in> set ys" for y
      using assms(1) that by (simp add: fields_ok_def)
    have d: "pi_data ((F(info_of x := ?i\<lparr>pi_len := l\<rparr>)) ?f) = pi_data (F ?f)" for l by simp
    note sh = shift_from_spec [OF dl vy,
        of "ucast ((pi_data (F ?f) * ucast (len_unit ?i)) div 8)" "F(info_of x := ?i\<lparr>pi_len := ucast (pi_data (F ?f))\<rparr>)"]
    from find False assms(2,3,5) vx vf nx x d sh show ?thesis
      by (auto simp: resolve_length_def pa_recompute_byte_pos_def resolve_infos_def Let_def
          intro!: arg_cong [where f = "\<lambda>F. m\<lparr>pinfo := F\<rparr>"])
  qed
qed

section \<open>The loops\<close>

text \<open>\<open>pa_set_variable_length_flag\<close> only sets \<open>vlenth_value_flag\<close>, which no other step reads.\<close>

definition marked :: "(addr \<Rightarrow> proto_info) \<Rightarrow> (addr \<Rightarrow> proto_info) \<Rightarrow> bool" where
  "marked F G = (\<exists>g. G = (\<lambda>p. (F p)\<lparr>vlenth_value_flag := g p\<rparr>))"

lemma marked_refl [simp]: "marked F F"
  unfolding marked_def by (rule exI [of _ "\<lambda>p. vlenth_value_flag (F p)"]) simp

lemma marked_trans: "marked F G \<Longrightarrow> marked G H \<Longrightarrow> marked F H"
  unfolding marked_def by fastforce

lemma marked_upd: "marked F (F(p := (F p)\<lparr>vlenth_value_flag := b\<rparr>))"
  unfolding marked_def by (rule exI [of _ "\<lambda>q. if q = p then b else vlenth_value_flag (F q)"]) auto

lemma mark_length_field_spec:
  assumes "fields_ok m hl xs" and "indexes vla pa m ix xs" and "x \<in> set xs"
  shows "\<exists>G. mark_length_field vla pa x (m\<lparr>pinfo := F\<rparr>) = Some (m\<lparr>pinfo := G\<rparr>) \<and> marked F G"
proof -
  let ?f = "ix (cstr (vlenth_index (F (info_of x))))"
  have "pa_find_key vla (cstr (vlenth_index (F (info_of x)))) pa (m\<lparr>pinfo := F, bufs := bufs m\<rparr>) = Some ?f"
    and f: "?f = NULL \<or> ?f \<in> info_of ` set xs"
    using assms(2) unfolding indexes_def by blast+
  then have find: "pa_find_key vla (cstr (vlenth_index (F (info_of x)))) pa (m\<lparr>pinfo := F\<rparr>) = Some ?f" by simp
  have vx: "valid m (info_of x) sizeof_proto_info" and vf: "?f \<noteq> NULL \<Longrightarrow> valid m ?f sizeof_proto_info"
    using assms(1,3) f by (auto simp: fields_ok_def)
  have keep: "mark_length_field vla pa x (m\<lparr>pinfo := F\<rparr>) = Some (m\<lparr>pinfo := F\<rparr>)"
    if "\<not> vlenth_flag (F (info_of x)) \<or> ?f = NULL"
    using that vx find by (auto simp: mark_length_field_def)
  define G where "G = F(?f := (F ?f)\<lparr>vlenth_value_flag := True\<rparr>)"
  have "mark_length_field vla pa x (m\<lparr>pinfo := F\<rparr>) = Some (m\<lparr>pinfo := G\<rparr>)"
    if "vlenth_flag (F (info_of x))" "?f \<noteq> NULL"
    using that vx vf find by (simp add: mark_length_field_def G_def)
  moreover have "marked F G" unfolding G_def by (rule marked_upd)
  ultimately show ?thesis using keep marked_refl by blast
qed

lemma set_variable_length_flag_spec:
  assumes "fields_ok m hl xs" and "pa_list_head_p pa = hl" and "hl \<noteq> NULL" and "indexes vla pa m ix xs"
  shows "\<exists>G. pa_set_variable_length_flag vla pa (m\<lparr>pinfo := F\<rparr>) = Some (0, m\<lparr>pinfo := G\<rparr>) \<and> marked F G"
proof -
  let ?I = "\<lambda>ys s. set ys \<subseteq> set xs \<and> (\<exists>G. s = m\<lparr>pinfo := G\<rparr> \<and> marked F G)"
  have "\<exists>t. foldM (mark_length_field vla pa) xs (m\<lparr>pinfo := F\<rparr>) = Some t \<and> ?I [] t"
  proof (rule foldM_total [where I = ?I])
    show "?I xs (m\<lparr>pinfo := F\<rparr>)" by auto
  next
    fix y ys s
    assume I: "?I (y # ys) s"
    then obtain G where s: "s = m\<lparr>pinfo := G\<rparr>" "marked F G" "y \<in> set xs" by auto
    from mark_length_field_spec [OF assms(1,4) s(3), of G] obtain H where
      H: "mark_length_field vla pa y s = Some (m\<lparr>pinfo := H\<rparr>)" "marked G H" unfolding s(1) by blast
    from I have "set ys \<subseteq> set xs" by simp
    with H marked_trans [OF s(2) H(2)]
    show "\<exists>t. mark_length_field vla pa y s = Some t \<and> ?I ys t" by blast
  qed
  moreover have "list_for_each_safe rd_next (mark_length_field vla pa) hl (m\<lparr>pinfo := F\<rparr>) =
    foldM (mark_length_field vla pa) xs (m\<lparr>pinfo := F\<rparr>)"
  proof (rule list_for_each_safe_dlist [where g = "\<lambda>s. s" and P = "\<lambda>s. \<exists>G. s = m\<lparr>pinfo := G\<rparr>"])
    show "dlist (m\<lparr>pinfo := F\<rparr>) hl xs" using assms(1) by (simp add: fields_ok_def)
  next
    fix x s t
    assume x: "x \<in> set xs" "\<exists>G. s = m\<lparr>pinfo := G\<rparr>" "mark_length_field vla pa x s = Some t"
    then obtain G where G: "s = m\<lparr>pinfo := G\<rparr>" by blast
    from mark_length_field_spec [OF assms(1,4) x(1), of G] x(3)
    obtain H where "t = m\<lparr>pinfo := H\<rparr>" unfolding G by auto
    then show "dlist t hl xs \<and> (\<exists>G. t = m\<lparr>pinfo := G\<rparr>)" using assms(1) by (auto simp: fields_ok_def)
  qed auto
  ultimately show ?thesis using assms(2,3) by (auto simp: pa_set_variable_length_flag_def)
qed

text \<open>Marks make no difference to the lengths.\<close>

lemma resolve_infos_marks:
  "resolve_infos ix x ys (\<lambda>p. (F p)\<lparr>vlenth_value_flag := g p\<rparr>) =
    (\<lambda>p. (resolve_infos ix x ys F p)\<lparr>vlenth_value_flag := g p\<rparr>)"
  by (auto simp: resolve_infos_def Let_def fun_eq_iff)

lemma resolve_from_marks:
  "resolve_from ix xs (\<lambda>p. (F p)\<lparr>vlenth_value_flag := g p\<rparr>) =
    (\<lambda>p. (resolve_from ix xs F p)\<lparr>vlenth_value_flag := g p\<rparr>)"
  by (induction xs arbitrary: F) (simp_all add: resolve_infos_marks)

lemma resolve_from_marked: "marked F G \<Longrightarrow> marked (resolve_from ix xs F) (resolve_from ix xs G)"
  by (auto simp: marked_def resolve_from_marks)

section \<open>Generating\<close>

text \<open>The description of a field after all variable lengths are resolved.\<close>

definition resolved :: "(bytes \<Rightarrow> addr) \<Rightarrow> addr list \<Rightarrow> 'z pmem_scheme \<Rightarrow> addr \<Rightarrow> proto_info" where
  "resolved ix xs m x = resolve_from ix xs (pinfo m) (info_of x)"

lemma rd_buf_fields [simp]:
  "rd_buf b n (m\<lparr>pinfo := F\<rparr>) = rd_buf b n m"
  by (simp add: rd_buf_def)

lemma put_field_fields [simp]: "put_field (m\<lparr>pinfo := F\<rparr>) i = put_field m i"
  by (rule ext) (simp add: put_field_def)

lemma resolve_infos_self:
  assumes "x \<notin> set ys" and "F' = resolve_infos ix x ys F"
  shows "byte_pos (F' (info_of x)) = byte_pos (F (info_of x))" "bit_pos (F' (info_of x)) = bit_pos (F (info_of x))"
    "pi_data (F' (info_of x)) = pi_data (F (info_of x))" "len_unit (F' (info_of x)) = len_unit (F (info_of x))"
    "buf_data_p (F' (info_of x)) = buf_data_p (F (info_of x))" "\<not> vlenth_flag (F' (info_of x))"
  using assms by (auto simp: resolve_infos_def Let_def)

lemma generate_field_spec:
  assumes "fields_ok m hl (us @ x # ys)" and "pa_list_head_p pa = hl" and "hl \<noteq> NULL"
    and "indexes vla pa m ix (us @ x # ys)" and F': "F' = resolve_infos ix x ys F"
  shows "generate_field vla pa x (dp, m\<lparr>pinfo := F\<rparr>, loc) = do {
     dp' \<leftarrow> put_field m (F' (info_of x)) dp;
     Some (dp', m\<lparr>pinfo := F'\<rparr>, Some (byte_pos (F' (info_of x)), pi_len (F' (info_of x)))) }"
proof -
  have vx: "valid m (info_of x) sizeof_proto_info" and x: "x \<notin> set ys"
    using assms(1) by (auto simp: fields_ok_def dlist_def)
  note self = resolve_infos_self [OF x F']
  show ?thesis
  proof (cases "vlenth_flag (F (info_of x))")
    case True
    with resolve_length_spec [OF assms(1-4)] have "resolve_length vla x pa (m\<lparr>pinfo := F\<rparr>) = Some (m\<lparr>pinfo := F'\<rparr>)"
      unfolding F' by blast
    with True vx self show ?thesis by (simp add: generate_field_def put_field_def Let_def)
  next
    case False
    then have "F' = F" unfolding F' by (rule resolve_infos_fixed)
    with False vx show ?thesis by (simp add: generate_field_def put_field_def Let_def)
  qed
qed

definition last_place :: "(addr \<Rightarrow> proto_info) \<Rightarrow> addr list \<Rightarrow> (u8 \<times> u16) option \<Rightarrow> (u8 \<times> u16) option" where
  "last_place F ys loc = (if ys = [] then loc
     else Some (byte_pos (F (info_of (last ys))), pi_len (F (info_of (last ys)))))"

lemma generate_fields:
  assumes "fields_ok m hl (us @ ys)" and "pa_list_head_p pa = hl" and "hl \<noteq> NULL"
    and "indexes vla pa m ix (us @ ys)"
  shows "foldM (generate_field vla pa) ys (dp, m\<lparr>pinfo := F\<rparr>, loc) = do {
     dp' \<leftarrow> foldM (put_field m) (map (\<lambda>x. resolve_from ix ys F (info_of x)) ys) dp;
     Some (dp', m\<lparr>pinfo := resolve_from ix ys F\<rparr>, last_place (resolve_from ix ys F) ys loc) }"
  using assms
proof (induction ys arbitrary: us F dp loc)
  case Nil
  then show ?case by (simp add: last_place_def)
next
  case (Cons y ys)
  define F' where "F' = resolve_infos ix y ys F"
  have "y \<notin> set ys" using Cons.prems(1) by (auto simp: fields_ok_def dlist_def)
  then have y: "resolve_from ix ys F' (info_of y) = F' (info_of y)"
    by (intro resolve_from_other) simp
  have f': "fields_ok m hl ((us @ [y]) @ ys)" and i': "indexes vla pa m ix ((us @ [y]) @ ys)"
    using Cons.prems(1,4) by simp_all
  have step: "generate_field vla pa y (dp, m\<lparr>pinfo := F\<rparr>, loc) = do {
     dp' \<leftarrow> put_field m (F' (info_of y)) dp;
     Some (dp', m\<lparr>pinfo := F'\<rparr>, Some (byte_pos (F' (info_of y)), pi_len (F' (info_of y)))) }"
    by (rule generate_field_spec [OF Cons.prems F'_def])
  show ?case
  proof (cases "put_field m (F' (info_of y)) dp")
    case None
    then show ?thesis using y by (simp add: step F'_def [symmetric])
  next
    case (Some d)
    then show ?thesis using y Cons.IH [OF f' Cons.prems(2,3) i']
      by (auto simp: step F'_def [symmetric] last_place_def)
  qed
qed

lemma generate_loop:
  assumes "fields_ok m hl xs" and "pa_list_head_p pa = hl" and "hl \<noteq> NULL"
    and "indexes vla pa m ix xs"
  shows "list_for_each_safe (\<lambda>p (dp, m, loc). rd_next p m) (generate_field vla pa) hl (dp, m\<lparr>pinfo := F\<rparr>, loc) =
    foldM (generate_field vla pa) xs (dp, m\<lparr>pinfo := F\<rparr>, loc)"
proof (rule list_for_each_safe_dlist [where g = "\<lambda>(dp, m, loc). m" and P = "\<lambda>(dp, s, loc). \<exists>G. s = m\<lparr>pinfo := G\<rparr>"])
  show "dlist (case (dp, m\<lparr>pinfo := F\<rparr>, loc) of (dp, m, loc) \<Rightarrow> m) hl xs"
    using assms(1) by (simp add: fields_ok_def)
next
  fix x and s t :: "bytes \<times> 'a pmem_scheme \<times> (u8 \<times> u16) option"
  assume x: "x \<in> set xs" "case s of (dp, s, loc) \<Rightarrow> \<exists>G. s = m\<lparr>pinfo := G\<rparr>" "generate_field vla pa x s = Some t"
  from x(2) obtain d G l where s: "s = (d, m\<lparr>pinfo := G\<rparr>, l)" by (cases s) auto
  from x(1) obtain us ys where xs: "xs = us @ x # ys" by (meson split_list)
  from x(3) generate_field_spec [OF assms(1-4) [unfolded xs] refl, of d G l]
  show "dlist (case t of (dp, m, loc) \<Rightarrow> m) hl xs \<and> (case t of (dp, s, loc) \<Rightarrow> \<exists>G. s = m\<lparr>pinfo := G\<rparr>)"
    using assms(1) unfolding s by (auto simp: fields_ok_def split: Option.bind_splits)
qed auto

text \<open>\<open>pa_generate_protocol_data\<close>, field by field.\<close>

lemma generate_spec:
  assumes "fields_ok m hl xs" and "pa_list_head_p pa = hl" and "hl \<noteq> NULL"
    and "indexes vla pa m ix xs" and "xs \<noteq> []"
  shows "\<exists>G. marked (pinfo m) G \<and> pa_generate_protocol_data vla pa m = do {
     dp \<leftarrow> foldM (put_field m) (map (\<lambda>x. resolve_from ix xs G (info_of x)) xs) (protocol_data pa);
     let i = resolve_from ix xs G (info_of (last xs));
     Some (0, pa\<lparr>protocol_data := dp, protocol_data_len := ucast (byte_pos i) + pi_len i\<rparr>,
       m\<lparr>pinfo := resolve_from ix xs G\<rparr>) }"
proof -
  have m: "m\<lparr>pinfo := pinfo m\<rparr> = m" by simp
  from set_variable_length_flag_spec [OF assms(1-4), of "pinfo m"] obtain G where
    G: "pa_set_variable_length_flag vla pa m = Some (0, m\<lparr>pinfo := G\<rparr>)" "marked (pinfo m) G"
    unfolding m by blast
  have "foldM (generate_field vla pa) xs (protocol_data pa, m\<lparr>pinfo := G\<rparr>, None) = do {
     dp' \<leftarrow> foldM (put_field m) (map (\<lambda>x. resolve_from ix xs G (info_of x)) xs) (protocol_data pa);
     Some (dp', m\<lparr>pinfo := resolve_from ix xs G\<rparr>, last_place (resolve_from ix xs G) xs None) }"
    using generate_fields [of m hl "[]" xs] assms by simp
  with G assms(2,3,5) generate_loop [OF assms(1-4)] show ?thesis
    by (intro exI [of _ G])
      (auto simp: pa_generate_protocol_data_def last_place_def Let_def split: Option.bind_splits)
qed

text \<open>Marks make no difference to the frame.\<close>

lemma put_field_mark [simp]: "put_field m (i\<lparr>vlenth_value_flag := b\<rparr>) = put_field m i"
  by (rule ext) (simp add: put_field_def)

lemma generate_resolved:
  assumes "fields_ok m hl xs" and "pa_list_head_p pa = hl" and "hl \<noteq> NULL"
    and "indexes vla pa m ix xs" and "xs \<noteq> []"
  shows "\<exists>G. marked (resolve_from ix xs (pinfo m)) G \<and> pa_generate_protocol_data vla pa m = do {
     dp \<leftarrow> foldM (put_field m) (map (resolved ix xs m) xs) (protocol_data pa);
     let i = resolved ix xs m (last xs);
     Some (0, pa\<lparr>protocol_data := dp, protocol_data_len := ucast (byte_pos i) + pi_len i\<rparr>, m\<lparr>pinfo := G\<rparr>) }"
proof -
  from generate_spec [OF assms] obtain G g where
    G: "G = (\<lambda>p. (pinfo m p)\<lparr>vlenth_value_flag := g p\<rparr>)" and
    gen: "pa_generate_protocol_data vla pa m = do {
     dp \<leftarrow> foldM (put_field m) (map (\<lambda>x. resolve_from ix xs G (info_of x)) xs) (protocol_data pa);
     let i = resolve_from ix xs G (info_of (last xs));
     Some (0, pa\<lparr>protocol_data := dp, protocol_data_len := ucast (byte_pos i) + pi_len i\<rparr>,
       m\<lparr>pinfo := resolve_from ix xs G\<rparr>) }"
    unfolding marked_def by blast
  have R: "resolve_from ix xs G = (\<lambda>p. (resolve_from ix xs (pinfo m) p)\<lparr>vlenth_value_flag := g p\<rparr>)"
    unfolding G by (rule resolve_from_marks)
  have fold: "foldM (put_field m) (map (\<lambda>x. resolve_from ix xs G (info_of x)) zs) =
    foldM (put_field m) (map (resolved ix xs m) zs)" for zs
  proof (induction zs)
    case (Cons z zs)
    have "put_field m (resolve_from ix xs G (info_of z)) = put_field m (resolved ix xs m z)"
      by (simp add: R resolved_def)
    then show ?case by (rule_tac ext) (simp add: Cons.IH)
  qed auto
  have "marked (resolve_from ix xs (pinfo m)) (resolve_from ix xs G)" unfolding marked_def R by blast
  then show ?thesis using gen [unfolded fold]
    by (intro exI [of _ "resolve_from ix xs G"]) (simp add: R resolved_def Let_def)
qed

end
