(* ===== verification/Frame_Parse.thy ===== *)
theory Frame_Parse
  imports Frame_Generate
begin

text \<open>
  \<open>pa_parse_protocol_data\<close> as a function on field descriptions and buffers, what it reads from
  a frame, and the round trip: a receiver with the same format reads from a generated frame
  the field lengths, places and values of the sender.
\<close>

section \<open>Reading a field\<close>

text \<open>A field whose buffer, if it needs one, is in place and large enough.\<close>

definition room :: "'z pmem_scheme \<Rightarrow> proto_info \<Rightarrow> bool" where
  "room m i = (wide i \<longrightarrow> buf_data_p i \<noteq> NULL \<and> pi_len i \<le> buf_len i \<and>
     valid m (buf_data_p i) (unat (pi_len i)))"

definition read_field :: "bytes \<Rightarrow> proto_info \<Rightarrow> (addr \<Rightarrow> bytes) \<Rightarrow> (proto_info \<times> (addr \<Rightarrow> bytes)) option" where
  "read_field dp i B =
     (if wide i then do {
        d \<leftarrow> slice_of dp (unat (byte_pos i)) (unat (pi_len i));
        Some (i\<lparr>buf_len := pi_len i\<rparr>, B(buf_data_p i := d @ drop (unat (pi_len i)) (B (buf_data_p i)))) }
      else if len_unit i = 8 then do {
        v \<leftarrow> get_byte_value dp (byte_pos i) (pi_len i);
        Some (i\<lparr>pi_data := v\<rparr>, B) }
      else if len_unit i = 1 then do {
        v \<leftarrow> get_bit_value dp (byte_pos i) (bit_pos i) (pi_len i);
        Some (i\<lparr>pi_data := v\<rparr>, B) }
      else Some (i, B))"

definition same_place :: "proto_info \<Rightarrow> proto_info \<Rightarrow> bool" where
  "same_place i j = (byte_pos i = byte_pos j \<and> bit_pos i = bit_pos j \<and> pi_len i = pi_len j \<and> len_unit i = len_unit j)"

lemma same_placeD:
  assumes "same_place i j"
  shows "field_start i = field_start j" "field_bits i = field_bits j" "wide i = wide j"
  using assms by (auto simp: same_place_def field_start_def field_bits_def wide_def)

lemma wide_word: "wide i \<Longrightarrow> len_unit i = 8 \<and> \<not> pi_len i \<le> 4 \<and> 0 < unat (pi_len i)"
  by (auto simp: wide_def word_less_nat_alt word_le_nat_alt)

text \<open>
  The value that is read for a field without a buffer: the bits of the frame at its place and, for a
  bit field, the bit of the frame above it when that is in the same byte, and nothing else.
\<close>

definition bit_above :: "bytes \<Rightarrow> proto_info \<Rightarrow> bool" where
  "bit_above dp i = (len_unit i = 1 \<and> 0 < unat (pi_len i) \<and> unat (bit_pos i) mod 8 < 7 \<and>
     bit (dp ! unat (byte_pos i)) (unat (bit_pos i) mod 8 + 1))"

definition reads_value :: "bytes \<Rightarrow> proto_info \<Rightarrow> u32 \<Rightarrow> bool" where
  "reads_value dp i v = (\<forall>n < 32. bit v n =
     (n < field_bits i \<and> frame_bit dp (field_start i + field_bits i - 1 - n) \<or> n = field_bits i \<and> bit_above dp i))"

text \<open>A field that was read: its bits are those of the frame, and so are its value or its buffer length.\<close>

definition taken :: "bytes \<Rightarrow> (addr \<Rightarrow> bytes) \<Rightarrow> proto_info \<Rightarrow> bool" where
  "taken dp B i = (carries B i dp \<and> (if wide i then buf_len i = pi_len i else reads_value dp i (pi_data i)))"

lemma reads_value_place: "same_place i j \<Longrightarrow> reads_value dp i v = reads_value dp j v"
  using same_placeD [of i j] by (simp add: reads_value_def bit_above_def same_place_def)

lemma read_bytes:
  assumes "len_unit i = 8" and "\<not> wide i" and "field_start i + field_bits i \<le> 8 * length dp"
  shows "\<exists>v. read_field dp i B = Some (i\<lparr>pi_data := v\<rparr>, B) \<and> taken dp B (i\<lparr>pi_data := v\<rparr>) \<and>
    take_bit (8 * unat (pi_len i)) v = v"
proof -
  let ?n = "unat (pi_len i)" and ?p = "unat (byte_pos i)"
  have n: "?n \<le> 4" using assms(1,2) by (simp add: wide_def word_less_nat_alt)
  have p: "?p + ?n \<le> length dp" using assms(1,3) by (simp add: field_start_def field_bits_def)
  from get_bytes_from_spec [OF le0 n p, of 0] obtain v where
    g: "get_bytes_from dp ?p ?n 0 0 = Some v"
      "\<And>b. b < 32 \<Longrightarrow> bit v b = (b < 8 * ?n \<and> bit (dp ! (?p + ?n - 1 - b div 8)) (b mod 8))"
    by auto
  have c: "frame_bit dp (8 * ?p + k) = bit v (8 * ?n - 1 - k)" if k: "k < 8 * ?n" for k
  proof -
    obtain q r where kr: "k = 8 * q + r" and r: "r < 8"
      by (metis mult_div_mod_eq mod_less_divisor zero_less_numeral)
    have e: "8 * ?n - 1 - k = 8 * (?n - 1 - q) + (7 - r)" using k r unfolding kr by linarith
    have d: "(8 * (?n - 1 - q) + (7 - r)) div 8 = ?n - 1 - q" "(8 * (?n - 1 - q) + (7 - r)) mod 8 = 7 - r"
      by (simp_all add: div_mult2_eq)
    have s: "8 * ?p + k = 8 * (?p + q) + r" unfolding kr by (simp add: algebra_simps)
    have "?p + ?n - 1 - (?n - 1 - q) = ?p + q" using k r unfolding kr by linarith
    moreover have "8 * (?n - 1 - q) + (7 - r) < 8 * ?n" "8 * (?n - 1 - q) + (7 - r) < 32"
      using k r n unfolding kr by linarith+
    ultimately show ?thesis unfolding s e frame_bit_split [OF r] using g(2) d by simp
  qed
  have "take_bit (8 * ?n) v = v"
    by (rule bit_word_eqI) (auto simp: bit_take_bit_iff g(2))
  moreover have "reads_value dp i v"
    unfolding reads_value_def
  proof (intro allI impI)
    fix k :: nat
    assume "k < 32"
    then have "bit v k = (k < 8 * ?n \<and> bit v k)" by (simp add: g(2))
    moreover have "frame_bit dp (8 * ?p + 8 * ?n - 1 - k) = bit v k" if "k < 8 * ?n"
    proof -
      have "8 * ?n - 1 - k < 8 * ?n" "8 * ?n - 1 - (8 * ?n - 1 - k) = k" "8 * ?p + (8 * ?n - 1 - k) = 8 * ?p + 8 * ?n - 1 - k"
        using that by linarith+
      with c [of "8 * ?n - 1 - k"] show ?thesis by simp
    qed
    ultimately show "bit v k = (k < field_bits i \<and> frame_bit dp (field_start i + field_bits i - 1 - k) \<or> k = field_bits i \<and> bit_above dp i)"
      using assms(1) by (auto simp: field_bits_def field_start_def bit_above_def)
  qed
  then have "reads_value dp (i\<lparr>pi_data := v\<rparr>) v" by (simp add: reads_value_def bit_above_def field_bits_def field_start_def)
  ultimately show ?thesis using g(1) c n assms(1,2)
    by (auto simp: read_field_def get_byte_value_def short_len_def carries_def field_bit_def wide_def
        field_bits_def field_start_def taken_def)
qed

lemma read_bits:
  assumes "len_unit i = 1" and "unat (pi_len i) \<le> 32" and "field_start i + field_bits i \<le> 8 * length dp"
  shows "\<exists>v. read_field dp i B = Some (i\<lparr>pi_data := v\<rparr>, B) \<and> taken dp B (i\<lparr>pi_data := v\<rparr>)"
proof -
  let ?n = "unat (pi_len i)" and ?p = "unat (byte_pos i)"
  have w: "\<not> wide i" using assms(1) by (simp add: wide_def)
  have fits: "start_of (?p + 0) (bit_pos i) + ?n \<le> 8 * length dp"
    using assms(1,3) by (simp add: field_start_def field_bits_def)
  from get_bits_from_spec [OF assms(2) fits, of 0] obtain v where
    g: "get_bits_from dp ?p ?n (bit_pos i) 0 0 = Some v"
      "\<And>b. b < 32 \<Longrightarrow> bit v b = ((b < ?n \<and> frame_bit dp (start_of ?p (bit_pos i) + ?n - 1 - b)) \<or>
         (b = ?n \<and> 0 < ?n \<and> unat (bit_pos i) mod 8 < 7 \<and> bit (dp ! ?p) (unat (bit_pos i) mod 8 + 1)))"
    by auto
  have "frame_bit dp (start_of ?p (bit_pos i) + k) = bit v (?n - 1 - k)" if "k < ?n" for k
  proof -
    have "?n - 1 - k < 32" "?n - 1 - k < ?n" "start_of ?p (bit_pos i) + ?n - 1 - (?n - 1 - k) = start_of ?p (bit_pos i) + k"
      using that assms(2) by linarith+
    with g(2) [of "?n - 1 - k"] show ?thesis by simp
  qed
  moreover have "reads_value dp (i\<lparr>pi_data := v\<rparr>) v"
    using g(2) assms(1) by (auto simp: reads_value_def bit_above_def field_bits_def field_start_def)
  ultimately show ?thesis using g(1) assms(1,2) w
    by (auto simp: read_field_def get_bit_value_def short_len_def carries_def field_bit_def wide_def
        field_bits_def field_start_def taken_def)
qed

lemma read_wide:
  assumes "wide i" and "field_start i + field_bits i \<le> 8 * length dp"
  shows "\<exists>d. read_field dp i B = Some (i\<lparr>buf_len := pi_len i\<rparr>, B(buf_data_p i := d)) \<and>
    unat (pi_len i) \<le> length d \<and> taken dp (B(buf_data_p i := d)) (i\<lparr>buf_len := pi_len i\<rparr>)"
proof -
  let ?n = "unat (pi_len i)" and ?p = "unat (byte_pos i)"
  define d where "d = take ?n (drop ?p dp) @ drop ?n (B (buf_data_p i))"
  note u = wide_word [OF assms(1)]
  have p: "?p + ?n \<le> length dp" using assms(2) u by (simp add: field_start_def field_bits_def)
  have "read_field dp i B = Some (i\<lparr>buf_len := pi_len i\<rparr>, B(buf_data_p i := d))"
    using assms(1) p by (simp add: read_field_def slice_of_def d_def)
  moreover have "frame_bit dp (8 * ?p + k) = frame_bit d k" if k: "k < 8 * ?n" for k
  proof -
    have "k div 8 < ?n" using k by (simp add: less_mult_imp_div_less mult.commute)
    with p show ?thesis by (simp add: frame_bit_def d_def nth_append)
  qed
  then have "taken dp (B(buf_data_p i := d)) (i\<lparr>buf_len := pi_len i\<rparr>)"
    using assms(1) u by (simp add: taken_def carries_def field_bit_def wide_def field_start_def field_bits_def)
  moreover have "?n \<le> length d" using p by (simp add: d_def)
  ultimately show ?thesis by blast
qed

definition placed :: "nat \<Rightarrow> proto_info \<Rightarrow> bool" where
  "placed n i = ((len_unit i = 8 \<or> len_unit i = 1 \<and> unat (pi_len i) \<le> 32) \<and> field_start i + field_bits i \<le> 8 * n)"

lemma field_ok_placed: "field_ok m n i \<Longrightarrow> placed n i"
  by (simp add: field_ok_def placed_def)

lemma same_place_placed: "same_place i j \<Longrightarrow> placed n j \<Longrightarrow> placed n i"
  using same_placeD [of i j] by (simp add: placed_def same_place_def)

text \<open>What a read gives in all cases: the same place, the bits of the frame, at most one buffer changed.\<close>

lemma read_field_ok:
  assumes "placed (length dp) i"
  shows "\<exists>j B'. read_field dp i B = Some (j, B') \<and> same_place j i \<and> buf_data_p j = buf_data_p i \<and>
    (\<not> wide i \<longrightarrow> buf_len j = buf_len i) \<and>
    taken dp B' j \<and> (\<forall>b. (wide i \<longrightarrow> b \<noteq> buf_data_p i) \<longrightarrow> B' b = B b) \<and>
    (len_unit i = 8 \<and> \<not> wide i \<longrightarrow> take_bit (8 * unat (pi_len i)) (pi_data j) = pi_data j)"
proof -
  have b: "field_start i + field_bits i \<le> 8 * length dp"
    and u: "len_unit i = 8 \<or> len_unit i = 1 \<and> unat (pi_len i) \<le> 32"
    using assms by (auto simp: placed_def)
  consider "wide i" | "len_unit i = 8" "\<not> wide i" | "len_unit i = 1" "unat (pi_len i) \<le> 32"
    using u by blast
  then show ?thesis
  proof cases
    case 1
    then show ?thesis using read_wide [OF 1 b, of B] by (auto simp: same_place_def)
  next
    case 2
    then show ?thesis using read_bytes [OF 2 b, of B] by (auto simp: same_place_def)
  next
    case 3
    then show ?thesis using read_bits [OF 3 b, of B] by (auto simp: same_place_def wide_def)
  qed
qed

section \<open>The parser as a function\<close>

fun parse_infos :: "(bytes \<Rightarrow> addr) \<Rightarrow> bytes \<Rightarrow> addr list \<Rightarrow> (addr \<Rightarrow> proto_info) \<Rightarrow> (addr \<Rightarrow> bytes) \<Rightarrow>
    ((addr \<Rightarrow> proto_info) \<times> (addr \<Rightarrow> bytes)) option" where
  "parse_infos ix dp [] F B = Some (F, B)"
| "parse_infos ix dp (x # ys) F B = do {
     let F' = resolve_infos ix x ys F;
     (j, B') \<leftarrow> read_field dp (F' (info_of x)) B;
     parse_infos ix dp ys (F'(info_of x := j)) B' }"

text \<open>Every field has room for its length when its turn comes.\<close>

fun parse_room :: "'z pmem_scheme \<Rightarrow> (bytes \<Rightarrow> addr) \<Rightarrow> bytes \<Rightarrow> addr list \<Rightarrow> (addr \<Rightarrow> proto_info) \<Rightarrow> (addr \<Rightarrow> bytes) \<Rightarrow> bool" where
  "parse_room m ix dp [] F B = True"
| "parse_room m ix dp (x # ys) F B =
     (let F' = resolve_infos ix x ys F
      in room m (F' (info_of x)) \<and>
         (case read_field dp (F' (info_of x)) B of None \<Rightarrow> False
          | Some (j, B') \<Rightarrow> parse_room m ix dp ys (F'(info_of x := j)) B'))"

lemma wr_buf_fields [simp]:
  "wr_buf b d n (m\<lparr>pinfo := F, bufs := B\<rparr>) =
     (if n = 0 then Some (m\<lparr>pinfo := F, bufs := B\<rparr>)
      else if valid m b n \<and> n \<le> length d
      then Some (m\<lparr>pinfo := F, bufs := B(b := take n d @ drop n (B b))\<rparr>) else None)"
  by (simp add: wr_buf_def)

lemma indexes_bufs [simp]: "indexes vla pa (m\<lparr>bufs := B\<rparr>) ix xs = indexes vla pa m ix xs"
  by (simp add: indexes_def)

lemma parse_field_spec:
  assumes "fields_ok m hl (us @ x # ys)" and "pa_list_head_p pa = hl" and "hl \<noteq> NULL"
    and "indexes vla pa m ix (us @ x # ys)" and F': "F' = resolve_infos ix x ys F"
    and "read_field (protocol_data pa) (F' (info_of x)) B = Some (j, B')" and "room m (F' (info_of x))"
  shows "parse_field km vla pa x (m\<lparr>pinfo := F, bufs := B\<rparr>) = Some (m\<lparr>pinfo := F'(info_of x := j), bufs := B'\<rparr>)"
proof -
  let ?i = "F' (info_of x)"
  have vx: "valid m (info_of x) sizeof_proto_info" using assms(1) by (simp add: fields_ok_def)
  have step: "(if vlenth_flag (F (info_of x)) then resolve_length vla x pa (m\<lparr>pinfo := F, bufs := B\<rparr>)
      else Some (m\<lparr>pinfo := F, bufs := B\<rparr>)) = Some (m\<lparr>pinfo := F', bufs := B\<rparr>)"
  proof (cases "vlenth_flag (F (info_of x))")
    case True
    have "fields_ok (m\<lparr>bufs := B\<rparr>) hl (us @ x # ys)" "indexes vla pa (m\<lparr>bufs := B\<rparr>) ix (us @ x # ys)"
      using assms(1,4) by simp_all
    note r = resolve_length_spec [OF this(1) assms(2,3) this(2), of F]
    have "m\<lparr>bufs := B, pinfo := G\<rparr> = m\<lparr>pinfo := G, bufs := B\<rparr>" for G by simp
    with r True show ?thesis unfolding F' by simp
  next
    case False
    then show ?thesis unfolding F' by (simp add: resolve_infos_fixed)
  qed
  let ?m = "m\<lparr>pinfo := F', bufs := B\<rparr>"
  have pf: "parse_field km vla pa x (m\<lparr>pinfo := F, bufs := B\<rparr>) =
    (if len_unit ?i = 8 then
       (if pi_len ?i \<le> 4 then pa_get_protocol_byte_data (info_of x) pa ?m
        else pa_get_protocol_buf km (info_of x) pa ?m)
     else if len_unit ?i = 1 then pa_get_protocol_bit_data (info_of x) pa ?m
     else Some ?m)"
    using vx by (simp add: parse_field_def step)
  show ?thesis
  proof (cases "wide ?i")
    case True
    note u = wide_word [OF True]
    from assms(6) True obtain d where d: "slice_of (protocol_data pa) (unat (byte_pos ?i)) (unat (pi_len ?i)) = Some d"
      and j: "j = ?i\<lparr>buf_len := pi_len ?i\<rparr>" and B': "B' = B(buf_data_p ?i := d @ drop (unat (pi_len ?i)) (B (buf_data_p ?i)))"
      by (auto simp: read_field_def split: Option.bind_splits)
    have l: "length d = unat (pi_len ?i)" using d by (auto simp: slice_of_def split: if_splits)
    have upd: "j\<lparr>buf_data_p := buf_data_p ?i\<rparr> = j" unfolding j by simp
    from u vx assms(7) d l j B' True show ?thesis
      by (simp add: pf pa_get_protocol_buf_def fill_buf_def room_def)
  next
    case False
    then have n: "len_unit ?i = 8 \<Longrightarrow> pi_len ?i \<le> 4" by (simp add: wide_def)
    consider "len_unit ?i = 8" | "len_unit ?i = 1" | "len_unit ?i \<noteq> 8" "len_unit ?i \<noteq> 1" by blast
    then show ?thesis
    proof cases
      case 1
      from assms(6) 1 False obtain v where v: "get_byte_value (protocol_data pa) (byte_pos ?i) (pi_len ?i) = Some v"
        "j = ?i\<lparr>pi_data := v\<rparr>" "B' = B"
        by (auto simp: read_field_def split: Option.bind_splits)
      with 1 n vx show ?thesis unfolding pf by (simp add: pa_get_protocol_byte_data_def)
    next
      case 2
      from assms(6) 2 False obtain v where v: "get_bit_value (protocol_data pa) (byte_pos ?i) (bit_pos ?i) (pi_len ?i) = Some v"
        "j = ?i\<lparr>pi_data := v\<rparr>" "B' = B"
        by (auto simp: read_field_def split: Option.bind_splits)
      with 2 vx show ?thesis unfolding pf by (simp add: pa_get_protocol_bit_data_def)
    next
      case 3
      with assms(6) False have "j = ?i" "B' = B" by (auto simp: read_field_def)
      with 3 show ?thesis unfolding pf by simp
    qed
  qed
qed

lemma parse_step:
  assumes "fields_ok m hl (us @ x # ys)" and "pa_list_head_p pa = hl" and "hl \<noteq> NULL"
    and "indexes vla pa m ix (us @ x # ys)" and "parse_room m ix (protocol_data pa) (x # ys) F B"
  shows "\<exists>F1 B1. parse_field km vla pa x (m\<lparr>pinfo := F, bufs := B\<rparr>) = Some (m\<lparr>pinfo := F1, bufs := B1\<rparr>) \<and>
    parse_room m ix (protocol_data pa) ys F1 B1 \<and>
    parse_infos ix (protocol_data pa) (x # ys) F B = parse_infos ix (protocol_data pa) ys F1 B1"
proof -
  define F' where "F' = resolve_infos ix x ys F"
  have "room m (F' (info_of x)) \<and> (case read_field (protocol_data pa) (F' (info_of x)) B of None \<Rightarrow> False
      | Some (j, B') \<Rightarrow> parse_room m ix (protocol_data pa) ys (F'(info_of x := j)) B')"
    using assms(5) unfolding parse_room.simps Let_def F'_def .
  then obtain j B' where r: "room m (F' (info_of x))"
    "read_field (protocol_data pa) (F' (info_of x)) B = Some (j, B')"
    "parse_room m ix (protocol_data pa) ys (F'(info_of x := j)) B'"
    by (cases "read_field (protocol_data pa) (F' (info_of x)) B") auto
  have "parse_infos ix (protocol_data pa) (x # ys) F B = parse_infos ix (protocol_data pa) ys (F'(info_of x := j)) B'"
    by (simp only: parse_infos.simps Let_def F'_def [symmetric] r(2) bind.bind_lunit prod.case)
  with parse_field_spec [OF assms(1-4) F'_def r(2,1), of km] r(3) show ?thesis by blast
qed

lemma parse_fields:
  assumes "fields_ok m hl (us @ ys)" and "pa_list_head_p pa = hl" and "hl \<noteq> NULL"
    and "indexes vla pa m ix (us @ ys)" and "parse_room m ix (protocol_data pa) ys F B"
  shows "\<exists>F' B'. parse_infos ix (protocol_data pa) ys F B = Some (F', B') \<and>
    foldM (parse_field km vla pa) ys (m\<lparr>pinfo := F, bufs := B\<rparr>) = Some (m\<lparr>pinfo := F', bufs := B'\<rparr>)"
  using assms
proof (induction ys arbitrary: us F B)
  case Nil
  show ?case by (intro exI [of _ F] exI [of _ B]) simp
next
  case (Cons y ys)
  from parse_step [OF Cons.prems] obtain F1 B1 where
    s: "parse_field km vla pa y (m\<lparr>pinfo := F, bufs := B\<rparr>) = Some (m\<lparr>pinfo := F1, bufs := B1\<rparr>)"
      "parse_room m ix (protocol_data pa) ys F1 B1"
      "parse_infos ix (protocol_data pa) (y # ys) F B = parse_infos ix (protocol_data pa) ys F1 B1"
    by blast
  have "fields_ok m hl ((us @ [y]) @ ys)" "indexes vla pa m ix ((us @ [y]) @ ys)"
    using Cons.prems(1,4) by simp_all
  from Cons.IH [OF this(1) Cons.prems(2,3) this(2) s(2)] s(1,3) show ?case by simp
qed

lemma parse_loop:
  assumes "fields_ok m hl xs" and "pa_list_head_p pa = hl" and "hl \<noteq> NULL"
    and "indexes vla pa m ix xs" and "parse_room m ix (protocol_data pa) xs F B"
  shows "list_for_each_safe rd_next (parse_field km vla pa) hl (m\<lparr>pinfo := F, bufs := B\<rparr>) =
    foldM (parse_field km vla pa) xs (m\<lparr>pinfo := F, bufs := B\<rparr>)"
proof -
  have dl: "dlist m hl xs" using assms(1) by (simp add: fields_ok_def)
  show ?thesis
  proof (rule list_for_each_safe_foldM [where I = "\<lambda>ys s. \<exists>us F B. xs = us @ ys \<and> s = m\<lparr>pinfo := F, bufs := B\<rparr> \<and>
      parse_room m ix (protocol_data pa) ys F B"], goal_cases)
    case 1
    then show ?case using assms(5) by blast
  next
    case 2
    then show ?case using dl by (simp add: dlist_def)
  next
    case 3
    then show ?case using dlist_reads(1) [OF dl] by simp
  next
    case (4 y ys s t)
    then obtain us F B where i: "xs = us @ y # ys" "s = m\<lparr>pinfo := F, bufs := B\<rparr>"
      "parse_room m ix (protocol_data pa) (y # ys) F B" by blast
    from parse_step [OF assms(1) [unfolded i(1)] assms(2,3) assms(4) [unfolded i(1)] i(3), of km] 4(2) i(2)
    obtain F1 B1 where "t = m\<lparr>pinfo := F1, bufs := B1\<rparr>" "parse_room m ix (protocol_data pa) ys F1 B1" by auto
    moreover have "xs = (us @ [y]) @ ys" using i(1) by simp
    ultimately show ?case by blast
  next
    case (5 y ys s)
    then show ?case using dlist_reads(2) [OF dl] by auto
  next
    case (6 s)
    then show ?case using dlist_reads(1) [OF dl] by auto
  qed
qed

lemma parse_spec:
  assumes "fields_ok m hl xs" and "pa_list_head_p pa = hl" and "hl \<noteq> NULL"
    and "indexes vla pa m ix xs" and "parse_room m ix (protocol_data pa) xs (pinfo m) (bufs m)"
    and "protocol_data_len pa \<noteq> 0"
  shows "\<exists>F' B'. parse_infos ix (protocol_data pa) xs (pinfo m) (bufs m) = Some (F', B') \<and>
    pa_parse_protocol_data km vla pa m = Some (0, m\<lparr>pinfo := F', bufs := B'\<rparr>)"
proof -
  have m: "m\<lparr>pinfo := pinfo m, bufs := bufs m\<rparr> = m" by simp
  from parse_fields [of m hl "[]" xs pa vla ix "pinfo m" "bufs m" km] assms obtain F' B' where
    p: "parse_infos ix (protocol_data pa) xs (pinfo m) (bufs m) = Some (F', B')"
      "foldM (parse_field km vla pa) xs m = Some (m\<lparr>pinfo := F', bufs := B'\<rparr>)"
    by auto
  with parse_loop [OF assms(1-5), of km] assms(2,3,6) show ?thesis
    by (auto simp: pa_parse_protocol_data_def)
qed

section \<open>The round trip\<close>

definition alike :: "proto_info \<Rightarrow> proto_info \<Rightarrow> bool" where
  "alike i j = (same_place i j \<and> vlenth_flag i = vlenth_flag j \<and> vlenth_index i = vlenth_index j)"

text \<open>The two indexes give corresponding fields for every name.\<close>

definition same_index :: "(bytes \<Rightarrow> addr) \<Rightarrow> (bytes \<Rightarrow> addr) \<Rightarrow> (addr \<times> addr) list \<Rightarrow> bool" where
  "same_index ix jx ps = (\<forall>key. ix key = NULL \<and> jx key = NULL \<or>
     ix key \<noteq> NULL \<and> jx key \<noteq> NULL \<and> (\<exists>(x, y) \<in> set ps. ix key = info_of x \<and> jx key = info_of y))"

text \<open>A field that can hold the length of another: bytes, and the value fits.\<close>

definition length_field :: "proto_info \<Rightarrow> bool" where
  "length_field i = (len_unit i = 8 \<and> \<not> wide i \<and> take_bit (8 * unat (pi_len i)) (pi_data i) = pi_data i)"

text \<open>Length fields come before the fields they measure.\<close>

definition lengths_first :: "(bytes \<Rightarrow> addr) \<Rightarrow> addr list \<Rightarrow> (addr \<Rightarrow> proto_info) \<Rightarrow> bool" where
  "lengths_first ix xs F = (\<forall>us x ys. xs = us @ x # ys \<longrightarrow> vlenth_flag (F (info_of x)) \<longrightarrow>
     ix (cstr (vlenth_index (F (info_of x)))) \<noteq> NULL \<longrightarrow>
     (\<exists>u \<in> set us. ix (cstr (vlenth_index (F (info_of x)))) = info_of u \<and>
        length_field (resolve_from ix xs F (info_of u))))"

lemma resolve_infos_data [simp]: "pi_data (resolve_infos ix x ys F p) = pi_data (F p)"
  by (simp add: resolve_infos_def Let_def)

lemma resolve_from_data [simp]: "pi_data (resolve_from ix xs F p) = pi_data (F p)"
  by (induction xs arbitrary: F) simp_all

lemma length_field_value:
  assumes "length_field i" and "same_place j i" and "carries B i dp" and "carries B' j dp"
    and "take_bit (8 * unat (pi_len i)) (pi_data j) = pi_data j"
  shows "pi_data j = pi_data i"
proof (rule bit_word_eqI)
  fix n assume "n < LENGTH(32)"
  let ?n = "8 * unat (pi_len i)"
  have w: "\<not> wide i" "\<not> wide j" "field_bits i = ?n" "field_bits j = ?n" "field_start j = field_start i"
    using assms(1,2) same_placeD [OF assms(2)] by (auto simp: length_field_def field_bits_def same_place_def)
  show "bit (pi_data j) n = bit (pi_data i) n"
  proof (cases "n < ?n")
    case True
    then have "?n - 1 - (?n - 1 - n) = n" "?n - 1 - n < ?n" by linarith+
    then show ?thesis using assms(3,4) w by (metis carries_def field_bit_def)
  next
    case False
    then show ?thesis using assms(1,5) by (metis bit_take_bit_iff length_field_def)
  qed
qed

lemma length_field_read:
  assumes "length_field i" and "same_place j i" and "carries B i dp" and "carries B' j dp"
    and "len_unit j = 8 \<and> \<not> wide j \<longrightarrow> take_bit (8 * unat (pi_len j)) (pi_data j) = pi_data j"
  shows "pi_data j = pi_data i"
proof -
  have "len_unit j = 8 \<and> \<not> wide j" "pi_len j = pi_len i"
    using assms(1,2) same_placeD [OF assms(2)] by (auto simp: length_field_def same_place_def)
  with length_field_value [OF assms(1-4)] assms(5) show ?thesis by simp
qed

text \<open>
  The state of a receiver in step with a sender: \<open>qs\<close> are the corresponding fields that were read,
  \<open>rs\<close> those to come, \<open>R\<close> the sender's final descriptions.
\<close>

definition in_step ::
  "'z pmem_scheme \<Rightarrow> (addr \<Rightarrow> bytes) \<Rightarrow> bytes \<Rightarrow> (addr \<Rightarrow> proto_info) \<Rightarrow> (addr \<times> addr) list \<Rightarrow> (addr \<times> addr) list \<Rightarrow>
     (addr \<Rightarrow> proto_info) \<Rightarrow> (addr \<Rightarrow> proto_info) \<Rightarrow> (addr \<Rightarrow> bytes) \<Rightarrow> bool" where
  "in_step m Bs dp R qs rs Fs Fr B =
     (distinct (map fst (qs @ rs)) \<and> distinct (map snd (qs @ rs)) \<and>
      (\<forall>(x, y) \<in> set qs. Fs (info_of x) = R (info_of x) \<and> same_place (Fr (info_of y)) (R (info_of x)) \<and>
         taken dp B (Fr (info_of y)) \<and>
         (length_field (R (info_of x)) \<longrightarrow> pi_data (Fr (info_of y)) = pi_data (R (info_of x)))) \<and>
      (\<forall>(x, y) \<in> set rs. alike (Fs (info_of x)) (Fr (info_of y)) \<and> placed (length dp) (R (info_of x)) \<and>
         (wide (R (info_of x)) \<longrightarrow> buf_data_p (Fr (info_of y)) \<noteq> NULL \<and> pi_len (R (info_of x)) \<le> buf_len (Fr (info_of y)) \<and>
            valid m (buf_data_p (Fr (info_of y))) (unat (pi_len (R (info_of x)))))) \<and>
      (\<forall>(x, y) \<in> set (qs @ rs). carries Bs (R (info_of x)) dp) \<and>
      (\<forall>(x, y) \<in> set (qs @ rs). \<forall>(x', y') \<in> set rs. y \<noteq> y' \<longrightarrow> wide (R (info_of x)) \<longrightarrow> wide (R (info_of x')) \<longrightarrow>
         buf_data_p (Fr (info_of y)) \<noteq> buf_data_p (Fr (info_of y'))))"

lemma in_step_dest:
  assumes "in_step m Bs dp R qs rs Fs Fr B"
  shows "distinct (map fst (qs @ rs))" "distinct (map snd (qs @ rs))"
    and "(x, y) \<in> set qs \<Longrightarrow> Fs (info_of x) = R (info_of x) \<and> same_place (Fr (info_of y)) (R (info_of x)) \<and>
         taken dp B (Fr (info_of y)) \<and>
         (length_field (R (info_of x)) \<longrightarrow> pi_data (Fr (info_of y)) = pi_data (R (info_of x)))"
    and "(x, y) \<in> set rs \<Longrightarrow> alike (Fs (info_of x)) (Fr (info_of y)) \<and> placed (length dp) (R (info_of x)) \<and>
         (wide (R (info_of x)) \<longrightarrow> buf_data_p (Fr (info_of y)) \<noteq> NULL \<and> pi_len (R (info_of x)) \<le> buf_len (Fr (info_of y)) \<and>
            valid m (buf_data_p (Fr (info_of y))) (unat (pi_len (R (info_of x)))))"
    and "(x, y) \<in> set (qs @ rs) \<Longrightarrow> carries Bs (R (info_of x)) dp"
    and "(x, y) \<in> set (qs @ rs) \<Longrightarrow> (x', y') \<in> set rs \<Longrightarrow> y \<noteq> y' \<Longrightarrow> wide (R (info_of x)) \<Longrightarrow> wide (R (info_of x')) \<Longrightarrow>
         buf_data_p (Fr (info_of y)) \<noteq> buf_data_p (Fr (info_of y'))"
  using assms unfolding in_step_def by fast+

lemma resolve_infos_keeps [simp]:
  "buf_data_p (resolve_infos ix x ys F p) = buf_data_p (F p)"
  "buf_len (resolve_infos ix x ys F p) = buf_len (F p)"
  "bit_pos (resolve_infos ix x ys F p) = bit_pos (F p)"
  "len_unit (resolve_infos ix x ys F p) = len_unit (F p)"
  "vlenth_index (resolve_infos ix x ys F p) = vlenth_index (F p)"
  by (simp_all add: resolve_infos_def Let_def)

text \<open>Resolving a length keeps the two sides alike when both find the same length.\<close>

lemma resolve_alike:
  assumes "alike (Fs (info_of x)) (Fr (info_of y))" and "(x', y') \<in> set ((x, y) # rs)"
    and "alike (Fs (info_of x')) (Fr (info_of y'))"
    and "distinct (x # map fst rs)" and "distinct (y # map snd rs)"
    and "vlenth_flag (Fs (info_of x)) \<Longrightarrow>
      (ix (cstr (vlenth_index (Fs (info_of x)))) = NULL) = (jx (cstr (vlenth_index (Fs (info_of x)))) = NULL) \<and>
      (ix (cstr (vlenth_index (Fs (info_of x)))) \<noteq> NULL \<longrightarrow>
        pi_data (Fs (ix (cstr (vlenth_index (Fs (info_of x)))))) = pi_data (Fr (jx (cstr (vlenth_index (Fs (info_of x)))))))"
  shows "alike (resolve_infos ix x (map fst rs) Fs (info_of x')) (resolve_infos jx y (map snd rs) Fr (info_of y'))"
proof -
  have e: "vlenth_flag (Fr (info_of y)) = vlenth_flag (Fs (info_of x))" "vlenth_index (Fr (info_of y)) = vlenth_index (Fs (info_of x))"
    "len_unit (Fr (info_of y)) = len_unit (Fs (info_of x))"
    using assms(1) by (simp_all add: alike_def same_place_def)
  consider "x' = x" "y' = y" | "(x', y') \<in> set rs" "x' \<noteq> x" "y' \<noteq> y" "x' \<in> set (map fst rs)" "y' \<in> set (map snd rs)"
    using assms(2,4,5) by force
  then show ?thesis
  proof cases
    case 1
    with assms(3,6) e show ?thesis
      by (auto simp: resolve_infos_def Let_def alike_def same_place_def)
  next
    case 2
    then have "info_of x' \<in> info_of ` set (map fst rs)" "info_of y' \<in> info_of ` set (map snd rs)" by blast+
    with assms(3,6) e 2(2,3) show ?thesis
      by (auto simp: resolve_infos_def Let_def alike_def same_place_def)
  qed
qed

text \<open>The lengths agree: the length field was read, and it holds the sender's value.\<close>

lemma in_step_lengths:
  assumes inv: "in_step m Bs dp R qs ((x, y) # rs) Fs Fr B" and idx: "same_index ix jx (qs @ (x, y) # rs)"
    and len: "ix key \<noteq> NULL \<Longrightarrow> \<exists>u \<in> fst ` set qs. ix key = info_of u \<and> length_field (R (info_of u))"
  shows "(ix key = NULL) = (jx key = NULL) \<and> (ix key \<noteq> NULL \<longrightarrow> pi_data (Fs (ix key)) = pi_data (Fr (jx key)))"
proof (cases "ix key = NULL")
  case True
  then show ?thesis using idx unfolding same_index_def by blast
next
  case False
  with idx obtain u v where uv: "(u, v) \<in> set (qs @ (x, y) # rs)" "ix key = info_of u" "jx key = info_of v" "jx key \<noteq> NULL"
    unfolding same_index_def by blast
  from len [OF False] uv(2) have u: "u \<in> fst ` set qs" "length_field (R (info_of u))" by auto
  have "(u, v) \<in> set qs"
  proof -
    have "u \<notin> fst ` set ((x, y) # rs)" using in_step_dest(1) [OF inv] u(1) by auto
    then show ?thesis using uv(1) by force
  qed
  then have "Fs (info_of u) = R (info_of u)" "pi_data (Fr (info_of v)) = pi_data (R (info_of u))"
    using in_step_dest(3) [OF inv] u(2) by blast+
  with False uv show ?thesis by simp
qed

text \<open>
  One field further: the receiver's record \<open>j\<close> of \<open>x\<close> stands at the sender's place and is in the frame,
  and reading it left the buffers of the other fields alone.
\<close>

lemma in_step_advance:
  assumes inv: "in_step m Bs dp R qs ((x, y) # rs) Fs Fr B"
    and Fs1: "Fs1 = resolve_infos ix x (map fst rs) Fs" and Fr1: "Fr1 = resolve_infos jx y (map snd rs) Fr"
    and Rx: "R (info_of x) = Fs1 (info_of x)"
    and al: "\<And>x' y'. (x', y') \<in> set rs \<Longrightarrow> alike (Fs1 (info_of x')) (Fr1 (info_of y'))"
    and jR: "same_place j (R (info_of x))" and buf: "buf_data_p j = buf_data_p (Fr1 (info_of y))"
    and sp: "same_place (Fr1 (info_of y)) (R (info_of x))" and car: "taken dp B1 j"
    and others: "\<And>b. (wide (Fr1 (info_of y)) \<Longrightarrow> b \<noteq> buf_data_p (Fr1 (info_of y))) \<Longrightarrow> B1 b = B b"
    and len: "length_field (R (info_of x)) \<Longrightarrow> pi_data j = pi_data (R (info_of x))"
  shows "in_step m Bs dp R (qs @ [(x, y)]) rs Fs1 (Fr1(info_of y := j)) B1"
proof -
  note d = in_step_dest [OF inv]
  have dx: "distinct (x # map fst rs)" and dy: "distinct (y # map snd rs)" using d(1,2) by simp_all
  have wd: "wide (Fr1 (info_of y)) = wide (R (info_of x))" using same_placeD [OF sp] by simp
  let ?F = "Fr1(info_of y := j)"
  have bufs: "buf_data_p (?F p) = buf_data_p (Fr p)" for p using buf by (simp add: Fr1)
  have old: "Fs1 (info_of x') = Fs (info_of x')" "?F (info_of y') = Fr (info_of y')" "x' \<noteq> x" "y' \<noteq> y"
    if q: "(x', y') \<in> set qs" for x' y'
  proof -
    have "x' \<in> fst ` set qs" "y' \<in> snd ` set qs" using q by force+
    then have n: "x' \<noteq> x" "y' \<noteq> y" "x' \<notin> set (map fst rs)" "y' \<notin> set (map snd rs)"
      using d(1,2) by auto
    then show "x' \<noteq> x" "y' \<noteq> y" "Fs1 (info_of x') = Fs (info_of x')" "?F (info_of y') = Fr (info_of y')"
      unfolding Fs1 Fr1 using n by (simp_all add: resolve_infos_other)
  qed
  have kept: "taken dp B1 (Fr (info_of y'))" if q: "(x', y') \<in> set qs" for x' y'
  proof -
    have c: "taken dp B (Fr (info_of y'))" and s: "same_place (Fr (info_of y')) (R (info_of x'))"
      using d(3) [OF q] by simp_all
    have "B1 (buf_data_p (Fr (info_of y'))) = B (buf_data_p (Fr (info_of y')))" if w: "wide (Fr (info_of y'))"
    proof (rule others)
      assume "wide (Fr1 (info_of y))"
      then have "wide (R (info_of x))" "wide (R (info_of x'))" using wd w same_placeD [OF s] by simp_all
      with d(6) [of x' y' x y] q old(4) [OF q] show "buf_data_p (Fr (info_of y')) \<noteq> buf_data_p (Fr1 (info_of y))"
        by (simp add: Fr1)
    qed
    then show ?thesis using c by (auto simp: taken_def carries_def field_bit_def)
  qed
  have new: "?F (info_of y') = Fr1 (info_of y')" if "(x', y') \<in> set rs" for x' y'
    using that dy by (force simp: image_iff)
  show ?thesis
    unfolding in_step_def
  proof (intro conjI ballI, goal_cases)
    case 1
    then show ?case using d(1) by simp
  next
    case 2
    then show ?case using d(2) by simp
  next
    case (3 p)
    then consider "p = (x, y)" | x' y' where "p = (x', y')" "(x', y') \<in> set qs"
      by (metis Un_iff empty_iff empty_set insert_iff list.set(2) prod.collapse set_append)
    then show ?case
    proof cases
      case 1
      then show ?thesis using Rx jR car len by simp
    next
      case 2
      have "Fs (info_of x') = R (info_of x')" "same_place (Fr (info_of y')) (R (info_of x'))"
        "length_field (R (info_of x')) \<longrightarrow> pi_data (Fr (info_of y')) = pi_data (R (info_of x'))"
        using d(3) [OF 2(2)] by simp_all
      with kept [OF 2(2)] old(1,2) [OF 2(2)] show ?thesis unfolding 2(1) prod.case by simp
    qed
  next
    case (4 p)
    then obtain x' y' where p: "p = (x', y')" "(x', y') \<in> set rs" by (metis prod.collapse)
    have "alike (Fs1 (info_of x')) (?F (info_of y'))" using al [OF p(2)] new [OF p(2)] by simp
    moreover have "buf_data_p (?F (info_of y')) = buf_data_p (Fr (info_of y'))" "buf_len (?F (info_of y')) = buf_len (Fr (info_of y'))"
      using new [OF p(2)] by (simp_all add: Fr1)
    ultimately show ?case using d(4) [of x' y'] p(2) unfolding p(1) by simp
  next
    case (5 p)
    then show ?case using d(5) by auto
  next
    case (6 p)
    then show ?case using d(6) unfolding bufs by auto
  qed
qed

lemma in_step_read:
  assumes inv: "in_step m Bs dp R qs ((x, y) # rs) Fs Fr B" and idx: "same_index ix jx (qs @ (x, y) # rs)"
    and Fs1: "Fs1 = resolve_infos ix x (map fst rs) Fs" and Fr1: "Fr1 = resolve_infos jx y (map snd rs) Fr"
    and R: "R = resolve_from ix (map fst rs) Fs1"
    and len: "\<And>key. vlenth_flag (Fs (info_of x)) \<Longrightarrow> key = cstr (vlenth_index (Fs (info_of x))) \<Longrightarrow> ix key \<noteq> NULL \<Longrightarrow>
      \<exists>u \<in> fst ` set qs. ix key = info_of u \<and> length_field (R (info_of u))"
  shows "\<exists>j B1. read_field dp (Fr1 (info_of y)) B = Some (j, B1) \<and> room m (Fr1 (info_of y)) \<and>
    in_step m Bs dp R (qs @ [(x, y)]) rs Fs1 (Fr1(info_of y := j)) B1"
proof -
  note d = in_step_dest [OF inv]
  have dx: "distinct (x # map fst rs)" and dy: "distinct (y # map snd rs)" using d(1,2) by simp_all
  have Rx: "R (info_of x) = Fs1 (info_of x)"
    unfolding R using dx by (intro resolve_from_other) auto
  have al: "alike (Fs1 (info_of x')) (Fr1 (info_of y'))" if "(x', y') \<in> set ((x, y) # rs)" for x' y'
    unfolding Fs1 Fr1
  proof (rule resolve_alike)
    show "alike (Fs (info_of x)) (Fr (info_of y))" "alike (Fs (info_of x')) (Fr (info_of y'))"
      using d(4) that by (meson list.set_intros(1))+
  qed (use that dx dy in_step_lengths [OF inv idx len] in simp_all)
  have sp: "same_place (Fr1 (info_of y)) (R (info_of x))"
    using al [of x y] Rx by (auto simp: alike_def same_place_def)
  have pl: "placed (length dp) (Fr1 (info_of y))"
    using d(4) [of x y] same_place_placed [OF sp] by simp
  from read_field_ok [OF pl, of B] obtain j B1 where
    j: "read_field dp (Fr1 (info_of y)) B = Some (j, B1)" "same_place j (Fr1 (info_of y))"
      "buf_data_p j = buf_data_p (Fr1 (info_of y))" "taken dp B1 j"
      "\<And>b. (wide (Fr1 (info_of y)) \<Longrightarrow> b \<noteq> buf_data_p (Fr1 (info_of y))) \<Longrightarrow> B1 b = B b"
      "len_unit (Fr1 (info_of y)) = 8 \<and> \<not> wide (Fr1 (info_of y)) \<longrightarrow>
        take_bit (8 * unat (pi_len (Fr1 (info_of y)))) (pi_data j) = pi_data j"
    by blast
  have cj: "carries B1 j dp" using j(4) by (simp add: taken_def)
  have jR: "same_place j (R (info_of x))" using j(2) sp by (simp add: same_place_def)
  have wd: "wide (Fr1 (info_of y)) = wide (R (info_of x))" using same_placeD [OF sp] by simp
  have len: "length_field (R (info_of x)) \<Longrightarrow> pi_data j = pi_data (R (info_of x))"
    using length_field_read [OF _ jR _ cj, of Bs] d(5) [of x y] j(2,6) same_placeD [OF j(2)]
    by (simp add: same_place_def)
  have rm: "room m (Fr1 (info_of y))"
    using d(4) [of x y] sp wd by (simp add: room_def Fr1 same_place_def)
  have "in_step m Bs dp R (qs @ [(x, y)]) rs Fs1 (Fr1(info_of y := j)) B1"
    by (rule in_step_advance [OF inv Fs1 Fr1 Rx _ jR j(3) sp j(4) j(5) len]) (use al in simp_all)
  with j(1) rm show ?thesis by blast
qed

text \<open>The receiver reads every field at the sender's place, and the frame's bits are in it.\<close>

lemma parse_infos_in_step:
  assumes "in_step m Bs dp R qs rs Fs Fr B" and "same_index ix jx (qs @ rs)"
    and "R = resolve_from ix (map fst rs) Fs"
    and "\<And>us x y vs key. rs = us @ (x, y) # vs \<Longrightarrow> vlenth_flag (Fs (info_of x)) \<Longrightarrow>
      key = cstr (vlenth_index (Fs (info_of x))) \<Longrightarrow> ix key \<noteq> NULL \<Longrightarrow>
      \<exists>u \<in> fst ` set (qs @ us). ix key = info_of u \<and> length_field (R (info_of u))"
  shows "parse_room m jx dp (map snd rs) Fr B \<and>
    (\<exists>F' B'. parse_infos jx dp (map snd rs) Fr B = Some (F', B') \<and> in_step m Bs dp R (qs @ rs) [] R F' B')"
  using assms
proof (induction rs arbitrary: qs Fs Fr B)
  case Nil
  then show ?case by simp
next
  case (Cons p rs)
  obtain x y where p: "p = (x, y)" by fastforce
  define Fs1 where "Fs1 = resolve_infos ix x (map fst rs) Fs"
  define Fr1 where "Fr1 = resolve_infos jx y (map snd rs) Fr"
  have R: "R = resolve_from ix (map fst rs) Fs1" using Cons.prems(3) by (simp add: p Fs1_def)
  have "\<exists>u \<in> fst ` set qs. ix key = info_of u \<and> length_field (R (info_of u))"
    if "vlenth_flag (Fs (info_of x))" "key = cstr (vlenth_index (Fs (info_of x)))" "ix key \<noteq> NULL" for key
    using Cons.prems(4) [of "[]" x y rs key] that p by simp
  from in_step_read [OF Cons.prems(1) [unfolded p] Cons.prems(2) [unfolded p] Fs1_def Fr1_def R this] obtain j B1 where
    j: "read_field dp (Fr1 (info_of y)) B = Some (j, B1)" "room m (Fr1 (info_of y))"
      "in_step m Bs dp R (qs @ [(x, y)]) rs Fs1 (Fr1(info_of y := j)) B1"
    by blast
  have idx: "same_index ix jx ((qs @ [(x, y)]) @ rs)" using Cons.prems(2) by (simp add: p)
  have "\<exists>u \<in> fst ` set ((qs @ [(x, y)]) @ us). ix key = info_of u \<and> length_field (R (info_of u))"
    if s: "rs = us @ (x', y') # vs" "vlenth_flag (Fs1 (info_of x'))" "key = cstr (vlenth_index (Fs1 (info_of x')))" "ix key \<noteq> NULL"
    for us x' y' vs key
  proof -
    have "vlenth_flag (Fs (info_of x'))"
      using s(2) by (auto simp: Fs1_def resolve_infos_def Let_def split: if_splits)
    moreover have "vlenth_index (Fs1 (info_of x')) = vlenth_index (Fs (info_of x'))" by (simp add: Fs1_def)
    ultimately show ?thesis using Cons.prems(4) [of "p # us" x' y' vs key] s p by simp
  qed
  note ih_len = this
  define Fr2 where "Fr2 = Fr1(info_of y := j)"
  have "parse_room m jx dp (map snd rs) Fr2 B1 \<and>
    (\<exists>F' B'. parse_infos jx dp (map snd rs) Fr2 B1 = Some (F', B') \<and> in_step m Bs dp R ((qs @ [(x, y)]) @ rs) [] R F' B')"
    unfolding Fr2_def by (rule Cons.IH [OF j(3) idx R]) (use ih_len in blast)
  with j(1,2) show ?case
    by (simp add: p Let_def Fr1_def [symmetric] Fr2_def [symmetric])
qed

end
