(* ===== verification/Field_Index.thy ===== *)
theory Field_Index
  imports Frame_Generate
begin

text \<open>
  The index that \<open>pa_create_hash_table\<close> builds over the fields of a format, and
  \<open>pa_find_key\<close> as a lookup in it. The lookups rest on the facts of the interpretation
  \<open>hm\<close> of the table interface by the hash map.
\<close>

section \<open>Addresses as four bytes\<close>

lemma bit_four_bytes:
  assumes "n < 32"
  shows "bit (push_bit 24 (ucast (ucast (drop_bit 24 (a :: addr)) :: u8)) OR push_bit 16 (ucast (ucast (drop_bit 16 a) :: u8)) OR
      push_bit 8 (ucast (ucast (drop_bit 8 a) :: u8)) OR ucast (ucast a :: u8) :: addr) n = bit a n"
proof -
  consider "n < 8" | "8 \<le> n" "n < 16" | "16 \<le> n" "n < 24" | "24 \<le> n" "n < 32" using assms by linarith
  then show ?thesis by cases (simp_all add: bit_simps, linarith+)
qed

lemma addr_of_bytes_of_addr [simp]: "addr_of_bytes (addr_bytes a @ r) = Some a"
proof -
  have "push_bit 24 (ucast (ucast (drop_bit 24 a) :: u8)) OR push_bit 16 (ucast (ucast (drop_bit 16 a) :: u8)) OR
      push_bit 8 (ucast (ucast (drop_bit 8 a) :: u8)) OR ucast (ucast a :: u8) = a"
    by (rule bit_word_eqI, rule bit_four_bytes) simp
  then show ?thesis by (simp add: addr_bytes_def addr_of_bytes_def byte_of_and_0xff)
qed

lemma addr_of_addr_bytes [simp]: "addr_of_bytes (addr_bytes a) = Some a"
  using addr_of_bytes_of_addr [of a "[]"] by simp

lemma length_addr_bytes [simp]: "length (addr_bytes a) = 4"
  by (simp add: addr_bytes_def)

section \<open>The map does not depend on the fields\<close>

lemma hseg_fields [simp]:
  "hseg (m\<lparr>pinfo := F\<rparr>) q xs = hseg m q xs"
  "hseg (m\<lparr>bufs := B\<rparr>) q xs = hseg m q xs"
  by (induction xs arbitrary: q) auto

lemma hlist_fields [simp]:
  "hlist (m\<lparr>pinfo := F\<rparr>) q xs = hlist m q xs"
  "hlist (m\<lparr>bufs := B\<rparr>) q xs = hlist m q xs"
  by (simp_all add: hlist_def)

lemma hmap_ok_fields [simp]:
  "hmap_ok h (m\<lparr>pinfo := F\<rparr>) C = hmap_ok h m C"
  "hmap_ok h (m\<lparr>bufs := B\<rparr>) C = hmap_ok h m C"
  by (simp_all add: hmap_ok_def chains_ok_def node_ok_def)

lemma hmap_abs_fields [simp]:
  "hmap_abs h (m\<lparr>pinfo := F\<rparr>) C = hmap_abs h m C"
  "hmap_abs h (m\<lparr>bufs := B\<rparr>) C = hmap_abs h m C"
proof -
  have "node_key h (m\<lparr>pinfo := F\<rparr>) = node_key h m" "node_key h (m\<lparr>bufs := B\<rparr>) = node_key h m"
    "node_value h (m\<lparr>pinfo := F\<rparr>) = node_value h m" "node_value h (m\<lparr>bufs := B\<rparr>) = node_value h m"
    by (rule ext, simp add: node_key_def node_value_def)+
  then show "hmap_abs h (m\<lparr>pinfo := F\<rparr>) C = hmap_abs h m C" "hmap_abs h (m\<lparr>bufs := B\<rparr>) C = hmap_abs h m C"
    by - (rule ext, simp only: hmap_abs_def)+
qed

lemma hmap_repr_fields [simp]:
  "hmap_repr km n (h, m\<lparr>pinfo := F\<rparr>) f = hmap_repr km n (h, m) f"
  "hmap_repr km n (h, m\<lparr>bufs := B\<rparr>) f = hmap_repr km n (h, m) f"
  by (simp_all add: hmap_repr_def hmap_env_def sys_registered_def)

section \<open>Looking a name up\<close>

lemma pa_find_key_get:
  assumes "pa_hmap pa = Some h"
  shows "pa_find_key vla key pa m = do {
     r \<leftarrow> hmap_get (search_key vla (hm_key_size h) key) (h, m);
     (case r of None \<Rightarrow> Some NULL | Some b \<Rightarrow> addr_of_bytes b) }"
  using assms by (auto simp: pa_find_key_def hmap_get_def Option.bind_assoc split: Option.bind_splits)

text \<open>\<open>names f pa m\<close>: the index of the analyzer maps padded names to field addresses as \<open>f\<close> does.\<close>

definition names :: "kmalloc_fn \<Rightarrow> (bytes \<Rightarrow> addr option) \<Rightarrow> analyzer \<Rightarrow> 'z pmem_scheme \<Rightarrow> bool" where
  "names km f pa m = (\<exists>h. pa_hmap pa = Some h \<and> hm_key_size h = INDEX_KEY_SIZE \<and>
     hmap_repr km 10 (h, m) (\<lambda>k. map_option addr_bytes (f k)))"

definition padded :: "bytes \<Rightarrow> bytes" where
  "padded key = key @ replicate (10 - length key) 0"

definition lookup :: "(bytes \<Rightarrow> addr option) \<Rightarrow> bytes \<Rightarrow> bytes \<Rightarrow> addr" where
  "lookup f vla key = (case f (if length key < 10 then padded key else vla) of None \<Rightarrow> NULL | Some a \<Rightarrow> a)"

lemma pa_find_key_names:
  assumes "names km f pa m" and "length vla = 10"
  shows "pa_find_key vla key pa m = Some (lookup f vla key)"
proof -
  from assms(1) obtain h where h: "pa_hmap pa = Some h" "hm_key_size h = INDEX_KEY_SIZE"
    and r: "hmap_repr km 10 (h, m) (\<lambda>k. map_option addr_bytes (f k))"
    by (auto simp: names_def)
  let ?k = "if length key < 10 then padded key else vla"
  have "search_key vla (hm_key_size h) key = ?k"
    using h(2) by (simp add: search_key_def INDEX_KEY_SIZE_def padded_def)
  moreover have "length ?k = 10" using assms(2) by (simp add: padded_def)
  then have "hmap_get ?k (h, m) = Some (map_option addr_bytes (f ?k))"
    by (rule hm.get_repr [OF r])
  ultimately show ?thesis
    by (simp only: pa_find_key_get [OF h(1)]) (simp add: lookup_def split: option.splits)
qed

lemma names_fields [simp]:
  "names km f pa (m\<lparr>pinfo := F\<rparr>) = names km f pa m"
  "names km f pa (m\<lparr>bufs := B\<rparr>) = names km f pa m"
  by (simp_all add: names_def)

text \<open>What the generator and the parser need of the index.\<close>

lemma names_indexes:
  assumes "names km f pa m" and "length vla = 10" and "\<And>k a. f k = Some a \<Longrightarrow> a \<in> info_of ` set xs"
  shows "indexes vla pa m (lookup f vla) xs"
  unfolding indexes_def
proof (intro allI conjI)
  fix key F B
  show "pa_find_key vla key pa (m\<lparr>pinfo := F, bufs := B\<rparr>) = Some (lookup f vla key)"
    by (rule pa_find_key_names [where km = km, OF _ assms(2)]) (simp add: assms(1))
  show "lookup f vla key = NULL \<or> lookup f vla key \<in> info_of ` set xs"
    using assms(3) by (auto simp: lookup_def split: option.splits)
qed

end
