(* ===== verification/Frame_Roundtrip.thy ===== *)
theory Frame_Roundtrip
  imports Frame_Parse Field_Index
begin

text \<open>
  The main properties of the analyzer: the frame that a sender generates, and the round trip
  through a receiver's parser, both for formats with fields of variable length.
\<close>

section \<open>Senders and receivers\<close>

text \<open>
  A sender that is ready to generate: its fields, with the lengths resolved, lie in the frame,
  do not overlap, find clear bits where bits are or-ed in, and the lengths come first.
\<close>

definition sender_ok :: "bytes \<Rightarrow> analyzer \<Rightarrow> 'z pmem_scheme \<Rightarrow> (bytes \<Rightarrow> addr) \<Rightarrow> addr list \<Rightarrow> bool" where
  "sender_ok vla pa m ix xs =
     (fields_ok m (pa_list_head_p pa) xs \<and> pa_list_head_p pa \<noteq> NULL \<and> xs \<noteq> [] \<and> indexes vla pa m ix xs \<and>
      (\<forall>x \<in> set xs. field_ok m (length (protocol_data pa)) (resolved ix xs m x) \<and> value_ok (resolved ix xs m x)) \<and>
      separate (map (resolved ix xs m) xs) \<and> clear_for (map (resolved ix xs m) xs) (protocol_data pa))"

text \<open>A receiver with the sender's format, whose buffers are in place, large enough and distinct.\<close>

definition receiver_ok ::
  "(bytes \<Rightarrow> addr) \<Rightarrow> addr list \<Rightarrow> 'z pmem_scheme \<Rightarrow> bytes \<Rightarrow> analyzer \<Rightarrow> 'z pmem_scheme \<Rightarrow> (bytes \<Rightarrow> addr) \<Rightarrow> addr list \<Rightarrow> bool" where
  "receiver_ok ix xs m vla pb mb jx ys =
     (fields_ok mb (pa_list_head_p pb) ys \<and> pa_list_head_p pb \<noteq> NULL \<and> indexes vla pb mb jx ys \<and>
      length ys = length xs \<and> same_index ix jx (zip xs ys) \<and>
      (\<forall>(x, y) \<in> set (zip xs ys). alike (pinfo m (info_of x)) (pinfo mb (info_of y)) \<and>
         (wide (resolved ix xs m x) \<longrightarrow> buf_data_p (pinfo mb (info_of y)) \<noteq> NULL \<and>
            pi_len (resolved ix xs m x) \<le> buf_len (pinfo mb (info_of y)) \<and>
            valid mb (buf_data_p (pinfo mb (info_of y))) (unat (pi_len (resolved ix xs m x))))) \<and>
      (\<forall>(x, y) \<in> set (zip xs ys). \<forall>(x', y') \<in> set (zip xs ys). y \<noteq> y' \<longrightarrow>
         wide (resolved ix xs m x) \<longrightarrow> wide (resolved ix xs m x') \<longrightarrow>
         buf_data_p (pinfo mb (info_of y)) \<noteq> buf_data_p (pinfo mb (info_of y'))))"

lemma indexes_analyzer [simp]:
  "indexes vla (pb\<lparr>protocol_data := dp\<rparr>) m ix xs = indexes vla pb m ix xs"
  "indexes vla (pb\<lparr>protocol_data_len := n\<rparr>) m ix xs = indexes vla pb m ix xs"
  by (simp_all add: indexes_def pa_find_key_def)

lemma generate_ok:
  assumes "sender_ok vla pa m ix xs"
  shows "\<exists>dp G. pa_generate_protocol_data vla pa m = Some (0, pa\<lparr>protocol_data := dp,
      protocol_data_len := ucast (byte_pos (resolved ix xs m (last xs))) + pi_len (resolved ix xs m (last xs))\<rparr>,
      m\<lparr>pinfo := G\<rparr>) \<and> marked (resolve_from ix xs (pinfo m)) G \<and> length dp = length (protocol_data pa) \<and>
    (\<forall>x \<in> set xs. carries (bufs m) (resolved ix xs m x) dp) \<and>
    (\<forall>s < 8 * length dp. (\<forall>x \<in> set xs. s \<notin> field_range (resolved ix xs m x)) \<longrightarrow>
       frame_bit dp s = frame_bit (protocol_data pa) s)"
proof -
  let ?is = "map (resolved ix xs m) xs"
  have "i \<in> set ?is \<Longrightarrow> field_ok m (length (protocol_data pa)) i \<and> value_ok i" for i
    using assms by (auto simp: sender_ok_def)
  moreover have "separate ?is" "clear_for ?is (protocol_data pa)" using assms by (simp_all add: sender_ok_def)
  ultimately obtain dp where d: "foldM (put_field m) ?is (protocol_data pa) = Some dp" "length dp = length (protocol_data pa)"
    "\<And>i. i \<in> set ?is \<Longrightarrow> carries (bufs m) i dp"
    "\<And>s. s < 8 * length (protocol_data pa) \<Longrightarrow> (\<forall>i \<in> set ?is. s \<notin> field_range i) \<Longrightarrow>
       frame_bit dp s = frame_bit (protocol_data pa) s"
    using put_fields_write [of ?is m "protocol_data pa"] by blast
  from generate_resolved [of m "pa_list_head_p pa" xs pa vla ix] assms obtain G where
    g: "marked (resolve_from ix xs (pinfo m)) G" "pa_generate_protocol_data vla pa m = do {
     dp \<leftarrow> foldM (put_field m) ?is (protocol_data pa);
     let i = resolved ix xs m (last xs);
     Some (0, pa\<lparr>protocol_data := dp, protocol_data_len := ucast (byte_pos i) + pi_len i\<rparr>, m\<lparr>pinfo := G\<rparr>) }"
    by (auto simp: sender_ok_def)
  show ?thesis
  proof (intro exI conjI)
    show "pa_generate_protocol_data vla pa m = Some (0, pa\<lparr>protocol_data := dp,
      protocol_data_len := ucast (byte_pos (resolved ix xs m (last xs))) + pi_len (resolved ix xs m (last xs))\<rparr>,
      m\<lparr>pinfo := G\<rparr>)" using g(2) d(1) by (simp add: Let_def)
  qed (use g(1) d(2-4) in auto)
qed

lemma map_fst_snd_zip: "length ys = length xs \<Longrightarrow> map fst (zip xs ys) = xs \<and> map snd (zip xs ys) = ys"
  by simp

lemma parse_ok:
  assumes s: "sender_ok vla pa m ix xs" and l: "lengths_first ix xs (pinfo m)"
    and r: "receiver_ok ix xs m vla' pb mb jx ys"
    and c: "\<And>x. x \<in> set xs \<Longrightarrow> carries (bufs m) (resolved ix xs m x) (protocol_data pb)"
    and len: "length (protocol_data pb) = length (protocol_data pa)" and n: "protocol_data_len pb \<noteq> 0"
  shows "\<exists>F' B'. pa_parse_protocol_data km vla' pb mb = Some (0, mb\<lparr>pinfo := F', bufs := B'\<rparr>) \<and>
    (\<forall>(x, y) \<in> set (zip xs ys). same_place (F' (info_of y)) (resolved ix xs m x) \<and>
       taken (protocol_data pb) B' (F' (info_of y)))"
proof -
  let ?R = "resolve_from ix xs (pinfo m)" and ?dp = "protocol_data pb" and ?ps = "zip xs ys"
  have lxy: "length ys = length xs" using r by (simp add: receiver_ok_def)
  note z = map_fst_snd_zip [OF lxy]
  have dist: "distinct xs" "distinct ys" using s r by (auto simp: sender_ok_def receiver_ok_def fields_ok_def dlist_def)
  have mem: "x \<in> set xs" "y \<in> set ys" if "(x, y) \<in> set ?ps" for x y
    using that by (meson set_zip_leftD set_zip_rightD)+
  have inv: "in_step mb (bufs m) ?dp ?R [] ?ps (pinfo m) (pinfo mb) (bufs mb)"
    unfolding in_step_def append_Nil
  proof (intro conjI ballI, goal_cases)
    case (4 p)
    then obtain x y where p: "p = (x, y)" "(x, y) \<in> set ?ps" by (metis prod.collapse)
    have "placed (length ?dp) (?R (info_of x))"
      using s mem(1) [OF p(2)] len by (auto simp: sender_ok_def resolved_def intro: field_ok_placed)
    moreover have "alike (pinfo m (info_of x)) (pinfo mb (info_of y)) \<and>
         (wide (?R (info_of x)) \<longrightarrow> buf_data_p (pinfo mb (info_of y)) \<noteq> NULL \<and>
            pi_len (?R (info_of x)) \<le> buf_len (pinfo mb (info_of y)) \<and>
            valid mb (buf_data_p (pinfo mb (info_of y))) (unat (pi_len (?R (info_of x)))))"
      using r p(2) unfolding receiver_ok_def resolved_def by blast
    ultimately show ?case unfolding p(1) by simp
  next
    case (5 p)
    then obtain x y where "p = (x, y)" "(x, y) \<in> set ?ps" by (metis prod.collapse)
    with c [OF mem(1)] show ?case unfolding resolved_def by fast
  next
    case (6 p)
    have "\<forall>(x, y) \<in> set ?ps. \<forall>(x', y') \<in> set ?ps. y \<noteq> y' \<longrightarrow> wide (?R (info_of x)) \<longrightarrow> wide (?R (info_of x')) \<longrightarrow>
         buf_data_p (pinfo mb (info_of y)) \<noteq> buf_data_p (pinfo mb (info_of y'))"
      using r unfolding receiver_ok_def resolved_def by (elim conjE)
    then show ?case using 6 by (rule bspec)
  qed (use dist z in simp_all)
  have lens: "\<exists>u \<in> fst ` set ([] @ us). ix key = info_of u \<and> length_field (?R (info_of u))"
    if k: "?ps = us @ (x, y) # vs" "vlenth_flag (pinfo m (info_of x))"
      "key = cstr (vlenth_index (pinfo m (info_of x)))" "ix key \<noteq> NULL" for us x y vs key
  proof -
    have "xs = map fst us @ x # map fst vs" using z k(1) by (metis fst_conv list.simps(9) map_append)
    with l k show ?thesis unfolding lengths_first_def by fastforce
  qed
  have "same_index ix jx ([] @ ?ps)" using r by (simp add: receiver_ok_def)
  note idx = this
  have R: "?R = resolve_from ix (map fst ?ps) (pinfo m)" using z by simp
  have "parse_room mb jx ?dp (map snd ?ps) (pinfo mb) (bufs mb) \<and>
    (\<exists>F' B'. parse_infos jx ?dp (map snd ?ps) (pinfo mb) (bufs mb) = Some (F', B') \<and>
      in_step mb (bufs m) ?dp ?R ([] @ ?ps) [] ?R F' B')"
    by (rule parse_infos_in_step [OF inv idx R]) (use lens in blast)
  then obtain F' B' where
    f: "parse_room mb jx ?dp ys (pinfo mb) (bufs mb)" "parse_infos jx ?dp ys (pinfo mb) (bufs mb) = Some (F', B')"
      "in_step mb (bufs m) ?dp ?R ?ps [] ?R F' B'"
    using z by (metis append_Nil)
  have "pa_parse_protocol_data km vla' pb mb = Some (0, mb\<lparr>pinfo := F', bufs := B'\<rparr>)"
  proof -
    have "fields_ok mb (pa_list_head_p pb) ys" "pa_list_head_p pb \<noteq> NULL" "indexes vla' pb mb jx ys"
      using r by (simp_all add: receiver_ok_def)
    from parse_spec [OF this(1) refl this(2,3) f(1) n, of km] f(2) show ?thesis by simp
  qed
  moreover have "same_place (F' (info_of y)) (resolved ix xs m x) \<and> taken ?dp B' (F' (info_of y))"
    if "(x, y) \<in> set ?ps" for x y
    using f(3) that by (auto simp: in_step_def resolved_def)
  ultimately show ?thesis by blast
qed

section \<open>A sample format\<close>

text \<open>
  A length field \<open>n\<close>, a field \<open>d\<close> of \<open>n\<close> bytes with a buffer, and a byte \<open>s\<close> behind it, in a
  store that holds the index of the format with the entry for \<open>n\<close>.
\<close>

definition sample_key :: bytes where "sample_key = [110, 0, 0, 0, 0, 0, 0, 0, 0, 0]"

definition sample_map :: hash_map where
  "sample_map = hmap0\<lparr>hm_bucket_size := 10, hm_data_size := 14, hm_key_size := 10, hm_hlist := 0xC0000000,
     hm_begin := hash_map_pos_init 0xC0000100 0 0xC0000000 NULL,
     hm_end := hash_map_pos_init NULL 9 0xC0000000 NULL\<rparr>"

definition sample_n :: proto_info where
  "sample_n = zero_info\<lparr>pi_name := [110] @ replicate 19 0, pi_len := 1, len_unit := 8, pi_data := 5\<rparr>"

definition sample_d :: proto_info where
  "sample_d = zero_info\<lparr>byte_pos := 1, len_unit := 8, vlenth_index := [110] @ replicate 19 0,
     vlenth_flag := True, vlenth_flag_bak := True, buf_data_p := 0xC0000600, buf_len := 6\<rparr>"

definition sample_s :: proto_info where
  "sample_s = zero_info\<lparr>byte_pos := 1, pi_len := 1, len_unit := 8, pi_data := 0x7f\<rparr>"

definition sample_mem :: pmem where
  "sample_mem = \<lparr>blocks = [(0xC0000600, 8), (0xC0000500, 80), (0xC0000400, 80), (0xC0000300, 16),
       (0xC0000200, 80), (0xC0000100, 34), (0xC0000000, 40)],
     ticks = 0,
     lnext = (\<lambda>_. NULL)(0xC0000304 := 0xC0000244, 0xC0000244 := 0xC0000444, 0xC0000444 := 0xC0000544, 0xC0000544 := 0xC0000304),
     lprev = (\<lambda>_. NULL)(0xC0000304 := 0xC0000544, 0xC0000544 := 0xC0000444, 0xC0000444 := 0xC0000244, 0xC0000244 := 0xC0000304),
     hptr = (\<lambda>_. NULL)(0xC0000000 := 0xC0000100), hpprev = (\<lambda>_. NULL)(0xC0000100 := 0xC0000000),
     allocator_modules = [salloc, zero_module], ldata = (\<lambda>_. []),
     hn_value_pos = (\<lambda>_. 0)(0xC0000100 := 10), hn_data_size = (\<lambda>_. 0)(0xC0000100 := 14),
     hn_key = (\<lambda>_. [])(0xC0000100 := sample_key @ addr_bytes 0xC0000200),
     pinfo = (\<lambda>_. zero_info)(0xC0000200 := sample_n, 0xC0000400 := sample_d, 0xC0000500 := sample_s),
     hl_count = (\<lambda>_. 3), hl_allocator = (\<lambda>_. al0), bufs = (\<lambda>_. [])(0xC0000600 := [1, 2, 3, 4, 5, 6]), ptrs = (\<lambda>_. NULL)\<rparr>"

definition sample_list :: "addr list" where "sample_list = [0xC0000244, 0xC0000444, 0xC0000544]"

definition sample_pa :: analyzer where
  "sample_pa = \<lparr>pa_self = NULL, pfs_p = None, protocol_data = replicate 100 0, protocol_data_len = 0, protocol_num = 0,
     pf_list_head_p = NULL, pa_list_head_p = 0xC0000304, pa_allocator = al0, pa_hmap = Some sample_map\<rparr>"

definition sample_names :: "bytes \<Rightarrow> addr option" where
  "sample_names k = (if k = sample_key then Some 0xC0000200 else None)"

definition sample_chains :: "addr list list" where
  "sample_chains = [[0xC0000100], [], [], [], [], [], [], [], [], []]"

lemma all_less_ten: "(\<forall>i < 10. P i) = list_all P [0, Suc 0, 2, 3, 4, 5, 6, 7, 8, 9 :: nat]"
proof -
  have "[0, Suc 0, 2, 3, 4, 5, 6, 7, 8, 9] = [0 ..< 10]" by (simp add: upt_rec)
  then show ?thesis by (auto simp: list_all_iff)
qed

lemma sample_map_ok: "hmap_ok sample_map sample_mem sample_chains"
proof -
  have l: "length sample_chains = 10" by (simp add: sample_chains_def)
  have "chains_ok sample_map sample_mem sample_chains"
    unfolding chains_ok_def l all_less_ten
    by (simp add: sample_chains_def sample_map_def sample_mem_def hmap0_def head_of_def bucket_head_def
        sizeof_hlist_head_def sizeof_hlist_node_def sizeof_node_def sizeof_hash_map_node_def hlist_def
        valid_def node_ok_def default_hash_func_def sample_key_def hash_sum_take)
  then show ?thesis
    by (simp add: hmap_ok_def begin_ok_def sample_chains_def sample_map_def hmap0_def)
qed

lemma sample_env: "hmap_env bump sample_map sample_mem"
  by (simp add: hmap_env_def bump_ok sample_mem_def sample_map_def hmap0_def sys_registered_def
      blocks_ok_def disjoint_blocks_def good_block_def)

lemma sample_hash: "hash_ok sample_map"
  by (rule default_hash_ok) (simp_all add: sample_map_def hmap0_def)

lemma sample_index: "names bump sample_names sample_pa sample_mem"
proof -
  have "hmap_abs sample_map sample_mem sample_chains k = map_option addr_bytes (sample_names k)" for k
    by (auto simp: hmap_abs_def sample_chains_def node_key_def node_value_def sample_names_def sample_map_def
        sample_mem_def sample_key_def)
  then have "(\<lambda>k. map_option addr_bytes (sample_names k)) = hmap_abs sample_map sample_mem sample_chains" by (simp add: fun_eq_iff)
  moreover have "unat (hm_key_size sample_map) = 10" "hm_key_size sample_map = INDEX_KEY_SIZE"
    by (simp_all add: sample_map_def INDEX_KEY_SIZE_def)
  ultimately show ?thesis
    using sample_env sample_hash sample_map_ok by (auto simp: names_def hmap_repr_def sample_pa_def)
qed

abbreviation sample_ix :: "bytes \<Rightarrow> addr" where "sample_ix \<equiv> lookup sample_names (replicate 10 0)"

lemma sample_indexes: "indexes (replicate 10 0) sample_pa sample_mem sample_ix sample_list"
proof (rule names_indexes [OF sample_index])
  fix k a
  assume "sample_names k = Some a"
  then have "a = info_of 0xC0000244" by (simp add: sample_names_def info_of_def offset_info_list_def split: if_splits)
  then show "a \<in> info_of ` set sample_list" by (simp add: sample_list_def)
qed simp

lemma sample_infos:
  "pinfo sample_mem (info_of 0xC0000244) = sample_n" "pinfo sample_mem (info_of 0xC0000444) = sample_d"
  "pinfo sample_mem (info_of 0xC0000544) = sample_s"
  by (simp_all add: sample_mem_def info_of_def offset_info_list_def)

lemma sample_lookup: "sample_ix (cstr (vlenth_index sample_d)) = 0xC0000200"
  by (simp add: lookup_def sample_d_def zero_info_def cstr_def padded_def sample_names_def sample_key_def numeral_eq_Suc)

lemma sample_resolved:
  "resolved sample_ix sample_list sample_mem 0xC0000244 = sample_n"
  "resolved sample_ix sample_list sample_mem 0xC0000444 = sample_d\<lparr>pi_len := 5, vlenth_flag := False\<rparr>"
  "resolved sample_ix sample_list sample_mem 0xC0000544 = sample_s\<lparr>byte_pos := 6\<rparr>"
proof -
  let ?F = "pinfo sample_mem"
  have flags: "\<not> vlenth_flag sample_n" "vlenth_flag sample_d" "\<not> vlenth_flag sample_s"
    by (simp_all add: sample_n_def sample_d_def sample_s_def zero_info_def)
  define G where "G = resolve_infos sample_ix 0xC0000444 [0xC0000544] ?F"
  have "?F 0xC0000200 = sample_n" using sample_infos(1) by (simp add: info_of_def offset_info_list_def)
  then have d: "pi_data (?F 0xC0000200) = 5" by (simp add: sample_n_def)
  have G: "G (info_of 0xC0000244) = sample_n" "G (info_of 0xC0000444) = sample_d\<lparr>pi_len := 5, vlenth_flag := False\<rparr>"
    "G (info_of 0xC0000544) = sample_s\<lparr>byte_pos := 6\<rparr>"
    using sample_infos flags d
    by (simp_all add: G_def resolve_infos_def Let_def sample_lookup)
      (simp_all add: sample_d_def sample_s_def zero_info_def)
  have "resolve_from sample_ix sample_list ?F = G"
    using flags sample_infos G(3)
    by (simp add: sample_list_def resolve_infos_fixed G_def [symmetric])
  then show "resolved sample_ix sample_list sample_mem 0xC0000244 = sample_n"
    "resolved sample_ix sample_list sample_mem 0xC0000444 = sample_d\<lparr>pi_len := 5, vlenth_flag := False\<rparr>"
    "resolved sample_ix sample_list sample_mem 0xC0000544 = sample_s\<lparr>byte_pos := 6\<rparr>"
    using G by (simp_all add: resolved_def)
qed

lemma sample_sender: "sender_ok (replicate 10 0) sample_pa sample_mem sample_ix sample_list"
proof -
  let ?is = "[sample_n, sample_d\<lparr>pi_len := 5, vlenth_flag := False\<rparr>, sample_s\<lparr>byte_pos := 6\<rparr>]"
  have R: "map (resolved sample_ix sample_list sample_mem) sample_list = ?is"
    by (simp only: sample_list_def list.map sample_resolved [unfolded sample_list_def])
  have ok: "\<forall>i \<in> set ?is. field_ok sample_mem 100 i \<and> value_ok i"
    by (simp add: sample_n_def sample_d_def sample_s_def zero_info_def field_ok_def value_ok_def field_start_def
        field_bits_def wide_def sample_mem_def valid_def)
  have sep: "separate ?is"
    by (simp add: separate_def field_range_def field_start_def field_bits_def sample_n_def sample_d_def sample_s_def zero_info_def)
  have clr: "clear_for ?is (replicate 100 0)"
    by (simp add: clear_for_def sample_n_def sample_d_def sample_s_def zero_info_def)
  have "fields_ok sample_mem 0xC0000304 sample_list"
    by (simp add: fields_ok_def sample_list_def sample_mem_def dlist_def valid_def sizeof_list_head_def
        info_of_def offset_info_list_def sizeof_proto_info_def)
  moreover have "(\<forall>x \<in> set sample_list. field_ok sample_mem 100 (resolved sample_ix sample_list sample_mem x) \<and>
      value_ok (resolved sample_ix sample_list sample_mem x))"
    using ok unfolding R [symmetric] by simp
  ultimately show ?thesis
    using sep clr sample_indexes unfolding R [symmetric]
    by (simp add: sender_ok_def sample_pa_def sample_list_def)
qed

lemma sample_lengths: "lengths_first sample_ix sample_list (pinfo sample_mem)"
  unfolding lengths_first_def
proof (intro allI impI)
  fix us x ys
  assume xs: "sample_list = us @ x # ys" and f: "vlenth_flag (pinfo sample_mem (info_of x))"
  have "x \<in> set sample_list" using xs by (metis in_set_conv_decomp)
  then have x: "x = 0xC0000444"
    using f sample_infos by (auto simp: sample_list_def sample_n_def sample_s_def zero_info_def)
  have us: "us = [0xC0000244]"
    using xs unfolding x sample_list_def by (auto simp: Cons_eq_append_conv)
  have "resolve_from sample_ix sample_list (pinfo sample_mem) (info_of 0xC0000244) = sample_n"
    using sample_resolved(1) by (simp add: resolved_def)
  moreover have "length_field sample_n"
    by (simp add: length_field_def sample_n_def zero_info_def wide_def take_bit_eq_mod)
  moreover have "sample_ix (cstr (vlenth_index (pinfo sample_mem (info_of x)))) = info_of 0xC0000244"
    unfolding x sample_infos sample_lookup by (simp add: info_of_def offset_info_list_def)
  ultimately show "\<exists>u \<in> set us. sample_ix (cstr (vlenth_index (pinfo sample_mem (info_of x)))) = info_of u \<and>
      length_field (resolve_from sample_ix sample_list (pinfo sample_mem) (info_of u))"
    unfolding us by simp
qed

text \<open>The sample receives its own frames.\<close>

lemma same_index_refl:
  assumes "indexes vla pa m ix xs"
  shows "same_index ix ix (zip xs xs)"
  unfolding same_index_def zip_same_conv_map
proof
  fix key
  show "ix key = NULL \<and> ix key = NULL \<or> ix key \<noteq> NULL \<and> ix key \<noteq> NULL \<and>
    (\<exists>(x, y) \<in> set (map (\<lambda>x. (x, x)) xs). ix key = info_of x \<and> ix key = info_of y)"
    using assms unfolding indexes_def by (cases "ix key = NULL") auto
qed

lemma sample_receiver:
  "receiver_ok sample_ix sample_list sample_mem (replicate 10 0) sample_pa sample_mem sample_ix sample_list"
proof -
  have z: "zip sample_list sample_list = [(0xC0000244, 0xC0000244), (0xC0000444, 0xC0000444), (0xC0000544, 0xC0000544)]"
    by (simp add: sample_list_def)
  have w: "\<not> wide sample_n" "\<not> wide (sample_s\<lparr>byte_pos := 6\<rparr>)"
    by (simp_all add: wide_def sample_n_def sample_s_def zero_info_def)
  have al: "alike i i" for i by (simp add: alike_def same_place_def)
  have d: "buf_data_p sample_d \<noteq> NULL" "5 \<le> buf_len sample_d" "valid sample_mem (buf_data_p sample_d) (unat (5 :: u16))"
    by (simp_all add: sample_d_def sample_mem_def valid_def)
  have "fields_ok sample_mem (pa_list_head_p sample_pa) sample_list" "pa_list_head_p sample_pa \<noteq> NULL"
    using sample_sender by (simp_all add: sender_ok_def)
  moreover have "\<forall>(x, y) \<in> set (zip sample_list sample_list). alike (pinfo sample_mem (info_of x)) (pinfo sample_mem (info_of y)) \<and>
     (wide (resolved sample_ix sample_list sample_mem x) \<longrightarrow> buf_data_p (pinfo sample_mem (info_of y)) \<noteq> NULL \<and>
        pi_len (resolved sample_ix sample_list sample_mem x) \<le> buf_len (pinfo sample_mem (info_of y)) \<and>
        valid sample_mem (buf_data_p (pinfo sample_mem (info_of y))) (unat (pi_len (resolved sample_ix sample_list sample_mem x))))"
    unfolding z using w al d by (simp add: sample_resolved sample_infos)
  moreover have "\<forall>(x, y) \<in> set (zip sample_list sample_list). \<forall>(x', y') \<in> set (zip sample_list sample_list). y \<noteq> y' \<longrightarrow>
     wide (resolved sample_ix sample_list sample_mem x) \<longrightarrow> wide (resolved sample_ix sample_list sample_mem x') \<longrightarrow>
     buf_data_p (pinfo sample_mem (info_of y)) \<noteq> buf_data_p (pinfo sample_mem (info_of y'))"
    unfolding z using w by (simp add: sample_resolved)
  ultimately show ?thesis
    using sample_indexes same_index_refl [OF sample_indexes] unfolding receiver_ok_def by blast
qed

section \<open>Properties\<close>

text \<open>C3. \<open>pa_generate_protocol_data\<close> succeeds for a sender that is ready, and its frame carries the
  bits of every field at the place that the resolved lengths give it and is unchanged elsewhere;
  the fields it leaves behind are the resolved ones.\<close>

theorem generate_frame:
  assumes "sender_ok vla pa m ix xs"
  shows "\<exists>pa' m'. pa_generate_protocol_data vla pa m = Some (0, pa', m') \<and>
    length (protocol_data pa') = length (protocol_data pa) \<and>
    (\<forall>x \<in> set xs. carries (bufs m) (resolved ix xs m x) (protocol_data pa') \<and>
       pinfo m' (info_of x) = (resolved ix xs m x)\<lparr>vlenth_value_flag := vlenth_value_flag (pinfo m' (info_of x))\<rparr>) \<and>
    (\<forall>s < 8 * length (protocol_data pa). (\<forall>x \<in> set xs. s \<notin> field_range (resolved ix xs m x)) \<longrightarrow>
       frame_bit (protocol_data pa') s = frame_bit (protocol_data pa) s) \<and>
    protocol_data_len pa' = ucast (byte_pos (resolved ix xs m (last xs))) + pi_len (resolved ix xs m (last xs))"
proof -
  from generate_ok [OF assms] obtain dp G where g:
    "pa_generate_protocol_data vla pa m = Some (0, pa\<lparr>protocol_data := dp,
      protocol_data_len := ucast (byte_pos (resolved ix xs m (last xs))) + pi_len (resolved ix xs m (last xs))\<rparr>, m\<lparr>pinfo := G\<rparr>)"
    "marked (resolve_from ix xs (pinfo m)) G" "length dp = length (protocol_data pa)"
    "\<forall>x \<in> set xs. carries (bufs m) (resolved ix xs m x) dp"
    "\<forall>s < 8 * length dp. (\<forall>x \<in> set xs. s \<notin> field_range (resolved ix xs m x)) \<longrightarrow>
       frame_bit dp s = frame_bit (protocol_data pa) s"
    by blast
  have "G (info_of x) = (resolved ix xs m x)\<lparr>vlenth_value_flag := vlenth_value_flag (G (info_of x))\<rparr>" for x
    using g(2) by (auto simp: marked_def resolved_def)
  with g show ?thesis
    by (intro exI [of _ "pa\<lparr>protocol_data := dp, protocol_data_len :=
      ucast (byte_pos (resolved ix xs m (last xs))) + pi_len (resolved ix xs m (last xs))\<rparr>"] exI [of _ "m\<lparr>pinfo := G\<rparr>"])
      simp
qed

theorem generate_frame_witness:
  "\<exists>pa' m'. pa_generate_protocol_data (replicate 10 0) sample_pa sample_mem = Some (0, pa', m') \<and>
     protocol_data_len pa' = 7 \<and> carries (bufs sample_mem) (sample_s\<lparr>byte_pos := 6\<rparr>) (protocol_data pa')"
proof -
  from generate_frame [OF sample_sender] obtain pa' m' where g:
    "pa_generate_protocol_data (replicate 10 0) sample_pa sample_mem = Some (0, pa', m')"
    "\<forall>x \<in> set sample_list. carries (bufs sample_mem) (resolved sample_ix sample_list sample_mem x) (protocol_data pa')"
    "protocol_data_len pa' = ucast (byte_pos (resolved sample_ix sample_list sample_mem (last sample_list))) +
       pi_len (resolved sample_ix sample_list sample_mem (last sample_list))"
    by blast
  have l: "last sample_list = 0xC0000544" "0xC0000544 \<in> set sample_list" by (simp_all add: sample_list_def)
  have "protocol_data_len pa' = 7" using g(3) unfolding l(1) sample_resolved by (simp add: sample_s_def)
  with g(1,2) l(2) show ?thesis using sample_resolved(3) by metis
qed

text \<open>
  The value that a receiver has for a field of the frame \<open>dp\<close> that was sent as \<open>i\<close>: the bits of the
  value that have a place in the field, and for a bit field the bit of the frame above it.
\<close>

definition received_value :: "bytes \<Rightarrow> proto_info \<Rightarrow> u32" where
  "received_value dp i =
     (take_bit (field_bits i) (pi_data i) OR (if bit_above dp i then push_bit (field_bits i) 1 else 0))"

lemma received_value_read:
  assumes "carries B i dp" and "\<not> wide i" and "reads_value dp i v"
  shows "v = received_value dp i"
proof (rule bit_word_eqI)
  fix n
  assume n: "n < LENGTH(32)"
  let ?b = "field_bits i"
  have f: "frame_bit dp (field_start i + ?b - 1 - n) = bit (pi_data i) n" if "n < ?b"
  proof -
    have "?b - 1 - n < ?b" "field_start i + (?b - 1 - n) = field_start i + ?b - 1 - n" "?b - 1 - (?b - 1 - n) = n"
      using that by linarith+
    with assms(1,2) show ?thesis unfolding carries_def field_bit_def by metis
  qed
  have "bit v n = (n < ?b \<and> bit (pi_data i) n \<or> n = ?b \<and> bit_above dp i)"
    using assms(3) n f unfolding reads_value_def by auto
  then show "bit v n = bit (received_value dp i) n"
    using n by (auto simp: received_value_def bit_simps bit_1_iff)
qed

text \<open>C2. The round trip: a receiver with the sender's format, given the generated frame, reads every
  field at the sender's place and length, fields of variable length included. A field of bytes
  without a buffer gets the sender's value, cut to its length; a field of more than four bytes gets its
  length and the sender's bytes in its buffer; a bit field gets the sender's value with, above it, the
  bit of the frame next to the field, when that is in the same byte (the sender's bit values
  are taken to fit their fields).\<close>

theorem parse_inverts_generate:
  assumes "sender_ok vla pa m ix xs" and "lengths_first ix xs (pinfo m)"
    and "receiver_ok ix xs m vla' pb mb jx ys" and "n \<noteq> 0"
  shows "\<exists>pa' m' mb'. pa_generate_protocol_data vla pa m = Some (0, pa', m') \<and>
    pa_parse_protocol_data km vla' (pb\<lparr>protocol_data := protocol_data pa', protocol_data_len := n\<rparr>) mb = Some (0, mb') \<and>
    (\<forall>(x, y) \<in> set (zip xs ys). same_place (pinfo mb' (info_of y)) (resolved ix xs m x) \<and>
       (\<forall>k < field_bits (resolved ix xs m x).
          field_bit (bufs mb') (pinfo mb' (info_of y)) k = field_bit (bufs m) (resolved ix xs m x) k) \<and>
       (if wide (resolved ix xs m x) then buf_len (pinfo mb' (info_of y)) = pi_len (resolved ix xs m x)
        else pi_data (pinfo mb' (info_of y)) = received_value (protocol_data pa') (resolved ix xs m x)))"
proof -
  from generate_ok [OF assms(1)] obtain dp pa' m' where
    g: "pa_generate_protocol_data vla pa m = Some (0, pa', m')" "protocol_data pa' = dp" "length dp = length (protocol_data pa)"
      "\<And>x. x \<in> set xs \<Longrightarrow> carries (bufs m) (resolved ix xs m x) dp"
    by fastforce
  let ?pb = "pb\<lparr>protocol_data := dp, protocol_data_len := n\<rparr>"
  have "receiver_ok ix xs m vla' ?pb mb jx ys" using assms(3) by (simp add: receiver_ok_def)
  moreover have "\<And>x. x \<in> set xs \<Longrightarrow> carries (bufs m) (resolved ix xs m x) (protocol_data ?pb)"
    "length (protocol_data ?pb) = length (protocol_data pa)" "protocol_data_len ?pb \<noteq> 0"
    using g(3,4) assms(4) by simp_all
  ultimately obtain F' B' where
    f: "pa_parse_protocol_data km vla' ?pb mb = Some (0, mb\<lparr>pinfo := F', bufs := B'\<rparr>)" and
    fb: "\<forall>(x, y) \<in> set (zip xs ys). same_place (F' (info_of y)) (resolved ix xs m x) \<and> taken (protocol_data ?pb) B' (F' (info_of y))"
    using parse_ok [OF assms(1,2), of vla' ?pb mb jx ys km] by blast
  have "(\<forall>k < field_bits (resolved ix xs m x). field_bit B' (F' (info_of y)) k = field_bit (bufs m) (resolved ix xs m x) k) \<and>
      (if wide (resolved ix xs m x) then buf_len (F' (info_of y)) = pi_len (resolved ix xs m x)
       else pi_data (F' (info_of y)) = received_value dp (resolved ix xs m x))"
    if xy: "(x, y) \<in> set (zip xs ys)" for x y
  proof -
    have p: "same_place (F' (info_of y)) (resolved ix xs m x)" and k: "taken dp B' (F' (info_of y))"
      using fb xy by auto
    note c = g(4) [OF set_zip_leftD [OF xy]]
    have "carries B' (F' (info_of y)) dp" using k by (simp add: taken_def)
    with c same_placeD [OF p]
    have "\<forall>k < field_bits (resolved ix xs m x). field_bit B' (F' (info_of y)) k = field_bit (bufs m) (resolved ix xs m x) k"
      by (metis carries_def)
    moreover have "pi_len (F' (info_of y)) = pi_len (resolved ix xs m x)" using p by (simp add: same_place_def)
    ultimately show ?thesis
      using k received_value_read [OF c] reads_value_place [OF p] same_placeD(3) [OF p] by (auto simp: taken_def)
  qed
  with fb have "\<forall>(x, y) \<in> set (zip xs ys). same_place (F' (info_of y)) (resolved ix xs m x) \<and>
      (\<forall>k < field_bits (resolved ix xs m x). field_bit B' (F' (info_of y)) k = field_bit (bufs m) (resolved ix xs m x) k) \<and>
      (if wide (resolved ix xs m x) then buf_len (F' (info_of y)) = pi_len (resolved ix xs m x)
       else pi_data (F' (info_of y)) = received_value dp (resolved ix xs m x))" by blast
  moreover define mb' where "mb' = mb\<lparr>pinfo := F', bufs := B'\<rparr>"
  then have "pinfo mb' = F'" "bufs mb' = B'" by simp_all
  ultimately show ?thesis
    using f g(1) unfolding g(2) [symmetric] mb'_def [symmetric] by blast
qed

theorem parse_inverts_generate_witness:
  "\<exists>pa' m' mb'. pa_generate_protocol_data (replicate 10 0) sample_pa sample_mem = Some (0, pa', m') \<and>
     pa_parse_protocol_data bump (replicate 10 0) (sample_pa\<lparr>protocol_data := protocol_data pa', protocol_data_len := 7\<rparr>)
       sample_mem = Some (0, mb') \<and>
     same_place (pinfo mb' (info_of 0xC0000544)) (sample_s\<lparr>byte_pos := 6\<rparr>) \<and> pi_data (pinfo mb' (info_of 0xC0000544)) = 0x7f"
proof -
  have "(7 :: u16) \<noteq> 0" by simp
  from parse_inverts_generate [OF sample_sender sample_lengths sample_receiver this, of bump] obtain pa' m' mb' where
    g: "pa_generate_protocol_data (replicate 10 0) sample_pa sample_mem = Some (0, pa', m')"
      "pa_parse_protocol_data bump (replicate 10 0) (sample_pa\<lparr>protocol_data := protocol_data pa', protocol_data_len := 7\<rparr>)
         sample_mem = Some (0, mb')"
      "\<forall>(x, y) \<in> set (zip sample_list sample_list). same_place (pinfo mb' (info_of y)) (resolved sample_ix sample_list sample_mem x) \<and>
        (if wide (resolved sample_ix sample_list sample_mem x) then
           buf_len (pinfo mb' (info_of y)) = pi_len (resolved sample_ix sample_list sample_mem x)
         else pi_data (pinfo mb' (info_of y)) = received_value (protocol_data pa') (resolved sample_ix sample_list sample_mem x))"
    by blast
  have "(0xC0000544, 0xC0000544) \<in> set (zip sample_list sample_list)" by (simp add: sample_list_def)
  with g(3) have "same_place (pinfo mb' (info_of 0xC0000544)) (resolved sample_ix sample_list sample_mem 0xC0000544) \<and>
      (if wide (resolved sample_ix sample_list sample_mem 0xC0000544) then
         buf_len (pinfo mb' (info_of 0xC0000544)) = pi_len (resolved sample_ix sample_list sample_mem 0xC0000544)
       else pi_data (pinfo mb' (info_of 0xC0000544)) =
         received_value (protocol_data pa') (resolved sample_ix sample_list sample_mem 0xC0000544))" by blast
  then have "same_place (pinfo mb' (info_of 0xC0000544)) (sample_s\<lparr>byte_pos := 6\<rparr>) \<and>
      (if wide (sample_s\<lparr>byte_pos := 6\<rparr>) then buf_len (pinfo mb' (info_of 0xC0000544)) = pi_len (sample_s\<lparr>byte_pos := 6\<rparr>)
       else pi_data (pinfo mb' (info_of 0xC0000544)) = received_value (protocol_data pa') (sample_s\<lparr>byte_pos := 6\<rparr>))"
    unfolding sample_resolved .
  moreover have "\<not> wide (sample_s\<lparr>byte_pos := 6\<rparr>)" "\<And>dp. received_value dp (sample_s\<lparr>byte_pos := 6\<rparr>) = 0x7f"
    by (simp_all add: wide_def sample_s_def zero_info_def received_value_def bit_above_def field_bits_def take_bit_eq_mod)
  ultimately show ?thesis using g(1,2) by metis
qed

end
