(* ===== verification/Ownership.thy ===== *)
theory Ownership
  imports Protocol_Format
begin

text \<open>
  Frames for the whole store: which live blocks an operation may change. The format lists, the
  index and the task lists of the driver share one store; \<open>keeps A m m'\<close> says that every live
  block outside \<open>A\<close> survives the step from \<open>m\<close> to \<open>m'\<close> with its contents.
\<close>

section \<open>Contents of a block\<close>

definition same_cells :: "'z pmem_scheme \<Rightarrow> 'z pmem_scheme \<Rightarrow> addr \<Rightarrow> bool" where
  "same_cells m m' a =
     (lnext m' a = lnext m a \<and> lprev m' a = lprev m a \<and> hptr m' a = hptr m a \<and>
      hpprev m' a = hpprev m a \<and> ldata m' a = ldata m a \<and> hn_value_pos m' a = hn_value_pos m a \<and>
      hn_key m' a = hn_key m a \<and> pinfo m' a = pinfo m a \<and>
      hl_count m' a = hl_count m a \<and> hl_allocator m' a = hl_allocator m a \<and>
      bufs m' a = bufs m a \<and> ptrs m' a = ptrs m a)"

definition inside :: "addr \<times> nat \<Rightarrow> addr \<Rightarrow> bool" where
  "inside p a = (unat (fst p) \<le> unat a \<and> unat a < unat (fst p) + snd p)"

definition keeps :: "(addr \<times> nat) set \<Rightarrow> 'z pmem_scheme \<Rightarrow> 'z pmem_scheme \<Rightarrow> bool" where
  "keeps A m m' =
     (mem_ok m \<and> mem_ok m' \<and> allocator_modules m' = allocator_modules m \<and>
      (\<forall>p \<in> set (blocks m) - A. p \<in> set (blocks m') \<and> (\<forall>a. inside p a \<longrightarrow> same_cells m m' a)))"

lemma same_cells_refl [simp]: "same_cells m m a"
  by (simp add: same_cells_def)

lemma same_cells_trans: "same_cells m m1 a \<Longrightarrow> same_cells m1 m2 a \<Longrightarrow> same_cells m m2 a"
  by (simp add: same_cells_def)

lemma keeps_refl: "mem_ok m \<Longrightarrow> keeps A m m"
  by (simp add: keeps_def)

lemma keeps_mono: "keeps A m m' \<Longrightarrow> A \<inter> set (blocks m) \<subseteq> B \<Longrightarrow> keeps B m m'"
  unfolding keeps_def by blast

lemma keeps_trans:
  assumes "keeps A m m1" and "keeps B m1 m2" and "B \<inter> set (blocks m) \<subseteq> A"
  shows "keeps A m m2"
  unfolding keeps_def
proof (intro conjI ballI allI impI)
  fix p
  assume p: "p \<in> set (blocks m) - A"
  then have 1: "p \<in> set (blocks m1) - B" using assms(1,3) by (auto simp: keeps_def)
  then show "p \<in> set (blocks m2)" using assms(2) by (simp add: keeps_def)
  fix a
  assume a: "inside p a"
  have "same_cells m m1 a" using assms(1) p a by (simp add: keeps_def)
  moreover have "same_cells m1 m2 a" using assms(2) 1 a by (simp add: keeps_def)
  ultimately show "same_cells m m2 a" by (rule same_cells_trans)
qed (use assms in \<open>simp_all add: keeps_def\<close>)

lemma keeps_block: "keeps A m m' \<Longrightarrow> p \<in> set (blocks m) \<Longrightarrow> p \<notin> A \<Longrightarrow> p \<in> set (blocks m')"
  by (simp add: keeps_def)

lemma keeps_cells: "keeps A m m' \<Longrightarrow> p \<in> set (blocks m) \<Longrightarrow> p \<notin> A \<Longrightarrow> inside p a \<Longrightarrow> same_cells m m' a"
  by (simp add: keeps_def)

lemma keeps_ok: "keeps A m m' \<Longrightarrow> mem_ok m \<and> mem_ok m' \<and> sys_registered m' = sys_registered m"
  by (simp add: keeps_def sys_registered_def)

lemma inside_start: "0 < s \<Longrightarrow> inside (a, s) a"
  by (simp add: inside_def)

lemma valid_inside: "p \<in> set (blocks m) \<Longrightarrow> inside p a \<Longrightarrow> unat a + n \<le> unat (fst p) + snd p \<Longrightarrow> valid m a n"
  unfolding inside_def valid_iff by (metis prod.collapse)

lemma inside_disjoint:
  assumes "mem_ok m" and "p \<in> set (blocks m)" and "q \<in> set (blocks m)" and "inside p a" and "inside q a"
  shows "p = q"
proof -
  obtain b s c t where "p = (b, s)" "q = (c, t)" by fastforce
  with blocks_ok_overlap [of "blocks m" b s c t "unat a"] assms show ?thesis by (simp add: inside_def)
qed

lemma blocks_ok_new: "blocks_ok (p # bs) \<Longrightarrow> p \<notin> set bs"
proof
  assume "blocks_ok (p # bs)" and "p \<in> set bs"
  then have "disjoint_blocks p p" and "good_block p" by (auto simp: blocks_ok_Cons)
  then show False by (simp add: disjoint_blocks_def good_block_def)
qed

text \<open>A step that changes cells of one live block only, and no block.\<close>

lemma keeps_local:
  assumes "mem_ok m" and "blocks m' = blocks m" and "allocator_modules m' = allocator_modules m"
    and "A \<subseteq> set (blocks m)"
    and "\<And>a. (\<And>p. p \<in> A \<Longrightarrow> \<not> inside p a) \<Longrightarrow> same_cells m m' a"
  shows "keeps A m m'"
  unfolding keeps_def
proof (intro conjI ballI allI impI)
  fix p a
  assume "p \<in> set (blocks m) - A" and "inside p a"
  with assms(1,4) inside_disjoint show "same_cells m m' a"
    by (intro assms(5)) blast
qed (use assms in simp_all)

lemma keeps_kmalloc:
  assumes "kmalloc_ok km" and "mem_ok m" and "kmalloc km n m = (a, m')" and "0 < n"
  shows "keeps A m m'"
  using assms kmalloc_mem_ok [OF assms(1,2,4,3)]
  by (auto simp: keeps_def kmalloc_def Let_def same_cells_def split: if_splits)

lemma keeps_kfree:
  assumes "mem_ok m" and "kfree a m = Some m'" and "(a, s) \<in> set (blocks m)" and "(a, s) \<in> A"
  shows "keeps A m m'"
proof -
  have "p \<in> set (blocks m')" if p: "p \<in> set (blocks m) - A" for p
  proof -
    obtain b t where bt: "p = (b, t)" by fastforce
    have "b \<noteq> a" using p bt mem_ok_same_start [OF assms(1,3), of t] assms(4) by auto
    with p bt assms(2) show ?thesis by (auto simp: kfree_def split: if_splits)
  qed
  moreover have "same_cells m m' b" "allocator_modules m' = allocator_modules m" for b
    using assms(2) by (auto simp: kfree_def same_cells_def split: if_splits)
  ultimately show ?thesis
    using assms(1) kfree_mem_ok [OF assms(1,2)] by (simp add: keeps_def)
qed

lemma keeps_only_links:
  assumes "mem_ok m" and "only_links L m m'" and "A \<subseteq> set (blocks m)"
    and "\<And>a. a \<in> L \<Longrightarrow> \<exists>p \<in> A. inside p a"
  shows "keeps A m (m' :: 'z pmem_scheme)"
proof (rule keeps_local [OF assms(1) _ _ assms(3)])
  obtain f g where e: "m' = m\<lparr>lnext := f, lprev := g\<rparr>" "\<And>a. a \<notin> L \<Longrightarrow> f a = lnext m a \<and> g a = lprev m a"
    using assms(2) unfolding only_links_def by blast
  then show "blocks m' = blocks m" "allocator_modules m' = allocator_modules m" by simp_all
  fix a
  assume "\<And>p. p \<in> A \<Longrightarrow> \<not> inside p a"
  with assms(4) have "a \<notin> L" by blast
  with e show "same_cells m m' a" by (simp add: same_cells_def)
qed

text \<open>Updates of one structure.\<close>

lemma keeps_cell_update:
  assumes "mem_ok m" and "p \<in> set (blocks m)" and "inside p a"
  shows "keeps {p} m (m\<lparr>pinfo := (pinfo m)(a := i)\<rparr>)"
    and "keeps {p} m (m\<lparr>hl_count := (hl_count m)(a := c)\<rparr>)"
    and "keeps {p} m (m\<lparr>hl_allocator := (hl_allocator m)(a := al)\<rparr>)"
    and "keeps {p} m (m\<lparr>bufs := (bufs m)(a := d)\<rparr>)"
    and "keeps {p} m (m\<lparr>ptrs := (ptrs m)(a := v)\<rparr>)"
  by (rule keeps_local [OF assms(1)]; use assms in \<open>auto simp: same_cells_def\<close>)+

end
