(* ===== verification/Format_List.thy ===== *)
theory Format_List
  imports Ownership Frame_Generate
begin

text \<open>
  The lists of field descriptions as sequences: \<open>flist m hl ps\<close> says that the list behind the
  head \<open>hl\<close> holds the fields at the addresses \<open>ps\<close>. Creating a list, appending a field and
  releasing the list are specified over it, with the blocks each operation owns.
\<close>

section \<open>The abstraction\<close>

abbreviation node_of :: "addr \<Rightarrow> addr" where
  "node_of p \<equiv> p + offset_info_list"

definition flist :: "'z pmem_scheme \<Rightarrow> addr \<Rightarrow> addr list \<Rightarrow> bool" where
  "flist m hl ps =
     (dlist m hl (map node_of ps) \<and>
      (head_base hl, sizeof_proto_head) \<in> set (blocks m) \<and>
      (\<forall>p \<in> set ps. (p, sizeof_proto_info) \<in> set (blocks m)) \<and>
      sys_allocator (hl_allocator m (head_base hl)))"

definition owned :: "addr \<Rightarrow> addr list \<Rightarrow> (addr \<times> nat) set" where
  "owned hl ps = insert (head_base hl, sizeof_proto_head) ((\<lambda>p. (p, sizeof_proto_info)) ` set ps)"

definition infos :: "'z pmem_scheme \<Rightarrow> addr list \<Rightarrow> proto_info list" where
  "infos m ps = map (pinfo m) ps"

lemma info_of_node_of [simp]: "info_of (node_of p) = p"
  by (simp add: info_of_def)

lemma head_base_plus [simp]: "head_base (h + offset_head_list) = h"
  by (simp add: head_base_def)

lemma plus_head_base [simp]: "head_base hl + offset_head_list = hl"
  by (simp add: head_base_def)

lemma block_offset:
  assumes "mem_ok m" and "(p, n) \<in> set (blocks m)" and "unat d < n"
  shows "unat (p + d) = unat p + unat d" and "inside (p, n) (p + d)"
proof -
  have "unat p + n \<le> 2 ^ 32" using blocks_ok_good [OF assms(1,2)] by (simp add: good_block_def)
  then show "unat (p + d) = unat p + unat d" using assms(3) by (simp add: unat_word_ariths)
  with assms(3) show "inside (p, n) (p + d)" by (simp add: inside_def)
qed

lemma node_inside:
  assumes "mem_ok m" and "(p, sizeof_proto_info) \<in> set (blocks m)"
  shows "inside (p, sizeof_proto_info) (node_of p)" and "inside (p, sizeof_proto_info) p"
    and "valid m (node_of p) sizeof_list_head" and "valid m p sizeof_proto_info" and "p \<noteq> NULL"
proof -
  have u: "unat offset_info_list = 68" "unat offset_info_list < sizeof_proto_info"
    by (simp_all add: offset_info_list_def sizeof_proto_info_def)
  note o = block_offset [OF assms u(2)]
  show "inside (p, sizeof_proto_info) (node_of p)" by (rule o)
  show "inside (p, sizeof_proto_info) p" by (rule inside_start) (simp add: sizeof_proto_info_def)
  show "valid m (node_of p) sizeof_list_head"
    by (rule valid_inside [OF assms(2) o(2)])
      (simp add: o(1) u(1) sizeof_list_head_def sizeof_proto_info_def)
  show "valid m p sizeof_proto_info" by (rule valid_block [OF assms(2)]) simp
  show "p \<noteq> NULL" using blocks_ok_good [OF assms] by (simp add: good_block_def)
qed

lemma head_inside:
  assumes "mem_ok m" and "(head_base hl, sizeof_proto_head) \<in> set (blocks m)"
  shows "inside (head_base hl, sizeof_proto_head) hl" and "inside (head_base hl, sizeof_proto_head) (head_base hl)"
    and "valid m hl sizeof_list_head" and "valid m (head_base hl) sizeof_proto_head"
    and "head_base hl \<noteq> NULL" and "hl \<noteq> NULL"
proof -
  have u: "unat offset_head_list = 4" "unat offset_head_list < sizeof_proto_head"
    by (simp_all add: offset_head_list_def sizeof_proto_head_def)
  note o = block_offset [OF assms u(2), simplified]
  show i: "inside (head_base hl, sizeof_proto_head) hl" by (rule o)
  show "inside (head_base hl, sizeof_proto_head) (head_base hl)"
    by (rule inside_start) (simp add: sizeof_proto_head_def)
  show "valid m hl sizeof_list_head"
    by (rule valid_inside [OF assms(2) i]) (simp add: o(1) u(1) sizeof_list_head_def sizeof_proto_head_def)
  show "valid m (head_base hl) sizeof_proto_head" by (rule valid_block [OF assms(2)]) simp
  show "head_base hl \<noteq> NULL" using blocks_ok_good [OF assms] by (simp add: good_block_def)
  show "hl \<noteq> NULL" using o(1) u(1) by auto
qed

lemma flist_owned: "flist m hl ps \<Longrightarrow> owned hl ps \<subseteq> set (blocks m)"
  by (auto simp: flist_def owned_def)

lemma flist_distinct: "flist m hl ps \<Longrightarrow> distinct ps \<and> hl \<notin> set (map node_of ps)"
  by (auto simp: flist_def dlist_def distinct_map)

lemma flist_fields_ok: "mem_ok m \<Longrightarrow> flist m hl ps \<Longrightarrow> fields_ok m hl (map node_of ps)"
  by (auto simp: flist_def fields_ok_def node_inside)

lemma flist_infos [simp]:
  "flist (m\<lparr>pinfo := F\<rparr>) hl ps = flist m hl ps"
  "flist (m\<lparr>bufs := B\<rparr>) hl ps = flist m hl ps"
  by (simp_all add: flist_def)

text \<open>The list survives, with its fields, whatever keeps its blocks.\<close>

lemma flist_keeps:
  assumes "keeps A m m'" and "flist m hl ps" and "A \<inter> owned hl ps = {}"
  shows "flist m' hl ps" and "p \<in> set ps \<Longrightarrow> pinfo m' p = pinfo m p" and "infos m' ps = infos m ps"
    and "hl_count m' (head_base hl) = hl_count m (head_base hl)"
proof -
  have mo: "mem_ok m" "mem_ok m'" using keeps_ok [OF assms(1)] by auto
  have hb: "(head_base hl, sizeof_proto_head) \<in> set (blocks m)" "(head_base hl, sizeof_proto_head) \<notin> A"
    using assms(2,3) by (auto simp: flist_def owned_def)
  have pb: "(p, sizeof_proto_info) \<in> set (blocks m)" "(p, sizeof_proto_info) \<notin> A" if "p \<in> set ps" for p
    using assms(2,3) that by (auto simp: flist_def owned_def)
  note hb' = keeps_block [OF assms(1) hb] and pb' = keeps_block [OF assms(1) pb]
  have hc: "same_cells m m' hl" "same_cells m m' (head_base hl)"
    using keeps_cells [OF assms(1) hb] head_inside [OF mo(1) hb(1)] by blast+
  have pc: "same_cells m m' (node_of p)" "same_cells m m' p" if "p \<in> set ps" for p
    using keeps_cells [OF assms(1) pb [OF that]] node_inside [OF mo(1) pb(1) [OF that]] by blast+
  have "links m' (hl # map node_of ps @ [hl])"
  proof (rule links_cong)
    show "links m (hl # map node_of ps @ [hl])" using assms(2) by (simp add: flist_def dlist_def)
    show "valid m' a sizeof_list_head" if "a \<in> set (hl # map node_of ps @ [hl])" for a
      using that head_inside [OF mo(2) hb'] node_inside [OF mo(2) pb'] by auto
    show "lnext m' a = lnext m a" if "a \<in> set (butlast (hl # map node_of ps @ [hl]))" for a
      using that hc pc by (auto simp: same_cells_def butlast_append)
    show "lprev m' a = lprev m a" if "a \<in> set (tl (hl # map node_of ps @ [hl]))" for a
      using that hc pc by (auto simp: same_cells_def)
  qed
  then show "flist m' hl ps"
    using assms(2) hb' pb' hc by (auto simp: flist_def dlist_def same_cells_def)
  show i: "p \<in> set ps \<Longrightarrow> pinfo m' p = pinfo m p" for p using pc by (simp add: same_cells_def)
  show "infos m' ps = infos m ps" using i by (simp add: infos_def)
  show "hl_count m' (head_base hl) = hl_count m (head_base hl)" using hc by (simp add: same_cells_def)
qed

section \<open>Creating a list\<close>

lemma pfs_create_head_list_spec:
  assumes "sys_registered m" and "sys_allocator al" and "kmalloc_ok km" and "mem_ok m"
    and a: "kmalloc km sizeof_proto_head m = (h, m1)" "h \<noteq> NULL"
  shows "\<exists>m2 m3. pfs_create_head_list km al m = Some (h + offset_head_list, m2) \<and>
    pfs_init_head_list (h + offset_head_list) m2 = Some m3 \<and> flist m3 (h + offset_head_list) [] \<and>
    hl_count m3 h = 0 \<and> hl_allocator m3 h = al \<and> keeps {} m m3 \<and>
    (h, sizeof_proto_head) \<notin> set (blocks m) \<and> blocks m3 = (h, sizeof_proto_head) # blocks m \<and>
    ticks m3 = Suc (ticks m)"
proof -
  let ?hl = "h + offset_head_list" and ?b = "(h, sizeof_proto_head)"
  have n: "0 < sizeof_proto_head" by (simp add: sizeof_proto_head_def)
  have mo1: "mem_ok m1" by (rule kmalloc_mem_ok [OF assms(3,4) n a(1)])
  have b1: "blocks m1 = ?b # blocks m" "ticks m1 = Suc (ticks m)" using kmalloc_some [OF a] by simp_all
  have new: "?b \<notin> set (blocks m)"
    using mo1 b1 blocks_ok_new by metis
  let ?m2 = "m1\<lparr>hl_allocator := (hl_allocator m1)(h := al)\<rparr>"
  let ?m3 = "?m2\<lparr>hl_count := (hl_count m1)(h := 0)\<rparr>"
  have hb: "(head_base ?hl, sizeof_proto_head) \<in> set (blocks m1)" using b1 by simp
  note v = head_inside [OF mo1 hb, simplified]
  have u: "unat (word_of_nat sizeof_proto_head :: u32) = sizeof_proto_head" by (simp add: sizeof_proto_head_def)
  have c: "pfs_create_head_list km al m = Some (?hl, ?m2)"
    using a assms(1,2) v(4) u by (simp add: pfs_create_head_list_def paccess_defs)
  have "valid ?m3 ?hl sizeof_list_head" using v(3) by simp
  from INIT_LIST_HEAD_spec [OF this] obtain m4 where
    i: "INIT_LIST_HEAD ?hl ?m3 = Some m4" "dlist m4 ?hl []" "only_links {?hl} ?m3 m4" by blast
  have mb: "blocks m4 = ?b # blocks m" using only_links_fields(1) [OF i(3)] b1 by simp
  have me: "pmem.hl_count m4 h = 0" "hl_allocator m4 h = al" "ticks m4 = Suc (ticks m)"
    using i(3) b1(2) by (auto simp: only_links_def)
  have t: "pfs_init_head_list ?hl ?m2 = Some m4"
    using i(1) v(4) by (simp add: pfs_init_head_list_def paccess_defs)
  have fl: "flist m4 ?hl []" using i(2) mb me assms(2) by (simp add: flist_def)
  have "keeps {?b} m m1" by (rule keeps_kmalloc [OF assms(3,4) a(1) n])
  moreover have "keeps {?b} m1 ?m2" by (rule keeps_cell_update) (use mo1 b1 v(2) in simp_all)
  ultimately have k2: "keeps {?b} m ?m2" by (rule keeps_trans) simp
  have "keeps {?b} ?m2 (?m2\<lparr>hl_count := (hl_count ?m2)(h := 0)\<rparr>)"
    by (rule keeps_cell_update) (use mo1 b1 v(2) in simp_all)
  then have "keeps {?b} ?m2 ?m3" by simp
  with k2 have k3: "keeps {?b} m ?m3" by (rule keeps_trans) simp
  have "keeps {?b} ?m3 m4"
    by (rule keeps_only_links [OF _ i(3)]) (use mo1 b1 v(1) in auto)
  with k3 have "keeps {?b} m m4" by (rule keeps_trans) simp
  then have "keeps {} m m4" by (rule keeps_mono) (use new in auto)
  with c t fl me new mb show ?thesis by blast
qed

section \<open>Appending a field\<close>

lemma head_not_node:
  assumes "mem_ok m" and "(head_base hl, sizeof_proto_head) \<in> set (blocks m)"
    and "(p, sizeof_proto_info) \<in> set (blocks m)"
  shows "node_of p \<noteq> hl"
proof
  assume "node_of p = hl"
  with inside_disjoint [OF assms head_inside(1) [OF assms(1,2)]] node_inside(1) [OF assms(1,3)]
  show False by (simp add: sizeof_proto_head_def sizeof_proto_info_def)
qed

lemma pfs_add_list_spec:
  assumes mo: "mem_ok m" and fl: "flist m hl ps" and p: "(p, sizeof_proto_info) \<in> set (blocks m)" "p \<notin> set ps"
  shows "\<exists>m'. pfs_add_list (node_of p) hl m = Some m' \<and> flist m' hl (ps @ [p]) \<and> pinfo m' = pinfo m \<and>
    hl_count m' (head_base hl) = hl_count m (head_base hl) + 1 \<and> hl_allocator m' = hl_allocator m \<and>
    blocks m' = blocks m \<and> ticks m' = ticks m \<and> keeps (insert (p, sizeof_proto_info) (owned hl ps)) m m'"
proof -
  let ?O = "insert (p, sizeof_proto_info) (owned hl ps)"
  have hb: "(head_base hl, sizeof_proto_head) \<in> set (blocks m)"
    and pb: "\<And>q. q \<in> set ps \<Longrightarrow> (q, sizeof_proto_info) \<in> set (blocks m)"
    and dl: "dlist m hl (map node_of ps @ [])"
    using fl by (auto simp: flist_def)
  have "node_of p \<notin> set (hl # map node_of ps @ [])"
    using head_not_node [OF mo hb p(1)] p(2) by auto
  from list_add_tail_spec [OF dl _ node_inside(3) [OF mo p(1)] this, of hl] obtain m1 where
    m1: "list_add_tail (node_of p) hl m = Some m1" "dlist m1 hl (map node_of (ps @ [p]))"
      "only_links (set (node_of p # hl # map node_of ps)) m m1" by auto
  let ?m2 = "m1\<lparr>hl_count := (hl_count m1)(head_base hl := hl_count m1 (head_base hl) + 1)\<rparr>"
  have e: "pinfo m1 = pinfo m" "hl_count m1 = hl_count m" "hl_allocator m1 = hl_allocator m" "blocks m1 = blocks m"
    "ticks m1 = ticks m"
    using m1(3) by (auto simp: only_links_def)
  have mo1: "mem_ok m1" using mo e(4) by simp
  have hb1: "(head_base hl, sizeof_proto_head) \<in> set (blocks m1)" using hb e(4) by simp
  have "pfs_add_list (node_of p) hl m = Some ?m2"
    using m1(1) head_inside(4) [OF mo1 hb1] by (simp add: pfs_add_list_def paccess_defs)
  moreover have "flist ?m2 hl (ps @ [p])" using m1(2) fl p(1) e by (simp add: flist_def)
  moreover have "keeps ?O m m1"
  proof (rule keeps_only_links [OF mo m1(3)])
    show "?O \<subseteq> set (blocks m)" using flist_owned [OF fl] p(1) by simp
    fix a
    assume "a \<in> set (node_of p # hl # map node_of ps)"
    then show "\<exists>b \<in> ?O. inside b a"
      using head_inside(1) [OF mo hb] node_inside(1) [OF mo p(1)] node_inside(1) [OF mo pb]
      by (auto simp: owned_def)
  qed
  moreover have "keeps ?O m1 ?m2"
    by (rule keeps_mono [OF keeps_cell_update(2) [OF mo1 hb1 head_inside(2) [OF mo1 hb1]]])
      (auto simp: owned_def)
  ultimately show ?thesis using e by (auto elim: keeps_trans)
qed

text \<open>What the six attributes of a configuration entry make of a zeroed description.\<close>

definition entry_info :: "bytes option list \<Rightarrow> proto_info option" where
  "entry_info vs = foldM (\<lambda>(n, v). set_proto_info_attribs n v)
     (zip [chars ''name'', chars ''byte_pos'', chars ''bit_pos'', chars ''len'', chars ''len_unit'', chars ''vlenth_index''] vs)
     zero_info"

lemma pfs_set_proto_info_spec:
  assumes reg: "sys_registered m" and km: "kmalloc_ok km" and mo: "mem_ok m" and fl: "flist m hl ps"
    and e: "entry_info [nv, bv, tv, lv, uv, vv] = Some i"
    and a: "kmalloc km sizeof_proto_info m = (p, m1)" "p \<noteq> NULL"
  shows "\<exists>m'. pfs_set_proto_info km (chars ''name'') nv (chars ''byte_pos'') bv (chars ''bit_pos'') tv
      (chars ''len'') lv (chars ''len_unit'') uv (chars ''vlenth_index'') vv hl m = Some (p, m') \<and>
    flist m' hl (ps @ [p]) \<and> infos m' (ps @ [p]) = infos m ps @ [i] \<and>
    hl_count m' (head_base hl) = hl_count m (head_base hl) + 1 \<and>
    hl_allocator m' (head_base hl) = hl_allocator m (head_base hl) \<and>
    blocks m' = (p, sizeof_proto_info) # blocks m \<and> ticks m' = Suc (ticks m) \<and>
    (p, sizeof_proto_info) \<notin> set (blocks m) \<and>
    keeps (owned hl ps) m m'"
proof -
  let ?b = "(p, sizeof_proto_info)"
  have hb: "(head_base hl, sizeof_proto_head) \<in> set (blocks m)" and al: "sys_allocator (hl_allocator m (head_base hl))"
    using fl by (auto simp: flist_def)
  have n: "0 < sizeof_proto_info" by (simp add: sizeof_proto_info_def)
  have b1: "blocks m1 = ?b # blocks m" "pinfo m1 = pinfo m" "hl_count m1 = hl_count m" "hl_allocator m1 = hl_allocator m"
    "ticks m1 = Suc (ticks m)"
    using kmalloc_some [OF a] by simp_all
  have mo1: "mem_ok m1" by (rule kmalloc_mem_ok [OF km mo n a(1)])
  then have new: "?b \<notin> set (blocks m)" using b1 blocks_ok_new by metis
  then have np: "p \<notin> set ps" using fl by (auto simp: flist_def)
  have pb: "?b \<in> set (blocks m1)" using b1 by simp
  note v = node_inside [OF mo1 pb]
  have k1: "keeps (owned hl ps) m m1" by (rule keeps_kmalloc [OF km mo a(1) n])
  have k1': "keeps {} m m1" by (rule keeps_kmalloc [OF km mo a(1) n])
  let ?m2 = "m1\<lparr>pinfo := (pinfo m1)(p := i)\<rparr>"
  have k2: "keeps {?b} m1 ?m2" by (rule keeps_cell_update [OF mo1 pb v(2)])
  have fl2: "flist ?m2 hl ps" using flist_keeps(1) [OF k1' fl] by simp
  have "mem_ok ?m2" "?b \<in> set (blocks ?m2)" using mo1 pb by simp_all
  from pfs_add_list_spec [OF this(1) fl2 this(2) np] obtain m3 where
    m3: "pfs_add_list (node_of p) hl ?m2 = Some m3" "flist m3 hl (ps @ [p])" "pinfo m3 = pinfo ?m2"
      "hl_count m3 (head_base hl) = hl_count ?m2 (head_base hl) + 1" "hl_allocator m3 = hl_allocator ?m2"
      "blocks m3 = blocks ?m2" "ticks m3 = ticks ?m2" "keeps (insert ?b (owned hl ps)) ?m2 m3" by blast
  have u: "unat (word_of_nat sizeof_proto_info :: u32) = sizeof_proto_info" by (simp add: sizeof_proto_info_def)
  have "pfs_set_proto_info km (chars ''name'') nv (chars ''byte_pos'') bv (chars ''bit_pos'') tv
      (chars ''len'') lv (chars ''len_unit'') uv (chars ''vlenth_index'') vv hl m = Some (p, m3)"
    using e m3(1) a al reg head_inside(4) [OF mo hb] v(4) u
    by (auto simp: pfs_set_proto_info_def entry_info_def paccess_defs bind_eq_Some_conv)
  moreover have "infos m3 (ps @ [p]) = infos m ps @ [i]"
    using m3(3) b1(2) np by (auto simp: infos_def)
  moreover have "keeps (owned hl ps) m m3"
  proof -
    have "keeps (insert ?b (owned hl ps)) m ?m2"
      by (rule keeps_trans [OF _ k2]) (use keeps_mono [OF k1] in auto)
    then have "keeps (insert ?b (owned hl ps)) m m3" by (rule keeps_trans [OF _ m3(8)]) auto
    then show ?thesis by (rule keeps_mono) (use new in auto)
  qed
  ultimately show ?thesis using m3(2,4-7) b1 new by auto
qed

section \<open>Releasing a list\<close>

text \<open>The blocks that a field holds: its own and, when there is one, its buffer.\<close>

definition held :: "'z pmem_scheme \<Rightarrow> addr \<Rightarrow> addr list" where
  "held m p = p # (if 0 < buf_len (pinfo m p) then [buf_data_p (pinfo m p)] else [])"

definition all_held :: "'z pmem_scheme \<Rightarrow> addr \<Rightarrow> addr list \<Rightarrow> addr list" where
  "all_held m hl ps = head_base hl # concat (map (held m) ps)"

definition held_ok :: "'z pmem_scheme \<Rightarrow> addr \<Rightarrow> addr list \<Rightarrow> bool" where
  "held_ok m hl ps = (distinct (all_held m hl ps) \<and> (\<forall>a \<in> set (all_held m hl ps). \<exists>s. (a, s) \<in> set (blocks m)))"

abbreviation without :: "addr set \<Rightarrow> (addr \<times> nat) list \<Rightarrow> (addr \<times> nat) list" where
  "without A bs \<equiv> filter (\<lambda>(b, s). b \<notin> A) bs"

lemma without_without: "without A (without B bs) = without (B \<union> A) bs"
  by (simp add: conj_commute case_prod_unfold)

lemma without_cong: "A = B \<Longrightarrow> without A bs = without B bs"
  by simp

lemma without_empty: "without {} bs = bs"
  by (simp add: case_prod_unfold)

lemma kfree_without: "a \<noteq> NULL \<Longrightarrow> kfree a m = Some m' \<Longrightarrow> m' = m\<lparr>blocks := without {a} (blocks m)\<rparr>"
  by (simp add: kfree_Some_iff case_prod_unfold)

lemma kfree_held:
  assumes "mem_ok m" and "(a, s) \<in> set (blocks m)"
  shows "kfree a m = Some (m\<lparr>blocks := without {a} (blocks m)\<rparr>)" and "a \<noteq> NULL"
proof -
  show "a \<noteq> NULL" using blocks_ok_good [OF assms] by (simp add: good_block_def)
  with kfree_block [OF assms(2)] kfree_without show "kfree a m = Some (m\<lparr>blocks := without {a} (blocks m)\<rparr>)"
    by blast
qed

lemma keeps_without:
  assumes "mem_ok m" and "{p \<in> set (blocks m). fst p \<in> A} \<subseteq> B"
  shows "keeps B m (m\<lparr>blocks := without A (blocks m)\<rparr>)"
proof -
  have "mem_ok (m\<lparr>blocks := without A (blocks m)\<rparr>)" using assms(1) blocks_ok_filter by simp
  then show ?thesis using assms by (auto simp: keeps_def same_cells_def)
qed

lemma flist_without:
  assumes "mem_ok m" and "flist m hl ps" and "head_base hl \<notin> A" and "set ps \<inter> A = {}"
  shows "flist (m\<lparr>blocks := without A (blocks m)\<rparr>) hl ps"
  by (rule flist_keeps(1) [OF keeps_without [OF assms(1) order_refl] assms(2)])
    (use assms(3,4) in \<open>auto simp: owned_def\<close>)

text \<open>The first half of a deletion: the field is unlinked and the count is lowered.\<close>

lemma unlink_field:
  assumes mo: "mem_ok m" and fl: "flist m hl (us @ p # vs)"
  shows "\<exists>m1. list_del (node_of p) m = Some m1 \<and>
    only_links (set (hl # map node_of us @ node_of p # map node_of vs)) m m1 \<and>
    flist (m1\<lparr>hl_count := (hl_count m1)(head_base hl := hl_count m1 (head_base hl) - 1)\<rparr>) hl (us @ vs) \<and>
    keeps {b \<in> set (blocks m). fst b \<in> set (all_held m hl (us @ p # vs))} m
      (m1\<lparr>hl_count := (hl_count m1)(head_base hl := hl_count m1 (head_base hl) - 1)\<rparr>)"
proof -
  let ?ps = "us @ p # vs" and ?hb = "head_base hl"
  let ?A = "{b \<in> set (blocks m). fst b \<in> set (all_held m hl (us @ p # vs))}"
  have hb: "(?hb, sizeof_proto_head) \<in> set (blocks m)"
    and pb: "\<And>q. q \<in> set ?ps \<Longrightarrow> (q, sizeof_proto_info) \<in> set (blocks m)"
    and dl: "dlist m hl (map node_of us @ node_of p # map node_of vs)"
    using fl by (auto simp: flist_def)
  have oA: "owned hl ?ps \<subseteq> ?A"
    using flist_owned [OF fl] by (auto simp: owned_def all_held_def held_def)
  from list_del_spec [OF dl] obtain m1 where
    m1: "list_del (node_of p) m = Some m1" "dlist m1 hl (map node_of (us @ vs))"
      "only_links (set (hl # map node_of us @ node_of p # map node_of vs)) m m1" by auto
  have e: "pinfo m1 = pinfo m" "hl_count m1 = hl_count m" "hl_allocator m1 = hl_allocator m" "blocks m1 = blocks m"
    "allocator_modules m1 = allocator_modules m"
    using m1(3) by (auto simp: only_links_def)
  have mo1: "mem_ok m1" using mo e(4) by simp
  have hb1: "(?hb, sizeof_proto_head) \<in> set (blocks m1)" using hb e(4) by simp
  have pb1: "(p, sizeof_proto_info) \<in> set (blocks m1)" using pb e(4) by simp
  let ?m2 = "m1\<lparr>hl_count := (hl_count m1)(?hb := hl_count m1 ?hb - 1)\<rparr>"
  have fl2: "flist ?m2 hl (us @ vs)" using m1(2) fl e by (simp add: flist_def)
  have "keeps (owned hl ?ps) m m1"
  proof (rule keeps_only_links [OF mo m1(3) flist_owned [OF fl]])
    fix a
    assume "a \<in> set (hl # map node_of us @ node_of p # map node_of vs)"
    then show "\<exists>b \<in> owned hl ?ps. inside b a"
      using head_inside(1) [OF mo hb] node_inside(1) [OF mo pb] by (auto simp: owned_def)
  qed
  then have k1: "keeps ?A m m1" by (rule keeps_mono) (use oA in auto)
  have "keeps ?A m1 ?m2"
    by (rule keeps_mono [OF keeps_cell_update(2) [OF mo1 hb1 head_inside(2) [OF mo1 hb1]]])
      (use oA in \<open>auto simp: owned_def\<close>)
  with k1 have k2: "keeps ?A m ?m2" by (rule keeps_trans) auto
  show ?thesis using m1(1,3) fl2 k2 by blast
qed

text \<open>The second half: the field's buffer, when it has one, and the field are released.\<close>

lemma release_field:
  assumes mo: "mem_ok m" and p: "(p, sizeof_proto_info) \<in> set (blocks m)"
    and buf: "0 < buf_len (pinfo m p) \<Longrightarrow> \<exists>s. (buf_data_p (pinfo m p), s) \<in> set (blocks m)"
    and ne: "0 < buf_len (pinfo m p) \<Longrightarrow> buf_data_p (pinfo m p) \<noteq> p"
  shows "do {
      m3 \<leftarrow> (if 0 < buf_len (pinfo m p) then kfree (buf_data_p (pinfo m p)) m else Some m);
      kfree p m3 } = Some (m\<lparr>blocks := without (set (held m p)) (blocks m)\<rparr>)"
proof -
  let ?i = "pinfo m p"
  let ?bs = "if 0 < buf_len ?i then {buf_data_p ?i} else {}"
  let ?m3 = "m\<lparr>blocks := without ?bs (blocks m)\<rparr>"
  have mo3: "mem_ok ?m3" using mo blocks_ok_filter [of "blocks m"] by simp
  have b3: "(if 0 < buf_len ?i then kfree (buf_data_p ?i) m else Some m) = Some ?m3"
  proof (cases "0 < buf_len ?i")
    case True
    with buf obtain s where "(buf_data_p ?i, s) \<in> set (blocks m)" by blast
    from kfree_held(1) [OF mo this] True show ?thesis by simp
  next
    case False
    then show ?thesis using without_empty [of "blocks m"] by simp
  qed
  have "(p, sizeof_proto_info) \<in> set (blocks ?m3)" using p ne by auto
  from kfree_held(1) [OF mo3 this]
  have "kfree p ?m3 = Some (?m3\<lparr>blocks := without {p} (blocks ?m3)\<rparr>)" .
  moreover have "?m3\<lparr>blocks := without {p} (blocks ?m3)\<rparr> = m\<lparr>blocks := without (set (held m p)) (blocks m)\<rparr>"
    by (auto simp: held_def case_prod_unfold conj_commute)
  ultimately show ?thesis using b3 by simp
qed

lemma pfs_del_list_spec:
  assumes reg: "sys_registered m" and mo: "mem_ok m" and fl: "flist m hl (us @ p # vs)"
    and ho: "held_ok m hl (us @ p # vs)"
  shows "\<exists>m'. pfs_del_list (node_of p) hl m = Some m' \<and> flist m' hl (us @ vs) \<and> pinfo m' = pinfo m \<and>
    blocks m' = without (set (held m p)) (blocks m) \<and> mem_ok m' \<and>
    allocator_modules m' = allocator_modules m \<and>
    keeps {b \<in> set (blocks m). fst b \<in> set (all_held m hl (us @ p # vs))} m m'"
proof -
  let ?ps = "us @ p # vs" and ?hb = "head_base hl" and ?i = "pinfo m p"
  let ?A = "{b \<in> set (blocks m). fst b \<in> set (all_held m hl ?ps)}"
  have hb: "(?hb, sizeof_proto_head) \<in> set (blocks m)"
    and pb: "\<And>q. q \<in> set ?ps \<Longrightarrow> (q, sizeof_proto_info) \<in> set (blocks m)"
    and al: "sys_allocator (hl_allocator m ?hb)"
    and dl: "dlist m hl (map node_of us @ node_of p # map node_of vs)"
    using fl by (auto simp: flist_def)
  obtain m1 where
    m1: "list_del (node_of p) m = Some m1" "only_links (set (hl # map node_of us @ node_of p # map node_of vs)) m m1"
    and fl2: "flist (m1\<lparr>hl_count := (hl_count m1)(?hb := hl_count m1 ?hb - 1)\<rparr>) hl (us @ vs)"
    and k2: "keeps ?A m (m1\<lparr>hl_count := (hl_count m1)(?hb := hl_count m1 ?hb - 1)\<rparr>)"
    using unlink_field [OF mo fl] by blast
  let ?m2 = "m1\<lparr>hl_count := (hl_count m1)(?hb := hl_count m1 ?hb - 1)\<rparr>"
  have e: "pinfo m1 = pinfo m" "hl_count m1 = hl_count m" "hl_allocator m1 = hl_allocator m" "blocks m1 = blocks m"
    "allocator_modules m1 = allocator_modules m"
    using m1(2) by (auto simp: only_links_def)
  have mo1: "mem_ok m1" using mo e(4) by simp
  have hb1: "(?hb, sizeof_proto_head) \<in> set (blocks m1)" using hb e(4) by simp
  have pb1: "(p, sizeof_proto_info) \<in> set (blocks m1)" using pb e(4) by simp
  let ?bs = "if 0 < buf_len ?i then {buf_data_p ?i} else {}"
  have d: "p \<noteq> ?hb" "?hb \<notin> ?bs" "set ?ps \<inter> ?bs = {}" "p \<notin> set (us @ vs)"
    using ho by (auto simp: held_ok_def all_held_def held_def split: if_splits)
  let ?m4 = "?m2\<lparr>blocks := without (set (held m p)) (blocks m)\<rparr>"
  have buf: "\<exists>s. (buf_data_p ?i, s) \<in> set (blocks m)" if "0 < buf_len ?i"
  proof -
    from that have "buf_data_p ?i \<in> set (all_held m hl ?ps)" by (simp add: all_held_def held_def)
    with ho show ?thesis by (auto simp: held_ok_def)
  qed
  have "held ?m2 p = held m p" by (simp add: held_def e)
  then have rel: "do {
      m3 \<leftarrow> (if 0 < buf_len ?i then kfree (buf_data_p ?i) ?m2 else Some ?m2);
      kfree p m3 } = Some ?m4"
    using release_field [of ?m2 p] mo1 pb1 buf d(3) e by auto
  have reg2: "sys_registered ?m2" using reg e by (simp add: sys_registered_def)
  have fr: "allocator_mem_free (hl_allocator m ?hb) q m' = kfree q m'" if "sys_registered m'" for q and m' :: "'a pmem_scheme"
    using that al by simp
  have reg3: "sys_registered m3" if "(if 0 < buf_len ?i then kfree (buf_data_p ?i) ?m2 else Some ?m2) = Some m3" for m3
    using that reg2 sys_registered_kfree [of _ ?m2 m3] by (auto split: if_splits)
  have "do {
      m3 \<leftarrow> (if 0 < buf_len ?i then allocator_mem_free (hl_allocator m ?hb) (buf_data_p ?i) ?m2 else Some ?m2);
      allocator_mem_free (hl_allocator m ?hb) p m3 } = Some ?m4"
    using rel reg3 unfolding fr [OF reg2]
    by (cases "if 0 < buf_len ?i then kfree (buf_data_p ?i) ?m2 else Some ?m2") (simp_all add: fr)
  moreover have "pfs_del_list (node_of p) hl m = do {
      m3 \<leftarrow> (if 0 < buf_len ?i then allocator_mem_free (hl_allocator m ?hb) (buf_data_p ?i) ?m2 else Some ?m2);
      allocator_mem_free (hl_allocator m ?hb) p m3 }"
    using m1(1) head_inside(4) [OF mo1 hb1] node_inside(4) [OF mo1 pb1] e
    by (simp add: pfs_del_list_def paccess_defs)
  ultimately have "pfs_del_list (node_of p) hl m = Some ?m4" by simp
  moreover have "flist ?m4 hl (us @ vs)"
  proof -
    have "flist (?m2\<lparr>blocks := without (set (held m p)) (blocks ?m2)\<rparr>) hl (us @ vs)"
      by (rule flist_without [OF _ fl2]) (use mo1 d in \<open>auto simp: held_def split: if_splits\<close>)
    then show ?thesis using e by simp
  qed
  moreover have "keeps ?A m ?m4"
  proof -
    have "keeps ?A ?m2 (?m2\<lparr>blocks := without (set (held m p)) (blocks ?m2)\<rparr>)"
      by (rule keeps_without) (use mo1 e in \<open>auto simp: all_held_def\<close>)
    then have "keeps ?A ?m2 ?m4" using e by simp
    with k2 show ?thesis by (rule keeps_trans) auto
  qed
  ultimately show ?thesis using e mo blocks_ok_filter [of "blocks m"] by auto
qed

lemma held_ok_tail:
  assumes "held_ok m hl (p # ps)" and "pinfo m' = pinfo m" and "blocks m' = without (set (held m p)) (blocks m)"
  shows "held_ok m' hl ps" and "held m' = held m" and "all_held m' hl ps = all_held m hl ps"
proof -
  show h: "held m' = held m" using assms(2) by (simp add: held_def fun_eq_iff)
  then show a: "all_held m' hl ps = all_held m hl ps" by (simp add: all_held_def)
  have "set (all_held m hl ps) \<inter> set (held m p) = {}" "distinct (all_held m hl ps)"
    using assms(1) by (auto simp: held_ok_def all_held_def)
  moreover have "\<exists>s. (x, s) \<in> set (blocks m)" if "x \<in> set (all_held m hl ps)" for x
    using assms(1) that by (auto simp: held_ok_def all_held_def)
  ultimately show "held_ok m' hl ps" using assms(3) unfolding held_ok_def a by fastforce
qed

definition releasing ::
  "'z pmem_scheme \<Rightarrow> addr \<Rightarrow> addr list \<Rightarrow> addr list \<Rightarrow> 'z pmem_scheme \<Rightarrow> bool" where
  "releasing m hl ps qs s =
     (\<exists>us. ps = us @ qs \<and> sys_registered s \<and> mem_ok s \<and> flist s hl qs \<and> held_ok s hl qs \<and> pinfo s = pinfo m \<and>
        blocks s = without (set (concat (map (held m) us))) (blocks m) \<and>
        keeps {b \<in> set (blocks m). fst b \<in> set (all_held m hl ps)} m s)"

lemma releasing_step:
  assumes "releasing m hl ps (q # qs) s"
  shows "\<exists>t. pfs_del_list (node_of q) hl s = Some t \<and> releasing m hl ps qs t"
proof -
  let ?A = "{b \<in> set (blocks m). fst b \<in> set (all_held m hl ps)}"
  from assms obtain us where r: "ps = us @ q # qs" "sys_registered s" "mem_ok s" "flist s hl (q # qs)"
    "held_ok s hl (q # qs)" "pinfo s = pinfo m" "blocks s = without (set (concat (map (held m) us))) (blocks m)"
    "keeps ?A m s"
    unfolding releasing_def by blast
  have h: "held s = held m" using r(6) by (simp add: held_def fun_eq_iff)
  have "\<exists>t. pfs_del_list (node_of q) hl s = Some t \<and> flist t hl ([] @ qs) \<and> pinfo t = pinfo s \<and>
    blocks t = without (set (held s q)) (blocks s) \<and> mem_ok t \<and> allocator_modules t = allocator_modules s \<and>
    keeps {b \<in> set (blocks s). fst b \<in> set (all_held s hl ([] @ q # qs))} s t"
    by (rule pfs_del_list_spec) (use r in simp_all)
  then obtain t where t: "pfs_del_list (node_of q) hl s = Some t" "flist t hl qs" "pinfo t = pinfo s"
    "blocks t = without (set (held s q)) (blocks s)" "mem_ok t" "allocator_modules t = allocator_modules s"
    "keeps {b \<in> set (blocks s). fst b \<in> set (all_held s hl (q # qs))} s t" by auto
  have "keeps ?A m t"
    by (rule keeps_trans [OF r(8) t(7)]) (use r(1) h in \<open>auto simp: all_held_def\<close>)
  moreover have "blocks t = without (set (concat (map (held m) (us @ [q])))) (blocks m)"
    unfolding t(4) r(7) without_without h by (rule without_cong) simp
  moreover have "sys_registered t" using r(2) t(6) by (simp add: sys_registered_def)
  ultimately have "releasing m hl ps qs t"
    unfolding releasing_def using r(1,6) t(2,3,5) held_ok_tail(1) [OF r(5) t(3,4)]
    by (intro exI [of _ "us @ [q]"]) simp
  with t(1) show ?thesis by blast
qed

lemma releasing_reads:
  assumes "releasing m hl ps qs s"
  shows "rd_next hl s = Some (hd (map node_of qs @ [hl]))"
    and "qs = y # ys \<Longrightarrow> rd_next (node_of y) s = Some (hd (map node_of ys @ [hl]))"
proof -
  have d: "dlist s hl (map node_of qs)" using assms by (auto simp: releasing_def flist_def)
  then show "rd_next hl s = Some (hd (map node_of qs @ [hl]))" by (rule dlist_reads)
  show "rd_next (node_of y) s = Some (hd (map node_of ys @ [hl]))" if "qs = y # ys"
    using dlist_reads(2) [OF d, of "[]"] that by simp
qed

lemma pfs_del_list_for_each_spec:
  assumes reg: "sys_registered m" and mo: "mem_ok m" and fl: "flist m hl ps" and ho: "held_ok m hl ps"
  shows "\<exists>m'. pfs_del_list_for_each hl m = Some m' \<and> pinfo m' = pinfo m \<and>
    blocks m' = without (set (all_held m hl ps)) (blocks m) \<and>
    keeps {b \<in> set (blocks m). fst b \<in> set (all_held m hl ps)} m m'"
proof -
  let ?A = "{b \<in> set (blocks m). fst b \<in> set (all_held m hl ps)}" and ?body = "\<lambda>pos. pfs_del_list pos hl"
  have start: "releasing m hl ps ps m"
    using assms keeps_refl [OF mo] by (auto simp: releasing_def without_empty intro!: exI [of _ "[]"])
  have "list_for_each_safe rd_next ?body hl m = foldM ?body (map node_of ps) m"
  proof (rule list_for_each_safe_foldM [where I = "\<lambda>ys s. \<exists>qs. ys = map node_of qs \<and> releasing m hl ps qs s"])
    show "hl \<notin> set (map node_of ps)" using flist_distinct [OF fl] by simp
    show "rd_next hl m = Some (hd (map node_of ps @ [hl]))" by (rule releasing_reads(1) [OF start])
    fix y ys s t
    assume "\<exists>qs. y # ys = map node_of qs \<and> releasing m hl ps qs s"
    then obtain q qs where q: "y = node_of q" "ys = map node_of qs" "releasing m hl ps (q # qs) s"
      by (auto simp: Cons_eq_map_conv)
    show "rd_next y s = Some (hd (ys @ [hl]))" using releasing_reads(2) [OF q(3) refl] q(1,2) by simp
    show "\<exists>qs. ys = map node_of qs \<and> releasing m hl ps qs t" if "pfs_del_list y hl s = Some t"
      using releasing_step [OF q(3)] that q(1,2) by auto
  next
    show "rd_next hl s \<noteq> None" if "\<exists>qs. [] = map node_of qs \<and> releasing m hl ps qs s" for s
      using that releasing_reads(1) by fastforce
  qed (use start in blast)
  moreover have "\<exists>t. foldM ?body (map node_of ps) m = Some t \<and> (\<exists>qs. [] = map node_of qs \<and> releasing m hl ps qs t)"
    by (rule foldM_total [where I = "\<lambda>ys s. \<exists>qs. ys = map node_of qs \<and> releasing m hl ps qs s"])
      (use start releasing_step in \<open>fastforce simp: Cons_eq_map_conv\<close>)+
  ultimately obtain m1 where m1: "list_for_each_safe rd_next ?body hl m = Some m1" "releasing m hl ps [] m1" by auto
  let ?hb = "head_base hl"
  from m1(2) have r: "sys_registered m1" "mem_ok m1" "flist m1 hl []" "pinfo m1 = pinfo m" "keeps ?A m m1"
    "blocks m1 = without (set (concat (map (held m) ps))) (blocks m)"
    by (auto simp: releasing_def)
  have hb: "(?hb, sizeof_proto_head) \<in> set (blocks m1)" "sys_allocator (hl_allocator m1 ?hb)"
    using r(3) by (auto simp: flist_def)
  let ?m2 = "m1\<lparr>blocks := without {?hb} (blocks m1)\<rparr>"
  have "pfs_del_list_for_each hl m = Some ?m2"
    using m1(1) kfree_held(1) [OF r(2) hb(1)] head_inside(4) [OF r(2) hb(1)] hb(2) r(1)
    by (simp add: pfs_del_list_for_each_def pfs_release_head_list_def rd_allocator_def)
  moreover have "keeps ?A m ?m2"
  proof (rule keeps_trans [OF r(5) keeps_without [OF r(2) order_refl]])
    show "{p \<in> set (blocks m1). fst p \<in> {?hb}} \<inter> set (blocks m) \<subseteq> ?A" by (auto simp: all_held_def)
  qed
  moreover have "blocks ?m2 = without (set (all_held m hl ps)) (blocks m)"
  proof -
    have "blocks ?m2 = without {?hb} (without (set (concat (map (held m) ps))) (blocks m))" using r(6) by simp
    also have "\<dots> = without (set (all_held m hl ps)) (blocks m)"
      unfolding without_without by (rule without_cong) (simp add: all_held_def)
    finally show ?thesis .
  qed
  ultimately show ?thesis using r(4) by auto
qed

end
