(* ===== verification/Format_Set.thy ===== *)
theory Format_Set
  imports Format_List
begin

text \<open>
  The format set as a table of formats: \<open>fset_ok m pfs T\<close> says that cell \<open>i\<close> of the table of
  \<open>pfs\<close> holds the list \<open>T i\<close>. Initialisation, registration of a format and destruction are
  specified over it.
\<close>

type_synonym formats = "nat \<Rightarrow> (addr \<times> addr list) option"

definition table_block :: "format_set \<Rightarrow> addr \<times> nat" where
  "table_block pfs = (list_head_p2 pfs, 4 * unat (proto_max_num pfs))"

text \<open>A list that comes from the configuration has no buffers.\<close>

definition format_ok :: "'z pmem_scheme \<Rightarrow> addr \<times> addr list \<Rightarrow> bool" where
  "format_ok m fmt = (flist m (fst fmt) (snd fmt) \<and> (\<forall>p \<in> set (snd fmt). buf_len (pinfo m p) = 0))"

definition fset_ok :: "'z pmem_scheme \<Rightarrow> format_set \<Rightarrow> formats \<Rightarrow> bool" where
  "fset_ok m pfs T =
     (sys_allocator (pfs_allocator pfs) \<and> 0 < unat (proto_max_num pfs) \<and>
      4 * unat (proto_max_num pfs) < 2 ^ 32 \<and> table_block pfs \<in> set (blocks m) \<and>
      (\<forall>i. case T i of
         None \<Rightarrow> i < unat (proto_max_num pfs) \<longrightarrow> ptrs m (table_cell pfs (word_of_nat i)) = NULL
       | Some fmt \<Rightarrow> i < unat (proto_max_num pfs) \<and> ptrs m (table_cell pfs (word_of_nat i)) = fst fmt \<and>
           format_ok m fmt \<and> table_block pfs \<notin> owned (fst fmt) (snd fmt)) \<and>
      (\<forall>i j fi fj. T i = Some fi \<longrightarrow> T j = Some fj \<longrightarrow> i \<noteq> j \<longrightarrow>
         owned (fst fi) (snd fi) \<inter> owned (fst fj) (snd fj) = {}))"

definition fset_owned :: "format_set \<Rightarrow> formats \<Rightarrow> (addr \<times> nat) set" where
  "fset_owned pfs T = insert (table_block pfs) (\<Union>fmt \<in> ran T. owned (fst fmt) (snd fmt))"

lemma table_cell_facts:
  assumes "mem_ok m" and "table_block pfs \<in> set (blocks m)" and "i < unat (proto_max_num pfs)"
  shows "unat (table_cell pfs (word_of_nat i)) = unat (list_head_p2 pfs) + 4 * i"
    and "inside (table_block pfs) (table_cell pfs (word_of_nat i))"
    and "valid m (table_cell pfs (word_of_nat i)) 4" and "list_head_p2 pfs \<noteq> NULL"
proof -
  have g: "unat (list_head_p2 pfs) + 4 * unat (proto_max_num pfs) \<le> 2 ^ 32" "list_head_p2 pfs \<noteq> NULL"
    using blocks_ok_good [OF assms(1,2)] by (auto simp: good_block_def table_block_def)
  then show "list_head_p2 pfs \<noteq> NULL" by simp
  have "unat (4 * word_of_nat i :: u32) = 4 * i"
    using g assms(3) by (simp add: unat_word_ariths unsigned_of_nat take_bit_nat_eq_self)
  then show u: "unat (table_cell pfs (word_of_nat i)) = unat (list_head_p2 pfs) + 4 * i"
    using g assms(3) by (simp add: table_cell_def unat_word_ariths)
  then show c: "inside (table_block pfs) (table_cell pfs (word_of_nat i))"
    using assms(3) by (simp add: inside_def table_block_def)
  show "valid m (table_cell pfs (word_of_nat i)) 4"
    by (rule valid_inside [OF assms(2) c]) (use u assms(3) in \<open>simp add: table_block_def\<close>)
qed

lemma table_cell_inj:
  assumes "mem_ok m" and "table_block pfs \<in> set (blocks m)" and "i < unat (proto_max_num pfs)"
    and "j < unat (proto_max_num pfs)" and "i \<noteq> j"
  shows "table_cell pfs (word_of_nat i) \<noteq> table_cell pfs (word_of_nat j)"
proof
  assume "table_cell pfs (word_of_nat i) = table_cell pfs (word_of_nat j)"
  then have "unat (table_cell pfs (word_of_nat i)) = unat (table_cell pfs (word_of_nat j))" by (rule arg_cong)
  then show False using table_cell_facts(1) [OF assms(1,2)] assms(3-5) by simp
qed

lemma fset_okD:
  assumes "fset_ok m pfs T" and "T i = Some (hl, ps)"
  shows "i < unat (proto_max_num pfs)" "ptrs m (table_cell pfs (word_of_nat i)) = hl" "flist m hl ps"
    "\<And>p. p \<in> set ps \<Longrightarrow> buf_len (pinfo m p) = 0" "table_block pfs \<notin> owned hl ps"
proof -
  have "\<forall>i. case T i of
         None \<Rightarrow> i < unat (proto_max_num pfs) \<longrightarrow> ptrs m (table_cell pfs (word_of_nat i)) = NULL
       | Some fmt \<Rightarrow> i < unat (proto_max_num pfs) \<and> ptrs m (table_cell pfs (word_of_nat i)) = fst fmt \<and>
           format_ok m fmt \<and> table_block pfs \<notin> owned (fst fmt) (snd fmt)"
    using assms(1) unfolding fset_ok_def by blast
  from spec [OF this, of i] assms(2)
  show "i < unat (proto_max_num pfs)" "ptrs m (table_cell pfs (word_of_nat i)) = hl" "flist m hl ps"
    "\<And>p. p \<in> set ps \<Longrightarrow> buf_len (pinfo m p) = 0" "table_block pfs \<notin> owned hl ps"
    by (auto simp: format_ok_def)
qed

lemma fset_ok_empty_cell:
  "fset_ok m pfs T \<Longrightarrow> T i = None \<Longrightarrow> i < unat (proto_max_num pfs) \<Longrightarrow>
     ptrs m (table_cell pfs (word_of_nat i)) = NULL"
  unfolding fset_ok_def by (elim conjE allE [of _ i]) simp

lemma fset_ok_disjoint:
  "fset_ok m pfs T \<Longrightarrow> T i = Some (hl, ps) \<Longrightarrow> T j = Some (hl', ps') \<Longrightarrow> i \<noteq> j \<Longrightarrow>
     owned hl ps \<inter> owned hl' ps' = {}"
  unfolding fset_ok_def by fastforce

lemma fset_ok_base:
  "fset_ok m pfs T \<Longrightarrow> sys_allocator (pfs_allocator pfs) \<and> 0 < unat (proto_max_num pfs) \<and>
     4 * unat (proto_max_num pfs) < 2 ^ 32 \<and> table_block pfs \<in> set (blocks m)"
  by (simp add: fset_ok_def)

lemma fset_okI:
  assumes "sys_allocator (pfs_allocator pfs)" "0 < unat (proto_max_num pfs)"
    "4 * unat (proto_max_num pfs) < 2 ^ 32" "table_block pfs \<in> set (blocks m)"
    and "\<And>i. T i = None \<Longrightarrow> i < unat (proto_max_num pfs) \<Longrightarrow> ptrs m (table_cell pfs (word_of_nat i)) = NULL"
    and "\<And>i hl ps. T i = Some (hl, ps) \<Longrightarrow> i < unat (proto_max_num pfs) \<and>
           ptrs m (table_cell pfs (word_of_nat i)) = hl \<and> flist m hl ps \<and>
           (\<forall>p \<in> set ps. buf_len (pinfo m p) = 0) \<and> table_block pfs \<notin> owned hl ps"
    and "\<And>i j hl ps hl' ps'. T i = Some (hl, ps) \<Longrightarrow> T j = Some (hl', ps') \<Longrightarrow> i \<noteq> j \<Longrightarrow>
           owned hl ps \<inter> owned hl' ps' = {}"
  shows "fset_ok m pfs T"
  unfolding fset_ok_def format_ok_def using assms(1-4)
  by (intro conjI allI impI) (use assms(5-7) in \<open>force split: option.splits\<close>)+

lemma fset_keeps:
  assumes k: "keeps A m m'" and f: "fset_ok m pfs T" and d: "A \<inter> fset_owned pfs T = {}"
  shows "fset_ok m' pfs T"
proof (rule fset_okI)
  note b = fset_ok_base [OF f]
  have mo: "mem_ok m" using keeps_ok [OF k] by simp
  have tb: "table_block pfs \<in> set (blocks m)" "table_block pfs \<notin> A" using b d by (auto simp: fset_owned_def)
  show "sys_allocator (pfs_allocator pfs)" "0 < unat (proto_max_num pfs)" "4 * unat (proto_max_num pfs) < 2 ^ 32"
    using b by simp_all
  show "table_block pfs \<in> set (blocks m')" by (rule keeps_block [OF k tb])
  have cell: "ptrs m' (table_cell pfs (word_of_nat i)) = ptrs m (table_cell pfs (word_of_nat i))"
    if "i < unat (proto_max_num pfs)" for i
    using keeps_cells [OF k tb table_cell_facts(2) [OF mo tb(1) that]] by (simp add: same_cells_def)
  show "ptrs m' (table_cell pfs (word_of_nat i)) = NULL" if "T i = None" "i < unat (proto_max_num pfs)" for i
    using cell [OF that(2)] fset_ok_empty_cell [OF f that] by simp
  fix i hl ps
  assume i: "T i = Some (hl, ps)"
  have "owned hl ps \<subseteq> fset_owned pfs T" using i by (force simp: fset_owned_def ran_def)
  with d have da: "A \<inter> owned hl ps = {}" by blast
  note o = fset_okD [OF f i]
  show "i < unat (proto_max_num pfs) \<and> ptrs m' (table_cell pfs (word_of_nat i)) = hl \<and> flist m' hl ps \<and>
      (\<forall>p \<in> set ps. buf_len (pinfo m' p) = 0) \<and> table_block pfs \<notin> owned hl ps"
    using o cell [OF o(1)] flist_keeps(1,2) [OF k o(3) da] by simp
  show "owned hl ps \<inter> owned hl' ps' = {}" if "T j = Some (hl', ps')" "i \<noteq> j" for j hl' ps'
    by (rule fset_ok_disjoint [OF f i that])
qed

section \<open>Initialisation and registration\<close>

lemma links_ptrs: "links (m\<lparr>ptrs := P\<rparr>) xs = links m xs"
  by (induction m xs rule: links.induct) auto

lemma init_proto_format_set_spec:
  assumes reg: "sys_registered m" and al: "sys_allocator (pfs_allocator pfs)" and km: "kmalloc_ok km" and mo: "mem_ok m"
    and n: "0 < unat n" "4 * unat n < 2 ^ 32"
    and a: "kmalloc km (4 * unat n) m = (p, m1)" "p \<noteq> NULL"
  shows "\<exists>m'. init_proto_format_set km base n pfs m =
      Some (pfs\<lparr>proto_base_addr := base, list_head_p2 := p, proto_total_num := 0, proto_max_num := n\<rparr>, m') \<and>
    fset_ok m' (pfs\<lparr>proto_base_addr := base, list_head_p2 := p, proto_total_num := 0, proto_max_num := n\<rparr>) Map.empty \<and>
    keeps {} m m' \<and> (p, 4 * unat n) \<notin> set (blocks m)"
proof -
  let ?b = "(p, 4 * unat n)"
  have u: "unat (4 * n) = 4 * unat n" using n(2) by (simp add: unat_word_ariths)
  have mo1: "mem_ok m1" using kmalloc_mem_ok [OF km mo _ a(1)] n(1) by simp
  have b1: "blocks m1 = ?b # blocks m" using kmalloc_some [OF a] by simp
  then have new: "?b \<notin> set (blocks m)" using blocks_ok_new mo1 by metis
  let ?m = "m1\<lparr>ptrs := (\<lambda>q. if unat p \<le> unat q \<and> unat q < unat p + 4 * unat n then NULL else ptrs m1 q)\<rparr>"
  let ?pfs = "pfs\<lparr>proto_base_addr := base, list_head_p2 := p, proto_total_num := 0, proto_max_num := n\<rparr>"
  have "valid m1 p (4 * unat n)" by (rule kmalloc_valid_new [OF a])
  then have "init_proto_format_set km base n pfs m = Some (?pfs, ?m)"
    using a reg al n(1) u by (simp add: init_proto_format_set_def clear_ptrs_def)
  moreover have "fset_ok ?m ?pfs Map.empty"
  proof (rule fset_okI)
    have tb: "table_block ?pfs \<in> set (blocks m1)" using b1 by (simp add: table_block_def)
    show "ptrs ?m (table_cell ?pfs (word_of_nat i)) = NULL" if "i < unat (proto_max_num ?pfs)" for i
      using table_cell_facts(2) [OF mo1 tb that] by (simp add: inside_def table_block_def)
  qed (use al n b1 in \<open>simp_all add: table_block_def\<close>)
  moreover have "keeps {} m ?m"
  proof -
    have 1: "keeps {?b} m1 ?m"
      by (rule keeps_local [OF mo1]) (use b1 in \<open>auto simp: same_cells_def inside_def\<close>)
    have "keeps {?b} m m1" by (rule keeps_kmalloc [OF km mo a(1)]) (use n(1) in simp)
    from this 1 have "keeps {?b} m ?m" by (rule keeps_trans) simp
    then show ?thesis by (rule keeps_mono) (use new in auto)
  qed
  ultimately show ?thesis using new by blast
qed

lemma pfs_add_proto_link_list_spec:
  assumes mo: "mem_ok m" and f: "fset_ok m pfs T" and fmt: "format_ok m (hl, ps)" and hl: "hl \<noteq> NULL"
    and i: "unat i < unat (proto_max_num pfs)" "i \<le> MAX_PROTOCOL_NUM"
    and new: "owned hl ps \<inter> fset_owned pfs T = {}"
  shows "\<exists>m'. pfs_add_proto_link_list i hl pfs m = Some (0, pfs\<lparr>proto_total_num := proto_total_num pfs + 1\<rparr>, m') \<and>
    fset_ok m' (pfs\<lparr>proto_total_num := proto_total_num pfs + 1\<rparr>) (T(unat i \<mapsto> (hl, ps))) \<and>
    keeps {table_block pfs} m m' \<and> pinfo m' = pinfo m"
proof -
  let ?c = "table_cell pfs i" and ?m = "m\<lparr>ptrs := (ptrs m)(table_cell pfs i := hl)\<rparr>"
  let ?pfs = "pfs\<lparr>proto_total_num := proto_total_num pfs + 1\<rparr>"
  note b = fset_ok_base [OF f]
  note tc = table_cell_facts [OF mo _ i(1), simplified] table_cell_inj [OF mo _ _ i(1), simplified]
  have "pfs_add_proto_link_list i hl pfs m = Some (0, ?pfs, ?m)"
    using i(2) hl tc(3) b by (simp add: pfs_add_proto_link_list_def wr_ptr_def not_less)
  moreover have k: "keeps {table_block pfs} m ?m"
    by (rule keeps_cell_update) (use mo b tc(2) in simp_all)
  moreover have "fset_ok ?m ?pfs (T(unat i \<mapsto> (hl, ps)))"
  proof (rule fset_okI)
    have cell: "ptrs ?m (table_cell ?pfs (word_of_nat j)) = ptrs m (table_cell pfs (word_of_nat j))"
      if "j < unat (proto_max_num pfs)" "j \<noteq> unat i" for j
      using tc(5) [OF _ that] b by (simp add: table_cell_def)
    have here: "ptrs ?m (table_cell ?pfs (word_of_nat (unat i))) = hl" by (simp add: table_cell_def)
    have tb: "table_block ?pfs = table_block pfs" by (simp add: table_block_def)
    show "ptrs ?m (table_cell ?pfs (word_of_nat j)) = NULL"
      if "(T(unat i \<mapsto> (hl, ps))) j = None" "j < unat (proto_max_num ?pfs)" for j
      using cell [of j] fset_ok_empty_cell [OF f, of j] that by (auto split: if_splits)
    have tbh: "table_block pfs \<notin> owned hl ps" using new by (auto simp: fset_owned_def)
    have fl: "flist ?m hq qs = flist m hq qs" for hq qs by (simp add: flist_def dlist_def links_ptrs)
    show "j < unat (proto_max_num ?pfs) \<and> ptrs ?m (table_cell ?pfs (word_of_nat j)) = hq \<and> flist ?m hq qs \<and>
      (\<forall>p \<in> set qs. buf_len (pinfo ?m p) = 0) \<and> table_block ?pfs \<notin> owned hq qs"
      if j: "(T(unat i \<mapsto> (hl, ps))) j = Some (hq, qs)" for j hq qs
    proof (cases "j = unat i")
      case True
      then show ?thesis using j fmt i(1) here tbh tb fl by (simp add: format_ok_def)
    next
      case False
      with j have "T j = Some (hq, qs)" by simp
      from fset_okD [OF f this] show ?thesis using cell False tb fl by simp
    qed
    have sub: "owned hq qs \<subseteq> fset_owned pfs T" if "T j = Some (hq, qs)" for j hq qs
      using that by (force simp: fset_owned_def ran_def)
    show "owned hq qs \<inter> owned hr rs = {}"
      if "(T(unat i \<mapsto> (hl, ps))) j = Some (hq, qs)" "(T(unat i \<mapsto> (hl, ps))) k = Some (hr, rs)" "j \<noteq> k" for j k hq qs hr rs
      using that new sub [of j hq qs] sub [of k hr rs] fset_ok_disjoint [OF f, of j hq qs k hr rs]
      by (auto split: if_splits)
  qed (use b in \<open>simp_all add: table_block_def\<close>)
  ultimately show ?thesis by (intro exI [of _ ?m]) simp
qed

section \<open>Destruction\<close>

definition list_starts :: "formats \<Rightarrow> nat \<Rightarrow> addr set" where
  "list_starts T j = (case T j of None \<Rightarrow> {} | Some (hl, ps) \<Rightarrow> insert (head_base hl) (set ps))"

definition clearing :: "'z pmem_scheme \<Rightarrow> format_set \<Rightarrow> formats \<Rightarrow> nat \<Rightarrow> 'z pmem_scheme \<Rightarrow> bool" where
  "clearing m pfs T i s =
     (sys_registered s \<and> mem_ok s \<and> table_block pfs \<in> set (blocks s) \<and>
      (\<forall>j. i \<le> j \<longrightarrow> j < unat (proto_max_num pfs) \<longrightarrow>
        ptrs s (table_cell pfs (word_of_nat j)) = (case T j of None \<Rightarrow> NULL | Some (hl, ps) \<Rightarrow> hl)) \<and>
      (\<forall>j hl ps. i \<le> j \<longrightarrow> T j = Some (hl, ps) \<longrightarrow> format_ok s (hl, ps)) \<and>
      blocks s = without (\<Union>j < i. list_starts T j) (blocks m))"

lemma format_held:
  assumes "mem_ok m" and "format_ok m (hl, ps)"
  shows "held_ok m hl ps" and "set (all_held m hl ps) = insert (head_base hl) (set ps)"
proof -
  have fl: "flist m hl ps" and nb: "\<forall>p \<in> set ps. held m p = [p]"
    using assms(2) by (auto simp: format_ok_def held_def)
  then have a: "all_held m hl ps = head_base hl # ps" by (simp add: all_held_def cong: map_cong)
  have "head_base hl \<notin> set ps"
    using fl mem_ok_same_start [OF assms(1), of _ sizeof_proto_info sizeof_proto_head]
    by (auto simp: flist_def sizeof_proto_info_def sizeof_proto_head_def)
  with fl a flist_distinct [OF fl] show "held_ok m hl ps"
    by (auto simp: held_ok_def flist_def)
  show "set (all_held m hl ps) = insert (head_base hl) (set ps)" by (simp add: a)
qed

lemma format_starts_owned:
  assumes "mem_ok m" and "flist m hl ps" and "(b, s) \<in> set (blocks m)" and "b \<in> insert (head_base hl) (set ps)"
  shows "(b, s) \<in> owned hl ps"
proof -
  obtain t where "(b, t) \<in> owned hl ps" "(b, t) \<in> set (blocks m)"
    using assms(2,4) by (auto simp: flist_def owned_def)
  with mem_ok_same_start [OF assms(1,3)] show ?thesis by metis
qed

lemma clearing_step:
  assumes f: "fset_ok m pfs T" and c: "clearing m pfs T i s" and i: "i < unat (proto_max_num pfs)"
  shows "\<exists>t. (do { hl \<leftarrow> rd_ptr (table_cell pfs (word_of_nat i)) s;
       (if hl \<noteq> NULL then do {
                 m2 \<leftarrow> pfs_del_proto_link_list pfs (word_of_nat i) s;
                 wr_ptr (table_cell pfs (word_of_nat i)) NULL m2 }
               else Some s) }) = Some t \<and> clearing m pfs T (Suc i) t"
proof -
  let ?c = "table_cell pfs (word_of_nat i)"
  have s: "sys_registered s" "mem_ok s" "table_block pfs \<in> set (blocks s)"
    and cell: "\<And>j. i \<le> j \<Longrightarrow> j < unat (proto_max_num pfs) \<Longrightarrow>
        ptrs s (table_cell pfs (word_of_nat j)) = (case T j of None \<Rightarrow> NULL | Some (hl, ps) \<Rightarrow> hl)"
    and fmt: "\<And>j hl ps. i \<le> j \<Longrightarrow> T j = Some (hl, ps) \<Longrightarrow> format_ok s (hl, ps)"
    and bl: "blocks s = without (\<Union>j < i. list_starts T j) (blocks m)"
    using c by (auto simp: clearing_def)
  note tc = table_cell_facts [OF s(2,3) i]
  have all: "(\<Union>j < Suc i. list_starts T j) = (\<Union>j < i. list_starts T j) \<union> list_starts T i"
    by (auto simp: less_Suc_eq)
  show ?thesis
  proof (cases "T i")
    case None
    then have "rd_ptr ?c s = Some NULL" using cell [of i] i tc(3) by (simp add: rd_ptr_def)
    moreover have "clearing m pfs T (Suc i) s"
    proof -
      have "(\<Union>j < Suc i. list_starts T j) = (\<Union>j < i. list_starts T j)"
        unfolding all using None by (simp add: list_starts_def)
      then show ?thesis unfolding clearing_def using s cell fmt bl by (metis Suc_leD)
    qed
    ultimately show ?thesis by simp
  next
    case (Some fm)
    then obtain hl ps where T: "T i = Some (hl, ps)" by (cases fm) auto
    have fo: "format_ok s (hl, ps)" and fl: "flist s hl ps" using fmt T by (auto simp: format_ok_def)
    have hl0: "hl \<noteq> NULL" using head_inside(6) [OF s(2)] fl by (auto simp: flist_def)
    have r: "rd_ptr ?c s = Some hl" using cell [of i] T i tc(3) by (simp add: rd_ptr_def)
    let ?A = "{b \<in> set (blocks s). fst b \<in> set (all_held s hl ps)}"
    from pfs_del_list_for_each_spec [OF s(1,2) fl format_held(1) [OF s(2) fo]] obtain u where
      u: "pfs_del_list_for_each hl s = Some u" "pinfo u = pinfo s"
        "blocks u = without (set (all_held s hl ps)) (blocks s)" "keeps ?A s u" by blast
    have A: "?A \<subseteq> owned hl ps"
      using format_starts_owned [OF s(2) fl] format_held(2) [OF s(2) fo] by auto
    have tb: "table_block pfs \<notin> owned hl ps" by (rule fset_okD(5) [OF f T])
    then have tbA: "table_block pfs \<notin> ?A" using A by blast
    have tbu: "table_block pfs \<in> set (blocks u)" by (rule keeps_block [OF u(4) s(3) tbA])
    have mou: "mem_ok u" using keeps_ok [OF u(4)] by simp
    let ?t = "u\<lparr>ptrs := (ptrs u)(?c := NULL)\<rparr>"
    have "valid u ?c 4" by (rule table_cell_facts(3) [OF mou tbu i])
    then have run: "(do { hl \<leftarrow> rd_ptr ?c s; (if hl \<noteq> NULL then do {
                 m2 \<leftarrow> pfs_del_proto_link_list pfs (word_of_nat i) s; wr_ptr ?c NULL m2 } else Some s) }) = Some ?t"
      using r hl0 u(1) tc(4) by (simp add: pfs_del_proto_link_list_def wr_ptr_def)
    have "clearing m pfs T (Suc i) ?t"
      unfolding clearing_def
    proof (intro conjI allI impI)
      show "sys_registered ?t" using keeps_ok [OF u(4)] s(1) by (simp add: sys_registered_def)
      show "mem_ok ?t" using mou by simp
      show "table_block pfs \<in> set (blocks ?t)" using tbu by simp
      show "ptrs ?t (table_cell pfs (word_of_nat j)) = (case T j of None \<Rightarrow> NULL | Some (hl, ps) \<Rightarrow> hl)"
        if j: "Suc i \<le> j" "j < unat (proto_max_num pfs)" for j
        using keeps_cells [OF u(4) s(3) tbA table_cell_facts(2) [OF s(2,3) j(2)]] cell [of j] j
          table_cell_inj [OF s(2,3) i j(2)] by (simp add: same_cells_def)
      show "format_ok ?t (hq, qs)" if j: "Suc i \<le> j" "T j = Some (hq, qs)" for j hq qs
      proof -
        have q: "format_ok s (hq, qs)" by (rule fmt [OF _ j(2)]) (use j(1) in simp)
        have "?A \<inter> owned hq qs = {}" using A fset_ok_disjoint [OF f T j(2)] j(1) by auto
        then have "flist u hq qs" using q flist_keeps(1) [OF u(4)] by (simp add: format_ok_def)
        then show ?thesis using q u(2) by (simp add: format_ok_def flist_def dlist_def links_ptrs)
      qed
      have "blocks ?t = without (list_starts T i) (without (\<Union>j < i. list_starts T j) (blocks m))"
        using u(3) bl format_held(2) [OF s(2) fo] T by (simp add: list_starts_def)
      also have "\<dots> = without (\<Union>j < Suc i. list_starts T j) (blocks m)"
        unfolding all by (rule without_without)
      finally show "blocks ?t = without (\<Union>j < Suc i. list_starts T j) (blocks m)" .
    qed
    with run show ?thesis by blast
  qed
qed

lemma unat_ucast_u8 [simp]: "unat (ucast (i :: u8) :: u32) = unat i"
proof -
  have "unat i < 2 ^ LENGTH(8)" by (rule unsigned_less)
  then show ?thesis by (simp add: unsigned_ucast_eq take_bit_nat_eq_self)
qed

lemma pfs_destroy_from_spec:
  assumes f: "fset_ok m pfs T" and mx: "unat (proto_max_num pfs) \<le> 255"
    and c: "clearing m pfs T (unat i) s" and i: "unat i \<le> unat (proto_max_num pfs)"
  shows "\<exists>t. pfs_destroy_from pfs i s = Some t \<and> clearing m pfs T (unat (proto_max_num pfs)) t"
  using c i
proof (induction "unat (proto_max_num pfs) - unat i" arbitrary: i s)
  case 0
  then have e: "unat i = unat (proto_max_num pfs)" by simp
  then have "\<not> (ucast i :: u32) < proto_max_num pfs"
    by (simp add: word_less_nat_alt)
  then have "pfs_destroy_from pfs i s = Some s" by (simp add: pfs_destroy_from.simps)
  with 0 e show ?case by auto
next
  case (Suc n)
  then have lt: "unat i < unat (proto_max_num pfs)" by simp
  have w: "(word_of_nat (unat i) :: u32) = ucast i" by (simp add: word_unat_eq_iff unsigned_of_nat unsigned_ucast_eq)
  have uc: "(ucast i :: u32) < proto_max_num pfs"
    using lt by (simp add: word_less_nat_alt)
  have i1: "unat (i + 1) = Suc (unat i)" using lt mx unat_plus_one [of i 255] by (simp add: word_less_nat_alt)
  from clearing_step [OF f Suc.prems(1) lt] obtain t where
    t: "(do { hl \<leftarrow> rd_ptr (table_cell pfs (ucast i)) s;
       (if hl \<noteq> NULL then do {
                 m2 \<leftarrow> pfs_del_proto_link_list pfs (ucast i) s;
                 wr_ptr (table_cell pfs (ucast i)) NULL m2 }
               else Some s) }) = Some t" "clearing m pfs T (unat (i + 1)) t"
    unfolding w i1 by blast
  have "n = unat (proto_max_num pfs) - unat (i + 1)" "unat (i + 1) \<le> unat (proto_max_num pfs)"
    using Suc.hyps(2) lt i1 by simp_all
  from Suc.hyps(1) [OF this(1) t(2) this(2)] obtain r where
    r: "pfs_destroy_from pfs (i + 1) t = Some r" "clearing m pfs T (unat (proto_max_num pfs)) r" by blast
  have "pfs_destroy_from pfs i s = Some r"
    unfolding pfs_destroy_from.simps [of pfs i s] bind_assoc [symmetric]
    using t(1) r(1) uc by (simp only: if_True bind.bind_lunit)
  with r(2) show ?case by blast
qed

lemma pfs_destroy_spec:
  assumes reg: "sys_registered m" and mo: "mem_ok m" and f: "fset_ok m pfs T"
    and mx: "unat (proto_max_num pfs) \<le> 255"
    and self: "(pfs_self pfs, n) \<in> set (blocks m)" "(pfs_self pfs, n) \<notin> fset_owned pfs T"
  shows "\<exists>m'. pfs_destroy_protocol_format_set pfs m = Some m' \<and> mem_ok m' \<and>
    blocks m' = without (insert (pfs_self pfs) (fst ` fset_owned pfs T)) (blocks m)"
proof -
  let ?max = "unat (proto_max_num pfs)"
  note b = fset_ok_base [OF f]
  have "clearing m pfs T 0 m"
    unfolding clearing_def
  proof (intro conjI allI impI)
    fix j
    assume "j < ?max"
    then show "ptrs m (table_cell pfs (word_of_nat j)) = (case T j of None \<Rightarrow> NULL | Some (hl, ps) \<Rightarrow> hl)"
      using fset_ok_empty_cell [OF f] fset_okD(2) [OF f] by (auto split: option.splits)
  next
    show "format_ok m (hl, ps)" if "T j = Some (hl, ps)" for j hl ps
      using fset_okD [OF f that] by (simp add: format_ok_def)
  qed (use reg mo b in \<open>simp_all add: without_empty\<close>)
  then have "clearing m pfs T (unat (0 :: u8)) m" by simp
  from pfs_destroy_from_spec [OF f mx this] obtain t where
    t: "pfs_destroy_from pfs 0 m = Some t" "clearing m pfs T ?max t" by auto
  have s: "sys_registered t" "mem_ok t" "table_block pfs \<in> set (blocks t)"
    and bl: "blocks t = without (\<Union>j < ?max. list_starts T j) (blocks m)"
    using t(2) by (auto simp: clearing_def)
  have starts: "(\<Union>j < ?max. list_starts T j) = fst ` (\<Union>fmt \<in> ran T. owned (fst fmt) (snd fmt))" (is "?S = ?O")
  proof -
    have own: "fst ` owned hl ps = insert (head_base hl) (set ps)" for hl ps
      by (auto simp: owned_def image_iff)
    have "list_starts T j = (\<Union>fmt \<in> set_option (T j). fst ` owned (fst fmt) (snd fmt))" for j
      by (cases "T j") (auto simp: list_starts_def own)
    moreover have "ran T = (\<Union>j < ?max. set_option (T j))"
      using fset_okD(1) [OF f] by (fastforce simp: ran_def elem_set)
    ultimately show ?thesis by (auto simp: image_UN)
  qed
  let ?t1 = "t\<lparr>blocks := without {list_head_p2 pfs} (blocks t)\<rparr>"
  have f1: "kfree (list_head_p2 pfs) t = Some ?t1" and nn: "list_head_p2 pfs \<noteq> NULL"
    using kfree_held [OF s(2)] s(3) by (auto simp: table_block_def)
  have mo1: "mem_ok ?t1" by (rule kfree_mem_ok [OF s(2) f1])
  have ne: "pfs_self pfs \<notin> fst ` fset_owned pfs T"
  proof
    assume "pfs_self pfs \<in> fst ` fset_owned pfs T"
    then obtain k where k: "(pfs_self pfs, k) \<in> fset_owned pfs T" by force
    have "fset_owned pfs T \<subseteq> set (blocks m)"
      using b fset_okD(3) [OF f] flist_owned by (force simp: fset_owned_def ran_def)
    with k mem_ok_same_start [OF mo self(1)] self(2) show False by blast
  qed
  then have "(pfs_self pfs, n) \<in> set (blocks ?t1)"
    using self(1) bl starts by (auto simp: fset_owned_def table_block_def)
  note f2 = kfree_held [OF mo1 this]
  let ?t2 = "?t1\<lparr>blocks := without {pfs_self pfs} (blocks ?t1)\<rparr>"
  have "sys_registered ?t1" using s(1) by (simp add: sys_registered_def)
  then have "pfs_destroy_protocol_format_set pfs m = Some ?t2"
    using t(1) f1 f2(1) s(1) b nn by (simp add: pfs_destroy_protocol_format_set_def)
  moreover have "blocks ?t2 = without (insert (pfs_self pfs) (fst ` fset_owned pfs T)) (blocks m)"
  proof -
    have "blocks ?t2 = without {pfs_self pfs} (without {list_head_p2 pfs} (without ?O (blocks m)))"
      using bl starts by simp
    also have "\<dots> = without (insert (pfs_self pfs) (fst ` fset_owned pfs T)) (blocks m)"
      unfolding without_without by (rule without_cong) (auto simp: fset_owned_def table_block_def)
    finally show ?thesis .
  qed
  moreover have "mem_ok ?t2" by (rule kfree_mem_ok [OF mo1 f2(1)])
  ultimately show ?thesis by blast
qed

text \<open>With more than 255 cells the 8-bit counter never reaches the bound.\<close>

lemma pfs_destroy_from_bound:
  assumes "pfs_destroy_from pfs i m = Some r"
  shows "\<not> 255 < proto_max_num pfs"
proof (rule pfs_destroy_from.raw_induct [where P = "\<lambda>pfs i m r. \<not> 255 < proto_max_num pfs", OF _ assms])
  fix f pfs and i :: u8 and m y
  assume IH: "\<And>pfs i m y. f pfs i m = Some y \<Longrightarrow> \<not> 255 < proto_max_num pfs"
    and run: "(if ucast i < proto_max_num pfs then do {
        hl \<leftarrow> rd_ptr (table_cell pfs (ucast i)) m;
        m1 \<leftarrow> (if hl \<noteq> NULL then do {
                 m2 \<leftarrow> pfs_del_proto_link_list pfs (ucast i) m;
                 wr_ptr (table_cell pfs (ucast i)) NULL m2 }
               else Some m);
        f pfs (i + 1) m1
      } else Some m) = Some y"
  show "\<not> 255 < proto_max_num pfs"
  proof
    assume big: "255 < proto_max_num pfs"
    moreover have "unat i < 2 ^ LENGTH(8)" by (rule unsigned_less)
    ultimately have "(ucast i :: u32) < proto_max_num pfs" by (simp add: word_less_nat_alt)
    with run obtain m1 where "f pfs (i + 1) m1 = Some y" by (auto simp: bind_eq_Some_conv split: if_splits)
    with IH big show False by blast
  qed
qed

lemma pfs_destroy_from_diverges: "255 < proto_max_num pfs \<Longrightarrow> pfs_destroy_from pfs i m = None"
  using pfs_destroy_from_bound by (cases "pfs_destroy_from pfs i m") blast+

end
