(* ===== verification/Map_Frame.thy ===== *)
theory Map_Frame
  imports Ownership Field_Index
begin

text \<open>
  The blocks that a hash map owns, and what its operations leave alone: the index of an
  analyzer, the format lists and the task maps live side by side in one store.
\<close>

section \<open>Ownership\<close>

definition map_table :: "hash_map \<Rightarrow> addr \<times> nat" where
  "map_table h = (hm_hlist h, 4 * unat (hm_bucket_size h))"

definition map_owned :: "hash_map \<Rightarrow> addr list list \<Rightarrow> (addr \<times> nat) set" where
  "map_owned h B = insert (map_table h) ((\<lambda>x. (x, sizeof_node h)) ` set (concat B))"

lemma chains_table: "chains_ok h m B \<Longrightarrow> map_table h = (hm_hlist h, 4 * length B)"
  by (simp add: map_table_def chains_ok_def)

lemma map_owned_blocks:
  assumes "chains_ok h m B"
  shows "map_owned h B \<subseteq> set (blocks m)"
  using chains_ok_facts(1) [OF assms] chains_ok_node [OF assms]
  by (auto simp: map_owned_def chains_table [OF assms])

lemma map_head_inside:
  assumes "chains_ok h m B" and "i < length B"
  shows "inside (map_table h) (head_of h i)"
  using unat_head_of [OF chains_ok_facts(2) [OF assms(1)] assms(2)] assms(2)
  by (simp add: inside_def chains_table [OF assms(1)])

lemma map_node_inside: "inside (x, sizeof_node h) x"
  by (rule inside_start) (simp add: sizeof_node_def sizeof_hash_map_node_def)

text \<open>The chains of a map are determined by the store.\<close>

lemma hseg_unique:
  assumes "hseg m q xs" and "hptr m (last (q # xs)) = NULL" and "hseg m q ys" and "hptr m (last (q # ys)) = NULL"
  shows "xs = ys"
  using assms
proof (induction xs arbitrary: q ys)
  case Nil
  then show ?case by (cases ys) auto
next
  case (Cons x xs)
  then obtain zs where ys: "ys = x # zs" by (cases ys) auto
  with Cons.prems Cons.IH [of x zs] show ?case by simp
qed

lemma chains_unique:
  assumes "chains_ok h m B" and "chains_ok h m C"
  shows "B = C"
proof (rule nth_equalityI)
  show l: "length B = length C" using assms by (simp add: chains_ok_def)
  fix i
  assume "i < length B"
  then have "hlist m (head_of h i) (B ! i)" "hlist m (head_of h i) (C ! i)"
    using chains_ok_facts(7) [OF assms(1)] chains_ok_facts(7) [OF assms(2)] l by auto
  then show "B ! i = C ! i" unfolding hlist_def by (blast intro: hseg_unique)
qed

section \<open>Frames of a map\<close>

lemma hmap_keeps:
  assumes k: "keeps A m m'" and ok: "hmap_ok h m B" and d: "A \<inter> map_owned h B = {}"
  shows "hmap_ok h m' B" and "hmap_abs h m' B = hmap_abs h m B"
proof -
  have co: "chains_ok h m B" using ok by (simp add: hmap_ok_def)
  have mo': "mem_ok m'" using keeps_ok [OF k] by simp
  have tb: "map_table h \<in> set (blocks m)" "map_table h \<notin> A"
    and nb: "\<And>x. x \<in> set (concat B) \<Longrightarrow> (x, sizeof_node h) \<in> set (blocks m) \<and> (x, sizeof_node h) \<notin> A"
    using map_owned_blocks [OF co] d by (auto simp: map_owned_def)
  have head: "same_cells m m' (head_of h i)" if "i < length B" for i
    by (rule keeps_cells [OF k tb map_head_inside [OF co that]])
  have node: "same_cells m m' x" "(x, sizeof_node h) \<in> set (blocks m')" if "x \<in> set (concat B)" for x
    using keeps_cells [OF k _ _ map_node_inside] keeps_block [OF k] nb [OF that] by blast+
  have "hlist m' (head_of h i) (B ! i) \<and> (\<forall>x \<in> set (B ! i). node_ok h m' i x)" if i: "i < length B" for i
  proof -
    have sub: "x \<in> set (concat B)" if "x \<in> set (B ! i)" for x using that i by auto
    have "hlist m' (head_of h i) (B ! i)"
    proof (rule hlist_transfer [OF chains_ok_facts(7) [OF co i]])
      have "(hm_hlist h, 4 * length B) \<in> set (blocks m')"
        using keeps_block [OF k tb] by (simp add: chains_table [OF co])
      then show "valid m' (head_of h i) sizeof_hlist_head"
        by (rule head_of_valid [OF _ chains_ok_facts(2) [OF co] i])
      show "valid m' x sizeof_hlist_node" if "x \<in> set (B ! i)" for x
        by (rule valid_block [OF node(2) [OF sub [OF that]] sizeof_node_ge])
      show "hptr m' a = hptr m a \<and> hpprev m' a = hpprev m a" if "a \<in> set (head_of h i # B ! i)" for a
        using that head [OF i] node(1) [OF sub] by (auto simp: same_cells_def)
    qed
    moreover have "node_ok h m' i x" if x: "x \<in> set (B ! i)" for x
      using chains_ok_facts(8) [OF co i x] node [OF sub [OF x]] by (simp add: node_ok_def same_cells_def)
    ultimately show ?thesis by blast
  qed
  moreover have "(hm_hlist h, 4 * length B) \<in> set (blocks m')"
    using keeps_block [OF k tb] by (simp add: chains_table [OF co])
  ultimately have "chains_ok h m' B" using co unfolding chains_ok_def by blast
  then show "hmap_ok h m' B" using ok by (simp add: hmap_ok_def)
  have key: "hn_key m' x = hn_key m x" if "x \<in> set (concat B)" for x
    using node(1) [OF that] by (simp add: same_cells_def)
  have "find (\<lambda>x. node_key h m' x = k) xs = find (\<lambda>x. node_key h m x = k) xs" if "set xs \<subseteq> set (concat B)" for xs k
    using that key by (induction xs) (auto simp: node_key_def)
  then have f: "find (\<lambda>x. node_key h m' x = k) (concat B) = find (\<lambda>x. node_key h m x = k) (concat B)" for k
    by simp
  have "hmap_abs h m' B k = hmap_abs h m B k" for k
  proof (cases "find (\<lambda>x. node_key h m x = k) (concat B)")
    case None
    then show ?thesis using f [of k] by (simp add: hmap_abs_def)
  next
    case (Some x)
    then have "x \<in> set (concat B)" by (metis find_Some_iff nth_mem)
    then show ?thesis using Some f [of k] key by (simp add: hmap_abs_def node_value_def)
  qed
  then show "hmap_abs h m' B = hmap_abs h m B" by (simp add: fun_eq_iff)
qed

text \<open>An operation on a map, in terms of the whole store.\<close>

lemma keeps_hm_touches:
  assumes t: "hm_touches A m m'" and mo: "mem_ok m" "mem_ok (m' :: 'z pmem_scheme)"
    and a: "\<And>a b. a \<in> A \<Longrightarrow> b \<in> set (blocks m) \<Longrightarrow> inside b a \<Longrightarrow> b \<in> W"
    and starts: "\<And>b s. b \<in> A \<Longrightarrow> (b, s) \<in> set (blocks m) \<Longrightarrow> (b, s) \<in> W"
  shows "keeps W m m'"
  unfolding keeps_def
proof (intro conjI ballI allI impI mo)
  show "allocator_modules m' = allocator_modules m" using t by (simp add: hm_touches_def)
  fix p
  assume p: "p \<in> set (blocks m) - W"
  obtain b s where bs: "p = (b, s)" by fastforce
  then show "p \<in> set (blocks m')" using t p starts [of b s] by (auto simp: hm_touches_def)
  fix c
  assume "inside p c"
  with p a have "c \<notin> A" by blast
  then show "same_cells m m' c"
    using t by (cases m, cases m') (simp add: hm_touches_def same_cells_def)
qed

section \<open>Insertion and creation\<close>

lemma fill_node_blocks: "fill_node p d n k m = Some m' \<Longrightarrow> blocks m' = blocks m \<and> ticks m' = ticks m"
  by (auto simp: fill_node_def split: if_splits)

lemma INIT_HLIST_NODE_blocks: "INIT_HLIST_NODE p m = Some m' \<Longrightarrow> blocks m' = blocks m \<and> ticks m' = ticks m"
  by (auto simp: INIT_HLIST_NODE_def haccess_defs bind_eq_Some_conv split: if_splits)

lemma hlist_add_head_blocks: "hlist_add_head p q m = Some m' \<Longrightarrow> blocks m' = blocks m \<and> ticks m' = ticks m"
  by (auto simp: hlist_add_head_def haccess_defs bind_eq_Some_conv split: if_splits)

lemma hash_map_insert_blocks:
  assumes "hash_map_insert km h data (m :: 'a hmem_scheme) = Some (r, h', m')" and "sys_registered m" and "sys_allocator (hm_allocator h)"
    and "kmalloc km (unat (word_of_nat sizeof_hash_map_node + hm_data_size h)) m = (p, m1)"
  shows "blocks m' = blocks m1 \<and> ticks m' = ticks m1"
proof (cases "p = NULL")
  case True
  with assms show ?thesis by (simp add: hash_map_insert_def Let_def)
next
  case False
  define rest where "rest = (\<lambda>(m3 :: 'a hmem_scheme) key. do {
       b \<leftarrow> hm_hash_func h key (hm_key_size h) (hm_bucket_size h);
       if hm_bucket_size h \<le> b then Some (-1 :: int, h, m3)
       else do {
         m4 \<leftarrow> hlist_add_head p (bucket_head (hm_hlist h) b) m3;
         if hlist_node_p (hm_begin h) = NULL \<or> b \<le> bucket_pos (hm_begin h)
         then do {
           f \<leftarrow> rd_first (bucket_head (hm_hlist h) b) m4;
           Some (0, h\<lparr>hm_begin := hash_map_pos_init f b (hm_hlist h) (hm_self h)\<rparr>, m4) }
         else Some (0, h, m4)
       } })"
  have "hash_map_insert km h data m = do {
       m2 \<leftarrow> fill_node p data (hm_data_size h) (hm_key_size h) m1;
       m3 \<leftarrow> INIT_HLIST_NODE p m2;
       key \<leftarrow> rd_node_key p m3;
       rest m3 key }"
    using assms(2-4) False by (simp add: hash_map_insert_def Let_def rest_def)
  with assms(1) obtain m2 m3 key where
    s: "fill_node p data (hm_data_size h) (hm_key_size h) m1 = Some m2" "INIT_HLIST_NODE p m2 = Some m3"
      "rest m3 key = Some (r, h', m')" by (auto simp: bind_eq_Some_conv)
  have "m' = m3 \<or> (\<exists>b. hlist_add_head p b m3 = Some m')"
    using s(3) unfolding rest_def by (auto simp: bind_eq_Some_conv split: if_split_asm)
  then show ?thesis
    using fill_node_blocks [OF s(1)] INIT_HLIST_NODE_blocks [OF s(2)] hlist_add_head_blocks by fastforce
qed

lemma hash_map_insert_frame:
  assumes env: "hmap_env km h m" and ok: "hmap_ok h m B" and hs: "hash_ok h"
    and data: "unat (hm_data_size h) \<le> length data"
    and a: "kmalloc km (sizeof_node h) m = (p, m1)" "p \<noteq> NULL"
  shows "\<exists>h' m' B' beg. hash_map_insert km h data m = Some (0, h', m') \<and> h' = h\<lparr>hm_begin := beg\<rparr> \<and>
    hmap_ok h' m' B' \<and> hmap_env km h' m' \<and> set (concat B') = insert p (set (concat B)) \<and>
    keeps (map_owned h B) m (m' :: 'z pmem_scheme) \<and> blocks m' = (p, sizeof_node h) # blocks m \<and>
    ticks m' = Suc (ticks m)"
proof -
  have co: "chains_ok h m B" using ok by (simp add: hmap_ok_def)
  from hash_map_insert_spec [OF assms] obtain h' m' P c Q beg where
    r: "hash_map_insert km h data m = Some (0, h', m')" "B = P @ c # Q" "h' = h\<lparr>hm_begin := beg\<rparr>"
      "hmap_ok h' m' (P @ (p # c) # Q)" "hmap_env km h' m'"
      "hm_touches (insert p (insert (head_of h (length P)) (set c))) m m'" by blast
  have sz: "unat (word_of_nat sizeof_hash_map_node + hm_data_size h) = sizeof_node h"
    using chains_ok_facts(4) [OF co] by (simp add: sizeof_node_def sizeof_hash_map_node_def unat_word_ariths)
  have e: "sys_registered m" "sys_allocator (hm_allocator h)" "kmalloc_ok km" "mem_ok m" "mem_ok m'"
    using env r(5) by (auto simp: hmap_env_def)
  from hash_map_insert_blocks [OF r(1) e(1,2)] a(1) sz kmalloc_some [OF a]
  have b: "blocks m' = (p, sizeof_node h) # blocks m" "ticks m' = Suc (ticks m)" by auto
  have pfresh: "p \<notin> fst ` set (blocks m)" "\<And>q. q \<in> set (blocks m) \<Longrightarrow> \<not> inside q p"
  proof -
    show ni: "\<not> inside q p" if q: "q \<in> set (blocks m)" for q
    proof
      assume "inside q p"
      moreover have "inside (p, sizeof_node h) p" by (rule map_node_inside)
      ultimately have "q = (p, sizeof_node h)"
        using inside_disjoint [OF e(5), of q "(p, sizeof_node h)" p] q b(1) by simp
      with q e(5) b(1) blocks_ok_new show False by metis
    qed
    show "p \<notin> fst ` set (blocks m)"
    proof
      assume "p \<in> fst ` set (blocks m)"
      then obtain s where "(p, s) \<in> set (blocks m)" by force
      moreover from this have "inside (p, s) p"
        using blocks_ok_good [OF e(4)] by (auto simp: good_block_def inside_def)
      ultimately show False using ni by blast
    qed
  qed
  have "keeps (map_owned h B) m m'"
  proof (rule keeps_hm_touches [OF r(6) e(4,5)])
    have lP: "length P < length B" using r(2) by simp
    have nin: "(x, sizeof_node h) \<in> map_owned h B" if "x \<in> set c" for x using that r(2) by (auto simp: map_owned_def)
    have ob: "map_owned h B \<subseteq> set (blocks m)" by (rule map_owned_blocks [OF co])
    have tin: "map_table h \<in> map_owned h B" by (simp add: map_owned_def)
    show 1: "b \<in> map_owned h B"
      if "a \<in> insert p (insert (head_of h (length P)) (set c))" "b \<in> set (blocks m)" "inside b a" for a b
    proof -
      have "a = p \<or> a = head_of h (length P) \<or> a \<in> set c" using that(1) by simp
      then consider "a = p" | "a = head_of h (length P)" | "a \<in> set c" by blast
      then show ?thesis
      proof cases
        case 1
        then show ?thesis using pfresh(2) that(2,3) by blast
      next
        case 2
        have "map_table h = b"
          by (rule inside_disjoint [OF e(4) _ that(2) map_head_inside [OF co lP]])
            (use ob tin 2 that(3) in auto)
        then show ?thesis using tin by simp
      next
        case 3
        have "(a, sizeof_node h) = b"
          by (rule inside_disjoint [OF e(4) _ that(2) map_node_inside that(3)]) (use ob nin 3 in auto)
        then show ?thesis using nin 3 by auto
      qed
    qed
    show "(b, s) \<in> map_owned h B"
      if "b \<in> insert p (insert (head_of h (length P)) (set c))" "(b, s) \<in> set (blocks m)" for b s
      by (rule 1 [OF that])
        (use blocks_ok_good [OF e(4) that(2)] in \<open>auto simp: good_block_def inside_def\<close>)
  qed
  moreover have "set (concat (P @ (p # c) # Q)) = insert p (set (concat B))" using r(2) by auto
  ultimately show ?thesis using r b by blast
qed

lemma hash_map_init_frame:
  assumes env: "hmap_env km h m" and bs: "0 < unat bsz" "4 * unat bsz < 2 ^ 32"
    and a: "kmalloc km (4 * unat bsz) m = (p, m1)" "p \<noteq> NULL"
    and r: "hash_map_init km h ksz dsz bsz hash cmp m = Some (c, h', m')"
  shows "blocks m' = (p, 4 * unat bsz) # blocks m \<and> ticks m' = Suc (ticks m) \<and> keeps {} m (m' :: 'z pmem_scheme) \<and>
    hm_allocator h' = hm_allocator h"
proof -
  let ?n = "4 * unat bsz"
  have e: "sys_registered m" "sys_allocator (hm_allocator h)" "kmalloc_ok km" "mem_ok m"
    using env by (auto simp: hmap_env_def)
  have n: "unat (word_of_nat sizeof_hlist_head * bsz) = ?n"
    using bs(2) by (simp add: sizeof_hlist_head_def unat_word_ariths)
  let ?m = "m1\<lparr>hptr := (\<lambda>q. if unat p \<le> unat q \<and> unat q < unat p + ?n then NULL else hptr m1 q)\<rparr>"
  have m1: "blocks m1 = (p, ?n) # blocks m" "ticks m1 = Suc (ticks m)" using kmalloc_some [OF a] by simp_all
  have mo1: "mem_ok m1" by (rule kmalloc_mem_ok [OF e(3,4) _ a(1)]) (use bs(1) in simp)
  have eq: "m' = ?m" "hm_allocator h' = hm_allocator h"
    using r e a(1) n bs(1) by (auto simp: hash_map_init_def Let_def clear_heads_def bind_eq_Some_conv split: if_splits)
  have "keeps {(p, ?n)} m1 ?m"
    by (rule keeps_local [OF mo1]) (use m1 in \<open>auto simp: same_cells_def inside_def\<close>)
  moreover have "keeps {(p, ?n)} m m1" by (rule keeps_kmalloc [OF e(3,4) a(1)]) (use bs(1) in simp)
  ultimately have "keeps {(p, ?n)} m ?m" using keeps_trans by blast
  then have "keeps {} m ?m" by (rule keeps_mono) (use blocks_ok_new [of "(p, ?n)"] mo1 m1(1) in auto)
  then show ?thesis using eq m1 by simp
qed

end
