(* ===== verification/Analyzer_Init.thy ===== *)
theory Analyzer_Init
  imports Format_Set Map_Frame
begin

text \<open>
  The life cycle of an analyzer: finding the format of a protocol number in the format set,
  copying it, and building the index of the copied fields. The result is the starting point of
  the properties of frames: the analyzer's fields are the format's, and looking a name up gives
  the last field of that name.
\<close>

section \<open>Allocations that succeed\<close>

text \<open>
  \<open>served km ns t bs\<close>: the next allocations, of the sizes \<open>ns\<close> and with nothing released in
  between, succeed.
\<close>

fun served :: "kmalloc_fn \<Rightarrow> nat list \<Rightarrow> nat \<Rightarrow> (addr \<times> nat) list \<Rightarrow> bool" where
  "served km [] t bs = True"
| "served km (n # ns) t bs = (km t bs n \<noteq> NULL \<and> served km ns (Suc t) ((km t bs n, n) # bs))"

definition supplies :: "kmalloc_fn \<Rightarrow> nat list \<Rightarrow> 'z mem_scheme \<Rightarrow> bool" where
  "supplies km ns m = served km ns (ticks m) (blocks m)"

lemma supplies_Cons:
  assumes "supplies km (n # ns) m"
  obtains p m1 where "kmalloc km n m = (p, m1)" and "p \<noteq> NULL"
    and "\<And>m'. blocks m' = (p, n) # blocks m \<Longrightarrow> ticks m' = Suc (ticks m) \<Longrightarrow> supplies km ns m'"
proof
  show "kmalloc km n m = (fst (kmalloc km n m), snd (kmalloc km n m))" by simp
  show "fst (kmalloc km n m) \<noteq> NULL" using assms by (simp add: supplies_def kmalloc_def Let_def)
  show "supplies km ns m'" if "blocks m' = (fst (kmalloc km n m), n) # blocks m" "ticks m' = Suc (ticks m)" for m'
    using assms that by (simp add: supplies_def kmalloc_def Let_def split: if_splits)
qed

text \<open>The bump allocator of the witnesses succeeds as long as the address space lasts.\<close>

definition bump_top :: "(addr \<times> nat) list \<Rightarrow> nat" where
  "bump_top bs = foldr (\<lambda>(b, s) x. max (unat b + s) x) bs 3221225472"

lemma bump_address:
  assumes "bump_top bs + 7 + n < 2 ^ 32"
  shows "bump t bs n \<noteq> NULL" and "unat (bump t bs n) + n \<le> bump_top bs + 7 + n"
    and "bump_top bs \<le> unat (bump t bs n)"
proof -
  define a where "a = 8 * ((bump_top bs + 7) div 8)"
  have le: "bump_top bs \<le> a" "a \<le> bump_top bs + 7" unfolding a_def by presburger+
  have b: "3221225472 \<le> bump_top bs" unfolding bump_top_def by (rule foldr_max_base)
  have "bump t bs n = (if a + n \<le> 4294967296 \<and> a < 4294967296 then word_of_nat a else NULL)"
    by (simp add: bump_def Let_def a_def bump_top_def)
  then have e: "bump t bs n = word_of_nat a" using assms le by simp
  have u: "unat (bump t bs n) = a" unfolding e using assms le by (intro unat_word_of_nat) simp
  show "bump t bs n \<noteq> NULL" using u le b by auto
  show "unat (bump t bs n) + n \<le> bump_top bs + 7 + n" "bump_top bs \<le> unat (bump t bs n)" using u le by simp_all
qed

lemma served_bump:
  "bump_top bs + sum_list (map (\<lambda>n. n + 7) ns) < 2 ^ 32 \<Longrightarrow> served bump ns t bs"
proof (induction ns arbitrary: t bs)
  case (Cons n ns)
  note a = bump_address [of bs n t]
  have "bump_top ((bump t bs n, n) # bs) = max (unat (bump t bs n) + n) (bump_top bs)" by (simp add: bump_top_def)
  then have "bump_top ((bump t bs n, n) # bs) \<le> bump_top bs + 7 + n" using a Cons.prems by simp
  with Cons a(1) show ?case by simp
qed simp

section \<open>Finding the format\<close>

lemma pa_find_protocol_format_spec:
  assumes "pfs_p pa = Some pfs" and "mem_ok m" and f: "fset_ok m pfs T"
    and r: "proto_base_addr pfs \<le> protocol_num pa"
      "unat (protocol_num pa - proto_base_addr pfs) < unat (proto_max_num pfs)"
    and nw: "unat (proto_base_addr pfs) + unat (proto_max_num pfs) < 2 ^ 32"
  shows "pa_find_protocol_format pa m = (case T (unat (protocol_num pa - proto_base_addr pfs)) of
     Some (hl, ps) \<Rightarrow> Some (0, pa\<lparr>pf_list_head_p := hl\<rparr>) | None \<Rightarrow> Some (-1, pa\<lparr>pf_list_head_p := NULL\<rparr>))"
proof -
  let ?i = "protocol_num pa - proto_base_addr pfs"
  have u: "unat (proto_base_addr pfs + proto_max_num pfs) = unat (proto_base_addr pfs) + unat (proto_max_num pfs)"
    using nw by (simp add: unat_word_ariths)
  have "unat ?i = unat (protocol_num pa) - unat (proto_base_addr pfs)"
    using r(1) by (simp add: unat_sub)
  then have c: "pa_check_protocol_num pa = Some 0"
    using assms(1) r u by (simp add: pa_check_protocol_num_def word_less_nat_alt word_le_nat_alt not_less)
  have tb: "table_block pfs \<in> set (blocks m)" using fset_ok_base [OF f] by simp
  have p: "rd_ptr (table_cell pfs ?i) m = Some (ptrs m (table_cell pfs ?i))"
    using table_cell_facts(3) [OF assms(2) tb r(2)] by (simp add: rd_ptr_def)
  show ?thesis
  proof (cases "T (unat ?i)")
    case None
    then have "ptrs m (table_cell pfs ?i) = NULL" using fset_ok_empty_cell [OF f None r(2)] by simp
    with None c p assms(1) show ?thesis by (simp add: pa_find_protocol_format_def)
  next
    case (Some fm)
    obtain hl ps where T: "T (unat ?i) = Some (hl, ps)" using Some by (cases fm) auto
    have "ptrs m (table_cell pfs ?i) = hl" using fset_okD(2) [OF f T] by simp
    moreover have "hl \<noteq> NULL" using head_inside(6) [OF assms(2)] fset_okD(3) [OF f T] by (auto simp: flist_def)
    ultimately show ?thesis using T c p assms(1) by (simp add: pa_find_protocol_format_def)
  qed
qed

section \<open>Copying the format\<close>

definition copying ::
  "kmalloc_fn \<Rightarrow> 'z pmem_scheme \<Rightarrow> addr \<Rightarrow> addr list \<Rightarrow> addr \<Rightarrow> nat list \<Rightarrow> addr list \<Rightarrow> 'z pmem_scheme \<Rightarrow> bool" where
  "copying km m hl ps nhl rest qs s =
     (\<exists>us cs. ps = us @ qs \<and> sys_registered s \<and> keeps {} m s \<and> flist s nhl cs \<and>
        infos s cs = infos m us \<and> owned nhl cs \<inter> set (blocks m) = {} \<and>
        supplies km (replicate (length qs) sizeof_proto_info @ rest) s)"

lemma copy_field_step:
  fixes m s :: "'z pmem_scheme"
  assumes km: "kmalloc_ok km" and al: "sys_allocator al" and fl: "flist m hl ps"
    and c: "copying km m hl ps nhl rest (q # qs) s"
  shows "\<exists>t. copy_field km al nhl (node_of q) s = Some t \<and> copying km m hl ps nhl rest qs t"
proof -
  let ?n = sizeof_proto_info
  from c obtain us cs where s: "ps = us @ q # qs" "sys_registered s" "keeps {} m s" "flist s nhl cs"
    "infos s cs = infos m us" "owned nhl cs \<inter> set (blocks m) = {}"
    "supplies km (?n # (replicate (length qs) ?n @ rest)) s"
    by (auto simp: copying_def)
  have mos: "mem_ok s" using keeps_ok [OF s(3)] by simp
  have n0: "0 < ?n" by (simp add: sizeof_proto_info_def)
  from supplies_Cons [OF s(7)] obtain p s1 where a: "kmalloc km ?n s = (p, s1)" "p \<noteq> NULL"
    and su: "\<And>m' :: 'z pmem_scheme. blocks m' = (p, ?n) # blocks s \<Longrightarrow> ticks m' = Suc (ticks s) \<Longrightarrow>
      supplies km (replicate (length qs) ?n @ rest) m'" by blast
  have b1: "blocks s1 = (p, ?n) # blocks s" "ticks s1 = Suc (ticks s)" "pinfo s1 = pinfo s"
    using kmalloc_some [OF a] by simp_all
  have mo1: "mem_ok s1" by (rule kmalloc_mem_ok [OF km mos n0 a(1)])
  have pb: "(p, ?n) \<in> set (blocks s1)" using b1 by simp
  have new: "(p, ?n) \<notin> set (blocks s)" using blocks_ok_new mo1 b1(1) by metis
  have fls: "flist s hl ps" "\<And>x. x \<in> set ps \<Longrightarrow> pinfo s x = pinfo m x"
    using flist_keeps(1,2) [OF s(3) fl] by simp_all
  have qb: "(q, ?n) \<in> set (blocks s)" using fls(1) s(1) by (auto simp: flist_def)
  then have rq: "rd_info q s1 = Some (pinfo m q)"
    using node_inside(4) [OF mo1, of q] b1 fls(2) [of q] s(1) by (simp add: rd_info_def)
  let ?s2 = "s1\<lparr>pinfo := (pinfo s1)(p := pinfo m q)\<rparr>"
  have k1: "keeps {} s s1" by (rule keeps_kmalloc [OF km mos a(1) n0])
  have fl2: "flist ?s2 nhl cs" using flist_keeps(1) [OF k1 s(4)] by simp
  have pcs: "p \<notin> set cs" using new s(4) by (auto simp: flist_def)
  have "mem_ok ?s2" "(p, ?n) \<in> set (blocks ?s2)" using mo1 pb by simp_all
  from pfs_add_list_spec [OF this(1) fl2 this(2) pcs] obtain t where
    t: "pfs_add_list (node_of p) nhl ?s2 = Some t" "flist t nhl (cs @ [p])" "pinfo t = pinfo ?s2"
      "blocks t = blocks ?s2" "ticks t = ticks ?s2" "keeps (insert (p, ?n) (owned nhl cs)) ?s2 t" by blast
  have u: "unat (word_of_nat ?n :: u32) = ?n" by (simp add: sizeof_proto_info_def)
  have run: "copy_field km al nhl (node_of q) s = Some t"
    using a al s(2) rq t(1) node_inside(4) [OF mo1 pb] u by (simp add: copy_field_def wr_info_def)
  have newm: "(p, ?n) \<notin> set (blocks m)" using s(3) new keeps_block by blast
  have "keeps {} m t"
  proof -
    have "keeps {(p, ?n)} s1 ?s2" by (rule keeps_cell_update [OF mo1 pb node_inside(2) [OF mo1 pb]])
    then have "keeps {(p, ?n)} s ?s2" by (rule keeps_trans [OF keeps_kmalloc [OF km mos a(1) n0]]) auto
    then have "keeps (insert (p, ?n) (owned nhl cs)) s ?s2" by (rule keeps_mono) auto
    then have "keeps (insert (p, ?n) (owned nhl cs)) s t" by (rule keeps_trans [OF _ t(6)]) auto
    with keeps_mono [OF s(3)] have "keeps (insert (p, ?n) (owned nhl cs)) m t"
      by (rule keeps_trans) auto
    then show ?thesis by (rule keeps_mono) (use newm s(6) in auto)
  qed
  moreover have "infos t (cs @ [p]) = infos m (us @ [q])"
    using t(3) b1(3) pcs s(5) by (auto simp: infos_def)
  moreover have "owned nhl (cs @ [p]) \<inter> set (blocks m) = {}" using s(6) newm by (auto simp: owned_def)
  moreover have "sys_registered t" using keeps_ok [OF t(6)] s(2) kmalloc_modules [OF a(1)] by (simp add: sys_registered_def)
  moreover have "supplies km (replicate (length qs) ?n @ rest) t" by (rule su) (use t(4,5) b1 in simp_all)
  moreover have "ps = (us @ [q]) @ qs" using s(1) by simp
  ultimately have "copying km m hl ps nhl rest qs t" unfolding copying_def using t(2) by blast
  with run show ?thesis by blast
qed

lemma pa_copy_protocol_format_spec:
  fixes m :: "'z pmem_scheme"
  assumes km: "kmalloc_ok km" and reg: "sys_registered m" and al: "sys_allocator (pa_allocator pa)" and mo: "mem_ok m"
    and fl: "flist m (pf_list_head_p pa) ps"
    and su: "supplies km (sizeof_proto_head # replicate (length ps) sizeof_proto_info @ rest) m"
  shows "\<exists>nhl cs m'. pa_copy_protocol_format km pa m = Some (0, pa\<lparr>pa_list_head_p := nhl\<rparr>, m') \<and>
    flist m' nhl cs \<and> infos m' cs = infos m ps \<and> owned nhl cs \<inter> set (blocks m) = {} \<and>
    keeps {} m m' \<and> sys_registered m' \<and> supplies km rest m' \<and> nhl \<noteq> NULL"
proof -
  let ?n = sizeof_proto_head and ?hl = "pf_list_head_p pa" and ?al = "pa_allocator pa"
  have n0: "0 < ?n" by (simp add: sizeof_proto_head_def)
  from supplies_Cons [OF su] obtain h m1 where a: "kmalloc km ?n m = (h, m1)" "h \<noteq> NULL"
    and su1: "\<And>m' :: 'z pmem_scheme. blocks m' = (h, ?n) # blocks m \<Longrightarrow> ticks m' = Suc (ticks m) \<Longrightarrow>
      supplies km (replicate (length ps) sizeof_proto_info @ rest) m'" by blast
  have hb: "(head_base ?hl, ?n) \<in> set (blocks m)" using fl by (simp add: flist_def)
  have hl0: "?hl \<noteq> NULL" by (rule head_inside(6) [OF mo hb])
  have mo1: "mem_ok m1" by (rule kmalloc_mem_ok [OF km mo n0 a(1)])
  have b1: "blocks m1 = (h, ?n) # blocks m" "ticks m1 = Suc (ticks m)" using kmalloc_some [OF a] by simp_all
  have new: "(h, ?n) \<notin> set (blocks m)" using blocks_ok_new mo1 b1(1) by metis
  let ?nhl = "h + offset_head_list"
  have hb1: "(head_base ?nhl, ?n) \<in> set (blocks m1)" "(head_base ?hl, ?n) \<in> set (blocks m1)" using b1 hb by simp_all
  note v = head_inside [OF mo1 hb1(1), simplified] and w = head_inside [OF mo1 hb1(2)]
  let ?m4 = "m1\<lparr>hl_allocator := (hl_allocator m1)(h := ?al), hl_count := (hl_count m1)(h := 0)\<rparr>"
  have "valid ?m4 ?nhl sizeof_list_head" using v(3) by simp
  from INIT_LIST_HEAD_spec [OF this] obtain m5 where
    i: "INIT_LIST_HEAD ?nhl ?m4 = Some m5" "dlist m5 ?nhl []" "only_links {?nhl} ?m4 m5" by blast
  have e: "blocks m5 = (h, ?n) # blocks m" "ticks m5 = Suc (ticks m)" "hl_allocator m5 h = ?al" "pinfo m5 = pinfo m1"
    "allocator_modules m5 = allocator_modules m1"
    using i(3) b1 by (auto simp: only_links_def)
  have fl5: "flist m5 ?nhl []" using i(2) e al by (simp add: flist_def)
  have "keeps {} m m5"
  proof -
    have "keeps {(h, ?n)} m1 ?m4"
      by (rule keeps_local [OF mo1]) (use b1 v(2) in \<open>auto simp: same_cells_def\<close>)
    then have "keeps {(h, ?n)} m ?m4" by (rule keeps_trans [OF keeps_kmalloc [OF km mo a(1) n0]]) simp
    moreover have "keeps {(h, ?n)} ?m4 m5"
      by (rule keeps_only_links [OF _ i(3)]) (use mo1 b1 v(1) in auto)
    ultimately have "keeps {(h, ?n)} m m5" by (rule keeps_trans) simp
    then show ?thesis by (rule keeps_mono) (use new in auto)
  qed
  note k5 = this
  have reg5: "sys_registered m5" using reg e(5) kmalloc_modules [OF a(1)] by (simp add: sys_registered_def)
  have start: "copying km m ?hl ps ?nhl rest ps m5"
    unfolding copying_def
    by (intro exI [of _ "[]"] conjI) (use reg5 k5 fl5 new su1 [OF e(1,2)] in \<open>simp_all add: infos_def owned_def\<close>)
  let ?body = "copy_field km ?al ?nhl"
  have rd: "rd_next ?hl s = Some (hd (map node_of ps @ [?hl]))"
    "\<And>us y ys. ps = us @ y # ys \<Longrightarrow> rd_next (node_of y) s = Some (hd (map node_of ys @ [?hl]))"
    if "copying km m ?hl ps ?nhl rest qs s" for qs s
  proof -
    have "keeps {} m s" using that by (auto simp: copying_def)
    from flist_keeps(1) [OF this fl] have d: "dlist s ?hl (map node_of ps)" by (simp add: flist_def)
    then show "rd_next ?hl s = Some (hd (map node_of ps @ [?hl]))" by (rule dlist_reads)
    show "rd_next (node_of y) s = Some (hd (map node_of ys @ [?hl]))" if "ps = us @ y # ys" for us y ys
      using dlist_reads(2) [OF d, of "map node_of us" "node_of y" "map node_of ys"] that by simp
  qed
  have tail: "\<exists>us. ps = us @ qs" if "copying km m ?hl ps ?nhl rest qs s" for qs s
    using that by (auto simp: copying_def)
  have "list_for_each_safe rd_next ?body ?hl m5 = foldM ?body (map node_of ps) m5"
  proof (rule list_for_each_safe_foldM [where I = "\<lambda>ys s. \<exists>qs. ys = map node_of qs \<and> copying km m ?hl ps ?nhl rest qs s"])
    show "?hl \<notin> set (map node_of ps)" using flist_distinct [OF fl] by simp
    show "rd_next ?hl m5 = Some (hd (map node_of ps @ [?hl]))" by (rule rd(1) [OF start])
    fix y ys s t
    assume "\<exists>qs. y # ys = map node_of qs \<and> copying km m ?hl ps ?nhl rest qs s"
    then obtain q qs where q: "y = node_of q" "ys = map node_of qs" "copying km m ?hl ps ?nhl rest (q # qs) s"
      by (auto simp: Cons_eq_map_conv)
    show "rd_next y s = Some (hd (ys @ [?hl]))" using rd(2) [OF q(3)] tail [OF q(3)] q(1,2) by auto
    show "\<exists>qs. ys = map node_of qs \<and> copying km m ?hl ps ?nhl rest qs t" if "?body y s = Some t"
      using copy_field_step [OF km al fl q(3)] that q(1,2) by auto
  next
    show "rd_next ?hl s \<noteq> None" if "\<exists>qs. [] = map node_of qs \<and> copying km m ?hl ps ?nhl rest qs s" for s
      using that rd(1) by blast
  qed (use start in blast)
  moreover have "\<exists>t. foldM ?body (map node_of ps) m5 = Some t \<and> (\<exists>qs. [] = map node_of qs \<and> copying km m ?hl ps ?nhl rest qs t)"
    by (rule foldM_total [where I = "\<lambda>ys s. \<exists>qs. ys = map node_of qs \<and> copying km m ?hl ps ?nhl rest qs s"])
      (use start copy_field_step [OF km al fl] in \<open>fastforce simp: Cons_eq_map_conv\<close>)+
  ultimately obtain t where t: "list_for_each_safe rd_next ?body ?hl m5 = Some t" "copying km m ?hl ps ?nhl rest [] t" by auto
  have u: "unat (word_of_nat ?n :: u32) = ?n" by (simp add: sizeof_proto_head_def)
  have "pa_copy_protocol_format km pa m = Some (0, pa\<lparr>pa_list_head_p := ?nhl\<rparr>, t)"
    using hl0 a reg al u w(4) v(4) i(1) t(1)
    by (simp add: pa_copy_protocol_format_def Let_def paccess_defs)
  with t(2) v(6) show ?thesis by (auto simp: copying_def)
qed

section \<open>Building the index\<close>

definition index_ok ::
  "kmalloc_fn \<Rightarrow> (bytes \<Rightarrow> addr option) \<Rightarrow> hash_map \<Rightarrow> addr list list \<Rightarrow> 'z pmem_scheme \<Rightarrow> bool" where
  "index_ok km f h B m =
     (hmap_env km h m \<and> hash_ok h \<and> hm_key_size h = INDEX_KEY_SIZE \<and>
      hm_data_size h = INDEX_DATA_SIZE + INDEX_KEY_SIZE \<and> hmap_ok h m B \<and>
      hmap_abs h m B = (\<lambda>k. map_option addr_bytes (f k)))"

lemma index_names: "index_ok km f h B m \<Longrightarrow> pa_hmap pa = Some h \<Longrightarrow> names km f pa m"
  by (auto simp: index_ok_def names_def hmap_repr_def INDEX_KEY_SIZE_def)

lemma index_keeps:
  assumes "keeps A m m'" and "index_ok km f h B m" and "A \<inter> map_owned h B = {}"
  shows "index_ok km f h B m'"
proof -
  have "hmap_ok h m B" using assms(2) by (simp add: index_ok_def)
  note k = hmap_keeps [OF assms(1) this assms(3)]
  have "hmap_env km h m'"
    using assms(2) keeps_ok [OF assms(1)] by (auto simp: index_ok_def hmap_env_def)
  with k assms(2) show ?thesis by (simp add: index_ok_def)
qed

lemma index_insert:
  assumes ix: "index_ok km f h B m" and n: "length name = 10"
    and a: "kmalloc km 34 m = (p, m1)" "p \<noteq> NULL"
  shows "\<exists>h' m' B'. hash_map_insert km h (name @ addr_bytes q) m = Some (0, h', m') \<and>
    index_ok km (f(name \<mapsto> q)) h' B' m' \<and> keeps (map_owned h B) m m' \<and>
    map_owned h' B' = insert (p, 34) (map_owned h B) \<and> blocks m' = (p, 34) # blocks m \<and> ticks m' = Suc (ticks m)"
proof -
  have i: "hmap_env km h m" "hash_ok h" "unat (hm_key_size h) = 10" "unat (hm_data_size h) = 14" "hmap_ok h m B"
    and ab: "hmap_abs h m B = (\<lambda>k. map_option addr_bytes (f k))"
    using ix by (auto simp: index_ok_def INDEX_KEY_SIZE_def INDEX_DATA_SIZE_def)
  have sz: "sizeof_node h = 34" using i(4) by (simp add: sizeof_node_def sizeof_hash_map_node_def)
  let ?v = "addr_bytes q"
  have "unat (hm_data_size h) \<le> length (name @ ?v)" using n i(4) by simp
  from hash_map_insert_frame [OF i(1,5,2) this] a sz obtain h' m' B' beg where
    r: "hash_map_insert km h (name @ ?v) m = Some (0, h', m')" "h' = h\<lparr>hm_begin := beg\<rparr>" "hmap_ok h' m' B'"
      "hmap_env km h' m'" "set (concat B') = insert p (set (concat B))" "keeps (map_owned h B) m m'"
      "blocks m' = (p, 34) # blocks m" "ticks m' = Suc (ticks m)"
    by (metis (no_types))
  have "hmap_put km name ?v (h, m) = Some (h', m')" using r(1) n i(3,4) by (simp add: hmap_put_def)
  moreover have "hmap_repr km 10 (h, m) (hmap_abs h m B)" using i by (auto simp: hmap_repr_def)
  ultimately have "hmap_repr km 10 (h', m') ((hmap_abs h m B)(name \<mapsto> ?v))" by (rule hm.put_repr [rotated])
  then obtain C where C: "hmap_ok h' m' C" "(hmap_abs h m B)(name \<mapsto> ?v) = hmap_abs h' m' C"
    by (auto simp: hmap_repr_def)
  have "B' = C" using chains_unique r(3) C(1) by (auto simp: hmap_ok_def)
  then have "hmap_abs h' m' B' k = map_option addr_bytes ((f(name \<mapsto> q)) k)" for k
    using fun_cong [OF C(2), of k] ab by (simp split: if_splits)
  then have "hmap_abs h' m' B' = (\<lambda>k. map_option addr_bytes ((f(name \<mapsto> q)) k))" by (rule ext)
  moreover have "hash_ok h'" "hm_key_size h' = hm_key_size h" "hm_data_size h' = hm_data_size h" using i(2) r(2) by simp_all
  ultimately have "index_ok km (f(name \<mapsto> q)) h' B' m'" using r(3,4) ix by (simp add: index_ok_def)
  moreover have "map_owned h' B' = insert (p, 34) (map_owned h B)"
    using r(2,5) sz by (auto simp: map_owned_def map_table_def sizeof_node_def)
  ultimately show ?thesis using r by blast
qed

text \<open>The names of the fields, as the index sees them: the first ten bytes.\<close>

definition entries :: "'z pmem_scheme \<Rightarrow> addr list \<Rightarrow> (bytes \<times> addr) list" where
  "entries m ps = map (\<lambda>p. (take 10 (pi_name (pinfo m p)), p)) ps"

definition name_map :: "'z pmem_scheme \<Rightarrow> addr list \<Rightarrow> bytes \<Rightarrow> addr option" where
  "name_map m ps = map_of (rev (entries m ps))"

definition named :: "'z pmem_scheme \<Rightarrow> addr list \<Rightarrow> bool" where
  "named m ps = (\<forall>p \<in> set ps. length (pi_name (pinfo m p)) = MAX_NAME_LEN)"

lemma name_map_snoc: "name_map m (ps @ [p]) = (name_map m ps)(take 10 (pi_name (pinfo m p)) \<mapsto> p)"
  by (simp add: name_map_def entries_def)

lemma name_map_field: "name_map m ps k = Some p \<Longrightarrow> p \<in> set ps \<and> take 10 (pi_name (pinfo m p)) = k"
  by (auto simp: name_map_def entries_def dest!: map_of_SomeD)

definition indexing ::
  "kmalloc_fn \<Rightarrow> 'z pmem_scheme \<Rightarrow> addr list \<Rightarrow> addr \<Rightarrow> nat list \<Rightarrow> addr list \<Rightarrow> hash_map \<times> 'z pmem_scheme \<Rightarrow> bool" where
  "indexing km m ps pr rest qs s =
     (\<exists>us B. ps = us @ qs \<and> index_ok km (name_map m us) (fst s) B (snd s) \<and> keeps {} m (snd s) \<and>
        map_owned (fst s) B \<inter> set (blocks m) = {} \<and> (pr, 30) \<in> set (blocks (snd s)) \<and>
        (pr, 30) \<notin> map_owned (fst s) B \<and> supplies km (replicate (length qs) 34 @ rest) (snd s))"

lemma index_field_step:
  fixes m :: "'z pmem_scheme"
  assumes fl: "flist m hl ps" and nm: "named m ps" and pr: "pair_key_len pr = 10" "pair_value_len pr = 4"
    and c: "indexing km m ps (pair_p pr) rest (q # qs) s"
  shows "\<exists>t. index_field km pr (node_of q) s = Some t \<and> indexing km m ps (pair_p pr) rest qs t"
proof -
  obtain h s0 where hs: "s = (h, s0)" by fastforce
  from c hs obtain us B where s: "ps = us @ q # qs" "index_ok km (name_map m us) h B s0" "keeps {} m s0"
    "map_owned h B \<inter> set (blocks m) = {}" "(pair_p pr, 30) \<in> set (blocks s0)" "(pair_p pr, 30) \<notin> map_owned h B"
    "supplies km (34 # (replicate (length qs) 34 @ rest)) s0"
    by (auto simp: indexing_def)
  from supplies_Cons [OF s(7)] obtain p s1 where a: "kmalloc km 34 s0 = (p, s1)" "p \<noteq> NULL"
    and su: "\<And>m' :: 'z pmem_scheme. blocks m' = (p, 34) # blocks s0 \<Longrightarrow> ticks m' = Suc (ticks s0) \<Longrightarrow>
      supplies km (replicate (length qs) 34 @ rest) m'" by blast
  have mo: "mem_ok s0" using keeps_ok [OF s(3)] by simp
  let ?n = "pi_name (pinfo m q)"
  have q: "q \<in> set ps" using s(1) by simp
  have ln: "length ?n = 20" using nm q by (simp add: named_def MAX_NAME_LEN_def)
  have fls: "flist s0 hl ps" "pinfo s0 q = pinfo m q" using flist_keeps(1,2) [OF s(3) fl] q by simp_all
  have "(q, sizeof_proto_info) \<in> set (blocks s0)" using fls(1) q by (simp add: flist_def)
  then have rq: "rd_info q s0 = Some (pinfo m q)"
    using node_inside(4) [OF mo, of q] fls(2) by (simp add: rd_info_def)
  have v: "valid s0 (pair_p pr) 26" by (rule valid_block [OF s(5)]) simp
  have lt: "length (take 10 ?n) = 10" using ln by simp
  from index_insert [OF s(2) lt a, of q] obtain h' m' B' where
    r: "hash_map_insert km h (take 10 ?n @ addr_bytes q) s0 = Some (0, h', m')"
      "index_ok km ((name_map m us)(take 10 ?n \<mapsto> q)) h' B' m'" "keeps (map_owned h B) s0 m'"
      "map_owned h' B' = insert (p, 34) (map_owned h B)" "blocks m' = (p, 34) # blocks s0" "ticks m' = Suc (ticks s0)"
    by blast
  have "index_field km pr (node_of q) s = Some (h', m')"
    using r(1) rq pr v ln by (simp add: index_field_def hs make_pair_def Let_def)
  moreover have "indexing km m ps (pair_p pr) rest qs (h', m')"
    unfolding indexing_def fst_conv snd_conv
  proof (intro exI conjI)
    show "ps = (us @ [q]) @ qs" using s(1) by simp
    show "index_ok km (name_map m (us @ [q])) h' B' m'" using r(2) by (simp add: name_map_snoc)
    have "keeps (map_owned h B) m m'"
      by (rule keeps_trans [OF _ r(3)]) (use keeps_mono [OF s(3)] in auto)
    then show "keeps {} m m'" by (rule keeps_mono) (use s(4) in auto)
    have "mem_ok m'" using keeps_ok [OF r(3)] by simp
    then have new: "(p, 34) \<notin> set (blocks s0)" using blocks_ok_new r(5) by metis
    then have "(p, 34) \<notin> set (blocks m)" using keeps_block [OF s(3)] by blast
    then show "map_owned h' B' \<inter> set (blocks m) = {}" using r(4) s(4) by auto
    show "(pair_p pr, 30) \<in> set (blocks m')" using s(5) r(5) by simp
    show "(pair_p pr, 30) \<notin> map_owned h' B'" using s(6) r(4) by simp
    show "supplies km (replicate (length qs) 34 @ rest) m'" by (rule su) (use r(5,6) in simp_all)
  qed
  ultimately show ?thesis by blast
qed

text \<open>The sizes of the blocks that \<open>pa_create_hash_table\<close> allocates for \<open>n\<close> fields.\<close>

definition index_sizes :: "nat \<Rightarrow> nat list" where
  "index_sizes n = [30, sizeof_hash_map_t, 40] @ replicate n 34"

text \<open>
  What stands before the first field is indexed: the pair the names are read into, and a map of ten
  empty chains.
\<close>

lemma empty_index_spec:
  fixes m :: "'z pmem_scheme"
  assumes km: "kmalloc_ok km" and reg: "sys_registered m" and al: "sys_allocator al" and mo: "mem_ok m"
    and su: "supplies km (index_sizes (length ps) @ rest) m"
  shows "\<exists>pr m1 h0 m2 h1 m4. create_pair km INDEX_KEY_SIZE INDEX_DATA_SIZE m = Some (pr, m1) \<and>
    hash_map_create km stale al 0 m1 = Some (h0, m2) \<and>
    hash_map_init km h0 INDEX_KEY_SIZE (INDEX_DATA_SIZE + INDEX_KEY_SIZE) INDEX_BUCKETS default_hash_func
      default_key_cmp_func m2 = Some (0, h1, m4) \<and>
    indexing km m ps (pair_p pr) rest ps (h1, m4) \<and> pair_key_len pr = 10 \<and> pair_value_len pr = 4"
proof -
  have su0: "supplies km (30 # ([sizeof_hash_map_t, 40] @ replicate (length ps) 34 @ rest)) m"
    using su by (simp add: index_sizes_def)
  from supplies_Cons [OF su0] obtain pp m1 where a1: "kmalloc km 30 m = (pp, m1)" "pp \<noteq> NULL"
    and s1: "\<And>m' :: 'z pmem_scheme. blocks m' = (pp, 30) # blocks m \<Longrightarrow> ticks m' = Suc (ticks m) \<Longrightarrow>
      supplies km ([sizeof_hash_map_t, 40] @ replicate (length ps) 34 @ rest) m'" by blast
  have b1: "blocks m1 = (pp, 30) # blocks m" "ticks m1 = Suc (ticks m)" using kmalloc_some [OF a1] by simp_all
  have mo1: "mem_ok m1" by (rule kmalloc_mem_ok [OF km mo _ a1(1)]) simp
  have k1: "keeps {} m m1" by (rule keeps_kmalloc [OF km mo a1(1)]) simp
  have "supplies km (sizeof_hash_map_t # (40 # replicate (length ps) 34 @ rest)) m1" using s1 [OF b1] by simp
  from supplies_Cons [OF this] obtain hp m2 where a2: "kmalloc km sizeof_hash_map_t m1 = (hp, m2)" "hp \<noteq> NULL"
    and s2: "\<And>m' :: 'z pmem_scheme. blocks m' = (hp, sizeof_hash_map_t) # blocks m1 \<Longrightarrow> ticks m' = Suc (ticks m1) \<Longrightarrow>
      supplies km (40 # replicate (length ps) 34 @ rest) m'" by blast
  have n76: "0 < sizeof_hash_map_t" by (simp add: sizeof_hash_map_t_def)
  have b2: "blocks m2 = (hp, sizeof_hash_map_t) # blocks m1" "ticks m2 = Suc (ticks m1)" using kmalloc_some [OF a2] by simp_all
  have mo2: "mem_ok m2" by (rule kmalloc_mem_ok [OF km mo1 n76 a2(1)])
  have k2: "keeps {} m1 m2" by (rule keeps_kmalloc [OF km mo1 a2(1) n76])
  have "supplies km (40 # (replicate (length ps) 34 @ rest)) m2" using s2 [OF b2] by simp
  from supplies_Cons [OF this] obtain tp m3 where a3: "kmalloc km 40 m2 = (tp, m3)" "tp \<noteq> NULL"
    and s3: "\<And>m' :: 'z pmem_scheme. blocks m' = (tp, 40) # blocks m2 \<Longrightarrow> ticks m' = Suc (ticks m2) \<Longrightarrow>
      supplies km (replicate (length ps) 34 @ rest) m'" by blast
  have regs: "sys_registered m1" "sys_registered m2"
    using reg kmalloc_modules [OF a1(1)] kmalloc_modules [OF a2(1)] by (simp_all add: sys_registered_def)
  define h0 where "h0 = stale\<lparr>hm_self := hp, hm_allocator := al, hm_lock_type := 0\<rparr>"
  let ?pr = "\<lparr>pair_p = pp, pair_data_len = ucast (INDEX_KEY_SIZE + INDEX_DATA_SIZE), pair_key_len = INDEX_KEY_SIZE,
       pair_value_len = INDEX_DATA_SIZE, pair_data = []\<rparr>"
  have c1: "create_pair km INDEX_KEY_SIZE INDEX_DATA_SIZE m = Some (?pr, m1)"
    using a1 kmalloc_valid_new [OF a1] valid_shrink [of m1 pp 30 16]
    by (simp add: create_pair_def sizeof_pair_t_def INDEX_KEY_SIZE_def INDEX_DATA_SIZE_def)
  have c2: "hash_map_create km stale al 0 m1 = Some (h0, m2)"
    using a2 regs al by (simp add: hash_map_create_def h0_def sizeof_hash_map_t_def)
  have env: "hmap_env km h0 m2" using km mo2 regs al by (simp add: hmap_env_def h0_def)
  have sz: "0 < unat INDEX_BUCKETS" "4 * unat INDEX_BUCKETS < 2 ^ 32" "4 * unat INDEX_BUCKETS = 40"
    "unat INDEX_KEY_SIZE \<le> unat (INDEX_DATA_SIZE + INDEX_KEY_SIZE)" "unat (INDEX_DATA_SIZE + INDEX_KEY_SIZE) + 20 < 2 ^ 32"
    by (simp_all add: INDEX_BUCKETS_def INDEX_KEY_SIZE_def INDEX_DATA_SIZE_def)
  have a3': "kmalloc km (4 * unat INDEX_BUCKETS) m2 = (tp, m3)" using a3(1) sz(3) by simp
  from hash_map_init_spec [OF env sz(1,2,4,5) a3' a3(2)] obtain h1 m4 where
    i: "hash_map_init km h0 INDEX_KEY_SIZE (INDEX_DATA_SIZE + INDEX_KEY_SIZE) INDEX_BUCKETS default_hash_func
          default_key_cmp_func m2 = Some (0, h1, m4)"
      "hmap_ok h1 m4 (replicate (unat INDEX_BUCKETS) [])" "hmap_env km h1 m4" "hm_hash_func h1 = default_hash_func"
      "hm_key_cmp_func h1 = default_key_cmp_func" "hm_hlist h1 = tp" "hm_key_size h1 = INDEX_KEY_SIZE"
      "hm_data_size h1 = INDEX_DATA_SIZE + INDEX_KEY_SIZE" "hm_bucket_size h1 = INDEX_BUCKETS" by blast
  from hash_map_init_frame [OF env sz(1,2) a3' a3(2) i(1)] sz(3)
  have fr: "blocks m4 = (tp, 40) # blocks m2" "ticks m4 = Suc (ticks m2)" "keeps {} m2 m4" by simp_all
  have k4: "keeps {} m m4" using keeps_trans [OF keeps_trans [OF k1 k2] fr(3)] by simp
  have mo4: "mem_ok m4" using keeps_ok [OF fr(3)] by simp
  let ?E = "replicate (unat INDEX_BUCKETS) [] :: addr list list"
  have ow: "map_owned h1 ?E = {(tp, 40)}" using i(6,9) sz(3) by (simp add: map_owned_def map_table_def)
  have "hmap_abs h1 m4 ?E = (\<lambda>k. map_option addr_bytes (name_map m [] k))"
    by (simp add: hmap_abs_def name_map_def entries_def fun_eq_iff)
  moreover have "hash_ok h1" using default_hash_ok [OF i(4,5)] i(9) by (simp add: INDEX_BUCKETS_def)
  ultimately have ix: "index_ok km (name_map m []) h1 ?E m4" using i by (simp add: index_ok_def)
  have new: "(tp, 40) \<notin> set (blocks m)" "(pp, 30) \<in> set (blocks m4)" "(pp, 30 :: nat) \<noteq> (tp, 40)"
  proof -
    have "(tp, 40) \<notin> set (blocks m2)" using blocks_ok_new mo4 fr(1) by metis
    then show "(tp, 40) \<notin> set (blocks m)" using b1 b2 by simp
  qed (use fr(1) b1 b2 in simp_all)
  have "indexing km m ps (pair_p ?pr) rest ps (h1, m4)"
    unfolding indexing_def fst_conv snd_conv
    by (intro exI [of _ "[]"] exI [of _ ?E] conjI)
      (use ix k4 ow new s3 [OF fr(1,2)] in simp_all)
  moreover have "pair_key_len ?pr = 10" "pair_value_len ?pr = 4" by (simp_all add: INDEX_KEY_SIZE_def INDEX_DATA_SIZE_def)
  ultimately show ?thesis using c1 c2 i(1) by blast
qed

text \<open>The loop over the fields, run to its end: every name is in the index.\<close>

lemma index_loop:
  fixes m :: "'z pmem_scheme"
  assumes fl: "flist m hl ps" and nm: "named m ps" and pr: "pair_key_len pr = 10" "pair_value_len pr = 4"
    and start: "indexing km m ps (pair_p pr) rest ps s0"
  shows "\<exists>h m'. list_for_each_safe (\<lambda>p s. rd_next p (snd s)) (index_field km pr) hl s0 = Some (h, m') \<and>
    indexing km m ps (pair_p pr) rest [] (h, m')"
proof -
  let ?body = "index_field km pr"
  note step = index_field_step [OF fl nm pr]
  have rd: "rd_next hl (snd s) = Some (hd (map node_of ps @ [hl]))"
    "\<And>us y ys. ps = us @ y # ys \<Longrightarrow> rd_next (node_of y) (snd s) = Some (hd (map node_of ys @ [hl]))"
    if "indexing km m ps (pair_p pr) rest qs s" for qs s
  proof -
    have "keeps {} m (snd s)" using that by (auto simp: indexing_def)
    from flist_keeps(1) [OF this fl] have d: "dlist (snd s) hl (map node_of ps)" by (simp add: flist_def)
    then show "rd_next hl (snd s) = Some (hd (map node_of ps @ [hl]))" by (rule dlist_reads)
    show "rd_next (node_of y) (snd s) = Some (hd (map node_of ys @ [hl]))" if "ps = us @ y # ys" for us y ys
      using dlist_reads(2) [OF d, of "map node_of us" "node_of y" "map node_of ys"] that by simp
  qed
  have tail: "\<exists>us. ps = us @ qs" if "indexing km m ps (pair_p pr) rest qs s" for qs s
    using that by (auto simp: indexing_def)
  let ?I = "\<lambda>ys s. \<exists>qs. ys = map node_of qs \<and> indexing km m ps (pair_p pr) rest qs s"
  have "list_for_each_safe (\<lambda>p s. rd_next p (snd s)) ?body hl s0 = foldM ?body (map node_of ps) s0"
  proof (rule list_for_each_safe_foldM [where I = ?I])
    show "hl \<notin> set (map node_of ps)" using flist_distinct [OF fl] by simp
    show "rd_next hl (snd s0) = Some (hd (map node_of ps @ [hl]))" by (rule rd(1) [OF start])
    fix y ys s t
    assume "?I (y # ys) s"
    then obtain q qs where q: "y = node_of q" "ys = map node_of qs" "indexing km m ps (pair_p pr) rest (q # qs) s"
      by (auto simp: Cons_eq_map_conv)
    show "rd_next y (snd s) = Some (hd (ys @ [hl]))" using rd(2) [OF q(3)] tail [OF q(3)] q(1,2) by auto
    show "?I ys t" if "?body y s = Some t"
      using step [OF q(3)] that q(1,2) by auto
  next
    show "rd_next hl (snd s) \<noteq> None" if "?I [] s" for s using that rd(1) by blast
  qed (use start in blast)
  moreover have "\<exists>t. foldM ?body (map node_of ps) s0 = Some t \<and> ?I [] t"
    by (rule foldM_total [where I = ?I]) (use start step in \<open>fastforce simp: Cons_eq_map_conv\<close>)+
  ultimately show ?thesis by auto
qed

lemma pa_create_hash_table_spec:
  fixes m :: "'z pmem_scheme"
  assumes km: "kmalloc_ok km" and reg: "sys_registered m" and al: "sys_allocator (pa_allocator pa)" and mo: "mem_ok m"
    and fl: "flist m (pa_list_head_p pa) ps" and nm: "named m ps"
    and su: "supplies km (index_sizes (length ps) @ rest) m"
  shows "\<exists>h B m'. pa_create_hash_table km stale pa m = Some (0, pa\<lparr>pa_hmap := Some h\<rparr>, m') \<and>
    index_ok km (name_map m ps) h B m' \<and> map_owned h B \<inter> set (blocks m) = {} \<and> keeps {} m m' \<and>
    supplies km rest m'"
proof -
  let ?hl = "pa_list_head_p pa"
  from empty_index_spec [OF km reg al mo su] obtain pr m1 h0 m2 h1 m4 where
    c: "create_pair km INDEX_KEY_SIZE INDEX_DATA_SIZE m = Some (pr, m1)"
      "hash_map_create km stale (pa_allocator pa) 0 m1 = Some (h0, m2)"
      "hash_map_init km h0 INDEX_KEY_SIZE (INDEX_DATA_SIZE + INDEX_KEY_SIZE) INDEX_BUCKETS default_hash_func
        default_key_cmp_func m2 = Some (0, h1, m4)"
    and start: "indexing km m ps (pair_p pr) rest ps (h1, m4)" and pr: "pair_key_len pr = 10" "pair_value_len pr = 4"
    by blast
  from index_loop [OF fl nm pr start] obtain h m' where
    t: "list_for_each_safe (\<lambda>p s. rd_next p (snd s)) (index_field km pr) ?hl (h1, m4) = Some (h, m')"
      "indexing km m ps (pair_p pr) rest [] (h, m')" by blast
  have "?hl \<noteq> NULL" using head_inside(6) [OF mo] fl by (auto simp: flist_def)
  then have "pa_create_hash_table km stale pa m = Some (0, pa\<lparr>pa_hmap := Some h\<rparr>, m')"
    using c t(1) by (simp add: pa_create_hash_table_def Let_def)
  with t(2) show ?thesis by (auto simp: indexing_def)
qed

section \<open>The initialised analyzer\<close>

text \<open>
  \<open>analyzer_ok km m pa ps B\<close>: the analyzer works on the fields \<open>ps\<close> with an index over their
  names whose chains are \<open>B\<close>.
\<close>

definition analyzer_ok :: "kmalloc_fn \<Rightarrow> 'z pmem_scheme \<Rightarrow> analyzer \<Rightarrow> addr list \<Rightarrow> addr list list \<Rightarrow> bool" where
  "analyzer_ok km m pa ps B =
     (sys_allocator (pa_allocator pa) \<and> flist m (pa_list_head_p pa) ps \<and> pa_list_head_p pa \<noteq> NULL \<and> named m ps \<and>
      (\<exists>h. pa_hmap pa = Some h \<and> index_ok km (name_map m ps) h B m \<and>
        map_owned h B \<inter> owned (pa_list_head_p pa) ps = {}))"

definition init_sizes :: "nat \<Rightarrow> nat list" where
  "init_sizes n = sizeof_proto_head # replicate n sizeof_proto_info @ index_sizes n"

lemma name_map_cong: "infos m' ps = infos m ps \<Longrightarrow> name_map m' ps = name_map m ps"
  by (simp add: name_map_def entries_def infos_def cong: map_cong)

lemma infos_named: "infos m' ps' = infos m ps \<Longrightarrow> named m ps \<Longrightarrow> named m' ps'"
  unfolding named_def infos_def by (metis (no_types, lifting) image_iff image_set)

lemma pa_init_protocol_analyzer_spec:
  fixes m :: "'z pmem_scheme"
  assumes km: "kmalloc_ok km" and reg: "sys_registered m" and al: "sys_allocator (pa_allocator pa)" and mo: "mem_ok m"
    and f: "fset_ok m pfs T" and T: "T (unat (n - proto_base_addr pfs)) = Some (hl, ps)"
    and r: "proto_base_addr pfs \<le> n" and nw: "unat (proto_base_addr pfs) + unat (proto_max_num pfs) < 2 ^ 32"
    and nm: "named m ps" and su: "supplies km (init_sizes (length ps) @ rest) m"
  shows "\<exists>nhl cs h B m'. pa_init_protocol_analyzer km stale n pfs pa m =
      Some (pa\<lparr>protocol_num := n, pfs_p := Some pfs, pf_list_head_p := hl, pa_list_head_p := nhl, pa_hmap := Some h\<rparr>, m') \<and>
    analyzer_ok km m' (pa\<lparr>protocol_num := n, pfs_p := Some pfs, pf_list_head_p := hl, pa_list_head_p := nhl, pa_hmap := Some h\<rparr>) cs B \<and>
    infos m' cs = infos m ps \<and> keeps {} m m' \<and>
    owned nhl cs \<inter> set (blocks m) = {} \<and> map_owned h B \<inter> set (blocks m) = {} \<and> supplies km rest m'"
proof -
  let ?pa = "pa\<lparr>protocol_num := n, pfs_p := Some pfs\<rparr>"
  let ?pa1 = "?pa\<lparr>pf_list_head_p := hl\<rparr>"
  note o = fset_okD [OF f T]
  have fd: "pa_find_protocol_format ?pa m = Some (0, ?pa1)"
    using pa_find_protocol_format_spec [of ?pa pfs m T] mo f r nw T o(1) by simp
  have fl: "flist m (pf_list_head_p ?pa1) ps" using o(3) by simp
  have su1: "supplies km (sizeof_proto_head # replicate (length ps) sizeof_proto_info @ (index_sizes (length ps) @ rest)) m"
    using su by (simp add: init_sizes_def)
  have al1: "sys_allocator (pa_allocator ?pa1)" using al by simp
  from pa_copy_protocol_format_spec [OF km reg al1 mo fl su1] obtain nhl cs m1 where
    c: "pa_copy_protocol_format km ?pa1 m = Some (0, ?pa1\<lparr>pa_list_head_p := nhl\<rparr>, m1)" "flist m1 nhl cs"
      "infos m1 cs = infos m ps" "owned nhl cs \<inter> set (blocks m) = {}" "keeps {} m m1" "sys_registered m1"
      "supplies km (index_sizes (length ps) @ rest) m1" "nhl \<noteq> NULL" by blast
  let ?pa2 = "?pa1\<lparr>pa_list_head_p := nhl\<rparr>"
  have len: "length cs = length ps" using c(3) by (metis infos_def length_map)
  have mo1: "mem_ok m1" using keeps_ok [OF c(5)] by simp
  have fl2: "flist m1 (pa_list_head_p ?pa2) cs" using c(2) by simp
  have nm1: "named m1 cs" by (rule infos_named [OF c(3) nm])
  have su2: "supplies km (index_sizes (length cs) @ rest) m1" using c(7) len by simp
  have al2: "sys_allocator (pa_allocator ?pa2)" using al by simp
  from pa_create_hash_table_spec [OF km c(6) al2 mo1 fl2 nm1 su2] obtain h B m2 where
    i: "pa_create_hash_table km stale ?pa2 m1 = Some (0, ?pa2\<lparr>pa_hmap := Some h\<rparr>, m2)"
      "index_ok km (name_map m1 cs) h B m2" "map_owned h B \<inter> set (blocks m1) = {}" "keeps {} m1 m2"
      "supplies km rest m2" by blast
  let ?pa3 = "?pa2\<lparr>pa_hmap := Some h\<rparr>"
  note fk = flist_keeps [OF i(4) c(2), simplified]
  have "analyzer_ok km m2 ?pa3 cs B"
    unfolding analyzer_ok_def
    using al fk(1) c(8) infos_named [OF fk(3) nm1] i(2,3) name_map_cong [OF fk(3)] flist_owned [OF c(2)] by auto
  moreover have "keeps {} m m2" by (rule keeps_trans [OF c(5) i(4)]) simp
  moreover have "map_owned h B \<inter> set (blocks m) = {}" using i(3) c(5) keeps_block by blast
  moreover have "pa_init_protocol_analyzer km stale n pfs pa m = Some (?pa3, m2)"
    using fd c(1) i(1) by (simp add: pa_init_protocol_analyzer_def)
  moreover have "infos m2 cs = infos m ps" using fk(3) c(3) by simp
  ultimately show ?thesis using c(4) i(5) by (intro exI [of _ nhl] exI [of _ cs] exI [of _ h] exI [of _ B] exI [of _ m2]) simp
qed

end
