(* ===== verification/Task_Admin.thy ===== *)
theory Task_Admin
  imports Analyzer_Init
begin

text \<open>
  The task administration \<open>driver/task_admin/task_admin.c\<close>: per slot, two queues for tasks
  whose slot the system chooses and two hash maps for tasks whose slot the user chooses. The
  administration structure, which the driver keeps by pointer, is passed and returned.
\<close>

section \<open>Data\<close>

definition TASK_FLAG_RCV :: u8 where "TASK_FLAG_RCV = 0"
definition TASK_FLAG_SND :: u8 where "TASK_FLAG_SND = 1"
definition TASK_TYPE_DATA :: u8 where "TASK_TYPE_DATA = 0"
definition TASK_TYPE_VOICE :: u8 where "TASK_TYPE_VOICE = 1"
definition TASK_TYPE_RC :: u8 where "TASK_TYPE_RC = 2"
definition SLOT_TYPE_SYS_DESIGNATE :: u8 where "SLOT_TYPE_SYS_DESIGNATE = 0"
definition SLOT_TYPE_USER_DESIGNATE :: u8 where "SLOT_TYPE_USER_DESIGNATE = 1"

datatype task_state = CHC_STATE_TX | CHC_STATE_RX | CHC_STATE_IDLE | CHC_STATE_MAINC_CHANNEL
  | CHC_STATE_VOICE_CHANNEL | CHC_STATE_VOICE_TX_BEGIN | CHC_STATE_VOICE_TX_END
  | CHC_STATE_VOICE_RX_BEGIN | CHC_STATE_VOICE_RX_END | CHC_STATE_DATA_CHANNEL
  | CHC_STATE_DATA_TX_BEGIN | CHC_STATE_DATA_TX_EDN | CHC_STATE_DATA_RX_BEGIN | CHC_STATE_DATA_RX_EDN

record task =
  task_data :: u8
  task_type :: u8
  task_slot_type :: u8
  slot_num :: u16
  tact_info :: u16

text \<open>The eight bytes of a \<open>task_t\<close>; the fourth is padding.\<close>

definition sizeof_task_t :: nat where "sizeof_task_t = 8"

definition task_bytes :: "u8 \<Rightarrow> task \<Rightarrow> bytes" where
  "task_bytes pad t = [task_data t, task_type t, task_slot_type t, pad,
     ucast (slot_num t), ucast (drop_bit 8 (slot_num t)), ucast (tact_info t), ucast (drop_bit 8 (tact_info t))]"

record task_admin =
  ta_self :: addr
  ta_slot :: u32
  ta_allocator :: allocator
  ta_pair :: pair
  ta_task_state :: u32
  data_sys_designate_slot :: llist
  voice_sys_designate_slot :: llist
  data_user_designate_slot :: hash_map
  voice_user_designate_slot :: hash_map

definition sizeof_task_admin_t :: nat where "sizeof_task_admin_t = 32"

definition TASK_KEY_SIZE :: u32 where "TASK_KEY_SIZE = 2"
definition TASK_DATA_SIZE :: u32 where "TASK_DATA_SIZE = 8"
definition TASK_BUCKETS :: u32 where "TASK_BUCKETS = 10"

section \<open>Operations\<close>

text \<open>
  \<open>stale\<close> holds the contents of the freshly allocated structures. The first component is
  \<open>None\<close> where the C function returns NULL. The tests for NULL after \<open>llist_create\<close>,
  \<open>hash_map_create\<close> and \<open>create_pair\<close> are never taken: these functions write through a
  failed allocation before they return.
\<close>

definition create_task_map ::
  "kmalloc_fn \<Rightarrow> hash_map \<Rightarrow> allocator \<Rightarrow> 'z hmem_scheme \<Rightarrow> (hash_map \<times> 'z hmem_scheme) option" where
  "create_task_map km stale al m = do {
     (h, m1) \<leftarrow> hash_map_create km stale al 0 m;
     (r, h1, m2) \<leftarrow> hash_map_init km h TASK_KEY_SIZE (TASK_DATA_SIZE + TASK_KEY_SIZE) TASK_BUCKETS
        default_hash_func default_key_cmp_func m1;
     Some (h1, m2)
   }"

definition create_task_list ::
  "kmalloc_fn \<Rightarrow> llist \<Rightarrow> allocator \<Rightarrow> 'z hmem_scheme \<Rightarrow> (llist \<times> 'z hmem_scheme) option" where
  "create_task_list km stale al m = do {
     (l, m1) \<leftarrow> llist_create km stale al 0 m;
     (r, l1, m2) \<leftarrow> llist_init km l TASK_DATA_SIZE m1;
     Some (l1, m2)
   }"

definition create_task_admin ::
  "kmalloc_fn \<Rightarrow> task_admin \<Rightarrow> 'z hmem_scheme \<Rightarrow> (task_admin option \<times> 'z hmem_scheme) option" where
  "create_task_admin km stale m =
     (case allocator_creator km ALLOCATOR_TYPE_SYS_MALLOC 0 m of
        (None, m1) \<Rightarrow> Some (None, m1)
      | (Some al, m1) \<Rightarrow> do {
          (p, m2) \<leftarrow> allocator_mem_alloc km al (word_of_nat sizeof_task_admin_t) m1;
          if p = NULL then do { m3 \<leftarrow> allocator_destroy al m2; Some (None, m3) }
          else do {
            (l1, m3) \<leftarrow> create_task_list km (data_sys_designate_slot stale) al m2;
            (l2, m4) \<leftarrow> create_task_list km (voice_sys_designate_slot stale) al m3;
            (h1, m5) \<leftarrow> create_task_map km (data_user_designate_slot stale) al m4;
            (h2, m6) \<leftarrow> create_task_map km (voice_user_designate_slot stale) al m5;
            (pr, m7) \<leftarrow> create_pair km TASK_KEY_SIZE TASK_DATA_SIZE m6;
            Some (Some (stale\<lparr>ta_self := p, ta_allocator := al, ta_pair := pr, data_sys_designate_slot := l1,
              voice_sys_designate_slot := l2, data_user_designate_slot := h1, voice_user_designate_slot := h2\<rparr>), m7)
          } })"

definition destroy_task_admin :: "task_admin \<Rightarrow> 'z hmem_scheme \<Rightarrow> 'z hmem_scheme option" where
  "destroy_task_admin admin m = do {
     let al = ta_allocator admin;
     (h2, m1) \<leftarrow> hash_map_destroy (voice_user_designate_slot admin) m;
     (h1, m2) \<leftarrow> hash_map_destroy (data_user_designate_slot admin) m1;
     (r2, l2, m3) \<leftarrow> llist_destroy (voice_sys_designate_slot admin) m2;
     (r1, l1, m4) \<leftarrow> llist_destroy (data_sys_designate_slot admin) m3;
     m5 \<leftarrow> allocator_mem_free al (ta_self admin) m4;
     allocator_destroy al m5
   }"

text \<open>
  The key of a task with a designated slot: \<open>make_pair\<close> is handed the slot number itself where
  it expects the address of a key, so the key is read from that address. \<open>peek a n\<close> stands for
  what a read of \<open>n\<close> bytes at \<open>a\<close> gives, \<open>None\<close> for a fault.
\<close>

definition task_pair ::
  "(addr \<Rightarrow> nat \<Rightarrow> bytes option) \<Rightarrow> u8 \<Rightarrow> task_admin \<Rightarrow> task \<Rightarrow> 'z hmem_scheme \<Rightarrow> pair option" where
  "task_pair peek pad admin t m = do {
     key \<leftarrow> peek (ucast (slot_num t)) (unat (pair_key_len (ta_pair admin)));
     make_pair (ta_pair admin) key (task_bytes pad t) m
   }"

definition add_task ::
  "kmalloc_fn \<Rightarrow> (addr \<Rightarrow> nat \<Rightarrow> bytes option) \<Rightarrow> u8 \<Rightarrow> task_admin \<Rightarrow> task \<Rightarrow> u8 \<Rightarrow>
     'z hmem_scheme \<Rightarrow> (task_admin \<times> 'z hmem_scheme) option" where
  "add_task km peek pad admin t flag m =
     (if flag = TASK_FLAG_RCV then Some (admin, m)
      else if flag = TASK_FLAG_SND then
        (if task_slot_type t = SLOT_TYPE_SYS_DESIGNATE \<and> task_type t = TASK_TYPE_DATA then do {
           (r, l, m1) \<leftarrow> llist_push_back km (data_sys_designate_slot admin) (task_bytes pad t) m;
           Some (admin\<lparr>data_sys_designate_slot := l\<rparr>, m1) }
         else if task_slot_type t = SLOT_TYPE_SYS_DESIGNATE \<and> task_type t = TASK_TYPE_VOICE then do {
           (r, l, m1) \<leftarrow> llist_push_back km (voice_sys_designate_slot admin) (task_bytes pad t) m;
           Some (admin\<lparr>voice_sys_designate_slot := l\<rparr>, m1) }
         else if task_slot_type t = SLOT_TYPE_USER_DESIGNATE \<and> task_type t = TASK_TYPE_DATA then do {
           pr \<leftarrow> task_pair peek pad admin t m;
           (r, h, m1) \<leftarrow> hash_map_insert km (data_user_designate_slot admin) (pair_data pr) m;
           Some (admin\<lparr>ta_pair := pr, data_user_designate_slot := h\<rparr>, m1) }
         else if task_slot_type t = SLOT_TYPE_USER_DESIGNATE \<and> task_type t = TASK_TYPE_VOICE then do {
           pr \<leftarrow> task_pair peek pad admin t m;
           (r, h, m1) \<leftarrow> hash_map_insert km (voice_user_designate_slot admin) (pair_data pr) m;
           Some (admin\<lparr>ta_pair := pr, voice_user_designate_slot := h\<rparr>, m1) }
         else Some (admin, m))
      else Some (admin, m))"

definition get_task_state :: "task_admin \<Rightarrow> task_state \<Rightarrow> int" where
  "get_task_state admin st = 1"

text \<open>The key of the search: the logical \<open>&&\<close> of the source makes every byte 0 or 1.\<close>

definition get_task_key :: "u16 \<Rightarrow> bytes" where
  "get_task_key n = [(if drop_bit 8 n \<noteq> 0 then 1 else 0), (if n \<noteq> 0 then 1 else 0)]"

text \<open>The task argument is not written on any path; it is handed back for that reason.\<close>

definition get_task ::
  "task_admin \<Rightarrow> u8 \<Rightarrow> u16 \<Rightarrow> task \<Rightarrow> 'z hmem_scheme \<Rightarrow> (int \<times> task \<times> task_admin \<times> 'z hmem_scheme) option" where
  "get_task admin flag n t m =
     (if flag = TASK_FLAG_RCV then Some (-1, t, admin, m)
      else if flag = TASK_FLAG_SND then
        (if get_task_state admin CHC_STATE_MAINC_CHANNEL \<noteq> 0 then do {
           pos \<leftarrow> hash_map_search (data_user_designate_slot admin) (get_task_key n) m;
           if hlist_node_p pos \<noteq> NULL then Some (1, t, admin, m)
           else do {
             (p, l, m1) \<leftarrow> llist_detach_front (data_sys_designate_slot admin) m;
             Some (if p \<noteq> NULL then 1 else -1, t, admin\<lparr>data_sys_designate_slot := l\<rparr>, m1) } }
         else if get_task_state admin CHC_STATE_VOICE_CHANNEL \<noteq> 0 then Some (-1, t, admin, m)
         else if get_task_state admin CHC_STATE_DATA_CHANNEL \<noteq> 0 then Some (-1, t, admin, m)
         else Some (-1, t, admin, m))
      else Some (-1, t, admin, m))"

end
