(* ===== verification/Task_Queue.thy ===== *)
theory Task_Queue
  imports Task_Admin
begin

text \<open>
  What the task administration keeps: two queues and two maps in disjoint blocks of the store.
  Creating it, adding a task to a queue and fetching one are specified over the contents of the
  queues; the entries for slots chosen by the user are shown not to work.
\<close>

section \<open>Lists among other structures\<close>

definition llist_owned :: "llist \<Rightarrow> addr list \<Rightarrow> (addr \<times> nat) set" where
  "llist_owned l xs = insert (sentinel l, sizeof_list_head) ((\<lambda>x. (x, node_size l)) ` set xs)"

lemma llist_owned_blocks: "llist_ok l m xs \<Longrightarrow> llist_owned l xs \<subseteq> set (blocks m)"
  by (auto simp: llist_ok_def llist_owned_def)

lemma node_size_pos: "0 < node_size l"
  by (simp add: node_size_def sizeof_list_t_def)

lemma llist_cell_inside:
  "x \<in> set (sentinel l # xs) \<Longrightarrow> \<exists>s. (x, s) \<in> llist_owned l xs \<and> inside (x, s) x"
  using node_size_pos by (auto simp: llist_owned_def inside_def sizeof_list_head_def)

lemma llist_keeps:
  assumes k: "keeps A m m'" and ok: "llist_ok l m xs" and d: "A \<inter> llist_owned l xs = {}"
  shows "llist_ok l m' xs" and "map (ldata m') xs = map (ldata m) xs"
proof -
  have ob: "llist_owned l xs \<subseteq> set (blocks m)" by (rule llist_owned_blocks [OF ok])
  have cell: "same_cells m m' x" if x: "x \<in> set (sentinel l # xs)" for x
  proof -
    obtain s where "(x, s) \<in> llist_owned l xs" "inside (x, s) x" using llist_cell_inside [OF x] by blast
    with keeps_cells [OF k _ _ this(2)] ob d show ?thesis by blast
  qed
  have blk: "p \<in> set (blocks m')" if "p \<in> llist_owned l xs" for p
    using keeps_block [OF k] that ob d by blast
  have b: "(sentinel l, sizeof_list_head) \<in> set (blocks m')" "\<forall>x \<in> set xs. (x, node_size l) \<in> set (blocks m')"
    using blk by (auto simp: llist_owned_def)
  have "links m' (sentinel l # xs @ [sentinel l])"
  proof (rule links_cong)
    show "links m (sentinel l # xs @ [sentinel l])" using ok by (simp add: llist_ok_def dlist_def)
    show "valid m' a sizeof_list_head" if "a \<in> set (sentinel l # xs @ [sentinel l])" for a
      using that b valid_block [of a _ m' sizeof_list_head]
      by (auto simp: node_size_def sizeof_list_head_def sizeof_list_t_def)
    show "lnext m' a = lnext m a" if "a \<in> set (butlast (sentinel l # xs @ [sentinel l]))" for a
      using cell [of a] that by (auto simp: same_cells_def butlast_append)
    show "lprev m' a = lprev m a" if "a \<in> set (tl (sentinel l # xs @ [sentinel l]))" for a
      using cell [of a] that by (auto simp: same_cells_def)
  qed
  then show "llist_ok l m' xs" using ok b by (simp add: llist_ok_def dlist_def)
  show "map (ldata m') xs = map (ldata m) xs" using cell by (auto simp: same_cells_def)
qed

text \<open>An operation on a list, in terms of the whole store.\<close>

lemma keeps_touches:
  assumes t: "touches A m m'" and mo: "mem_ok m" "mem_ok (m' :: 'z pmem_scheme)"
    and a: "\<And>a b. a \<in> A \<Longrightarrow> b \<in> set (blocks m) \<Longrightarrow> inside b a \<Longrightarrow> b \<in> W"
  shows "keeps W m m'"
  unfolding keeps_def
proof (intro conjI ballI allI impI mo)
  show "allocator_modules m' = allocator_modules m" using t by (simp add: touches_def)
  fix p
  assume p: "p \<in> set (blocks m) - W"
  obtain b s where bs: "p = (b, s)" by fastforce
  have "inside p b" using blocks_ok_good [OF mo(1), of p] p bs by (auto simp: good_block_def inside_def)
  then have "b \<notin> A" using a p by blast
  then show "p \<in> set (blocks m')" using t p bs by (auto simp: touches_def)
  fix c
  assume "inside p c"
  with p a have "c \<notin> A" by blast
  then show "same_cells m m' c"
    using t by (cases m, cases m') (simp add: touches_def same_cells_def)
qed

lemma llist_touch:
  assumes mo: "mem_ok m" and ok: "llist_ok l m xs" and a: "a \<in> set (sentinel l # xs)"
    and b: "b \<in> set (blocks m)" "inside b a"
  shows "b \<in> llist_owned l xs"
proof -
  obtain s where "(a, s) \<in> llist_owned l xs" "inside (a, s) a" using llist_cell_inside [OF a] by blast
  with inside_disjoint [OF mo _ b(1) this(2) b(2)] llist_owned_blocks [OF ok] show ?thesis by blast
qed

text \<open>A new block starts inside no block of the store before.\<close>

lemma new_not_inside:
  assumes "kmalloc_ok km" and "mem_ok m" and "0 < n" and "kmalloc km n m = (p, m1)" and "p \<noteq> NULL"
    and "b \<in> set (blocks m)"
  shows "\<not> inside b p"
proof
  assume i: "inside b p"
  have m1: "mem_ok m1" by (rule kmalloc_mem_ok [OF assms(1,2,3,4)])
  have bl: "blocks m1 = (p, n) # blocks m" using kmalloc_some [OF assms(4,5)] by simp
  have "inside (p, n) p" using assms(3) by (rule inside_start)
  with inside_disjoint [OF m1 _ _ i this] bl assms(6) have "b = (p, n)" by simp
  with assms(6) bl m1 blocks_ok_new show False by metis
qed

lemma llist_push_back_blocks:
  assumes "llist_push_back km l d m = Some (r, l', m')" and "sys_registered m" and "sys_allocator (ll_allocator l)"
    and "kmalloc km (unat (word_of_nat sizeof_list_t + data_size l)) m = (p, m1)"
  shows "blocks m' = blocks m1 \<and> ticks m' = ticks m1 \<and> ll_allocator l' = ll_allocator l \<and> ll_self l' = ll_self l"
proof -
  have "\<exists>m2 m3. copy_list_data p d (unat (data_size l)) m1 = Some m2 \<and> list_add p (list_head_p (ll_end l)) m2 = Some m3 \<and>
      m' = m3 \<and> ll_allocator l' = ll_allocator l \<and> ll_self l' = ll_self l"
    using assms by (auto simp: llist_push_back_def llist_insert_def Let_def bind_eq_Some_conv split: if_splits)
  then show ?thesis
    by (auto simp: copy_list_data_def list_add_def list_add_between_def access_defs bind_eq_Some_conv split: if_splits)
qed

lemma llist_push_back_frame:
  fixes m :: "'z pmem_scheme"
  assumes env: "llist_env km l m" and ok: "llist_ok l m xs" and e: "end_ok l xs"
    and d: "length d = unat (data_size l)" and a: "kmalloc km (node_size l) m = (p, m1)" "p \<noteq> NULL"
  shows "\<exists>l' m'. llist_push_back km l d m = Some (0, l', m') \<and> llist_ok l' m' (xs @ [p]) \<and> end_ok l' (xs @ [p]) \<and>
    llist_env km l' m' \<and> sentinel l' = sentinel l \<and> data_size l' = data_size l \<and> ll_allocator l' = ll_allocator l \<and>
    ll_self l' = ll_self l \<and> map (ldata m') (xs @ [p]) = map (ldata m) xs @ [d] \<and> keeps (llist_owned l xs) m m' \<and>
    blocks m' = (p, node_size l) # blocks m \<and> ticks m' = Suc (ticks m) \<and> (p, node_size l) \<notin> set (blocks m)"
proof -
  have pos: "list_head_p (ll_end l) = last (sentinel l # xs)" using e by (simp add: end_ok_def)
  have ok0: "llist_ok l m (xs @ [])" using ok by simp
  have dl: "unat (data_size l) \<le> length d" using d by simp
  from llist_insert_spec [OF env ok0 pos dl a] obtain l' m' where
    r: "llist_push_back km l d m = Some (0, l', m')" "llist_ok l' m' (xs @ [p])" "llist_env km l' m'"
      "sentinel l' = sentinel l" "data_size l' = data_size l" "ldata m' = (ldata m)(p := d)"
      "end_ok l' (xs @ [p])" "p \<notin> set (sentinel l # xs)" "touches (insert p (set (sentinel l # xs))) m m'"
    using d e by (auto simp: llist_push_back_def)
  have sz: "unat (word_of_nat sizeof_list_t + data_size l) = node_size l"
    using ok by (simp add: llist_ok_def node_size_def sizeof_list_t_def unat_word_ariths)
  have env': "sys_registered m" "sys_allocator (ll_allocator l)" "mem_ok m" "mem_ok m'" "kmalloc_ok km"
    using env r(3) by (auto simp: llist_env_def)
  have "kmalloc km (unat (word_of_nat sizeof_list_t + data_size l)) m = (p, m1)" using a(1) sz by simp
  from llist_push_back_blocks [OF r(1) env'(1,2) this] kmalloc_some [OF a]
  have b: "blocks m' = (p, node_size l) # blocks m" "ticks m' = Suc (ticks m)" "ll_allocator l' = ll_allocator l"
    "ll_self l' = ll_self l" by auto
  have "keeps (llist_owned l xs) m m'"
  proof (rule keeps_touches [OF r(9) env'(3,4)])
    fix c b
    assume c: "c \<in> insert p (set (sentinel l # xs))" "b \<in> set (blocks m)" "inside b c"
    then have "c \<in> set (sentinel l # xs)"
      using new_not_inside [OF env'(5,3) node_size_pos a c(2)] by (cases "c = p") auto
    then show "b \<in> llist_owned l xs" by (rule llist_touch [OF env'(3) ok _ c(2,3)])
  qed
  moreover have "(p, node_size l) \<notin> set (blocks m)" using blocks_ok_new env'(4) b(1) by metis
  ultimately show ?thesis using r b by auto
qed

lemma llist_detach_front_frame:
  fixes m :: "'z pmem_scheme"
  assumes env: "llist_env km l m" and ok: "llist_ok l m (x # xs)"
  shows "\<exists>l' m'. llist_detach_front l m = Some (x, l', m') \<and> llist_ok l' m' xs \<and> llist_env km l' m' \<and>
    (end_ok l (x # xs) \<and> xs \<noteq> [] \<longrightarrow> end_ok l' xs) \<and> (xs = [] \<longrightarrow> ll_end l' = ll_end l) \<and>
    lnext m' x = LIST_POISON1 \<and> ldata m' = ldata m \<and> sentinel l' = sentinel l \<and> data_size l' = data_size l \<and>
    ll_allocator l' = ll_allocator l \<and> ll_self l' = ll_self l \<and> blocks m' = blocks m \<and>
    keeps (llist_owned l (x # xs)) m m'"
proof -
  have ok0: "llist_ok l m ([] @ x # xs)" using ok by simp
  have pos: "list_head_p (ll_begin l) = x" using ok by (simp add: llist_ok_def)
  from llist_detach_spec [OF env ok0 pos] obtain l' m' where
    r: "llist_detach l (ll_begin l) m = Some (x, l', m')" "llist_ok l' m' xs" "llist_env km l' m'"
      "touches (set (sentinel l # x # xs)) m m'" "blocks m' = blocks m" "lnext m' x = LIST_POISON1" "ldata m' = ldata m"
      "sentinel l' = sentinel l" "data_size l' = data_size l" "end_ok l (x # xs) \<and> xs \<noteq> [] \<longrightarrow> end_ok l' xs"
      "xs = [] \<longrightarrow> ll_end l' = ll_end l" by auto
  have al: "ll_allocator l' = ll_allocator l" "ll_self l' = ll_self l"
    using r(1) by (auto simp: llist_detach_def llist_unlink_def Let_def bind_eq_Some_conv split: if_splits)
  have mo: "mem_ok m" "mem_ok m'" using env r(3) by (auto simp: llist_env_def)
  have "keeps (llist_owned l (x # xs)) m m'"
  proof (rule keeps_touches [OF r(4) mo])
    fix c b
    assume "c \<in> set (sentinel l # x # xs)" "b \<in> set (blocks m)" "inside b c"
    then show "b \<in> llist_owned l (x # xs)" by (rule llist_touch [OF mo(1) ok])
  qed
  with r al show ?thesis by (auto simp: llist_detach_front_def)
qed

section \<open>The state of an administration\<close>

text \<open>
  The parts of an administration: its queues with the nodes \<open>xs\<close> and \<open>ys\<close>, its maps with the chains \<open>B\<close> and \<open>C\<close>,
  the structure and its allocator, in blocks of their own. The first part is what nothing in the code ever releases:
  the buffer of the pair, the two \<open>llist_t\<close> that \<open>llist_create\<close> and the two \<open>hash_map_t\<close> that \<open>hash_map_create\<close>
  allocate.
\<close>

definition admin_leaked :: "task_admin \<Rightarrow> (addr \<times> nat) set" where
  "admin_leaked a =
     {(pair_p (ta_pair a), 26), (ll_self (data_sys_designate_slot a), sizeof_llist_t),
      (ll_self (voice_sys_designate_slot a), sizeof_llist_t), (hm_self (data_user_designate_slot a), sizeof_hash_map_t),
      (hm_self (voice_user_designate_slot a), sizeof_hash_map_t)}"

definition admin_parts ::
  "task_admin \<Rightarrow> addr list \<Rightarrow> addr list \<Rightarrow> addr list list \<Rightarrow> addr list list \<Rightarrow> (addr \<times> nat) set list" where
  "admin_parts a xs ys B C =
     [admin_leaked a, map_owned (voice_user_designate_slot a) C, map_owned (data_user_designate_slot a) B,
      llist_owned (voice_sys_designate_slot a) ys, llist_owned (data_sys_designate_slot a) xs,
      {(ta_self a, sizeof_task_admin_t)}, {(al_self (ta_allocator a), sizeof_allocator_t)}]"

definition apart :: "('a set) list \<Rightarrow> bool" where
  "apart Ss = sorted_wrt (\<lambda>X Y. X \<inter> Y = {}) Ss"

definition queue_ok :: "llist \<Rightarrow> 'z lmem_scheme \<Rightarrow> addr list \<Rightarrow> bool" where
  "queue_ok l m xs = (llist_ok l m xs \<and> end_ok l xs \<and> data_size l = TASK_DATA_SIZE \<and> sys_allocator (ll_allocator l))"

definition task_map_ok :: "hash_map \<Rightarrow> 'z hmem_scheme \<Rightarrow> addr list list \<Rightarrow> bool" where
  "task_map_ok h m B = (hmap_ok h m B \<and> hash_ok h \<and> hm_key_size h = TASK_KEY_SIZE \<and>
     hm_data_size h = TASK_DATA_SIZE + TASK_KEY_SIZE \<and> sys_allocator (hm_allocator h))"

definition admin_ok ::
  "'z pmem_scheme \<Rightarrow> task_admin \<Rightarrow> addr list \<Rightarrow> addr list \<Rightarrow> addr list list \<Rightarrow> addr list list \<Rightarrow> bool" where
  "admin_ok m a xs ys B C =
     (queue_ok (data_sys_designate_slot a) m xs \<and> queue_ok (voice_sys_designate_slot a) m ys \<and>
      task_map_ok (data_user_designate_slot a) m B \<and> task_map_ok (voice_user_designate_slot a) m C \<and>
      admin_leaked a \<subseteq> set (blocks m) \<and> card (admin_leaked a) = 5 \<and> pair_key_len (ta_pair a) = TASK_KEY_SIZE \<and>
      pair_value_len (ta_pair a) = TASK_DATA_SIZE \<and> (ta_self a, sizeof_task_admin_t) \<in> set (blocks m) \<and>
      (al_self (ta_allocator a), sizeof_allocator_t) \<in> set (blocks m) \<and> sys_allocator (ta_allocator a) \<and>
      apart (admin_parts a xs ys B C))"

text \<open>The contents of a queue: the bytes of its tasks, oldest first.\<close>

definition queued :: "'z lmem_scheme \<Rightarrow> addr list \<Rightarrow> bytes list" where
  "queued m xs = map (ldata m) xs"

definition mem_env :: "kmalloc_fn \<Rightarrow> 'z pmem_scheme \<Rightarrow> bool" where
  "mem_env km m = (kmalloc_ok km \<and> mem_ok m \<and> sys_registered m)"

lemma keeps_subset: "keeps A m m' \<Longrightarrow> S \<subseteq> set (blocks m) \<Longrightarrow> A \<inter> S = {} \<Longrightarrow> S \<subseteq> set (blocks m')"
  using keeps_block by blast

lemma mem_env_keeps: "mem_env km m \<Longrightarrow> keeps A m m' \<Longrightarrow> mem_env km m'"
  using keeps_ok by (auto simp: mem_env_def)

lemma queue_env: "mem_env km m \<Longrightarrow> queue_ok l m xs \<Longrightarrow> llist_env km l m"
  by (simp add: mem_env_def queue_ok_def llist_env_def)

lemma task_map_env: "mem_env km m \<Longrightarrow> task_map_ok h m B \<Longrightarrow> hmap_env km h m"
  by (simp add: mem_env_def task_map_ok_def hmap_env_def)

lemma queue_owned_blocks: "queue_ok l m xs \<Longrightarrow> llist_owned l xs \<subseteq> set (blocks m)"
  by (simp add: queue_ok_def llist_owned_blocks)

lemma task_map_owned_blocks: "task_map_ok h m B \<Longrightarrow> map_owned h B \<subseteq> set (blocks m)"
  by (auto simp: task_map_ok_def hmap_ok_def dest: map_owned_blocks)

lemma queue_keeps:
  assumes k: "keeps A m m'" and ok: "queue_ok l m xs" and d: "A \<inter> llist_owned l xs = {}"
  shows "queue_ok l m' xs \<and> queued m' xs = queued m xs"
proof -
  have "llist_ok l m xs" using ok by (simp add: queue_ok_def)
  from llist_keeps [OF k this d] ok show ?thesis by (simp add: queue_ok_def queued_def)
qed

lemma task_map_keeps:
  "keeps A m m' \<Longrightarrow> task_map_ok h m B \<Longrightarrow> A \<inter> map_owned h B = {} \<Longrightarrow> task_map_ok h m' B \<and> hmap_abs h m' B = hmap_abs h m B"
  using hmap_keeps by (auto simp: task_map_ok_def)

definition admin_owned ::
  "task_admin \<Rightarrow> addr list \<Rightarrow> addr list \<Rightarrow> addr list list \<Rightarrow> addr list list \<Rightarrow> (addr \<times> nat) set" where
  "admin_owned a xs ys B C = \<Union> (set (admin_parts a xs ys B C))"

lemma admin_owned_blocks: "admin_ok m a xs ys B C \<Longrightarrow> admin_owned a xs ys B C \<subseteq> set (blocks m)"
  by (auto simp: admin_ok_def admin_owned_def admin_parts_def dest: queue_owned_blocks task_map_owned_blocks)

lemma admin_keeps:
  assumes "keeps A m m'" and "admin_ok m a xs ys B C" and "A \<inter> admin_owned a xs ys B C = {}"
  shows "admin_ok m' a xs ys B C" and "queued m' xs = queued m xs" and "queued m' ys = queued m ys"
proof -
  have d: "A \<inter> S = {}" if "S \<in> set (admin_parts a xs ys B C)" for S
    using assms(3) that by (auto simp: admin_owned_def)
  then have d': "A \<inter> llist_owned (data_sys_designate_slot a) xs = {}" "A \<inter> llist_owned (voice_sys_designate_slot a) ys = {}"
    "A \<inter> map_owned (data_user_designate_slot a) B = {}" "A \<inter> map_owned (voice_user_designate_slot a) C = {}"
    "A \<inter> admin_leaked a = {}" by (simp_all add: admin_parts_def)
  have d'': "(ta_self a, sizeof_task_admin_t) \<notin> A" "(al_self (ta_allocator a), sizeof_allocator_t) \<notin> A"
    using d [of "{(ta_self a, sizeof_task_admin_t)}"] d [of "{(al_self (ta_allocator a), sizeof_allocator_t)}"]
    by (simp_all add: admin_parts_def)
  have ok: "queue_ok (data_sys_designate_slot a) m xs" "queue_ok (voice_sys_designate_slot a) m ys"
    "task_map_ok (data_user_designate_slot a) m B" "task_map_ok (voice_user_designate_slot a) m C"
    using assms(2) by (simp_all add: admin_ok_def)
  note q = queue_keeps [OF assms(1) ok(1) d'(1)] queue_keeps [OF assms(1) ok(2) d'(2)]
  then show "queued m' xs = queued m xs" "queued m' ys = queued m ys" by simp_all
  show "admin_ok m' a xs ys B C"
    using assms(2) q task_map_keeps [OF assms(1) ok(3) d'(3)] task_map_keeps [OF assms(1) ok(4) d'(4)]
      keeps_subset [OF assms(1) _ d'(5)] keeps_block [OF assms(1) _ d''(1)] keeps_block [OF assms(1) _ d''(2)]
    by (simp add: admin_ok_def)
qed

end
