(* ===== verification/Task_Life.thy ===== *)
theory Task_Life
  imports Task_Queue
begin

text \<open>
  The life of an administration: creation, the tasks that come in, the tasks that are fetched,
  and its end. A sequence of tasks is split into the two queues in order of arrival.
\<close>

section \<open>Creation\<close>

lemma keeps_blocks: "keeps {} m m' \<Longrightarrow> set (blocks m) \<subseteq> set (blocks m')"
  using keeps_block by blast

lemma mem_env_kmalloc:
  assumes "mem_env km m" and "kmalloc km n m = (p, m1)" and "0 < n"
  shows "mem_env km m1" and "keeps {} m m1"
  using assms kmalloc_mem_ok [of km m n p m1] keeps_kmalloc [of km m n p m1]
  by (auto simp: mem_env_def sys_registered_kmalloc)

lemma kmalloc_new_block: "mem_env km m \<Longrightarrow> kmalloc km n m = (p, m1) \<Longrightarrow> p \<noteq> NULL \<Longrightarrow> 0 < n \<Longrightarrow>
    (p, n) \<notin> set (blocks m) \<and> blocks m1 = (p, n) # blocks m \<and> ticks m1 = Suc (ticks m)"
  using mem_env_kmalloc(1) [of km m n p m1] kmalloc_some [of km n m p m1] blocks_ok_new
  by (fastforce simp: mem_env_def)

lemma llist_init_frame:
  assumes "llist_env km l m" and "kmalloc km 8 m = (p, m1)" and "p \<noteq> NULL"
    and "llist_init km l dsz m = Some (r, l', m')"
  shows "blocks m' = (p, 8) # blocks m \<and> ticks m' = Suc (ticks m) \<and> ll_allocator l' = ll_allocator l \<and> ll_self l' = ll_self l"
proof -
  have "INIT_LIST_HEAD p m1 = Some m'" "ll_allocator l' = ll_allocator l" "ll_self l' = ll_self l"
    using assms(1,2,4) by (auto simp: llist_init_def llist_env_def sizeof_list_head_def Let_def bind_eq_Some_conv)
  then show ?thesis
    using kmalloc_some [OF assms(2,3)] by (auto simp: INIT_LIST_HEAD_def access_defs bind_eq_Some_conv split: if_splits)
qed

text \<open>
  Creating a queue or a map takes two blocks, first that of its structure, then that of its
  sentinel or its table.
\<close>

lemma create_task_list_spec:
  fixes m :: "'z pmem_scheme"
  assumes e: "mem_env km m" and al: "sys_allocator al" and su: "supplies km (56 # 8 # rest) m"
  shows "\<exists>l m'. create_task_list km stale al m = Some (l, m') \<and> queue_ok l m' [] \<and> keeps {} m m' \<and>
    set (blocks m') = set (blocks m) \<union> insert (ll_self l, sizeof_llist_t) (llist_owned l []) \<and>
    insert (ll_self l, sizeof_llist_t) (llist_owned l []) \<inter> set (blocks m) = {} \<and>
    (ll_self l, sizeof_llist_t) \<notin> llist_owned l [] \<and> supplies km rest m'"
proof -
  from supplies_Cons [OF su] obtain p m1 where a1: "kmalloc km 56 m = (p, m1)" "p \<noteq> NULL"
    and s1: "\<And>m' :: 'z pmem_scheme. blocks m' = (p, 56) # blocks m \<Longrightarrow> ticks m' = Suc (ticks m) \<Longrightarrow>
      supplies km (8 # rest) m'" by blast
  have n1: "blocks m1 = (p, 56) # blocks m" "ticks m1 = Suc (ticks m)" using kmalloc_some [OF a1] by simp_all
  have e1: "mem_env km m1" "keeps {} m m1" using mem_env_kmalloc [OF e a1(1)] by simp_all
  from supplies_Cons [OF s1 [OF n1]] obtain q m2 where a2: "kmalloc km 8 m1 = (q, m2)" "q \<noteq> NULL"
    and s2: "\<And>m' :: 'z pmem_scheme. blocks m' = (q, 8) # blocks m1 \<Longrightarrow> ticks m' = Suc (ticks m1) \<Longrightarrow>
      supplies km rest m'" by blast
  have new: "(p, 56) \<notin> set (blocks m)" using kmalloc_new_block [OF e a1] by simp
  note n2 = kmalloc_new_block [OF e1(1) a2]
  define l0 where "l0 = stale\<lparr>ll_self := p, ll_allocator := al, ll_lock_type := 0\<rparr>"
  have c: "llist_create km stale al 0 m = Some (l0, m1)"
    using a1 e al by (simp add: llist_create_def l0_def sizeof_llist_t_def mem_env_def)
  have env: "llist_env km l0 m1" using e1(1) al by (simp add: mem_env_def llist_env_def l0_def)
  have dz: "unat TASK_DATA_SIZE + 12 < 2 ^ 32" by (simp add: TASK_DATA_SIZE_def)
  from llist_init_spec [OF env a2 dz] obtain l m' where
    i: "llist_init km l0 TASK_DATA_SIZE m1 = Some (0, l, m')" "llist_ok l m' []" "end_ok l []"
      "llist_env km l m'" "sentinel l = q" "data_size l = TASK_DATA_SIZE" "touches {q} m1 m'" by blast
  from llist_init_frame [OF env a2 i(1)]
  have f: "blocks m' = (q, 8) # blocks m1" "ticks m' = Suc (ticks m1)" "ll_allocator l = al" "ll_self l = p"
    by (simp_all add: l0_def)
  have q: "(q, 8) \<notin> set (blocks m1)" using n2 by simp
  have mo: "mem_ok m1" "mem_ok m'" "kmalloc_ok km" using e1(1) i(4) by (auto simp: mem_env_def llist_env_def)
  have "keeps {} m1 m'"
  proof (rule keeps_touches [OF i(7) mo(1,2)])
    fix a b
    assume "a \<in> {q}" "b \<in> set (blocks m1)" "inside b a"
    then show "b \<in> {}" using new_not_inside [OF mo(3,1) _ a2] by simp
  qed
  with e1(2) have "keeps {} m m'" using keeps_trans by blast
  moreover have "queue_ok l m' []" using i f(3) al by (simp add: queue_ok_def)
  moreover have "llist_owned l [] = {(q, 8)}" using i(5) by (simp add: llist_owned_def sizeof_list_head_def)
  moreover have "set (blocks m') = set (blocks m) \<union> {(p, 56), (q, 8)}" "{(p, 56), (q, 8)} \<inter> set (blocks m) = {}" "(p, 56 :: nat) \<noteq> (q, 8)"
    using q n1 f(1) new by auto
  moreover have "create_task_list km stale al m = Some (l, m')" using c i(1) by (simp add: create_task_list_def)
  ultimately show ?thesis using s2 [OF f(1,2)] f(4) by (simp add: sizeof_llist_t_def)
qed

lemma hash_map_init_self: "hash_map_init km h ksz dsz bsz hash cmp m = Some (c, h', m') \<Longrightarrow> hm_self h' = hm_self h"
  by (auto simp: hash_map_init_def Let_def bind_eq_Some_conv)

lemma create_task_map_spec:
  fixes m :: "'z pmem_scheme"
  assumes e: "mem_env km m" and al: "sys_allocator al" and su: "supplies km (76 # 40 # rest) m"
  shows "\<exists>h m'. create_task_map km stale al m = Some (h, m') \<and> task_map_ok h m' (replicate 10 []) \<and> keeps {} m m' \<and>
    set (blocks m') = set (blocks m) \<union> insert (hm_self h, sizeof_hash_map_t) (map_owned h (replicate 10 [])) \<and>
    insert (hm_self h, sizeof_hash_map_t) (map_owned h (replicate 10 [])) \<inter> set (blocks m) = {} \<and>
    (hm_self h, sizeof_hash_map_t) \<notin> map_owned h (replicate 10 []) \<and> supplies km rest m'"
proof -
  from supplies_Cons [OF su] obtain p m1 where a1: "kmalloc km 76 m = (p, m1)" "p \<noteq> NULL"
    and s1: "\<And>m' :: 'z pmem_scheme. blocks m' = (p, 76) # blocks m \<Longrightarrow> ticks m' = Suc (ticks m) \<Longrightarrow>
      supplies km (40 # rest) m'" by blast
  have n1: "blocks m1 = (p, 76) # blocks m" "ticks m1 = Suc (ticks m)" using kmalloc_some [OF a1] by simp_all
  have e1: "mem_env km m1" "keeps {} m m1" using mem_env_kmalloc [OF e a1(1)] by simp_all
  from supplies_Cons [OF s1 [OF n1]] obtain q m2 where a2: "kmalloc km 40 m1 = (q, m2)" "q \<noteq> NULL"
    and s2: "\<And>m' :: 'z pmem_scheme. blocks m' = (q, 40) # blocks m1 \<Longrightarrow> ticks m' = Suc (ticks m1) \<Longrightarrow>
      supplies km rest m'" by blast
  have new: "(p, 76) \<notin> set (blocks m)" using kmalloc_new_block [OF e a1] by simp
  note n2 = kmalloc_new_block [OF e1(1) a2]
  define h0 where "h0 = stale\<lparr>hm_self := p, hm_allocator := al, hm_lock_type := 0\<rparr>"
  have c: "hash_map_create km stale al 0 m = Some (h0, m1)"
    using a1 e al by (simp add: hash_map_create_def h0_def sizeof_hash_map_t_def mem_env_def)
  have env: "hmap_env km h0 m1" using e1(1) al by (simp add: mem_env_def hmap_env_def h0_def)
  have z: "0 < unat TASK_BUCKETS" "4 * unat TASK_BUCKETS < 2 ^ 32" "4 * unat TASK_BUCKETS = 40" "unat TASK_BUCKETS = 10"
    "unat TASK_KEY_SIZE \<le> unat (TASK_DATA_SIZE + TASK_KEY_SIZE)" "unat (TASK_DATA_SIZE + TASK_KEY_SIZE) + 20 < 2 ^ 32"
    by (simp_all add: TASK_BUCKETS_def TASK_KEY_SIZE_def TASK_DATA_SIZE_def)
  have a2': "kmalloc km (4 * unat TASK_BUCKETS) m1 = (q, m2)" using a2(1) z(3) by simp
  from hash_map_init_spec [OF env z(1,2,5,6) a2' a2(2)] obtain h m' where
    i: "hash_map_init km h0 TASK_KEY_SIZE (TASK_DATA_SIZE + TASK_KEY_SIZE) TASK_BUCKETS default_hash_func
          default_key_cmp_func m1 = Some (0, h, m')"
      "hmap_ok h m' (replicate (unat TASK_BUCKETS) [])" "hm_hash_func h = default_hash_func"
      "hm_key_cmp_func h = default_key_cmp_func" "hm_hlist h = q" "hm_key_size h = TASK_KEY_SIZE"
      "hm_data_size h = TASK_DATA_SIZE + TASK_KEY_SIZE" "hm_bucket_size h = TASK_BUCKETS" by blast
  from hash_map_init_frame [OF env z(1,2) a2' a2(2) i(1)] z(3)
  have f: "blocks m' = (q, 40) # blocks m1" "ticks m' = Suc (ticks m1)" "keeps {} m1 m'" "hm_allocator h = al" "hm_self h = p"
    using hash_map_init_self [OF i(1)] by (simp_all add: h0_def)
  have "hash_ok h" using default_hash_ok [OF i(3,4)] i(8) by (simp add: TASK_BUCKETS_def)
  then have "task_map_ok h m' (replicate 10 [])" using i f(4) al z(4) by (simp add: task_map_ok_def)
  moreover have "map_owned h (replicate 10 []) = {(q, 40)}" using i(5,8) z(3) by (simp add: map_owned_def map_table_def)
  moreover have "set (blocks m') = set (blocks m) \<union> {(p, 76), (q, 40)}" "{(p, 76), (q, 40)} \<inter> set (blocks m) = {}" "(p, 76 :: nat) \<noteq> (q, 40)"
    using n2 n1 f(1) new by auto
  moreover have "create_task_map km stale al m = Some (h, m')" using c i(1) by (simp add: create_task_map_def)
  moreover have "keeps {} m m'" using keeps_trans [OF e1(2) f(3)] by simp
  ultimately show ?thesis using s2 [OF f(1,2)] f(5) by (simp add: sizeof_hash_map_t_def)
qed

text \<open>Parts that were created one after the other, the latest first.\<close>

definition staged :: "'a set \<Rightarrow> 'a set \<Rightarrow> 'a set list \<Rightarrow> bool" where
  "staged b0 b Ss = (apart Ss \<and> b = b0 \<union> \<Union> (set Ss) \<and> \<Union> (set Ss) \<inter> b0 = {})"

lemma staged_Nil: "staged b b []"
  by (simp add: staged_def apart_def)

lemma staged_step:
  assumes "staged b0 b Ss" and "S \<inter> b = {}" and "b' = b \<union> S"
  shows "staged b0 b' (S # Ss)"
proof -
  have "\<forall>T \<in> set Ss. S \<inter> T = {}" "S \<inter> b0 = {}" using assms unfolding staged_def by blast+
  then show ?thesis using assms unfolding staged_def apart_def by auto
qed

lemma staged_two:
  assumes st: "staged b0 b Ss" and "insert x S \<inter> b = {}" and "x \<notin> S" and "b' = b \<union> insert x S"
  shows "staged b0 b' (S # {x} # Ss)"
proof -
  have "staged b0 (insert x b) ({x} # Ss)" by (rule staged_step [OF st]) (use assms(2) in auto)
  then show ?thesis by (rule staged_step) (use assms(2-4) in auto)
qed

lemma staged_admin:
  assumes st: "staged b0 b [{(pair_p (ta_pair a), 26)},
     map_owned (voice_user_designate_slot a) C, {(hm_self (voice_user_designate_slot a), sizeof_hash_map_t)},
     map_owned (data_user_designate_slot a) B, {(hm_self (data_user_designate_slot a), sizeof_hash_map_t)},
     llist_owned (voice_sys_designate_slot a) ys, {(ll_self (voice_sys_designate_slot a), sizeof_llist_t)},
     llist_owned (data_sys_designate_slot a) xs, {(ll_self (data_sys_designate_slot a), sizeof_llist_t)},
     {(ta_self a, sizeof_task_admin_t)}, {(al_self (ta_allocator a), sizeof_allocator_t)}]"
  shows "apart (admin_parts a xs ys B C)" and "card (admin_leaked a) = 5" and "b = b0 \<union> admin_owned a xs ys B C"
    and "admin_owned a xs ys B C \<inter> b0 = {}"
proof -
  note s = st [unfolded staged_def apart_def, simplified]
  show "apart (admin_parts a xs ys B C)" unfolding apart_def admin_parts_def admin_leaked_def using s by auto
  let ?ps = "[(pair_p (ta_pair a), 26), (hm_self (voice_user_designate_slot a), sizeof_hash_map_t),
      (hm_self (data_user_designate_slot a), sizeof_hash_map_t), (ll_self (voice_sys_designate_slot a), sizeof_llist_t),
      (ll_self (data_sys_designate_slot a), sizeof_llist_t)]"
  have "distinct ?ps" using s by simp
  moreover have "set ?ps = admin_leaked a" by (auto simp: admin_leaked_def)
  ultimately show "card (admin_leaked a) = 5" using distinct_card [of ?ps] by simp
  show "b = b0 \<union> admin_owned a xs ys B C" unfolding admin_owned_def admin_parts_def admin_leaked_def using s by auto
  show "admin_owned a xs ys B C \<inter> b0 = {}" unfolding admin_owned_def admin_parts_def admin_leaked_def using s by auto
qed

definition task_admin_sizes :: "nat list" where
  "task_admin_sizes = [76, 32, 56, 8, 56, 8, 76, 40, 76, 40, 26]"

lemma create_task_admin_spec:
  fixes m :: "'z pmem_scheme"
  assumes e: "mem_env km m" and su: "supplies km (task_admin_sizes @ rest) m"
  shows "\<exists>a m'. create_task_admin km stale m = Some (Some a, m') \<and>
    admin_ok m' a [] [] (replicate 10 []) (replicate 10 []) \<and> keeps {} m m' \<and>
    set (blocks m') = set (blocks m) \<union> admin_owned a [] [] (replicate 10 []) (replicate 10 []) \<and>
    admin_owned a [] [] (replicate 10 []) (replicate 10 []) \<inter> set (blocks m) = {} \<and> supplies km rest m'"
proof -
  let ?E = "replicate 10 [] :: addr list list"
  have su0: "supplies km (76 # [32, 56, 8, 56, 8, 76, 40, 76, 40, 26] @ rest) m"
    using su by (simp add: task_admin_sizes_def)
  from supplies_Cons [OF su0] obtain p m1 where a1: "kmalloc km 76 m = (p, m1)" "p \<noteq> NULL"
    and s1: "\<And>m' :: 'z pmem_scheme. blocks m' = (p, 76) # blocks m \<Longrightarrow> ticks m' = Suc (ticks m) \<Longrightarrow>
      supplies km (32 # [56, 8, 56, 8, 76, 40, 76, 40, 26] @ rest) m'" by auto
  note n1 = kmalloc_new_block [OF e a1, simplified]
  note e1 = mem_env_kmalloc [OF e a1(1), simplified]
  have su1: "supplies km (32 # [56, 8, 56, 8, 76, 40, 76, 40, 26] @ rest) m1" using s1 n1 by blast
  from supplies_Cons [OF su1] obtain q m2 where a2: "kmalloc km 32 m1 = (q, m2)" "q \<noteq> NULL"
    and s2: "\<And>m' :: 'z pmem_scheme. blocks m' = (q, 32) # blocks m1 \<Longrightarrow> ticks m' = Suc (ticks m1) \<Longrightarrow>
      supplies km (56 # 8 # [56, 8, 76, 40, 76, 40, 26] @ rest) m'" by auto
  note n2 = kmalloc_new_block [OF e1(1) a2, simplified]
  note e2 = mem_env_kmalloc [OF e1(1) a2(1), simplified]
  define al where "al = \<lparr>al_self = p, allocator_type = ALLOCATOR_TYPE_SYS_MALLOC, al_lock_type = 0,
    priv_cds = \<lparr>slab_array_max_num = 0, mempool_capacity = 0, data_min_size = 0\<rparr>\<rparr>"
  have al: "sys_allocator al" by (simp add: al_def sys_allocator_def)
  have su2: "supplies km (56 # 8 # [56, 8, 76, 40, 76, 40, 26] @ rest) m2" using s2 n2 by blast
  from create_task_list_spec [OF e2(1) al su2, where stale = "data_sys_designate_slot stale"] obtain l1 m3 where
    r3: "create_task_list km (data_sys_designate_slot stale) al m2 = Some (l1, m3)" "queue_ok l1 m3 []" "keeps {} m2 m3"
      "set (blocks m3) = set (blocks m2) \<union> insert (ll_self l1, sizeof_llist_t) (llist_owned l1 [])"
      "insert (ll_self l1, sizeof_llist_t) (llist_owned l1 []) \<inter> set (blocks m2) = {}"
      "(ll_self l1, sizeof_llist_t) \<notin> llist_owned l1 []" "supplies km (56 # 8 # [76, 40, 76, 40, 26] @ rest) m3" by auto
  note e3 = mem_env_keeps [OF e2(1) r3(3)]
  from create_task_list_spec [OF e3 al r3(7), where stale = "voice_sys_designate_slot stale"] obtain l2 m4 where
    r4: "create_task_list km (voice_sys_designate_slot stale) al m3 = Some (l2, m4)" "queue_ok l2 m4 []" "keeps {} m3 m4"
      "set (blocks m4) = set (blocks m3) \<union> insert (ll_self l2, sizeof_llist_t) (llist_owned l2 [])"
      "insert (ll_self l2, sizeof_llist_t) (llist_owned l2 []) \<inter> set (blocks m3) = {}"
      "(ll_self l2, sizeof_llist_t) \<notin> llist_owned l2 []" "supplies km (76 # 40 # [76, 40, 26] @ rest) m4" by auto
  note e4 = mem_env_keeps [OF e3 r4(3)]
  from create_task_map_spec [OF e4 al r4(7), where stale = "data_user_designate_slot stale"] obtain h1 m5 where
    r5: "create_task_map km (data_user_designate_slot stale) al m4 = Some (h1, m5)" "task_map_ok h1 m5 ?E" "keeps {} m4 m5"
      "set (blocks m5) = set (blocks m4) \<union> insert (hm_self h1, sizeof_hash_map_t) (map_owned h1 ?E)"
      "insert (hm_self h1, sizeof_hash_map_t) (map_owned h1 ?E) \<inter> set (blocks m4) = {}"
      "(hm_self h1, sizeof_hash_map_t) \<notin> map_owned h1 ?E" "supplies km (76 # 40 # [26] @ rest) m5" by auto
  note e5 = mem_env_keeps [OF e4 r5(3)]
  from create_task_map_spec [OF e5 al r5(7), where stale = "voice_user_designate_slot stale"] obtain h2 m6 where
    r6: "create_task_map km (voice_user_designate_slot stale) al m5 = Some (h2, m6)" "task_map_ok h2 m6 ?E" "keeps {} m5 m6"
      "set (blocks m6) = set (blocks m5) \<union> insert (hm_self h2, sizeof_hash_map_t) (map_owned h2 ?E)"
      "insert (hm_self h2, sizeof_hash_map_t) (map_owned h2 ?E) \<inter> set (blocks m5) = {}"
      "(hm_self h2, sizeof_hash_map_t) \<notin> map_owned h2 ?E" "supplies km (26 # rest) m6" by auto
  note e6 = mem_env_keeps [OF e5 r6(3)]
  from supplies_Cons [OF r6(7)] obtain pp m7 where a7: "kmalloc km 26 m6 = (pp, m7)" "pp \<noteq> NULL"
    and s7: "\<And>m' :: 'z pmem_scheme. blocks m' = (pp, 26) # blocks m6 \<Longrightarrow> ticks m' = Suc (ticks m6) \<Longrightarrow>
      supplies km rest m'" by blast
  note n7 = kmalloc_new_block [OF e6 a7, simplified]
  note e7 = mem_env_kmalloc [OF e6 a7(1), simplified]
  let ?pr = "\<lparr>pair_p = pp, pair_data_len = ucast (TASK_KEY_SIZE + TASK_DATA_SIZE), pair_key_len = TASK_KEY_SIZE,
    pair_value_len = TASK_DATA_SIZE, pair_data = []\<rparr>"
  have pr: "create_pair km TASK_KEY_SIZE TASK_DATA_SIZE m6 = Some (?pr, m7)"
    using a7 kmalloc_valid_new [OF a7] valid_shrink [of m7 pp 26 16]
    by (simp add: create_pair_def sizeof_pair_t_def TASK_KEY_SIZE_def TASK_DATA_SIZE_def)
  let ?a = "stale\<lparr>ta_self := q, ta_allocator := al, ta_pair := ?pr, data_sys_designate_slot := l1,
    voice_sys_designate_slot := l2, data_user_designate_slot := h1, voice_user_designate_slot := h2\<rparr>"
  have reg: "sys_registered m1" using e1(1) by (simp add: mem_env_def)
  have run: "create_task_admin km stale m = Some (Some ?a, m7)"
    using a1 a2 r3(1) r4(1) r5(1) r6(1) pr reg al
    by (simp add: create_task_admin_def allocator_creator_def sizeof_allocator_t_def sizeof_task_admin_t_def al_def [symmetric])
  have k67: "keeps {} m5 m7" using keeps_trans [OF r6(3) e7(2)] by simp
  have k47: "keeps {} m4 m7" using keeps_trans [OF r5(3) k67] by simp
  have k37: "keeps {} m3 m7" using keeps_trans [OF r4(3) k47] by simp
  have k27: "keeps {} m2 m7" using keeps_trans [OF r3(3) k37] by simp
  have k17: "keeps {} m1 m7" using keeps_trans [OF e2(2) k27] by simp
  have k07: "keeps {} m m7" using keeps_trans [OF e1(2) k17] by simp
  have q1: "queue_ok l1 m7 []" "queue_ok l2 m7 []" using queue_keeps [OF k37 r3(2)] queue_keeps [OF k47 r4(2)] by simp_all
  have t1: "task_map_ok h1 m7 ?E" "task_map_ok h2 m7 ?E" using task_map_keeps [OF k67 r5(2)] task_map_keeps [OF e7(2) r6(2)] by simp_all
  have st1: "staged (set (blocks m)) (set (blocks m1)) [{(p, 76)}]" by (rule staged_step [OF staged_Nil]) (use n1 in simp_all)
  have st2: "staged (set (blocks m)) (set (blocks m2)) [{(q, 32)}, {(p, 76)}]" by (rule staged_step [OF st1]) (use n2 in simp_all)
  note st6 = staged_two [OF staged_two [OF staged_two [OF staged_two [OF st2 r3(5,6,4)] r4(5,6,4)] r5(5,6,4)] r6(5,6,4)]
  have st7: "set (blocks m7) = set (blocks m6) \<union> {(pp, 26)}" "{(pp, 26)} \<inter> set (blocks m6) = {}" using n7 by simp_all
  have "apart (admin_parts ?a [] [] ?E ?E)" "card (admin_leaked ?a) = 5"
    "set (blocks m7) = set (blocks m) \<union> admin_owned ?a [] [] ?E ?E" "admin_owned ?a [] [] ?E ?E \<inter> set (blocks m) = {}"
    by (rule staged_admin; use staged_step [OF st6 st7(2,1)] in \<open>simp add: al_def sizeof_task_admin_t_def sizeof_allocator_t_def\<close>)+
  note own = this
  then have "admin_leaked ?a \<subseteq> set (blocks m7)" "(p, 76) \<in> set (blocks m7)" "(q, 32) \<in> set (blocks m7)"
    by (auto simp: admin_owned_def admin_parts_def al_def sizeof_task_admin_t_def sizeof_allocator_t_def)
  then have "admin_ok m7 ?a [] [] ?E ?E"
    unfolding admin_ok_def using q1 t1 own(1,2) al by (simp add: sizeof_task_admin_t_def sizeof_allocator_t_def al_def)
  moreover have "supplies km rest m7" using s7 n7 by blast
  ultimately show ?thesis using run k07 own(3,4) by blast
qed

section \<open>Tasks that come in\<close>

lemma queue_push:
  fixes m :: "'z pmem_scheme"
  assumes e: "mem_env km m" and q: "queue_ok l m xs" and d: "length d = 8" and su: "supplies km (20 # rest) m"
  shows "\<exists>p l' m'. llist_push_back km l d m = Some (0, l', m') \<and> queue_ok l' m' (xs @ [p]) \<and>
    queued m' (xs @ [p]) = queued m xs @ [d] \<and> keeps (llist_owned l xs) m m' \<and>
    llist_owned l' (xs @ [p]) = insert (p, 20) (llist_owned l xs) \<and> (p, 20) \<notin> set (blocks m) \<and>
    ll_self l' = ll_self l \<and> supplies km rest m'"
proof -
  from supplies_Cons [OF su] obtain p m1 where a: "kmalloc km 20 m = (p, m1)" "p \<noteq> NULL"
    and s: "\<And>m' :: 'z pmem_scheme. blocks m' = (p, 20) # blocks m \<Longrightarrow> ticks m' = Suc (ticks m) \<Longrightarrow> supplies km rest m'"
    by blast
  have l: "llist_ok l m xs" "end_ok l xs" "data_size l = TASK_DATA_SIZE" "sys_allocator (ll_allocator l)"
    using q by (simp_all add: queue_ok_def)
  have ns: "node_size l = 20" using l(3) by (simp add: node_size_def sizeof_list_t_def TASK_DATA_SIZE_def)
  have d': "length d = unat (data_size l)" using d l(3) by (simp add: TASK_DATA_SIZE_def)
  have a': "kmalloc km (node_size l) m = (p, m1)" using a(1) ns by simp
  from llist_push_back_frame [OF queue_env [OF e q] l(1,2) d' a' a(2)] obtain l' m' where
    r: "llist_push_back km l d m = Some (0, l', m')" "llist_ok l' m' (xs @ [p])" "end_ok l' (xs @ [p])"
      "sentinel l' = sentinel l" "data_size l' = data_size l" "ll_allocator l' = ll_allocator l" "ll_self l' = ll_self l"
      "map (ldata m') (xs @ [p]) = map (ldata m) xs @ [d]" "keeps (llist_owned l xs) m m'"
      "blocks m' = (p, 20) # blocks m" "ticks m' = Suc (ticks m)" "(p, 20) \<notin> set (blocks m)"
    unfolding ns by blast
  have "node_size l' = 20" using r(5) ns by (simp add: node_size_def)
  then have "llist_owned l' (xs @ [p]) = insert (p, 20) (llist_owned l xs)"
    using r(4) ns by (auto simp: llist_owned_def)
  moreover have "queue_ok l' m' (xs @ [p])" using r l by (simp add: queue_ok_def)
  ultimately show ?thesis using r s [OF r(10,11)] unfolding queued_def by blast
qed

lemma apart_pick: "apart (Xs @ S # Ys) \<Longrightarrow> X \<in> set (Xs @ Ys) \<Longrightarrow> S \<inter> X = {}"
  by (auto simp: apart_def sorted_wrt_append)

lemma apart_replace:
  assumes "apart (Xs @ S # Ys)" and "S' \<inter> U \<subseteq> S" and "\<And>X. X \<in> set (Xs @ Ys) \<Longrightarrow> X \<subseteq> U"
  shows "apart (Xs @ S' # Ys)"
proof -
  have "S' \<inter> X = {}" if "X \<in> set (Xs @ Ys)" for X
    using apart_pick [OF assms(1) that] assms(2) assms(3) [OF that] by blast
  then show ?thesis using assms(1) unfolding apart_def sorted_wrt_append by (auto simp: Int_commute)
qed

text \<open>A step on one queue keeps the rest of the administration.\<close>

lemma admin_data_step:
  assumes ok: "admin_ok m a xs ys B C" and k: "keeps (llist_owned (data_sys_designate_slot a) xs) m m'"
    and q: "queue_ok l' m' xs'" and ow: "llist_owned l' xs' \<inter> set (blocks m) \<subseteq> llist_owned (data_sys_designate_slot a) xs"
    and self: "ll_self l' = ll_self (data_sys_designate_slot a)"
  shows "admin_ok m' (a\<lparr>data_sys_designate_slot := l'\<rparr>) xs' ys B C" and "queued m' ys = queued m ys"
proof -
  let ?D = "llist_owned (data_sys_designate_slot a) xs"
  let ?Xs = "[admin_leaked a, map_owned (voice_user_designate_slot a) C, map_owned (data_user_designate_slot a) B,
      llist_owned (voice_sys_designate_slot a) ys]"
  let ?Ys = "[{(ta_self a, sizeof_task_admin_t)}, {(al_self (ta_allocator a), sizeof_allocator_t)}]"
  have parts: "queue_ok (voice_sys_designate_slot a) m ys" "task_map_ok (data_user_designate_slot a) m B"
      "task_map_ok (voice_user_designate_slot a) m C" "apart (?Xs @ ?D # ?Ys)"
    using ok by (simp_all add: admin_ok_def admin_parts_def)
  have sub: "X \<subseteq> set (blocks m)" if "X \<in> set (?Xs @ ?Ys)" for X
    using admin_owned_blocks [OF ok] that by (auto simp: admin_owned_def admin_parts_def)
  note pick = apart_pick [OF parts(4)]
  have d: "?D \<inter> llist_owned (voice_sys_designate_slot a) ys = {}" "?D \<inter> map_owned (data_user_designate_slot a) B = {}"
      "?D \<inter> map_owned (voice_user_designate_slot a) C = {}" by (rule pick; simp)+
  have d': "?D \<inter> admin_leaked a = {}" by (rule pick) simp
  have d'': "(ta_self a, sizeof_task_admin_t) \<notin> ?D" "(al_self (ta_allocator a), sizeof_allocator_t) \<notin> ?D"
    using pick [of "{(ta_self a, sizeof_task_admin_t)}"] pick [of "{(al_self (ta_allocator a), sizeof_allocator_t)}"] by simp_all
  have lk: "admin_leaked (a\<lparr>data_sys_designate_slot := l'\<rparr>) = admin_leaked a" by (simp add: admin_leaked_def self)
  have "apart (admin_parts (a\<lparr>data_sys_designate_slot := l'\<rparr>) xs' ys B C)"
    using apart_replace [OF parts(4) ow sub] by (simp add: admin_parts_def lk)
  moreover note q queue_keeps [OF k parts(1) d(1)] task_map_keeps [OF k parts(2) d(2)] task_map_keeps [OF k parts(3) d(3)]
    keeps_subset [OF k _ d'] keeps_block [OF k _ d''(1)] keeps_block [OF k _ d''(2)]
  ultimately show "admin_ok m' (a\<lparr>data_sys_designate_slot := l'\<rparr>) xs' ys B C" "queued m' ys = queued m ys"
    using ok by (simp_all add: admin_ok_def lk)
qed

lemma admin_voice_step:
  assumes ok: "admin_ok m a xs ys B C" and k: "keeps (llist_owned (voice_sys_designate_slot a) ys) m m'"
    and q: "queue_ok l' m' ys'" and ow: "llist_owned l' ys' \<inter> set (blocks m) \<subseteq> llist_owned (voice_sys_designate_slot a) ys"
    and self: "ll_self l' = ll_self (voice_sys_designate_slot a)"
  shows "admin_ok m' (a\<lparr>voice_sys_designate_slot := l'\<rparr>) xs ys' B C" and "queued m' xs = queued m xs"
proof -
  let ?D = "llist_owned (voice_sys_designate_slot a) ys"
  let ?Xs = "[admin_leaked a, map_owned (voice_user_designate_slot a) C, map_owned (data_user_designate_slot a) B]"
  let ?Ys = "[llist_owned (data_sys_designate_slot a) xs, {(ta_self a, sizeof_task_admin_t)}, {(al_self (ta_allocator a), sizeof_allocator_t)}]"
  have parts: "queue_ok (data_sys_designate_slot a) m xs" "task_map_ok (data_user_designate_slot a) m B"
      "task_map_ok (voice_user_designate_slot a) m C" "apart (?Xs @ ?D # ?Ys)"
    using ok by (simp_all add: admin_ok_def admin_parts_def)
  have sub: "X \<subseteq> set (blocks m)" if "X \<in> set (?Xs @ ?Ys)" for X
    using admin_owned_blocks [OF ok] that by (auto simp: admin_owned_def admin_parts_def)
  note pick = apart_pick [OF parts(4)]
  have d: "?D \<inter> llist_owned (data_sys_designate_slot a) xs = {}" "?D \<inter> map_owned (data_user_designate_slot a) B = {}"
      "?D \<inter> map_owned (voice_user_designate_slot a) C = {}" by (rule pick; simp)+
  have d': "?D \<inter> admin_leaked a = {}" by (rule pick) simp
  have d'': "(ta_self a, sizeof_task_admin_t) \<notin> ?D" "(al_self (ta_allocator a), sizeof_allocator_t) \<notin> ?D"
    using pick [of "{(ta_self a, sizeof_task_admin_t)}"] pick [of "{(al_self (ta_allocator a), sizeof_allocator_t)}"] by simp_all
  have lk: "admin_leaked (a\<lparr>voice_sys_designate_slot := l'\<rparr>) = admin_leaked a" by (simp add: admin_leaked_def self)
  have "apart (admin_parts (a\<lparr>voice_sys_designate_slot := l'\<rparr>) xs ys' B C)"
    using apart_replace [OF parts(4) ow sub] by (simp add: admin_parts_def lk)
  moreover note q queue_keeps [OF k parts(1) d(1)] task_map_keeps [OF k parts(2) d(2)] task_map_keeps [OF k parts(3) d(3)]
    keeps_subset [OF k _ d'] keeps_block [OF k _ d''(1)] keeps_block [OF k _ d''(2)]
  ultimately show "admin_ok m' (a\<lparr>voice_sys_designate_slot := l'\<rparr>) xs ys' B C" "queued m' xs = queued m xs"
    using ok by (simp_all add: admin_ok_def lk)
qed

end
