(* ===== verification/Task_Flow.thy ===== *)
theory Task_Flow
  imports Task_Life
begin

text \<open>
  What the driver's commands do with an administration: a run of tasks that come in, fetching
  them, and the end of the administration. Fetching reports success without handing a task out
  and ruins a queue that is empty; tasks with a slot chosen by the user never get in.
\<close>

section \<open>A run of tasks\<close>

definition sys_task :: "u8 \<times> task \<Rightarrow> bool" where
  "sys_task pt = (task_slot_type (snd pt) = SLOT_TYPE_SYS_DESIGNATE \<and>
     (task_type (snd pt) = TASK_TYPE_DATA \<or> task_type (snd pt) = TASK_TYPE_VOICE))"

text \<open>The bytes of the tasks of one type, in order.\<close>

definition of_type :: "u8 \<Rightarrow> (u8 \<times> task) list \<Rightarrow> bytes list" where
  "of_type ty ts = map (\<lambda>(pad, t). task_bytes pad t) (filter (\<lambda>(pad, t). task_type t = ty) ts)"

definition add_tasks ::
  "kmalloc_fn \<Rightarrow> (addr \<Rightarrow> nat \<Rightarrow> bytes option) \<Rightarrow> (u8 \<times> task) list \<Rightarrow> task_admin \<times> 'z hmem_scheme \<Rightarrow>
     (task_admin \<times> 'z hmem_scheme) option" where
  "add_tasks km peek ts s = foldM (\<lambda>(pad, t) (a, m). add_task km peek pad a t TASK_FLAG_SND m) ts s"

lemma task_bytes_length: "length (task_bytes pad t) = 8"
  by (simp add: task_bytes_def)

lemma task_constants [simp]:
  "TASK_FLAG_SND \<noteq> TASK_FLAG_RCV" "TASK_TYPE_VOICE \<noteq> TASK_TYPE_DATA" "TASK_TYPE_DATA \<noteq> TASK_TYPE_VOICE" "SLOT_TYPE_USER_DESIGNATE \<noteq> SLOT_TYPE_SYS_DESIGNATE"
  by (simp_all add: TASK_FLAG_SND_def TASK_FLAG_RCV_def TASK_TYPE_VOICE_def TASK_TYPE_DATA_def
      SLOT_TYPE_USER_DESIGNATE_def SLOT_TYPE_SYS_DESIGNATE_def)

lemma data_in_owned: "llist_owned (data_sys_designate_slot a) xs \<subseteq> admin_owned a xs ys B C"
  and voice_in_owned: "llist_owned (voice_sys_designate_slot a) ys \<subseteq> admin_owned a xs ys B C"
  by (auto simp: admin_owned_def admin_parts_def)

lemma add_task_sys_spec:
  fixes m :: "'z pmem_scheme"
  assumes e: "mem_env km m" and ok: "admin_ok m a xs ys B C" and t: "sys_task (pad, t)" and su: "supplies km (20 # rest) m"
  shows "\<exists>a' m' xs' ys'. add_task km peek pad a t TASK_FLAG_SND m = Some (a', m') \<and> admin_ok m' a' xs' ys' B C \<and>
    queued m' xs' = queued m xs @ of_type TASK_TYPE_DATA [(pad, t)] \<and>
    queued m' ys' = queued m ys @ of_type TASK_TYPE_VOICE [(pad, t)] \<and>
    keeps (admin_owned a xs ys B C) m m' \<and>
    admin_owned a' xs' ys' B C \<inter> set (blocks m) \<subseteq> admin_owned a xs ys B C \<and> supplies km rest m'"
proof -
  have q: "queue_ok (data_sys_designate_slot a) m xs" "queue_ok (voice_sys_designate_slot a) m ys"
    using ok by (simp_all add: admin_ok_def)
  consider "task_type t = TASK_TYPE_DATA" | "task_type t = TASK_TYPE_VOICE" using t by (auto simp: sys_task_def)
  then show ?thesis
  proof cases
    case 1
    from queue_push [OF e q(1) task_bytes_length su] obtain p l' m' where
      r: "llist_push_back km (data_sys_designate_slot a) (task_bytes pad t) m = Some (0, l', m')" "queue_ok l' m' (xs @ [p])"
        "queued m' (xs @ [p]) = queued m xs @ [task_bytes pad t]" "keeps (llist_owned (data_sys_designate_slot a) xs) m m'"
        "llist_owned l' (xs @ [p]) = insert (p, 20) (llist_owned (data_sys_designate_slot a) xs)" "(p, 20) \<notin> set (blocks m)"
        "ll_self l' = ll_self (data_sys_designate_slot a)" "supplies km rest m'" by blast
    have ow: "llist_owned l' (xs @ [p]) \<inter> set (blocks m) \<subseteq> llist_owned (data_sys_designate_slot a) xs" using r(5,6) by auto
    note s = admin_data_step [OF ok r(4,2) ow r(7)]
    have lk: "admin_leaked (a\<lparr>data_sys_designate_slot := l'\<rparr>) = admin_leaked a" using r(7) by (simp add: admin_leaked_def)
    have "add_task km peek pad a t TASK_FLAG_SND m = Some (a\<lparr>data_sys_designate_slot := l'\<rparr>, m')"
      using 1 t r(1) by (simp add: add_task_def sys_task_def)
    moreover have "admin_owned (a\<lparr>data_sys_designate_slot := l'\<rparr>) (xs @ [p]) ys B C \<inter> set (blocks m) \<subseteq> admin_owned a xs ys B C"
      using ow by (auto simp: admin_owned_def admin_parts_def lk)
    moreover have "keeps (admin_owned a xs ys B C) m m'" by (rule keeps_mono [OF r(4)]) (use data_in_owned in blast)
    moreover have "of_type TASK_TYPE_DATA [(pad, t)] = [task_bytes pad t]" "of_type TASK_TYPE_VOICE [(pad, t)] = []"
      using 1 by (simp_all add: of_type_def)
    ultimately show ?thesis using s r(3,8) by (metis append_Nil2)
  next
    case 2
    from queue_push [OF e q(2) task_bytes_length su] obtain p l' m' where
      r: "llist_push_back km (voice_sys_designate_slot a) (task_bytes pad t) m = Some (0, l', m')" "queue_ok l' m' (ys @ [p])"
        "queued m' (ys @ [p]) = queued m ys @ [task_bytes pad t]" "keeps (llist_owned (voice_sys_designate_slot a) ys) m m'"
        "llist_owned l' (ys @ [p]) = insert (p, 20) (llist_owned (voice_sys_designate_slot a) ys)" "(p, 20) \<notin> set (blocks m)"
        "ll_self l' = ll_self (voice_sys_designate_slot a)" "supplies km rest m'" by blast
    have ow: "llist_owned l' (ys @ [p]) \<inter> set (blocks m) \<subseteq> llist_owned (voice_sys_designate_slot a) ys" using r(5,6) by auto
    note s = admin_voice_step [OF ok r(4,2) ow r(7)]
    have lk: "admin_leaked (a\<lparr>voice_sys_designate_slot := l'\<rparr>) = admin_leaked a" using r(7) by (simp add: admin_leaked_def)
    have "add_task km peek pad a t TASK_FLAG_SND m = Some (a\<lparr>voice_sys_designate_slot := l'\<rparr>, m')"
      using 2 t r(1) by (simp add: add_task_def sys_task_def)
    moreover have "admin_owned (a\<lparr>voice_sys_designate_slot := l'\<rparr>) xs (ys @ [p]) B C \<inter> set (blocks m) \<subseteq> admin_owned a xs ys B C"
      using ow by (auto simp: admin_owned_def admin_parts_def lk)
    moreover have "keeps (admin_owned a xs ys B C) m m'" by (rule keeps_mono [OF r(4)]) (use voice_in_owned in blast)
    moreover have "of_type TASK_TYPE_VOICE [(pad, t)] = [task_bytes pad t]" "of_type TASK_TYPE_DATA [(pad, t)] = []"
      using 2 by (simp_all add: of_type_def)
    ultimately show ?thesis using s r(3,8) by (metis append_Nil2)
  qed
qed

lemma add_tasks_spec:
  fixes m :: "'z pmem_scheme"
  assumes "mem_env km m" and "admin_ok m a xs ys B C" and "\<forall>pt \<in> set ts. sys_task pt"
    and "supplies km (replicate (length ts) 20 @ rest) m"
  shows "\<exists>a' m' xs' ys'. add_tasks km peek ts (a, m) = Some (a', m') \<and> admin_ok m' a' xs' ys' B C \<and>
    queued m' xs' = queued m xs @ of_type TASK_TYPE_DATA ts \<and>
    queued m' ys' = queued m ys @ of_type TASK_TYPE_VOICE ts \<and>
    keeps (admin_owned a xs ys B C) m m' \<and> supplies km rest m'"
  using assms
proof (induction ts arbitrary: a m xs ys)
  case Nil
  then have "mem_ok m" by (simp add: mem_env_def)
  with Nil show ?case by (auto simp: add_tasks_def of_type_def intro: keeps_refl)
next
  case (Cons pt ts)
  obtain pad t where pt: "pt = (pad, t)" by fastforce
  have su: "supplies km (20 # (replicate (length ts) 20 @ rest)) m" and st: "sys_task (pad, t)"
    using Cons.prems(3,4) pt by simp_all
  from add_task_sys_spec [OF Cons.prems(1,2) st su, of peek] obtain a1 m1 xs1 ys1 where
    r: "add_task km peek pad a t TASK_FLAG_SND m = Some (a1, m1)" "admin_ok m1 a1 xs1 ys1 B C"
      "queued m1 xs1 = queued m xs @ of_type TASK_TYPE_DATA [(pad, t)]"
      "queued m1 ys1 = queued m ys @ of_type TASK_TYPE_VOICE [(pad, t)]"
      "keeps (admin_owned a xs ys B C) m m1"
      "admin_owned a1 xs1 ys1 B C \<inter> set (blocks m) \<subseteq> admin_owned a xs ys B C"
      "supplies km (replicate (length ts) 20 @ rest) m1" by blast
  have ts: "\<forall>pt \<in> set ts. sys_task pt" using Cons.prems(3) by simp
  from Cons.IH [OF mem_env_keeps [OF Cons.prems(1) r(5)] r(2) ts r(7)] obtain a' m' xs' ys' where
    i: "add_tasks km peek ts (a1, m1) = Some (a', m')" "admin_ok m' a' xs' ys' B C"
      "queued m' xs' = queued m1 xs1 @ of_type TASK_TYPE_DATA ts"
      "queued m' ys' = queued m1 ys1 @ of_type TASK_TYPE_VOICE ts"
      "keeps (admin_owned a1 xs1 ys1 B C) m1 m'" "supplies km rest m'" by blast
  have "add_tasks km peek (pt # ts) (a, m) = Some (a', m')" using r(1) i(1) pt by (simp add: add_tasks_def)
  moreover have "of_type ty (pt # ts) = of_type ty [(pad, t)] @ of_type ty ts" for ty by (simp add: of_type_def pt)
  ultimately show ?case using i r(3,4) keeps_trans [OF r(5) i(5) r(6)] by (metis append_assoc)
qed

section \<open>Fetching\<close>

lemma search_absent:
  assumes "task_map_ok h m B" and "hmap_abs h m B key = None" and "length key = 2"
  shows "\<exists>pos. hash_map_search h key m = Some pos \<and> hlist_node_p pos = NULL"
proof -
  have k: "unat (hm_key_size h) = 2" using assms(1) by (simp add: task_map_ok_def TASK_KEY_SIZE_def)
  have co: "chains_ok h m B" "hash_ok h" using assms(1) by (simp_all add: task_map_ok_def hmap_ok_def)
  have "find (\<lambda>x. node_key h m x = key) (concat B) = None"
    using assms(2) by (simp add: hmap_abs_def split: option.splits)
  moreover from hash_map_search_spec [OF co, of key] k assms(3) obtain i where
    "hash_map_search h key m = Some (case find (\<lambda>x. node_key h m x = key) (concat B) of
        None \<Rightarrow> pos_of h i NULL | Some x \<Rightarrow> pos_of h i x)" by auto
  ultimately show ?thesis by (simp add: hash_map_pos_init_def)
qed

lemma get_task_key_length: "length (get_task_key n) = 2"
  by (simp add: get_task_key_def)

lemma get_task_spec:
  fixes m :: "'z pmem_scheme"
  assumes e: "mem_env km m" and ok: "admin_ok m a (x # xs) ys B C"
    and none: "hmap_abs (data_user_designate_slot a) m B (get_task_key n) = None"
  shows "\<exists>l' m'. get_task a TASK_FLAG_SND n t m = Some (1, t, a\<lparr>data_sys_designate_slot := l'\<rparr>, m') \<and>
    (xs \<noteq> [] \<longrightarrow> admin_ok m' (a\<lparr>data_sys_designate_slot := l'\<rparr>) xs ys B C) \<and>
    llist_ok l' m' xs \<and> queued m' xs = queued m xs \<and> queued m' ys = queued m ys \<and>
    hmap_abs (data_user_designate_slot a) m' B = hmap_abs (data_user_designate_slot a) m B \<and>
    keeps (admin_owned a (x # xs) ys B C) m m' \<and> blocks m' = blocks m"
proof -
  let ?l = "data_sys_designate_slot a"
  have q: "queue_ok ?l m (x # xs)" and mp: "task_map_ok (data_user_designate_slot a) m B" using ok by (simp_all add: admin_ok_def)
  have l: "llist_ok ?l m (x # xs)" "end_ok ?l (x # xs)" "data_size ?l = TASK_DATA_SIZE" "sys_allocator (ll_allocator ?l)"
    using q by (simp_all add: queue_ok_def)
  from llist_detach_front_frame [OF queue_env [OF e q] l(1)] obtain l' m' where
    r: "llist_detach_front ?l m = Some (x, l', m')" "llist_ok l' m' xs" "xs \<noteq> [] \<Longrightarrow> end_ok l' xs"
      "ldata m' = ldata m" "sentinel l' = sentinel ?l" "data_size l' = data_size ?l" "ll_allocator l' = ll_allocator ?l"
      "blocks m' = blocks m" "ll_self l' = ll_self ?l" "keeps (llist_owned ?l (x # xs)) m m'" using l(2) by blast
  have x0: "x \<noteq> NULL"
    using l(1) blocks_ok_good [of "blocks m" "(x, node_size ?l)"] e by (auto simp: llist_ok_def mem_env_def good_block_def)
  have ns: "node_size l' = node_size ?l" using r(6) by (simp add: node_size_def)
  have ow: "llist_owned l' xs \<inter> set (blocks m) \<subseteq> llist_owned ?l (x # xs)"
    using r(5) ns by (auto simp: llist_owned_def)
  obtain pos where pos: "hash_map_search (data_user_designate_slot a) (get_task_key n) m = Some pos" "hlist_node_p pos = NULL"
    using search_absent [OF mp none get_task_key_length] by blast
  have run: "get_task a TASK_FLAG_SND n t m = Some (1, t, a\<lparr>data_sys_designate_slot := l'\<rparr>, m')"
    using pos r(1) x0 by (simp add: get_task_def get_task_state_def)
  have pk: "apart (admin_parts a (x # xs) ys B C)" using ok by (simp add: admin_ok_def)
  then have d: "llist_owned ?l (x # xs) \<inter> map_owned (data_user_designate_slot a) B = {}"
      "llist_owned ?l (x # xs) \<inter> llist_owned (voice_sys_designate_slot a) ys = {}"
    by (auto simp: apart_def admin_parts_def)
  have "admin_ok m' (a\<lparr>data_sys_designate_slot := l'\<rparr>) xs ys B C" if "xs \<noteq> []"
  proof -
    have "queue_ok l' m' xs" using r(2,3,6,7) l(3,4) that by (simp add: queue_ok_def)
    from admin_data_step(1) [OF ok r(10) this ow r(9)] show ?thesis .
  qed
  moreover have "queued m' ys = queued m ys" using r(4) by (simp add: queued_def)
  moreover have "queued m' xs = queued m xs" using r(4) by (simp add: queued_def)
  moreover have "hmap_abs (data_user_designate_slot a) m' B = hmap_abs (data_user_designate_slot a) m B"
    using task_map_keeps [OF r(10) mp d(1)] by simp
  moreover have "keeps (admin_owned a (x # xs) ys B C) m m'" by (rule keeps_mono [OF r(10)]) (use data_in_owned in blast)
  ultimately show ?thesis using run r(2,8) by blast
qed

text \<open>On an empty queue the sentinel is taken for a task, and the queue is ruined.\<close>

lemma get_task_empty:
  fixes m :: "'z pmem_scheme"
  assumes e: "mem_env km m" and ok: "admin_ok m a [] ys B C" and high: "kmalloc_high km" "high_mem m"
    and none: "hmap_abs (data_user_designate_slot a) m B (get_task_key n) = None"
  shows "\<exists>a' m'. get_task a TASK_FLAG_SND n t m = Some (1, t, a', m') \<and>
    (\<forall>peek pad u. sys_task (pad, u) \<and> task_type u = TASK_TYPE_DATA \<longrightarrow> add_task km peek pad a' u TASK_FLAG_SND m' = None)"
proof -
  let ?l = "data_sys_designate_slot a"
  have q: "queue_ok ?l m []" and mp: "task_map_ok (data_user_designate_slot a) m B" using ok by (simp_all add: admin_ok_def)
  have l: "llist_ok ?l m []" "end_ok ?l []" using q by (simp_all add: queue_ok_def)
  from llist_detach_front_empty [OF l(1)] obtain l' m' where
    r: "llist_detach_front ?l m = Some (sentinel ?l, l', m')" "lnext m' (sentinel ?l) = LIST_POISON1"
      "ll_end l' = ll_end ?l" "only_links {sentinel ?l} m m'" "ll_allocator l' = ll_allocator ?l" by blast
  have sb: "(sentinel ?l, sizeof_list_head) \<in> set (blocks m)" using l(1) by (simp add: llist_ok_def)
  have s0: "sentinel ?l \<noteq> NULL"
    using blocks_ok_good [OF _ sb] e by (simp add: mem_env_def good_block_def)
  obtain pos where pos: "hash_map_search (data_user_designate_slot a) (get_task_key n) m = Some pos" "hlist_node_p pos = NULL"
    using search_absent [OF mp none get_task_key_length] by blast
  have run: "get_task a TASK_FLAG_SND n t m = Some (1, t, a\<lparr>data_sys_designate_slot := l'\<rparr>, m')"
    using pos r(1) s0 by (simp add: get_task_def get_task_state_def)
  have bl: "blocks m' = blocks m" "allocator_modules m' = allocator_modules m" using r(4) by (auto simp: only_links_def)
  have env: "llist_env km l' m'"
    using queue_env [OF e q] bl r(5) by (simp add: llist_env_def sys_registered_def)
  have hi: "high_mem m'" using high(2) high_mem_blocks [OF bl(1)] by simp
  have el: "list_head_p (ll_end l') = sentinel ?l" using l(2) r(3) by (simp add: end_ok_def)
  have f: "llist_push_back km l' d m' = None" for d
    by (rule push_back_stale_end [OF env high(1) hi el r(2)])
  have "add_task km peek pad (a\<lparr>data_sys_designate_slot := l'\<rparr>) u TASK_FLAG_SND m' = None"
    if "sys_task (pad, u)" "task_type u = TASK_TYPE_DATA" for peek pad u
    using that f by (simp add: add_task_def sys_task_def)
  with run show ?thesis by blast
qed

text \<open>
  A task whose slot the user chose: the slot number is taken for the address of the key. It lies
  below the kernel's memory, so reading the key there is not an access to a live block.
\<close>

lemma add_task_user_faults:
  assumes "\<And>a n. peek a n \<noteq> None \<Longrightarrow> valid m a n" and "high_mem m"
    and "task_slot_type t = SLOT_TYPE_USER_DESIGNATE" and "task_type t = TASK_TYPE_DATA \<or> task_type t = TASK_TYPE_VOICE"
  shows "add_task km peek pad a t TASK_FLAG_SND m = None"
proof -
  have "unat (slot_num t) < 2 ^ LENGTH(16)" by (rule unsigned_less)
  then have "unat (ucast (slot_num t) :: addr) < PAGE_OFFSET"
    by (simp add: unsigned_ucast_eq take_bit_nat_eq_self PAGE_OFFSET_def)
  then have "\<not> valid m (ucast (slot_num t)) k" for k by (rule high_mem_invalid [OF assms(2)])
  then have "peek (ucast (slot_num t)) k = None" for k using assms(1) by blast
  then have "task_pair peek pad a t m = None" by (simp add: task_pair_def)
  with assms(3,4) show ?thesis by (auto simp: add_task_def)
qed

section \<open>The end\<close>

lemma filter_starts:
  assumes "mem_ok m" and "S \<subseteq> set (blocks m)"
  shows "filter (\<lambda>(b, s). b \<notin> fst ` S) (blocks m) = filter (\<lambda>p. p \<notin> S) (blocks m)"
proof (rule filter_cong [OF refl])
  fix p
  assume p: "p \<in> set (blocks m)"
  obtain b s where bs: "p = (b, s)" by fastforce
  have "(b, s) \<in> S" if "(b, s') \<in> S" for s'
  proof -
    have "(b, s') \<in> set (blocks m)" using that assms(2) by blast
    then have "s' = s" using mem_ok_same_start [OF assms(1)] p bs by blast
    then show ?thesis using that by simp
  qed
  then show "(case p of (b, s) \<Rightarrow> b \<notin> fst ` S) = (p \<notin> S)" using bs by (auto simp: image_iff)
qed

lemma keeps_Un: "keeps A m m1 \<Longrightarrow> keeps B m1 m2 \<Longrightarrow> keeps (A \<union> B) m m2"
  by (rule keeps_trans [OF keeps_mono]) auto

lemma kfree_block_spec:
  assumes "mem_ok m" and "(a, s) \<in> set (blocks m)"
  shows "\<exists>m'. kfree a m = Some m' \<and> blocks m' = filter (\<lambda>p. p \<notin> {(a, s)}) (blocks m) \<and> keeps {(a, s)} m m'"
proof -
  obtain m' where k: "kfree a m = Some m'" using kfree_block [OF assms(2)] by blast
  have "a \<noteq> NULL" using blocks_ok_good [OF assms] by (simp add: good_block_def)
  with k have "blocks m' = filter (\<lambda>(b, s). b \<noteq> a) (blocks m)" by (simp add: kfree_Some_iff)
  also have "\<dots> = filter (\<lambda>p. p \<notin> {(a, s)}) (blocks m)" using filter_starts [OF assms(1), of "{(a, s)}"] assms(2) by simp
  finally show ?thesis using k keeps_kfree [OF assms(1) k assms(2), of "{(a, s)}"] by simp
qed

lemma llist_destroy_frame:
  assumes e: "mem_env km m" and q: "queue_ok l m xs"
  shows "\<exists>l' m'. llist_destroy l m = Some (0, l', m') \<and> blocks m' = filter (\<lambda>p. p \<notin> llist_owned l xs) (blocks m) \<and>
    keeps (llist_owned l xs) m m'"
proof -
  have ok: "llist_ok l m xs" using q by (simp add: queue_ok_def)
  from llist_destroy_spec [OF queue_env [OF e q] ok] obtain l' m' where
    r: "llist_destroy l m = Some (0, l', m')" "blocks m' = filter (\<lambda>(b, s). b \<notin> set (sentinel l # xs)) (blocks m)"
      "mem_ok m'" "touches (set (sentinel l # xs)) m m'" by blast
  have mo: "mem_ok m" using e by (simp add: mem_env_def)
  have "fst ` llist_owned l xs = set (sentinel l # xs)" by (force simp: llist_owned_def)
  with filter_starts [OF mo queue_owned_blocks [OF q]] r(2)
  have "blocks m' = filter (\<lambda>p. p \<notin> llist_owned l xs) (blocks m)" by simp
  moreover have "keeps (llist_owned l xs) m m'"
  proof (rule keeps_touches [OF r(4) mo r(3)])
    fix c b
    assume "c \<in> set (sentinel l # xs)" "b \<in> set (blocks m)" "inside b c"
    then show "b \<in> llist_owned l xs" by (rule llist_touch [OF mo ok])
  qed
  ultimately show ?thesis using r(1) by blast
qed

lemma hash_map_destroy_frame:
  assumes e: "mem_env km m" and t: "task_map_ok h m B"
  shows "\<exists>h' m'. hash_map_destroy h m = Some (h', m') \<and> blocks m' = filter (\<lambda>p. p \<notin> map_owned h B) (blocks m) \<and>
    keeps (map_owned h B) m m'"
proof -
  have ok: "hmap_ok h m B" "chains_ok h m B" using t by (simp_all add: task_map_ok_def hmap_ok_def)
  from hash_map_destroy_spec [OF task_map_env [OF e t] ok(1)] obtain h' m' where
    r: "hash_map_destroy h m = Some (h', m')" "mem_ok m'" "hm_touches (map_cells h B) m m'"
      "blocks m' = filter (\<lambda>(b, s). b \<notin> set (hm_hlist h # concat B)) (blocks m)" by blast
  have mo: "mem_ok m" using e by (simp add: mem_env_def)
  have ob: "map_owned h B \<subseteq> set (blocks m)" by (rule task_map_owned_blocks [OF t])
  have "fst ` map_owned h B = set (hm_hlist h # concat B)" by (force simp: map_owned_def map_table_def)
  with filter_starts [OF mo ob] r(4) have "blocks m' = filter (\<lambda>p. p \<notin> map_owned h B) (blocks m)" by simp
  moreover have cell: "b \<in> map_owned h B" if "c \<in> map_cells h B" "b \<in> set (blocks m)" "inside b c" for b c
  proof -
    have "c = hm_hlist h \<or> (\<exists>i < length B. c = head_of h i) \<or> c \<in> set (concat B)" using that(1) by (auto simp: map_cells_def)
    then have "\<exists>w \<in> map_owned h B. inside w c"
    proof (elim disjE exE conjE)
      assume "c = hm_hlist h"
      moreover have "good_block (map_table h)" using blocks_ok_good [OF mo] ob by (auto simp: map_owned_def)
      ultimately have "inside (map_table h) c" by (auto simp: inside_def map_table_def good_block_def)
      then show ?thesis by (auto simp: map_owned_def)
    next
      fix i
      assume "i < length B" "c = head_of h i"
      then show ?thesis using map_head_inside [OF ok(2)] by (auto simp: map_owned_def)
    next
      assume "c \<in> set (concat B)"
      then show ?thesis using map_node_inside [of c h] by (auto simp: map_owned_def)
    qed
    then show ?thesis using inside_disjoint [OF mo _ that(2) _ that(3)] ob by blast
  qed
  then have "keeps (map_owned h B) m m'"
  proof (rule keeps_hm_touches [OF r(3) mo r(2)])
    fix b s
    assume "b \<in> map_cells h B" "(b, s) \<in> set (blocks m)"
    then show "(b, s) \<in> map_owned h B"
      using cell [of b "(b, s)"] blocks_ok_good [OF mo, of "(b, s)"] by (auto simp: good_block_def inside_def)
  qed
  ultimately show ?thesis using r(1) by blast
qed

text \<open>The blocks an administration gives back: all but the leaked ones.\<close>

definition admin_released ::
  "task_admin \<Rightarrow> addr list \<Rightarrow> addr list \<Rightarrow> addr list list \<Rightarrow> addr list list \<Rightarrow> (addr \<times> nat) set" where
  "admin_released a xs ys B C = \<Union> (set (tl (admin_parts a xs ys B C)))"

lemma admin_owned_split: "admin_owned a xs ys B C = admin_leaked a \<union> admin_released a xs ys B C"
  by (auto simp: admin_owned_def admin_released_def admin_parts_def)

lemma destroy_task_admin_spec:
  fixes m :: "'z pmem_scheme"
  assumes e: "mem_env km m" and ok: "admin_ok m a xs ys B C"
  shows "\<exists>m'. destroy_task_admin a m = Some m' \<and> mem_env km m' \<and>
    blocks m' = filter (\<lambda>p. p \<notin> admin_released a xs ys B C) (blocks m) \<and>
    keeps (admin_released a xs ys B C) m m' \<and> admin_leaked a \<subseteq> set (blocks m')"
proof -
  let ?D = "llist_owned (data_sys_designate_slot a) xs" and ?V = "llist_owned (voice_sys_designate_slot a) ys"
  let ?M = "map_owned (data_user_designate_slot a) B" and ?N = "map_owned (voice_user_designate_slot a) C"
  let ?S = "{(ta_self a, sizeof_task_admin_t)}" and ?A = "{(al_self (ta_allocator a), sizeof_allocator_t)}"
  have rel: "admin_released a xs ys B C = ?N \<union> ?M \<union> ?V \<union> ?D \<union> ?S \<union> ?A"
    by (auto simp: admin_released_def admin_parts_def)
  have ap: "apart [admin_leaked a, ?N, ?M, ?V, ?D, ?S, ?A]" using ok by (simp add: admin_ok_def admin_parts_def)
  have al: "sys_allocator (ta_allocator a)" using ok by (simp add: admin_ok_def)
  have st: "queue_ok (data_sys_designate_slot a) m xs" "queue_ok (voice_sys_designate_slot a) m ys"
    "task_map_ok (data_user_designate_slot a) m B" "task_map_ok (voice_user_designate_slot a) m C"
    "admin_leaked a \<subseteq> set (blocks m)" "(ta_self a, sizeof_task_admin_t) \<in> set (blocks m)"
    "(al_self (ta_allocator a), sizeof_allocator_t) \<in> set (blocks m)" using ok by (simp_all add: admin_ok_def)
  from hash_map_destroy_frame [OF e st(4)] obtain h2 m1 where
    r1: "hash_map_destroy (voice_user_designate_slot a) m = Some (h2, m1)" "blocks m1 = filter (\<lambda>p. p \<notin> ?N) (blocks m)"
      "keeps ?N m m1" by blast
  note e1 = mem_env_keeps [OF e r1(3)]
  have t1: "task_map_ok (data_user_designate_slot a) m1 B"
    using task_map_keeps [OF r1(3) st(3)] ap by (simp add: apart_def)
  from hash_map_destroy_frame [OF e1 t1] obtain h1 m2 where
    r2: "hash_map_destroy (data_user_designate_slot a) m1 = Some (h1, m2)" "blocks m2 = filter (\<lambda>p. p \<notin> ?M) (blocks m1)"
      "keeps ?M m1 m2" by blast
  note e2 = mem_env_keeps [OF e1 r2(3)]
  have k2: "keeps (?N \<union> ?M) m m2" by (rule keeps_Un [OF r1(3) r2(3)])
  have v2: "queue_ok (voice_sys_designate_slot a) m2 ys"
    using queue_keeps [OF k2 st(2)] ap by (simp add: apart_def Int_Un_distrib2)
  from llist_destroy_frame [OF e2 v2] obtain l2 m3 where
    r3: "llist_destroy (voice_sys_designate_slot a) m2 = Some (0, l2, m3)" "blocks m3 = filter (\<lambda>p. p \<notin> ?V) (blocks m2)"
      "keeps ?V m2 m3" by blast
  note e3 = mem_env_keeps [OF e2 r3(3)]
  have k3: "keeps (?N \<union> ?M \<union> ?V) m m3" by (rule keeps_Un [OF k2 r3(3)])
  have d3: "queue_ok (data_sys_designate_slot a) m3 xs"
    using queue_keeps [OF k3 st(1)] ap by (simp add: apart_def Int_Un_distrib2)
  from llist_destroy_frame [OF e3 d3] obtain l1 m4 where
    r4: "llist_destroy (data_sys_designate_slot a) m3 = Some (0, l1, m4)" "blocks m4 = filter (\<lambda>p. p \<notin> ?D) (blocks m3)"
      "keeps ?D m3 m4" by blast
  note e4 = mem_env_keeps [OF e3 r4(3)]
  have k4: "keeps (?N \<union> ?M \<union> ?V \<union> ?D) m m4" by (rule keeps_Un [OF k3 r4(3)])
  have s4: "(ta_self a, sizeof_task_admin_t) \<in> set (blocks m4)"
    by (rule keeps_block [OF k4 st(6)]) (use ap in \<open>simp add: apart_def\<close>)
  have mo4: "mem_ok m4" using e4 by (simp add: mem_env_def)
  from kfree_block_spec [OF mo4 s4] obtain m5 where
    r5: "kfree (ta_self a) m4 = Some m5" "blocks m5 = filter (\<lambda>p. p \<notin> ?S) (blocks m4)" "keeps ?S m4 m5" by blast
  note e5 = mem_env_keeps [OF e4 r5(3)]
  have k5: "keeps (?N \<union> ?M \<union> ?V \<union> ?D \<union> ?S) m m5" by (rule keeps_Un [OF k4 r5(3)])
  have a5: "(al_self (ta_allocator a), sizeof_allocator_t) \<in> set (blocks m5)"
    by (rule keeps_block [OF k5 st(7)]) (use ap in \<open>simp add: apart_def\<close>)
  have mo5: "mem_ok m5" using e5 by (simp add: mem_env_def)
  from kfree_block_spec [OF mo5 a5] obtain m6 where
    r6: "kfree (al_self (ta_allocator a)) m5 = Some m6" "blocks m6 = filter (\<lambda>p. p \<notin> ?A) (blocks m5)" "keeps ?A m5 m6" by blast
  have k6: "keeps (admin_released a xs ys B C) m m6"
    unfolding rel by (rule keeps_Un [OF k5 r6(3)])
  have "sys_registered m4" "sys_registered m5" using e4 e5 by (simp_all add: mem_env_def)
  then have "destroy_task_admin a m = Some m6"
    using r1(1) r2(1) r3(1) r4(1) r5(1) r6(1) al by (simp add: destroy_task_admin_def Let_def allocator_destroy_sys)
  moreover have "blocks m6 = filter (\<lambda>p. p \<notin> admin_released a xs ys B C) (blocks m)"
    unfolding r6(2) r5(2) r4(2) r3(2) r2(2) r1(2) rel filter_filter by (rule filter_cong) auto
  moreover have "admin_leaked a \<subseteq> set (blocks m6)"
    by (rule keeps_subset [OF k6 st(5)]) (use ap in \<open>auto simp: rel apart_def\<close>)
  ultimately show ?thesis using mem_env_keeps [OF e k6] k6 by blast
qed

end
