(* ===== verification/Pdt_Format.thy ===== *)
theory Pdt_Format
  imports Analyzer_Init
begin

text \<open>
  The formats of the driver's protocol,
  \<open>driver/libproto_analyzer/test/pdt_drv_proto_format.c\<close>: each function builds the list of one
  protocol number from a sequence of \<open>PFS_SET_PROTO_INFO\<close> entries and registers it. A format
  set is then a finite map from protocol numbers to lists of field descriptions.
\<close>

section \<open>Names and entries\<close>

definition PROTO_NUM :: string where "PROTO_NUM = ''proto_num''"
definition LAB :: string where "LAB = ''lab''"
definition LEN :: string where "LEN = ''len''"
definition COUNT :: string where "COUNT = ''count''"
definition SLOT_INFO :: string where "SLOT_INFO = ''slot_info''"
definition SYNC_INFO :: string where "SYNC_INFO = ''sync_info''"
definition TACT_INFO :: string where "TACT_INFO = ''tact_info''"
definition SLC_INFO :: string where "SLC_INFO = ''slc_info''"
definition SLC_DATA :: string where "SLC_DATA = ''slc_data''"
definition SYNC_INDEX :: string where "SYNC_INDEX = ''sync_index''"
definition ST_INFO :: string where "ST_INFO = ''st_info''"
definition DC_INFO :: string where "DC_INFO = ''dc_info''"
definition DC_DATA :: string where "DC_DATA = ''dc_data''"
definition EMB_FLAG :: string where "EMB_FLAG = ''emb_flag''"
definition EMB_INFO :: string where "EMB_INFO = ''emb_info''"
definition LC_INFO :: string where "LC_INFO = ''lc_info''"
definition LC_DATA :: string where "LC_DATA = ''lc_data''"
definition NO_NAME1 :: string where "NO_NAME1 = ''no_name1''"

lemmas name_defs = PROTO_NUM_def LAB_def LEN_def COUNT_def SLOT_INFO_def SYNC_INFO_def TACT_INFO_def
  SLC_INFO_def SLC_DATA_def SYNC_INDEX_def ST_INFO_def DC_INFO_def DC_DATA_def EMB_FLAG_def
  EMB_INFO_def LC_INFO_def LC_DATA_def NO_NAME1_def

text \<open>An entry: name, byte position, bit position, length, unit, and the length field's name.\<close>

type_synonym entry = "string \<times> string \<times> string \<times> string \<times> string \<times> string option"

text \<open>The macro; the address it returns is not used.\<close>

fun PFS_SET_PROTO_INFO ::
  "kmalloc_fn \<Rightarrow> addr \<Rightarrow> entry \<Rightarrow> 'z pmem_scheme \<Rightarrow> 'z pmem_scheme option" where
  "PFS_SET_PROTO_INFO km hl (name, bytep, bitp, ln, unt, vindex) m = do {
     (p, m1) \<leftarrow> pfs_set_proto_info km (chars ''name'') (Some (chars name))
        (chars ''byte_pos'') (Some (chars bytep)) (chars ''bit_pos'') (Some (chars bitp))
        (chars ''len'') (Some (chars ln)) (chars ''len_unit'') (Some (chars unt))
        (chars ''vlenth_index'') (map_option chars vindex) hl m;
     Some m1
   }"

text \<open>What the bodies of the five functions share: create, fill and register a list.\<close>

definition pfs_set_format ::
  "kmalloc_fn \<Rightarrow> u32 \<Rightarrow> entry list \<Rightarrow> format_set \<Rightarrow> 'z pmem_scheme \<Rightarrow> (format_set \<times> 'z pmem_scheme) option" where
  "pfs_set_format km number es pfs m = do {
     (hl, m1) \<leftarrow> pfs_create_head_list km (pfs_allocator pfs) m;
     m2 \<leftarrow> pfs_init_head_list hl m1;
     m3 \<leftarrow> foldM (PFS_SET_PROTO_INFO km hl) es m2;
     (r, pfs1, m4) \<leftarrow> pfs_add_proto_link_list (number - proto_base_addr pfs) hl pfs m3;
     Some (pfs1, m4)
   }"

definition entries_3008 :: "entry list" where
  "entries_3008 = [
     (PROTO_NUM,  ''0'',  ''0'', ''2'', ''8'', None),
     (LAB,        ''2'',  ''0'', ''2'', ''8'', None),
     (SLOT_INFO,  ''4'',  ''0'', ''2'', ''8'', None),
     (SYNC_INFO,  ''6'',  ''0'', ''2'', ''8'', None),
     (TACT_INFO,  ''8'',  ''0'', ''1'', ''8'', None),
     (SLC_INFO,   ''9'',  ''0'', ''1'', ''8'', None),
     (SLC_DATA,   ''10'', ''0'', ''0'', ''8'', Some SLC_INFO),
     (SYNC_INDEX, ''10'', ''0'', ''1'', ''8'', None),
     (ST_INFO,    ''11'', ''0'', ''1'', ''8'', None),
     (DC_INFO,    ''12'', ''0'', ''1'', ''8'', None),
     (DC_DATA,    ''13'', ''0'', ''0'', ''8'', Some DC_INFO)]"

definition pfs_set_proto_format_3008 ::
  "kmalloc_fn \<Rightarrow> format_set \<Rightarrow> 'z pmem_scheme \<Rightarrow> (format_set \<times> 'z pmem_scheme) option" where
  "pfs_set_proto_format_3008 km = pfs_set_format km 0x3008 entries_3008"

definition entries_3019 :: "entry list" where
  "entries_3019 = [
     (PROTO_NUM,  ''0'',  ''0'', ''2'', ''8'', None),
     (LAB,        ''2'',  ''0'', ''2'', ''8'', None),
     (LEN,        ''5'',  ''0'', ''1'', ''8'', None),
     (SLOT_INFO,  ''6'',  ''0'', ''2'', ''8'', None),
     (SYNC_INDEX, ''8'',  ''0'', ''1'', ''8'', None),
     (ST_INFO,    ''9'',  ''0'', ''1'', ''8'', None),
     (DC_INFO,    ''10'', ''0'', ''1'', ''8'', None),
     (DC_DATA,    ''11'', ''0'', ''0'', ''8'', Some DC_INFO)]"

definition pfs_set_proto_format_3019 ::
  "kmalloc_fn \<Rightarrow> format_set \<Rightarrow> 'z pmem_scheme \<Rightarrow> (format_set \<times> 'z pmem_scheme) option" where
  "pfs_set_proto_format_3019 km = pfs_set_format km 0x3019 entries_3019"

definition entries_3050 :: "entry list" where
  "entries_3050 = [
     (PROTO_NUM,  ''0'',  ''0'', ''2'', ''8'', None),
     (LEN,        ''2'',  ''0'', ''1'', ''8'', None),
     (EMB_FLAG,   ''3'',  ''0'', ''1'', ''8'', None),
     (SLOT_INFO,  ''4'',  ''0'', ''2'', ''8'', None),
     (SYNC_INFO,  ''6'',  ''0'', ''2'', ''8'', None),
     (TACT_INFO,  ''8'',  ''0'', ''1'', ''8'', None),
     (SLC_INFO,   ''9'',  ''0'', ''1'', ''8'', None),
     (SLC_DATA,   ''10'', ''0'', ''0'', ''8'', Some SLC_INFO),
     (SYNC_INDEX, ''10'', ''0'', ''1'', ''8'', None),
     (ST_INFO,    ''11'', ''0'', ''1'', ''8'', None),
     (DC_INFO,    ''12'', ''0'', ''1'', ''8'', None),
     (DC_DATA,    ''13'', ''0'', ''0'', ''8'', Some DC_INFO)]"

definition pfs_set_proto_format_3050 ::
  "kmalloc_fn \<Rightarrow> format_set \<Rightarrow> 'z pmem_scheme \<Rightarrow> (format_set \<times> 'z pmem_scheme) option" where
  "pfs_set_proto_format_3050 km = pfs_set_format km 0x3050 entries_3050"

definition entries_3052 :: "entry list" where
  "entries_3052 = [
     (PROTO_NUM,  ''0'',  ''0'', ''2'', ''8'', None),
     (LEN,        ''2'',  ''0'', ''1'', ''8'', None),
     (EMB_FLAG,   ''3'',  ''0'', ''1'', ''8'', None),
     (SLOT_INFO,  ''4'',  ''0'', ''2'', ''8'', None),
     (SYNC_INFO,  ''6'',  ''0'', ''2'', ''8'', None),
     (TACT_INFO,  ''8'',  ''0'', ''1'', ''8'', None),
     (SLC_INFO,   ''9'',  ''0'', ''1'', ''8'', None),
     (SLC_DATA,   ''10'', ''0'', ''0'', ''8'', Some SLC_INFO),
     (EMB_INFO,   ''10'', ''0'', ''1'', ''8'', None),
     (LC_INFO,    ''11'', ''0'', ''1'', ''8'', None),
     (LC_DATA,    ''12'', ''0'', ''0'', ''8'', Some LC_INFO),
     (DC_INFO,    ''12'', ''0'', ''1'', ''8'', None),
     (DC_DATA,    ''13'', ''0'', ''0'', ''8'', Some DC_INFO)]"

definition pfs_set_proto_format_3052 ::
  "kmalloc_fn \<Rightarrow> format_set \<Rightarrow> 'z pmem_scheme \<Rightarrow> (format_set \<times> 'z pmem_scheme) option" where
  "pfs_set_proto_format_3052 km = pfs_set_format km 0x3052 entries_3052"

definition entries_3054 :: "entry list" where
  "entries_3054 = [
     (PROTO_NUM,  ''0'',  ''0'', ''2'', ''8'', None),
     (NO_NAME1,   ''2'',  ''0'', ''1'', ''8'', None),
     (ST_INFO,    ''3'',  ''0'', ''1'', ''8'', None),
     (DC_INFO,    ''4'',  ''0'', ''1'', ''8'', None),
     (DC_DATA,    ''5'',  ''0'', ''0'', ''8'', Some DC_INFO)]"

definition pfs_set_proto_format_3054 ::
  "kmalloc_fn \<Rightarrow> format_set \<Rightarrow> 'z pmem_scheme \<Rightarrow> (format_set \<times> 'z pmem_scheme) option" where
  "pfs_set_proto_format_3054 km = pfs_set_format km 0x3054 entries_3054"

definition pfs_set_pdt_drv_proto_format ::
  "kmalloc_fn \<Rightarrow> format_set \<Rightarrow> 'z pmem_scheme \<Rightarrow> (format_set \<times> 'z pmem_scheme) option" where
  "pfs_set_pdt_drv_proto_format km pfs m = do {
     (pfs1, m1) \<leftarrow> pfs_set_proto_format_3008 km pfs m;
     (pfs2, m2) \<leftarrow> pfs_set_proto_format_3019 km pfs1 m1;
     (pfs3, m3) \<leftarrow> pfs_set_proto_format_3050 km pfs2 m2;
     (pfs4, m4) \<leftarrow> pfs_set_proto_format_3052 km pfs3 m3;
     pfs_set_proto_format_3054 km pfs4 m4
   }"

section \<open>What an entry configures\<close>

definition name20 :: "string \<Rightarrow> bytes" where
  "name20 n = chars n @ replicate (20 - length n) 0"

definition byte_field :: "string \<Rightarrow> u8 \<Rightarrow> u16 \<Rightarrow> proto_info" where
  "byte_field n b l = zero_info\<lparr>pi_name := name20 n, byte_pos := b, pi_len := l, len_unit := 8\<rparr>"

definition var_field :: "string \<Rightarrow> u8 \<Rightarrow> string \<Rightarrow> proto_info" where
  "var_field n b idx = zero_info\<lparr>pi_name := name20 n, byte_pos := b, len_unit := 8,
     vlenth_index := name20 idx, vlenth_flag := True, vlenth_flag_bak := True\<rparr>"

fun entry_field :: "entry \<Rightarrow> proto_info option" where
  "entry_field (name, bytep, bitp, ln, unt, vindex) =
     entry_info [Some (chars name), Some (chars bytep), Some (chars bitp), Some (chars ln), Some (chars unt),
       map_option chars vindex]"

lemma length_chars [simp]: "length (chars s) = length s"
  by (simp add: chars_def)

lemma strcpy_zero:
  "length s < 20 \<Longrightarrow> strcpy (replicate MAX_NAME_LEN 0) s = Some (s @ replicate (20 - length s) 0)"
proof -
  assume a: "length s < 20"
  then obtain k where k: "20 - length s = Suc k" "k = 20 - (length s + 1)" by (cases "20 - length s") auto
  then have "0 # drop (length s + 1) (replicate 20 0) = replicate (20 - length s) (0 :: u8)"
    by simp
  then show ?thesis using a by (simp add: strcpy_def MAX_NAME_LEN_def)
qed

lemma attrib_simps:
  "set_proto_info_attribs (chars ''name'') v i = do { v \<leftarrow> v; n \<leftarrow> strcpy (pi_name i) v; Some (i\<lparr>pi_name := n\<rparr>) }"
  "set_proto_info_attribs (chars ''byte_pos'') v i = Some (i\<lparr>byte_pos := ucast (atoi v)\<rparr>)"
  "set_proto_info_attribs (chars ''bit_pos'') v i = Some (i\<lparr>bit_pos := ucast (atoi v)\<rparr>)"
  "set_proto_info_attribs (chars ''len'') v i = Some (i\<lparr>pi_len := ucast (atoi v)\<rparr>)"
  "set_proto_info_attribs (chars ''len_unit'') v i = Some (i\<lparr>len_unit := ucast (atoi v)\<rparr>)"
  "set_proto_info_attribs (chars ''vlenth_index'') None i = Some i"
  by (simp_all add: set_proto_info_attribs_def chars_def)

lemma attrib_vindex:
  assumes "vlenth_index i = replicate MAX_NAME_LEN 0" and "length s < 20" and "s \<noteq> []" and "hd (chars s) \<noteq> 0"
  shows "set_proto_info_attribs (chars ''vlenth_index'') (Some (chars s)) i =
    Some (i\<lparr>vlenth_index := name20 s, vlenth_flag := True, vlenth_flag_bak := True\<rparr>)"
proof -
  obtain c r where s: "chars s = c # r" using assms(3) by (cases s) (auto simp: chars_def)
  then have "cstr (name20 s) \<noteq> []" using assms(4) by (simp add: name20_def cstr_def)
  moreover have "strcpy (vlenth_index i) (chars s) = Some (name20 s)"
    using strcpy_zero [of "chars s"] assms(1,2) by (simp add: name20_def)
  ultimately show ?thesis
    by (simp add: set_proto_info_attribs_def chars_def [of "''name''"] chars_def [of "''byte_pos''"]
        chars_def [of "''bit_pos''"] chars_def [of "''len''"] chars_def [of "''len_unit''"] chars_def [of "''vlenth_index''"])
qed

lemma entry_info_simp:
  "entry_info [a, b, c, d, e, f] = do {
     i1 \<leftarrow> set_proto_info_attribs (chars ''name'') a zero_info;
     i2 \<leftarrow> set_proto_info_attribs (chars ''byte_pos'') b i1;
     i3 \<leftarrow> set_proto_info_attribs (chars ''bit_pos'') c i2;
     i4 \<leftarrow> set_proto_info_attribs (chars ''len'') d i3;
     i5 \<leftarrow> set_proto_info_attribs (chars ''len_unit'') e i4;
     set_proto_info_attribs (chars ''vlenth_index'') f i5 }"
  by (auto simp: entry_info_def split: Option.bind_splits)

lemma zero_info_fields [simp]:
  "pi_name zero_info = replicate MAX_NAME_LEN 0" "vlenth_index zero_info = replicate MAX_NAME_LEN 0"
  "bit_pos zero_info = 0" "pi_len zero_info = 0"
  by (simp_all add: zero_info_def)

lemma atoi_0_8: "atoi (Some (chars ''0'')) = 0" "atoi (Some (chars ''8'')) = 8"
  by (simp_all add: atoi_def chars_def)

lemma entry_byte_field:
  "length n < 20 \<Longrightarrow> entry_field (n, b, ''0'', l, ''8'', None) =
     Some (byte_field n (ucast (atoi (Some (chars b)))) (ucast (atoi (Some (chars l)))))"
  using strcpy_zero [of "chars n"]
  by (simp add: entry_info_simp attrib_simps atoi_0_8 byte_field_def name20_def zero_info_def)

lemma entry_var_field:
  "length n < 20 \<Longrightarrow> length s < 20 \<Longrightarrow> s \<noteq> [] \<Longrightarrow> hd (chars s) \<noteq> 0 \<Longrightarrow>
     entry_field (n, b, ''0'', ''0'', ''8'', Some s) = Some (var_field n (ucast (atoi (Some (chars b)))) s)"
  using strcpy_zero [of "chars n"] attrib_vindex [of _ s]
  by (simp add: entry_info_simp attrib_simps atoi_0_8 var_field_def name20_def zero_info_def)

section \<open>The formats as lists of field descriptions\<close>

definition fields_3008 :: "proto_info list" where
  "fields_3008 = [byte_field PROTO_NUM 0 2, byte_field LAB 2 2, byte_field SLOT_INFO 4 2, byte_field SYNC_INFO 6 2,
     byte_field TACT_INFO 8 1, byte_field SLC_INFO 9 1, var_field SLC_DATA 10 SLC_INFO, byte_field SYNC_INDEX 10 1,
     byte_field ST_INFO 11 1, byte_field DC_INFO 12 1, var_field DC_DATA 13 DC_INFO]"

definition fields_3019 :: "proto_info list" where
  "fields_3019 = [byte_field PROTO_NUM 0 2, byte_field LAB 2 2, byte_field LEN 5 1, byte_field SLOT_INFO 6 2,
     byte_field SYNC_INDEX 8 1, byte_field ST_INFO 9 1, byte_field DC_INFO 10 1, var_field DC_DATA 11 DC_INFO]"

definition fields_3050 :: "proto_info list" where
  "fields_3050 = [byte_field PROTO_NUM 0 2, byte_field LEN 2 1, byte_field EMB_FLAG 3 1, byte_field SLOT_INFO 4 2,
     byte_field SYNC_INFO 6 2, byte_field TACT_INFO 8 1, byte_field SLC_INFO 9 1, var_field SLC_DATA 10 SLC_INFO,
     byte_field SYNC_INDEX 10 1, byte_field ST_INFO 11 1, byte_field DC_INFO 12 1, var_field DC_DATA 13 DC_INFO]"

definition fields_3052 :: "proto_info list" where
  "fields_3052 = [byte_field PROTO_NUM 0 2, byte_field LEN 2 1, byte_field EMB_FLAG 3 1, byte_field SLOT_INFO 4 2,
     byte_field SYNC_INFO 6 2, byte_field TACT_INFO 8 1, byte_field SLC_INFO 9 1, var_field SLC_DATA 10 SLC_INFO,
     byte_field EMB_INFO 10 1, byte_field LC_INFO 11 1, var_field LC_DATA 12 LC_INFO, byte_field DC_INFO 12 1,
     var_field DC_DATA 13 DC_INFO]"

definition fields_3054 :: "proto_info list" where
  "fields_3054 = [byte_field PROTO_NUM 0 2, byte_field NO_NAME1 2 1, byte_field ST_INFO 3 1, byte_field DC_INFO 4 1,
     var_field DC_DATA 5 DC_INFO]"

lemma atoi_values:
  "atoi (Some (chars ''1'')) = 1" "atoi (Some (chars ''2'')) = 2" "atoi (Some (chars ''3'')) = 3"
  "atoi (Some (chars ''4'')) = 4" "atoi (Some (chars ''5'')) = 5" "atoi (Some (chars ''6'')) = 6"
  "atoi (Some (chars ''9'')) = 9" "atoi (Some (chars ''10'')) = 10" "atoi (Some (chars ''11'')) = 11"
  "atoi (Some (chars ''12'')) = 12" "atoi (Some (chars ''13'')) = 13"
  by (simp_all add: atoi_def chars_def)

lemma entry_tables:
  "map entry_field entries_3008 = map Some fields_3008" "map entry_field entries_3019 = map Some fields_3019"
  "map entry_field entries_3050 = map Some fields_3050" "map entry_field entries_3052 = map Some fields_3052"
  "map entry_field entries_3054 = map Some fields_3054"
proof -
  have hd_char: "hd (chars SLC_INFO) \<noteq> 0" "hd (chars DC_INFO) \<noteq> 0" "hd (chars LC_INFO) \<noteq> 0"
    by (simp_all add: name_defs chars_def)
  have len: "length s < 20 \<and> s \<noteq> []" if "s \<in> {PROTO_NUM, LAB, LEN, SLOT_INFO, SYNC_INFO, TACT_INFO, SLC_INFO, SLC_DATA,
      SYNC_INDEX, ST_INFO, DC_INFO, DC_DATA, EMB_FLAG, EMB_INFO, LC_INFO, LC_DATA, NO_NAME1}" for s
    using that by (elim insertE emptyE) (simp_all add: name_defs)
  note s = entry_byte_field entry_var_field hd_char len atoi_values atoi_0_8
  show "map entry_field entries_3008 = map Some fields_3008"
    by (simp add: entries_3008_def fields_3008_def s del: entry_field.simps)
  show "map entry_field entries_3019 = map Some fields_3019"
    by (simp add: entries_3019_def fields_3019_def s del: entry_field.simps)
  show "map entry_field entries_3050 = map Some fields_3050"
    by (simp add: entries_3050_def fields_3050_def s del: entry_field.simps)
  show "map entry_field entries_3052 = map Some fields_3052"
    by (simp add: entries_3052_def fields_3052_def s del: entry_field.simps)
  show "map entry_field entries_3054 = map Some fields_3054"
    by (simp add: entries_3054_def fields_3054_def s del: entry_field.simps)
qed

section \<open>The format set as a finite map\<close>

text \<open>
  \<open>offers N m pfs F\<close>: the set registers exactly the formats \<open>F\<close>, by index, and owns none of the
  blocks \<open>N\<close>.
\<close>

definition offers :: "(addr \<times> nat) set \<Rightarrow> 'z pmem_scheme \<Rightarrow> format_set \<Rightarrow> (nat \<Rightarrow> proto_info list option) \<Rightarrow> bool" where
  "offers N m pfs F = (\<exists>T. fset_ok m pfs T \<and> fset_owned pfs T \<inter> N = {} \<and> F = (\<lambda>i. map_option (\<lambda>fmt. infos m (snd fmt)) (T i)))"

definition same_table :: "format_set \<Rightarrow> format_set \<Rightarrow> bool" where
  "same_table pfs pfs' = (\<exists>n. pfs' = pfs\<lparr>proto_total_num := n\<rparr>)"

definition format_sizes :: "nat \<Rightarrow> nat list" where
  "format_sizes n = sizeof_proto_head # replicate n sizeof_proto_info"

lemma fill_format:
  fixes m :: "'z pmem_scheme"
  assumes km: "kmalloc_ok km" and e: "map entry_field es = map Some is"
    and "sys_registered m" and "mem_ok m" and "flist m hl ps" and "keeps {} m0 m"
    and "owned hl ps \<inter> set (blocks m0) = {}" and "supplies km (replicate (length es) sizeof_proto_info @ rest) m"
  shows "\<exists>qs m'. foldM (PFS_SET_PROTO_INFO km hl) es m = Some m' \<and> sys_registered m' \<and> flist m' hl (ps @ qs) \<and>
    infos m' (ps @ qs) = infos m ps @ is \<and> keeps {} m0 m' \<and> owned hl (ps @ qs) \<inter> set (blocks m0) = {} \<and>
    supplies km rest m'"
  using assms(2-8)
proof (induction es arbitrary: "is" ps m)
  case Nil
  then show ?case by (intro exI [of _ "[]"]) simp
next
  case (Cons en es)
  obtain i js where is_eq: "is = i # js" and i: "entry_field en = Some i" and js: "map entry_field es = map Some js"
    using Cons.prems(1) by (cases "is") auto
  obtain n b t l u v where en: "en = (n, b, t, l, u, v)" by (cases en) auto
  have "supplies km (sizeof_proto_info # (replicate (length es) sizeof_proto_info @ rest)) m" using Cons.prems(7) by simp
  from supplies_Cons [OF this] obtain p m1 where a: "kmalloc km sizeof_proto_info m = (p, m1)" "p \<noteq> NULL"
    and su: "\<And>m' :: 'z pmem_scheme. blocks m' = (p, sizeof_proto_info) # blocks m \<Longrightarrow> ticks m' = Suc (ticks m) \<Longrightarrow>
      supplies km (replicate (length es) sizeof_proto_info @ rest) m'" by blast
  from pfs_set_proto_info_spec [OF Cons.prems(2) km Cons.prems(3,4) i [unfolded en entry_field.simps] a] obtain m2 where
    r: "pfs_set_proto_info km (chars ''name'') (Some (chars n)) (chars ''byte_pos'') (Some (chars b)) (chars ''bit_pos'')
        (Some (chars t)) (chars ''len'') (Some (chars l)) (chars ''len_unit'') (Some (chars u)) (chars ''vlenth_index'')
        (map_option chars v) hl m = Some (p, m2)"
      "flist m2 hl (ps @ [p])" "infos m2 (ps @ [p]) = infos m ps @ [i]" "blocks m2 = (p, sizeof_proto_info) # blocks m"
      "ticks m2 = Suc (ticks m)" "(p, sizeof_proto_info) \<notin> set (blocks m)" "keeps (owned hl ps) m m2" by blast
  have step: "PFS_SET_PROTO_INFO km hl en m = Some m2" using r(1) by (simp add: en)
  have newp: "(p, sizeof_proto_info) \<notin> set (blocks m0)" using r(6) keeps_block [OF Cons.prems(5)] by blast
  have "keeps (owned hl ps) m0 m2"
    by (rule keeps_trans [OF _ r(7)]) (use keeps_mono [OF Cons.prems(5)] in auto)
  then have k: "keeps {} m0 m2" by (rule keeps_mono) (use Cons.prems(6) in auto)
  have ow: "owned hl (ps @ [p]) \<inter> set (blocks m0) = {}" using Cons.prems(6) newp by (auto simp: owned_def)
  have reg: "sys_registered m2" and mo: "mem_ok m2" using keeps_ok [OF r(7)] Cons.prems(2) by auto
  from Cons.IH [OF js reg mo r(2) k ow su [OF r(4,5)]] obtain qs m' where
    f: "foldM (PFS_SET_PROTO_INFO km hl) es m2 = Some m'" "sys_registered m'" "flist m' hl ((ps @ [p]) @ qs)"
      "infos m' ((ps @ [p]) @ qs) = infos m2 (ps @ [p]) @ js" "keeps {} m0 m'"
      "owned hl ((ps @ [p]) @ qs) \<inter> set (blocks m0) = {}" "supplies km rest m'" by blast
  show ?case
  proof (intro exI conjI)
    show "foldM (PFS_SET_PROTO_INFO km hl) (en # es) m = Some m'" using step f(1) by simp
    show "flist m' hl (ps @ (p # qs))" using f(3) by simp
    show "infos m' (ps @ (p # qs)) = infos m ps @ is" using f(4) r(3) is_eq by simp
    show "owned hl (ps @ (p # qs)) \<inter> set (blocks m0) = {}" using f(6) by simp
  qed (use f in simp_all)
qed

lemma pfs_set_format_spec:
  fixes m :: "'z pmem_scheme"
  assumes km: "kmalloc_ok km" and reg: "sys_registered m" and mo: "mem_ok m" and f: "offers N m pfs F" and N: "N \<subseteq> set (blocks m)"
    and e: "map entry_field es = map Some is" and nb: "\<forall>i \<in> set is. buf_len i = 0"
    and i: "unat (number - proto_base_addr pfs) < unat (proto_max_num pfs)" "number - proto_base_addr pfs \<le> MAX_PROTOCOL_NUM"
    and su: "supplies km (format_sizes (length es) @ rest) m"
  shows "\<exists>pfs' m'. pfs_set_format km number es pfs m = Some (pfs', m') \<and> same_table pfs pfs' \<and>
    offers N m' pfs' (F(unat (number - proto_base_addr pfs) \<mapsto> is)) \<and> keeps {table_block pfs} m m' \<and> N \<subseteq> set (blocks m') \<and>
    sys_registered m' \<and> supplies km rest m'"
proof -
  let ?i = "number - proto_base_addr pfs" and ?n = sizeof_proto_head
  from f obtain T where T: "fset_ok m pfs T" "F = (\<lambda>i. map_option (\<lambda>fmt. infos m (snd fmt)) (T i))"
    and TN: "fset_owned pfs T \<inter> N = {}"
    by (auto simp: offers_def)
  have al: "sys_allocator (pfs_allocator pfs)" using fset_ok_base [OF T(1)] by simp
  have "supplies km (?n # (replicate (length es) sizeof_proto_info @ rest)) m" using su by (simp add: format_sizes_def)
  from supplies_Cons [OF this] obtain h m1 where a: "kmalloc km ?n m = (h, m1)" "h \<noteq> NULL"
    and su1: "\<And>m' :: 'z pmem_scheme. blocks m' = (h, ?n) # blocks m \<Longrightarrow> ticks m' = Suc (ticks m) \<Longrightarrow>
      supplies km (replicate (length es) sizeof_proto_info @ rest) m'" by blast
  let ?hl = "h + offset_head_list"
  from pfs_create_head_list_spec [OF reg al km mo a] obtain m2 m3 where
    c: "pfs_create_head_list km (pfs_allocator pfs) m = Some (?hl, m2)" "pfs_init_head_list ?hl m2 = Some m3"
      "flist m3 ?hl []" "keeps {} m m3" "(h, ?n) \<notin> set (blocks m)" "blocks m3 = (h, ?n) # blocks m" "ticks m3 = Suc (ticks m)"
    by blast
  have reg3: "sys_registered m3" and mo3: "mem_ok m3" using keeps_ok [OF c(4)] reg by auto
  have ow3: "owned ?hl [] \<inter> set (blocks m) = {}" using c(5) by (simp add: owned_def)
  from fill_format [OF km e reg3 mo3 c(3,4) ow3 su1 [OF c(6,7)]] obtain ps m4 where
    l: "foldM (PFS_SET_PROTO_INFO km ?hl) es m3 = Some m4" "sys_registered m4" "flist m4 ?hl ps" "infos m4 ps = is"
      "keeps {} m m4" "owned ?hl ps \<inter> set (blocks m) = {}" "supplies km rest m4" by (auto simp: infos_def)
  have mo4: "mem_ok m4" using keeps_ok [OF l(5)] by simp
  have f4: "fset_ok m4 pfs T" by (rule fset_keeps [OF l(5) T(1)]) simp
  have fo: "format_ok m4 (?hl, ps)" using l(3,4) nb by (auto simp: format_ok_def infos_def)
  have hl0: "?hl \<noteq> NULL" using head_inside(6) [OF mo4] l(3) by (auto simp: flist_def)
  have fo_sub: "fset_owned pfs T \<subseteq> set (blocks m)"
    using fset_ok_base [OF T(1)] fset_okD(3) [OF T(1)] flist_owned by (force simp: fset_owned_def ran_def)
  then have dj: "owned ?hl ps \<inter> fset_owned pfs T = {}" using l(6) by blast
  from pfs_add_proto_link_list_spec [OF mo4 f4 fo hl0 i dj] obtain m5 where
    r: "pfs_add_proto_link_list ?i ?hl pfs m4 = Some (0, pfs\<lparr>proto_total_num := proto_total_num pfs + 1\<rparr>, m5)"
      "fset_ok m5 (pfs\<lparr>proto_total_num := proto_total_num pfs + 1\<rparr>) (T(unat ?i \<mapsto> (?hl, ps)))"
      "keeps {table_block pfs} m4 m5" "pinfo m5 = pinfo m4" by blast
  let ?pfs = "pfs\<lparr>proto_total_num := proto_total_num pfs + 1\<rparr>"
  have blk: "blocks m5 = blocks m4 \<and> ticks m5 = ticks m4"
    using r(1) by (auto simp: pfs_add_proto_link_list_def wr_ptr_def bind_eq_Some_conv split: if_splits)
  have "offers N m5 ?pfs (F(unat ?i \<mapsto> is))"
    unfolding offers_def
  proof (intro exI conjI ext)
    show "fset_ok m5 ?pfs (T(unat ?i \<mapsto> (?hl, ps)))" by (rule r(2))
    have "fset_owned ?pfs (T(unat ?i \<mapsto> (?hl, ps))) \<subseteq> fset_owned pfs T \<union> owned ?hl ps"
      by (auto simp: fset_owned_def table_block_def ran_def split: if_splits)
    then show "fset_owned ?pfs (T(unat ?i \<mapsto> (?hl, ps))) \<inter> N = {}" using TN l(6) N by blast
    fix j
    have "infos m5 qs = infos m qs" if "T j = Some (hq, qs)" for hq qs
      using flist_keeps(3) [OF l(5) fset_okD(3) [OF T(1) that]] r(4) by (simp add: infos_def)
    moreover have "infos m5 ps = is" using l(4) r(4) by (simp add: infos_def)
    ultimately show "(F(unat ?i \<mapsto> is)) j = map_option (\<lambda>fmt. infos m5 (snd fmt)) ((T(unat ?i \<mapsto> (?hl, ps))) j)"
      unfolding T(2) by (cases "T j") auto
  qed
  moreover have k: "keeps {table_block pfs} m m5"
    by (rule keeps_trans [OF _ r(3)]) (use keeps_mono [OF l(5)] in auto)
  moreover have TN': "table_block pfs \<notin> N" using TN by (simp add: fset_owned_def)
  moreover have "N \<subseteq> set (blocks m5)" using N TN' keeps_block [OF k] by blast
  moreover have "pfs_set_format km number es pfs m = Some (?pfs, m5)"
    using c(1,2) l(1) r(1) by (simp add: pfs_set_format_def)
  moreover have "sys_registered m5" using keeps_ok [OF r(3)] l(2) by simp
  moreover have "supplies km rest m5" using l(7) blk by (simp add: supplies_def)
  moreover have "same_table pfs ?pfs" by (auto simp: same_table_def)
  ultimately show ?thesis by blast
qed

definition pdt_formats :: "nat \<Rightarrow> proto_info list option" where
  "pdt_formats = [0x08 \<mapsto> fields_3008, 0x19 \<mapsto> fields_3019, 0x50 \<mapsto> fields_3050, 0x52 \<mapsto> fields_3052, 0x54 \<mapsto> fields_3054]"

definition pdt_sizes :: "nat list" where
  "pdt_sizes = format_sizes 11 @ format_sizes 8 @ format_sizes 12 @ format_sizes 13 @ format_sizes 5"

lemma entry_lengths:
  "length entries_3008 = 11" "length entries_3019 = 8" "length entries_3050 = 12" "length entries_3052 = 13" "length entries_3054 = 5"
  by (simp_all add: entries_3008_def entries_3019_def entries_3050_def entries_3052_def entries_3054_def)

lemma fields_without_buffers:
  "\<forall>i \<in> set fields_3008. buf_len i = 0" "\<forall>i \<in> set fields_3019. buf_len i = 0" "\<forall>i \<in> set fields_3050. buf_len i = 0"
  "\<forall>i \<in> set fields_3052. buf_len i = 0" "\<forall>i \<in> set fields_3054. buf_len i = 0"
proof -
  have "buf_len (byte_field n b l) = 0" "buf_len (var_field n b s) = 0" for n b l s
    by (simp_all add: byte_field_def var_field_def zero_info_def)
  then show "\<forall>i \<in> set fields_3008. buf_len i = 0" "\<forall>i \<in> set fields_3019. buf_len i = 0" "\<forall>i \<in> set fields_3050. buf_len i = 0"
    "\<forall>i \<in> set fields_3052. buf_len i = 0" "\<forall>i \<in> set fields_3054. buf_len i = 0"
    by (simp_all add: fields_3008_def fields_3019_def fields_3050_def fields_3052_def fields_3054_def)
qed

lemma same_table_fields:
  "same_table pfs pfs' \<Longrightarrow> proto_base_addr pfs' = proto_base_addr pfs \<and> proto_max_num pfs' = proto_max_num pfs \<and>
     table_block pfs' = table_block pfs \<and> pfs_self pfs' = pfs_self pfs \<and> pfs_allocator pfs' = pfs_allocator pfs"
  by (auto simp: same_table_def table_block_def)

lemma same_table_trans: "same_table p q \<Longrightarrow> same_table q r \<Longrightarrow> same_table p r"
  by (auto simp: same_table_def)

lemma pdt_formats_spec:
  fixes m :: "'z pmem_scheme"
  assumes km: "kmalloc_ok km" and reg: "sys_registered m" and mo: "mem_ok m" and f: "offers N m pfs Map.empty" and N: "N \<subseteq> set (blocks m)"
    and b: "proto_base_addr pfs = 0x3000" "proto_max_num pfs = 100" and su: "supplies km (pdt_sizes @ rest) m"
  shows "\<exists>pfs' m'. pfs_set_pdt_drv_proto_format km pfs m = Some (pfs', m') \<and> offers N m' pfs' pdt_formats \<and>
    same_table pfs pfs' \<and> keeps {table_block pfs} m m' \<and> sys_registered m' \<and> supplies km rest m'"
proof -
  let ?k = "{table_block pfs}"
  have step: "\<exists>q' s'. pfs_set_format km (0x3000 + word_of_nat i) es q s = Some (q', s') \<and> same_table pfs q' \<and>
      offers N s' q' (F(i \<mapsto> is)) \<and> keeps ?k m s' \<and> N \<subseteq> set (blocks s') \<and> sys_registered s' \<and> supplies km r s'"
    if "same_table pfs q" "offers N s q F" "keeps ?k m s" "sys_registered s" "supplies km (format_sizes (length es) @ r) s"
      "map entry_field es = map Some is" "\<forall>i \<in> set is. buf_len i = 0" "i < 100" "N \<subseteq> set (blocks s)" for q i es "is" r F and s :: "'z pmem_scheme"
  proof -
    note st = same_table_fields [OF that(1)]
    have "i < 2 ^ LENGTH(32)" using that(8) by simp
    then have "unat (word_of_nat i :: u32) = i" by (rule unat_word_of_nat)
    then have u: "unat (0x3000 + word_of_nat i - proto_base_addr q) = i" using st b by simp
    have mo: "mem_ok s" using keeps_ok [OF that(3)] by simp
    have lt: "unat (0x3000 + word_of_nat i - proto_base_addr q) < unat (proto_max_num q)"
      "0x3000 + word_of_nat i - proto_base_addr q \<le> MAX_PROTOCOL_NUM"
      unfolding word_le_nat_alt u using st b that(8) by (simp_all add: MAX_PROTOCOL_NUM_def)
    from pfs_set_format_spec [OF km that(4) mo that(2,9,6,7) lt that(5)] obtain q' s' where
      r: "pfs_set_format km (0x3000 + word_of_nat i) es q s = Some (q', s')" "same_table q q'"
        "offers N s' q' (F(i \<mapsto> is))" "keeps {table_block q} s s'" "N \<subseteq> set (blocks s')" "sys_registered s'" "supplies km r s'"
      unfolding u by blast
    have "keeps ?k m s'" by (rule keeps_trans [OF that(3) r(4)]) (use st in simp)
    with r same_table_trans [OF that(1) r(2)] show ?thesis by blast
  qed
  have s0: "same_table pfs pfs" by (auto simp: same_table_def intro!: exI [of _ "proto_total_num pfs"])
  let ?F1 = "Map.empty(0x08 \<mapsto> fields_3008)" and ?F2 = "[0x08 \<mapsto> fields_3008, 0x19 \<mapsto> fields_3019]"
  let ?F3 = "[0x08 \<mapsto> fields_3008, 0x19 \<mapsto> fields_3019, 0x50 \<mapsto> fields_3050]"
  let ?F4 = "[0x08 \<mapsto> fields_3008, 0x19 \<mapsto> fields_3019, 0x50 \<mapsto> fields_3050, 0x52 \<mapsto> fields_3052]"
  have su0: "supplies km (format_sizes (length entries_3008) @ format_sizes (length entries_3019) @ format_sizes (length entries_3050) @
      format_sizes (length entries_3052) @ format_sizes (length entries_3054) @ rest) m"
    using su by (simp add: pdt_sizes_def entry_lengths)
  from step [OF s0 f keeps_refl [OF mo] reg su0 entry_tables(1) fields_without_buffers(1) _ N, of 8] obtain q1 m1 where
    1: "pfs_set_format km 0x3008 entries_3008 pfs m = Some (q1, m1)" "same_table pfs q1" "offers N m1 q1 ?F1" "keeps ?k m m1" "N \<subseteq> set (blocks m1)"
      "sys_registered m1" "supplies km (format_sizes (length entries_3019) @ format_sizes (length entries_3050) @
      format_sizes (length entries_3052) @ format_sizes (length entries_3054) @ rest) m1" by auto
  from step [OF 1(2-4,6,7) entry_tables(2) fields_without_buffers(2) _ 1(5), of 25] obtain q2 m2 where
    2: "pfs_set_format km 0x3019 entries_3019 q1 m1 = Some (q2, m2)" "same_table pfs q2" "offers N m2 q2 ?F2" "keeps ?k m m2" "N \<subseteq> set (blocks m2)"
      "sys_registered m2" "supplies km (format_sizes (length entries_3050) @
      format_sizes (length entries_3052) @ format_sizes (length entries_3054) @ rest) m2" by auto
  from step [OF 2(2-4,6,7) entry_tables(3) fields_without_buffers(3) _ 2(5), of 80] obtain q3 m3 where
    3: "pfs_set_format km 0x3050 entries_3050 q2 m2 = Some (q3, m3)" "same_table pfs q3" "offers N m3 q3 ?F3" "keeps ?k m m3" "N \<subseteq> set (blocks m3)"
      "sys_registered m3" "supplies km (format_sizes (length entries_3052) @ format_sizes (length entries_3054) @ rest) m3" by auto
  from step [OF 3(2-4,6,7) entry_tables(4) fields_without_buffers(4) _ 3(5), of 82] obtain q4 m4 where
    4: "pfs_set_format km 0x3052 entries_3052 q3 m3 = Some (q4, m4)" "same_table pfs q4" "offers N m4 q4 ?F4" "keeps ?k m m4" "N \<subseteq> set (blocks m4)"
      "sys_registered m4" "supplies km (format_sizes (length entries_3054) @ rest) m4" by auto
  from step [OF 4(2-4,6,7) entry_tables(5) fields_without_buffers(5) _ 4(5), of 84] obtain q5 m5 where
    5: "pfs_set_format km 0x3054 entries_3054 q4 m4 = Some (q5, m5)" "same_table pfs q5" "offers N m5 q5 pdt_formats" "keeps ?k m m5" "N \<subseteq> set (blocks m5)"
      "sys_registered m5" "supplies km rest m5" by (auto simp: pdt_formats_def)
  have "pfs_set_pdt_drv_proto_format km pfs m = Some (q5, m5)"
    using 1(1) 2(1) 3(1) 4(1) 5(1)
    by (simp add: pfs_set_pdt_drv_proto_format_def pfs_set_proto_format_3008_def pfs_set_proto_format_3019_def
        pfs_set_proto_format_3050_def pfs_set_proto_format_3052_def pfs_set_proto_format_3054_def)
  with 5 show ?thesis by blast
qed

end
