(* ===== verification/Debug.thy ===== *)
theory Debug
  imports Memory "HOL-Library.Char_ord"
begin

text \<open>
  The debug output \<open>driver/libdbg/debug.c\<close> and \<open>include/libdbg/debug.h\<close>: the levels, the colour
  words that carry them, and the text that the two functions hand to \<open>printk\<close>. The text is the
  result of the functions here; the other theories leave the output out.
\<close>

section \<open>Levels and colour words\<close>

datatype dbg_level = LV_PANIC | LV_FATAL | LV_ERROR | LV_WARNNING | LV_SUC | LV_CORRECT | LV_VIP
  | LV_NON1 | LV_NON2 | LV_FLOW | LV_NON3 | LV_IMPORTANT | LV_DETAIL

fun lv :: "dbg_level \<Rightarrow> u32" where
  "lv LV_PANIC = 0" | "lv LV_FATAL = 1" | "lv LV_ERROR = 2" | "lv LV_WARNNING = 3" | "lv LV_SUC = 4"
| "lv LV_CORRECT = 5" | "lv LV_VIP = 6" | "lv LV_NON1 = 7" | "lv LV_NON2 = 8" | "lv LV_FLOW = 9"
| "lv LV_NON3 = 10" | "lv LV_IMPORTANT = 11" | "lv LV_DETAIL = 12"

definition BLACK :: u32 where "BLACK = 0"
definition RED :: u32 where "RED = 1"
definition GREEN :: u32 where "GREEN = 2"
definition YELLOW :: u32 where "YELLOW = 3"
definition BLUE :: u32 where "BLUE = 4"
definition PURPLE :: u32 where "PURPLE = 5"
definition DARK_GREEN :: u32 where "DARK_GREEN = 6"
definition WHITE :: u32 where "WHITE = 7"
definition REVERSE_COLOR_FLAG :: u32 where "REVERSE_COLOR_FLAG = 1"
definition HIGHLIGHT_FLAG :: u32 where "HIGHLIGHT_FLAG = 1"

definition BGC :: "u32 \<Rightarrow> u32" where "BGC color = push_bit 4 color"
definition FTC :: "u32 \<Rightarrow> u32" where "FTC color = push_bit 1 color"

text \<open>The part that most colour words share: highlight, level, background, foreground.\<close>

definition dbg_word :: "dbg_level \<Rightarrow> u32 \<Rightarrow> u32 \<Rightarrow> u32" where
  "dbg_word l bg fg = (push_bit 12 HIGHLIGHT_FLAG OR push_bit 8 (lv l) OR BGC bg OR FTC fg)"

definition DBG_PANIC :: u32 where "DBG_PANIC = dbg_word LV_PANIC RED WHITE"
definition DBG_ERROR :: u32 where "DBG_ERROR = (dbg_word LV_ERROR RED WHITE OR REVERSE_COLOR_FLAG)"
definition DBG_FATAL :: u32 where "DBG_FATAL = dbg_word LV_FATAL PURPLE WHITE"
definition DBG_NON1 :: u32 where "DBG_NON1 = (dbg_word LV_WARNNING PURPLE WHITE OR REVERSE_COLOR_FLAG)"
definition DBG_SUC :: u32 where "DBG_SUC = dbg_word LV_SUC GREEN WHITE"
definition DBG_CORRECT :: u32 where "DBG_CORRECT = (dbg_word LV_CORRECT GREEN WHITE OR REVERSE_COLOR_FLAG)"
definition DBG_NON2 :: u32 where "DBG_NON2 = dbg_word LV_VIP YELLOW WHITE"
definition DBG_WARNNING :: u32 where "DBG_WARNNING = (dbg_word LV_WARNNING YELLOW WHITE OR REVERSE_COLOR_FLAG)"
definition DBG_NON3 :: u32 where "DBG_NON3 = dbg_word LV_NON2 BLUE WHITE"
definition DBG_FLOW :: u32 where "DBG_FLOW = (dbg_word LV_FLOW BLUE WHITE OR REVERSE_COLOR_FLAG)"
definition DBG_VIP :: u32 where "DBG_VIP = dbg_word LV_VIP BLACK WHITE"
definition DBG_IMPORTANT :: u32 where "DBG_IMPORTANT = (dbg_word LV_IMPORTANT BLACK WHITE OR REVERSE_COLOR_FLAG)"
definition DBG_DETAIL :: u32 where
  "DBG_DETAIL = (push_bit 8 (lv LV_DETAIL) OR BGC BLACK OR FTC WHITE OR REVERSE_COLOR_FLAG)"

definition get_dbg_level :: "u32 \<Rightarrow> u32" where
  "get_dbg_level color = (drop_bit 8 color AND 0xf)"

definition swap16 :: "u32 \<Rightarrow> u32" where
  "swap16 s = (push_bit 8 (s AND 0xff) OR (drop_bit 8 s AND 0xff))"

definition PDEBUG_LEVEL :: dbg_level where "PDEBUG_LEVEL = LV_DETAIL"

text \<open>The guard of \<open>dbg_str\<close> and \<open>dbg_buf\<close>.\<close>

definition dbg_enabled :: "u32 \<Rightarrow> bool" where
  "dbg_enabled color = (get_dbg_level color \<le> lv PDEBUG_LEVEL)"

section \<open>Output\<close>

definition print_dbg_level :: "u32 \<Rightarrow> string" where
  "print_dbg_level set_str =
     (let l = drop_bit 8 set_str AND 0xf
      in if l = lv LV_PANIC then ''[DBG_PANIC]--''
         else if l = lv LV_FATAL then ''[DBG_FATAL]--''
         else if l = lv LV_ERROR then ''[DBG_ERROR]--''
         else if l = lv LV_WARNNING then ''[DBG_WARNNING]--''
         else if l = lv LV_SUC then ''[DBG_SUC]--''
         else if l = lv LV_CORRECT then ''[DBG_CORRECT]--''
         else if l = lv LV_VIP then ''[DBG_VIP]--''
         else if l = lv LV_FLOW then ''[DBG_FLOW]--''
         else if l = lv LV_IMPORTANT then ''[DBG_IMPORTANT]--''
         else if l = lv LV_DETAIL then ''[DBG_DETAIL]--''
         else ''[DEFAULT]--'')"

text \<open>The conversion \<open>%x\<close>.\<close>

definition hex_digit :: "nat \<Rightarrow> char" where
  "hex_digit d = char_of (if d < 10 then 48 + d else 87 + d)"

fun hex_text :: "nat \<Rightarrow> string" where
  "hex_text n = (if n < 16 then [hex_digit n] else hex_text (n div 16) @ [hex_digit (n mod 16)])"

declare hex_text.simps [simp del]

text \<open>
  \<open>rd a\<close> reads the byte at \<open>a\<close>, \<open>None\<close> for a fault. The loop prints \<open>n\<close> bytes, each with a
  hyphen after it.
\<close>

fun printk_loop :: "(addr \<Rightarrow> u8 option) \<Rightarrow> addr \<Rightarrow> nat \<Rightarrow> nat \<Rightarrow> string option" where
  "printk_loop rd buf i 0 = Some []"
| "printk_loop rd buf i (Suc n) = do {
     b \<leftarrow> rd (buf + word_of_nat i);
     out \<leftarrow> printk_loop rd buf (Suc i) n;
     Some (hex_text (unat b) @ ''-'' @ out) }"

definition printk_buffer :: "(addr \<Rightarrow> u8 option) \<Rightarrow> addr \<Rightarrow> nat \<Rightarrow> string option" where
  "printk_buffer rd buf len =
     (if len = 0 then Some []
      else do {
        out \<leftarrow> printk_loop rd buf 0 (len - 1);
        b \<leftarrow> rd (buf + word_of_nat (len - 1));
        Some (out @ hex_text (unat b)) })"

text \<open>
  The macros, with the text that the format and its arguments give and the decimal text of the
  line number; \<open>dbg_str\<close> and \<open>dbg_buf\<close> print nothing for a level above the one compiled in.
\<close>

definition PS :: "u32 \<Rightarrow> string \<Rightarrow> string \<Rightarrow> string" where
  "PS level fmt line = print_dbg_level level @ ''['' @ fmt @ '']--['' @ line @ '']'' @ [CHR 0x0A]"

definition PSB :: "(addr \<Rightarrow> u8 option) \<Rightarrow> u32 \<Rightarrow> string \<Rightarrow> addr \<Rightarrow> nat \<Rightarrow> string \<Rightarrow> string option" where
  "PSB rd level fmt saddr slen line = do {
     b \<leftarrow> printk_buffer rd saddr slen;
     Some (print_dbg_level level @ ''['' @ fmt @ b @ '']--['' @ line @ '']'' @ [CHR 0x0A]) }"

definition dbg_str :: "u32 \<Rightarrow> string \<Rightarrow> string \<Rightarrow> string" where
  "dbg_str color fmt line = (if dbg_enabled color then PS color fmt line else [])"

definition dbg_buf :: "(addr \<Rightarrow> u8 option) \<Rightarrow> u32 \<Rightarrow> string \<Rightarrow> addr \<Rightarrow> nat \<Rightarrow> string \<Rightarrow> string option" where
  "dbg_buf rd color fmt saddr slen line = (if dbg_enabled color then PSB rd color fmt saddr slen line else Some [])"

section \<open>Facts\<close>

text \<open>Every colour word is printed: no level is above the one compiled in.\<close>

definition dbg_colours :: "u32 list" where
  "dbg_colours = [DBG_PANIC, DBG_ERROR, DBG_FATAL, DBG_NON1, DBG_SUC, DBG_CORRECT, DBG_NON2, DBG_WARNNING,
     DBG_NON3, DBG_FLOW, DBG_VIP, DBG_IMPORTANT, DBG_DETAIL]"

lemmas dbg_colour_defs = DBG_PANIC_def DBG_ERROR_def DBG_FATAL_def DBG_NON1_def DBG_SUC_def DBG_CORRECT_def
  DBG_NON2_def DBG_WARNNING_def DBG_NON3_def DBG_FLOW_def DBG_VIP_def DBG_IMPORTANT_def DBG_DETAIL_def
  dbg_word_def BGC_def FTC_def HIGHLIGHT_FLAG_def REVERSE_COLOR_FLAG_def BLACK_def RED_def GREEN_def YELLOW_def
  BLUE_def PURPLE_def WHITE_def

lemma dbg_colour_levels:
  "map get_dbg_level dbg_colours = map lv [LV_PANIC, LV_ERROR, LV_FATAL, LV_WARNNING, LV_SUC, LV_CORRECT, LV_VIP,
     LV_WARNNING, LV_NON2, LV_FLOW, LV_VIP, LV_IMPORTANT, LV_DETAIL]"
  by (simp add: dbg_colours_def get_dbg_level_def dbg_colour_defs)

lemma dbg_all_enabled: "list_all dbg_enabled dbg_colours"
proof -
  have "lv l \<le> 12" for l by (cases l) simp_all
  then have "\<forall>w \<in> set (map get_dbg_level dbg_colours). w \<le> 12" unfolding dbg_colour_levels by (simp del: lv.simps)
  then show ?thesis by (simp add: list_all_iff dbg_enabled_def PDEBUG_LEVEL_def)
qed

text \<open>
  The levels in the order of their numbers. A colour word with one of the eight backgrounds carries
  its level, and is printed when that is at most the level compiled in.
\<close>

lemma lv_inject: "lv k = lv l \<Longrightarrow> k = l"
  by (cases k; cases l) simp_all

instantiation dbg_level :: linorder
begin

definition less_eq_dbg_level :: "dbg_level \<Rightarrow> dbg_level \<Rightarrow> bool" where
  "less_eq_dbg_level k l = (lv k \<le> lv l)"

definition less_dbg_level :: "dbg_level \<Rightarrow> dbg_level \<Rightarrow> bool" where
  "less_dbg_level k l = (lv k < lv l)"

instance
  by standard (auto simp: less_eq_dbg_level_def less_dbg_level_def intro: lv_inject)

end

lemma le_LV_DETAIL [simp]: "(l :: dbg_level) \<le> LV_DETAIL"
  by (cases l) (simp_all add: less_eq_dbg_level_def)

lemma get_dbg_level_word:
  "bg \<in> {BLACK, RED, GREEN, YELLOW, BLUE, PURPLE, DARK_GREEN, WHITE} \<Longrightarrow> get_dbg_level (dbg_word l bg WHITE) = lv l"
  by (cases l)
    (auto simp: get_dbg_level_def dbg_word_def BGC_def FTC_def HIGHLIGHT_FLAG_def BLACK_def RED_def GREEN_def YELLOW_def
      BLUE_def PURPLE_def DARK_GREEN_def WHITE_def)

lemma dbg_enabled_word:
  "bg \<in> {BLACK, RED, GREEN, YELLOW, BLUE, PURPLE, DARK_GREEN, WHITE} \<Longrightarrow>
    dbg_enabled (dbg_word l bg WHITE) = (l \<le> PDEBUG_LEVEL)"
  using get_dbg_level_word by (simp only: dbg_enabled_def less_eq_dbg_level_def)

lemma bit_low_bytes: "bit (0xff :: u32) k = (k < 8)" "bit (0xffff :: u32) k = (k < 16)"
proof -
  have "(0xff :: u32) = mask 8" "(0xffff :: u32) = mask 16" by (simp_all add: mask_eq_exp_minus_1)
  then show "bit (0xff :: u32) k = (k < 8)" "bit (0xffff :: u32) k = (k < 16)" by (auto simp only: bit_mask_iff) simp_all
qed

lemma swap16_swap16: "swap16 (swap16 s) = s AND 0xffff"
  by (rule bit_word_eqI)
    (auto simp only: swap16_def bit_or_iff bit_and_iff bit_push_bit_iff bit_drop_bit_eq comp_def bit_low_bytes, auto)

text \<open>The bytes at consecutive addresses.\<close>

definition reads :: "(addr \<Rightarrow> u8 option) \<Rightarrow> addr \<Rightarrow> nat \<Rightarrow> bytes \<Rightarrow> bool" where
  "reads rd buf i bs = (\<forall>k < length bs. rd (buf + word_of_nat (i + k)) = Some (bs ! k))"

fun hyphenated :: "string list \<Rightarrow> string" where
  "hyphenated [] = []"
| "hyphenated [w] = w"
| "hyphenated (w # v # ws) = w @ ''-'' @ hyphenated (v # ws)"

lemma printk_loop_spec:
  "reads rd buf i bs \<Longrightarrow> printk_loop rd buf i (length bs) = Some (concat (map (\<lambda>b. hex_text (unat b) @ ''-'') bs))"
proof (induction bs arbitrary: i)
  case (Cons b bs)
  have "rd (buf + word_of_nat i) = Some b" using Cons.prems by (force simp: reads_def)
  moreover have "reads rd buf (Suc i) bs"
    unfolding reads_def
  proof (intro allI impI)
    fix k
    assume "k < length bs"
    then show "rd (buf + word_of_nat (Suc i + k)) = Some (bs ! k)"
      using Cons.prems [unfolded reads_def, rule_format, of "Suc k"] by simp
  qed
  ultimately show ?case using Cons.IH by simp
qed simp

lemma hyphenated_snoc: "hyphenated (ws @ [w]) = concat (map (\<lambda>v. v @ ''-'') ws) @ w"
proof (induction ws)
  case (Cons v ws)
  then show ?case by (cases ws) simp_all
qed simp

lemma printk_buffer_spec:
  assumes "reads rd buf 0 bs"
  shows "printk_buffer rd buf (length bs) = Some (hyphenated (map (\<lambda>b. hex_text (unat b)) bs))"
proof (cases bs rule: rev_cases)
  case Nil
  then show ?thesis by (simp add: printk_buffer_def)
next
  case (snoc cs b)
  have "reads rd buf 0 cs" using assms by (auto simp: reads_def snoc nth_append)
  moreover have "rd (buf + word_of_nat (length cs)) = Some b" using assms by (auto simp: reads_def snoc)
  ultimately show ?thesis
    using printk_loop_spec [of rd buf 0 cs] by (simp add: printk_buffer_def snoc hyphenated_snoc comp_def)
qed

text \<open>A buffer that can be read is printed in full with any of the colour words.\<close>

lemma dbg_buf_prints:
  assumes "color \<in> set dbg_colours" and "reads rd buf 0 bs"
  shows "dbg_buf rd color fmt buf (length bs) line = Some (print_dbg_level color @ ''['' @ fmt @
    hyphenated (map (\<lambda>b. hex_text (unat b)) bs) @ '']--['' @ line @ '']'' @ [CHR 0x0A])"
  using assms dbg_all_enabled printk_buffer_spec [OF assms(2)] by (simp add: dbg_buf_def PSB_def list_all_iff)

end
