(* ===== verification/Format_Print.thy ===== *)
theory Format_Print
  imports Protocol_Analyzer Debug
begin

text \<open>
  The printing functions of \<open>driver/libproto_analyzer/protocol_format_set.c\<close> and
  \<open>driver/libdata_structure/hash_map/hash_list.c\<close>. The text is what goes between the brackets of
  \<open>dbg_str\<close> and \<open>dbg_buf\<close>; the label in front and the line number behind are left out. Printing
  reads the fields and their buffers, so it faults where they are not in place.
\<close>

section \<open>Conversions\<close>

definition text_of :: "bytes \<Rightarrow> string" where
  "text_of b = map (\<lambda>c. char_of (unat c)) (cstr b)"

fun dec_text :: "nat \<Rightarrow> string" where
  "dec_text n = (if n < 10 then [hex_digit n] else dec_text (n div 10) @ [hex_digit (n mod 10)])"

declare dec_text.simps [simp del]

definition pad_left :: "nat \<Rightarrow> string \<Rightarrow> string" where
  "pad_left w s = replicate (w - length s) CHR '' '' @ s"

definition pad_right :: "nat \<Rightarrow> string \<Rightarrow> string" where
  "pad_right w s = s @ replicate (w - length s) CHR '' ''"

definition flag_text :: "bool \<Rightarrow> string" where
  "flag_text b = (if b then ''1'' else ''0'')"

text \<open>\<open>printk_buffer\<close> on the contents of a buffer.\<close>

definition print_bytes :: "bytes \<Rightarrow> string" where
  "print_bytes bs = hyphenated (map (\<lambda>b. hex_text (unat b)) bs)"

section \<open>A field, a list, a format set\<close>

definition print_info_list :: "addr \<Rightarrow> 'z pmem_scheme \<Rightarrow> string list option" where
  "print_info_list p m =
     (if p = NULL then Some []
      else do {
        i \<leftarrow> rd_info p m;
        if len_unit i = 8 then
          (if pi_len i \<le> 4 \<and> buf_data_p i = NULL
           then Some [pad_right 10 (text_of (pi_name i)) @ ''->0x'' @ hex_text (unat (pi_data i))]
           else if buf_data_p i \<noteq> NULL then do {
             b \<leftarrow> rd_buf (buf_data_p i) (unat (pi_len i)) m;
             Some [pad_right 10 (text_of (pi_name i)), ''buf:'' @ print_bytes b] }
           else Some [pad_right 10 (text_of (pi_name i))])
        else Some [''name='' @ pad_left 10 (text_of (pi_name i)) @ '',byte_pos='' @ pad_left 2 (dec_text (unat (byte_pos i))) @
          '',bit_pos='' @ dec_text (unat (bit_pos i)) @ '',len='' @ pad_left 2 (dec_text (unat (pi_len i))) @
          '',vlenth_flag='' @ flag_text (vlenth_flag i) @ '',vlenth_value_flag='' @ flag_text (vlenth_value_flag i) @
          '',vlenth_value_assigned_flag='' @ flag_text (vlenth_value_assigned_flag i) @
          '',value=0x'' @ hex_text (unat (pi_data i)) @ '',vl_index='' @ text_of (vlenth_index i)]
      })"

definition pfs_print_list_for_each :: "addr \<Rightarrow> 'z pmem_scheme \<Rightarrow> string list option" where
  "pfs_print_list_for_each hl m =
     list_for_each_safe (\<lambda>p out. rd_next p m)
       (\<lambda>p out. do { t \<leftarrow> print_info_list (info_of p) m; Some (out @ t) }) hl []"

text \<open>The table is searched up to entry 99 whatever the size of the set.\<close>

fun pfs_print_from :: "format_set \<Rightarrow> nat \<Rightarrow> nat \<Rightarrow> 'z pmem_scheme \<Rightarrow> string list option" where
  "pfs_print_from pfs i 0 m = Some []"
| "pfs_print_from pfs i (Suc k) m = do {
     hl \<leftarrow> rd_ptr (table_cell pfs (word_of_nat i)) m;
     t \<leftarrow> (if hl \<noteq> NULL then pfs_print_list_for_each hl m else Some []);
     ts \<leftarrow> pfs_print_from pfs (Suc i) k m;
     Some (t @ ts) }"

definition pfs_print_proto_link_lists :: "format_set \<Rightarrow> 'z pmem_scheme \<Rightarrow> string list option" where
  "pfs_print_proto_link_lists pfs m =
     (if list_head_p2 pfs = NULL then Some [] else pfs_print_from pfs 0 100 m)"

text \<open>The visitor of \<open>hash_map_for_each\<close>: \<open>data_size\<close> bytes of the node's data, key and value.\<close>

definition hash_map_print_mnode :: "addr \<Rightarrow> 'z hmem_scheme \<Rightarrow> string option" where
  "hash_map_print_mnode p m =
     (if valid m p sizeof_hash_map_node \<and> unat (hn_data_size m p) \<le> length (hn_key m p)
      then Some (''data:'' @ print_bytes (take (unat (hn_data_size m p)) (hn_key m p))) else None)"

section \<open>Printing succeeds on a well-formed list\<close>

text \<open>A field whose buffer, if it has one, holds its length.\<close>

definition printable :: "'z pmem_scheme \<Rightarrow> proto_info \<Rightarrow> bool" where
  "printable m i = (len_unit i = 8 \<longrightarrow> buf_data_p i \<noteq> NULL \<longrightarrow> rd_buf (buf_data_p i) (unat (pi_len i)) m \<noteq> None)"

lemma print_info_list_total:
  assumes "valid m p sizeof_proto_info" and "printable m (pinfo m p)"
  shows "\<exists>t. print_info_list p m = Some t"
  using assms by (auto simp: print_info_list_def rd_info_def printable_def)

lemma pfs_print_list_total:
  assumes d: "dlist m hl xs" and v: "\<forall>x \<in> set xs. valid m (info_of x) sizeof_proto_info \<and> printable m (pinfo m (info_of x))"
  shows "\<exists>t. pfs_print_list_for_each hl m = Some t"
proof -
  let ?body = "\<lambda>p out. do { t \<leftarrow> print_info_list (info_of p) m; Some (out @ t) }"
  let ?I = "\<lambda>ys (out :: string list). \<exists>us. xs = us @ ys"
  have step: "\<exists>t. ?body y s = Some t \<and> ?I ys t" if "?I (y # ys) s" for y ys s
  proof -
    from that obtain us where us: "xs = us @ y # ys" by blast
    then obtain t where "print_info_list (info_of y) m = Some t" using print_info_list_total [of m "info_of y"] v by auto
    with us show ?thesis by auto
  qed
  have "list_for_each_safe (\<lambda>p out. rd_next p m) ?body hl [] = foldM ?body xs []"
  proof (rule list_for_each_safe_foldM [where I = ?I])
    show "hl \<notin> set xs" using d by (simp add: dlist_def)
    show "rd_next hl m = Some (hd (xs @ [hl]))" by (rule dlist_reads(1) [OF d])
    show "rd_next y m = Some (hd (ys @ [hl]))" if "?I (y # ys) s" for y ys s
      using that dlist_reads(2) [OF d] by auto
    show "?I ys t" if "?I (y # ys) s" for y ys s t using that by auto
    show "rd_next hl m \<noteq> None" using dlist_reads(1) [OF d] by simp
  qed simp
  moreover obtain t where "foldM ?body xs [] = Some t"
    using foldM_total [of ?I xs "[]" ?body] step by blast
  ultimately show ?thesis by (simp add: pfs_print_list_for_each_def)
qed

end
