(* ===== verification/Business.thy ===== *)
theory Business
  imports Task_Flow Pdt_Format Format_Print
begin

text \<open>
  The commands \<open>driver/business/business.c\<close> that a program writes to the device. Command 0x3008
  carries one frame, from which a task is made; the commands 0x3010 and 0x301b carry several
  inner frames, which are parsed and printed. The globals of the driver are pointers that may
  be NULL, here options.
\<close>

record globals =
  g_allocator :: "allocator option"
  g_pfs :: "format_set option"
  task_admin_slot1_gp :: "task_admin option"
  task_admin_slot2_gp :: "task_admin option"

text \<open>
  What the code leaves open: \<open>kmalloc\<close>, a read through an address that is no structure of the
  driver, the contents of uninitialised variables and structures.
\<close>

record env =
  e_km :: kmalloc_fn
  e_peek :: "addr \<Rightarrow> nat \<Rightarrow> bytes option"
  e_key :: bytes
  e_map :: hash_map
  e_task :: task
  e_pad :: u8

definition COMMAND_0X3008 :: u16 where "COMMAND_0X3008 = 0x3008"
definition COMMAND_0X3010 :: u16 where "COMMAND_0X3010 = 0x3010"
definition COMMAND_0X301B :: u16 where "COMMAND_0X301B = 0x301B"

section \<open>Fields of a task\<close>

text \<open>A name that is not found is reported, and then the field behind NULL is read.\<close>

definition field_named :: "env \<Rightarrow> string \<Rightarrow> analyzer \<Rightarrow> 'z pmem_scheme \<Rightarrow> proto_info option" where
  "field_named e name pa m = do {
     info_list \<leftarrow> pa_find_key (e_key e) (chars name) pa m;
     rd_info info_list m
   }"

definition process_tact_info :: "env \<Rightarrow> analyzer \<Rightarrow> task \<Rightarrow> 'z pmem_scheme \<Rightarrow> task option" where
  "process_tact_info e pa t m = do {
     i \<leftarrow> field_named e TACT_INFO pa m;
     Some (t\<lparr>tact_info := ucast (pi_data i)\<rparr>)
   }"

definition process_slot_info :: "env \<Rightarrow> analyzer \<Rightarrow> task \<Rightarrow> 'z pmem_scheme \<Rightarrow> task option" where
  "process_slot_info e pa t m = do {
     i \<leftarrow> field_named e SLOT_INFO pa m;
     Some (t\<lparr>slot_num := ucast (pi_data i)\<rparr>)
   }"

text \<open>The next two only print: they read the field, the second one its buffer as well.\<close>

definition process_slc_data :: "env \<Rightarrow> analyzer \<Rightarrow> task \<Rightarrow> 'z pmem_scheme \<Rightarrow> task option" where
  "process_slc_data e pa t m = do {
     i \<leftarrow> field_named e SLC_DATA pa m;
     Some t
   }"

definition process_dc_data :: "env \<Rightarrow> analyzer \<Rightarrow> task \<Rightarrow> 'z pmem_scheme \<Rightarrow> task option" where
  "process_dc_data e pa t m = do {
     i \<leftarrow> field_named e DC_DATA pa m;
     b \<leftarrow> rd_buf (buf_data_p i) (unat (buf_len i)) m;
     Some t
   }"

section \<open>The commands\<close>

text \<open>An analyzer for a protocol; nothing releases it again.\<close>

definition open_analyzer ::
  "env \<Rightarrow> globals \<Rightarrow> u32 \<Rightarrow> 'z pmem_scheme \<Rightarrow> (analyzer \<times> 'z pmem_scheme) option" where
  "open_analyzer e g n m = do {
     al \<leftarrow> g_allocator g;
     (pa, m1) \<leftarrow> pa_create_protocol_analyzer (e_km e) al m;
     pfs \<leftarrow> g_pfs g;
     pa_init_protocol_analyzer (e_km e) (e_map e) n pfs pa m1
   }"

text \<open>The last part of \<open>do_command_0x3008\<close>: the task goes to one of the two administrations.\<close>

definition dispatch_task :: "env \<Rightarrow> task \<Rightarrow> globals \<Rightarrow> 'z pmem_scheme \<Rightarrow> (globals \<times> 'z pmem_scheme) option" where
  "dispatch_task e t0 g m = do {
     let t1 = t0\<lparr>task_slot_type := (if slot_num t0 AND 0x1000 \<noteq> 0 then SLOT_TYPE_SYS_DESIGNATE
        else SLOT_TYPE_USER_DESIGNATE)\<rparr>;
     let t = t1\<lparr>task_type := TASK_TYPE_DATA\<rparr>;
     if slot_num t AND 1 \<noteq> 0 then do {
       a \<leftarrow> task_admin_slot2_gp g;
       (a1, m1) \<leftarrow> add_task (e_km e) (e_peek e) (e_pad e) a t TASK_FLAG_SND m;
       Some (g\<lparr>task_admin_slot2_gp := Some a1\<rparr>, m1) }
     else do {
       a \<leftarrow> task_admin_slot1_gp g;
       (a1, m1) \<leftarrow> add_task (e_km e) (e_peek e) (e_pad e) a t TASK_FLAG_SND m;
       Some (g\<lparr>task_admin_slot1_gp := Some a1\<rparr>, m1) }
   }"

definition do_command_0x3008 ::
  "env \<Rightarrow> bytes \<Rightarrow> u32 \<Rightarrow> globals \<Rightarrow> 'z pmem_scheme \<Rightarrow> (globals \<times> 'z pmem_scheme) option" where
  "do_command_0x3008 e data len g m = do {
     (pa, m1) \<leftarrow> open_analyzer e g 0x3008 m;
     dp \<leftarrow> blit (protocol_data pa) 0 data (unat len);
     let pa1 = pa\<lparr>protocol_data := dp, protocol_data_len := ucast len\<rparr>;
     (r, m2) \<leftarrow> pa_parse_protocol_data (e_km e) (e_key e) pa1 m1;
     t1 \<leftarrow> process_slot_info e pa1 (e_task e) m2;
     t2 \<leftarrow> process_tact_info e pa1 t1 m2;
     t3 \<leftarrow> process_slc_data e pa1 t2 m2;
     t4 \<leftarrow> process_dc_data e pa1 t3 m2;
     dispatch_task e t4 g m2
   }"

text \<open>\<open>data[i]\<close> in the local array of \<open>device_write\<close>.\<close>

definition at :: "bytes \<Rightarrow> nat \<Rightarrow> u8 option" where
  "at data i = (if i < length data then Some (data ! i) else None)"

text \<open>
  One round of the two loops: the inner frame of \<open>n\<close> bytes at \<open>os\<close> is put behind the two bytes
  of its protocol number, parsed, printed, and the marks of variable length are set again.
\<close>

definition inner_frame ::
  "env \<Rightarrow> u8 \<Rightarrow> bytes \<Rightarrow> u16 \<Rightarrow> u16 \<Rightarrow> analyzer \<times> 'z pmem_scheme \<Rightarrow> (analyzer \<times> 'z pmem_scheme) option" where
  "inner_frame e lo data os n s = do {
     let (pa, m) = s;
     d \<leftarrow> slice_of data (unat os) (unat n);
     dp \<leftarrow> blit (0x30 # lo # drop 2 (protocol_data pa)) 2 d (unat n);
     let pa1 = pa\<lparr>protocol_data := dp, protocol_data_len := n + 2\<rparr>;
     (r, m1) \<leftarrow> pa_parse_protocol_data (e_km e) (e_key e) pa1 m;
     out \<leftarrow> pfs_print_list_for_each (pa_list_head_p pa1) m1;
     (q, m2) \<leftarrow> pa_reset_vlen_flag pa1 m1;
     Some (pa1, m2)
   }"

text \<open>Both loops run \<open>count\<close> times, a byte of the data.\<close>

fun loop_0x3010 ::
  "env \<Rightarrow> bytes \<Rightarrow> nat \<Rightarrow> u16 \<Rightarrow> analyzer \<times> 'z pmem_scheme \<Rightarrow> (analyzer \<times> 'z pmem_scheme) option" where
  "loop_0x3010 e data 0 os s = Some s"
| "loop_0x3010 e data (Suc k) os s = do {
     b \<leftarrow> at data (unat os + 2);
     let peri_data_len = (ucast b :: u16);
     s1 \<leftarrow> inner_frame e 0x54 data os (peri_data_len + 3) s;
     loop_0x3010 e data k (os + peri_data_len + 3) s1 }"

definition do_command_0x3010 ::
  "env \<Rightarrow> bytes \<Rightarrow> u32 \<Rightarrow> globals \<Rightarrow> 'z pmem_scheme \<Rightarrow> (globals \<times> 'z pmem_scheme) option" where
  "do_command_0x3010 e data len g m = do {
     (pa, m1) \<leftarrow> open_analyzer e g 0x3054 m;
     count \<leftarrow> at data 5;
     (pa1, m2) \<leftarrow> loop_0x3010 e data (unat count) 6 (pa, m1);
     Some (g, m2)
   }"

fun loop_0x301b ::
  "env \<Rightarrow> bytes \<Rightarrow> nat \<Rightarrow> u16 \<Rightarrow> analyzer \<Rightarrow> analyzer \<Rightarrow> 'z pmem_scheme \<Rightarrow> (analyzer \<times> analyzer \<times> 'z pmem_scheme) option"
where
  "loop_0x301b e data 0 os pa50 pa52 m = Some (pa50, pa52, m)"
| "loop_0x301b e data (Suc k) os pa50 pa52 m = do {
     b \<leftarrow> at data (unat os);
     emb_flag \<leftarrow> at data (unat os + 1);
     let pdu_len = (ucast b :: u16);
     if emb_flag = 0 then do {
       (pa, m1) \<leftarrow> inner_frame e 0x50 data os pdu_len (pa50, m);
       loop_0x301b e data k (os + pdu_len) pa pa52 m1 }
     else do {
       (pa, m1) \<leftarrow> inner_frame e 0x52 data os pdu_len (pa52, m);
       loop_0x301b e data k (os + pdu_len) pa50 pa m1 } }"

definition do_command_0x301b ::
  "env \<Rightarrow> bytes \<Rightarrow> u32 \<Rightarrow> globals \<Rightarrow> 'z pmem_scheme \<Rightarrow> (globals \<times> 'z pmem_scheme) option" where
  "do_command_0x301b e data len g m = do {
     (pa50, m1) \<leftarrow> open_analyzer e g 0x3050 m;
     (pa52, m2) \<leftarrow> open_analyzer e g 0x3052 m1;
     count \<leftarrow> at data 4;
     (pa50', pa52', m3) \<leftarrow> loop_0x301b e data (unat count) 5 pa50 pa52 m2;
     Some (g, m3)
   }"

text \<open>Every other command is accepted and ignored, known or not.\<close>

definition process_protocol ::
  "env \<Rightarrow> u16 \<Rightarrow> bytes \<Rightarrow> u32 \<Rightarrow> globals \<Rightarrow> 'z pmem_scheme \<Rightarrow> (globals \<times> 'z pmem_scheme) option" where
  "process_protocol e command data len g m =
     (if command = COMMAND_0X3008 then do_command_0x3008 e data len g m
      else if command = COMMAND_0X3010 then do_command_0x3010 e data len g m
      else if command = COMMAND_0X301B then do_command_0x301b e data len g m
      else Some (g, m))"

section \<open>Bounds\<close>

lemma blit_bound: "blit dp p d n = Some r \<Longrightarrow> p + n \<le> length dp \<and> n \<le> length d \<and> length r = length dp"
  by (auto simp: blit_def split: if_splits)

lemma find_format_data:
  assumes "pa_find_protocol_format pa m = Some (r, pa1)"
  shows "protocol_data pa1 = protocol_data pa"
  using assms unfolding pa_find_protocol_format_def
proof (elim bind_SomeE)
  fix ret
  assume a: "(if ret < 0 then Some (ret, pa) else do {
      pfs \<leftarrow> pfs_p pa;
      hl \<leftarrow> rd_ptr (table_cell pfs (protocol_num pa - proto_base_addr pfs)) m;
      Some (if hl = NULL then -1 else ret, pa\<lparr>pf_list_head_p := hl\<rparr>) }) = Some (r, pa1)"
  show ?thesis
  proof (cases "ret < 0")
    case True
    with a show ?thesis by simp
  next
    case False
    show ?thesis using a unfolding if_not_P [OF False] by (elim bind_SomeE) auto
  qed
qed

lemma copy_format_data:
  assumes "pa_copy_protocol_format km pa m = Some (r, pa1, m1)"
  shows "protocol_data pa1 = protocol_data pa"
proof (cases "pf_list_head_p pa = NULL")
  case False
  with assms show ?thesis
    unfolding pa_copy_protocol_format_def Let_def if_not_P [OF False]
    by (elim bind_pairE bind_SomeE) auto
qed (use assms in \<open>simp add: pa_copy_protocol_format_def\<close>)

lemma create_hash_table_data:
  assumes "pa_create_hash_table km st pa m = Some (r, pa1, m1)"
  shows "protocol_data pa1 = protocol_data pa"
proof (cases "pa_list_head_p pa = NULL")
  case True
  then show ?thesis using assms unfolding pa_create_hash_table_def Let_def
    by (elim bind_pairE bind_tripleE) auto
next
  case False
  show ?thesis using assms unfolding pa_create_hash_table_def Let_def if_not_P [OF False]
    by (elim bind_pairE bind_tripleE) auto
qed

lemma open_analyzer_data:
  assumes "open_analyzer e g n m = Some (pa, m')"
  shows "protocol_data pa = replicate MAX_PROTO_DATA_LEN 0"
  using assms unfolding open_analyzer_def
proof (elim bind_pairE bind_SomeE)
  fix al pa0 m1 pfs
  assume c: "pa_create_protocol_analyzer (e_km e) al m = Some (pa0, m1)"
    and i: "pa_init_protocol_analyzer (e_km e) (e_map e) n pfs pa0 m1 = Some (pa, m')"
  from i have "protocol_data pa = protocol_data pa0"
    unfolding pa_init_protocol_analyzer_def
    by (elim bind_pairE bind_tripleE) (auto dest!: find_format_data copy_format_data create_hash_table_data)
  moreover from c have "protocol_data pa0 = replicate MAX_PROTO_DATA_LEN 0"
    unfolding pa_create_protocol_analyzer_def by (elim bind_pairE bind_SomeE) auto
  ultimately show ?thesis by simp
qed

text \<open>A frame that is longer than the analyzer's buffer overruns it.\<close>

lemma do_command_0x3008_overrun:
  assumes "MAX_PROTO_DATA_LEN < unat len"
  shows "do_command_0x3008 e data len g m = None"
proof (cases "open_analyzer e g 0x3008 m")
  case (Some r)
  obtain pa m1 where r: "r = (pa, m1)" by fastforce
  with Some open_analyzer_data have "length (protocol_data pa) = MAX_PROTO_DATA_LEN" by fastforce
  with assms have "blit (protocol_data pa) 0 data (unat len) = None" by (simp add: blit_def)
  with Some r show ?thesis by (simp add: do_command_0x3008_def)
qed (simp add: do_command_0x3008_def)

lemma inner_frame_overrun:
  assumes "MAX_PROTO_DATA_LEN < unat n + 2" and "length (protocol_data (fst s)) = MAX_PROTO_DATA_LEN"
  shows "inner_frame e lo data os n s = None"
proof -
  obtain pa m where s: "s = (pa, m)" by fastforce
  have "blit (0x30 # lo # drop 2 (protocol_data pa)) 2 d (unat n) = None" for d
    using assms by (simp add: blit_def s MAX_PROTO_DATA_LEN_def)
  then show ?thesis by (simp add: inner_frame_def s bind_eq_None_conv)
qed

end
