(* ===== verification/Sync_Lock.thy ===== *)
theory Sync_Lock
  imports Memory
begin

text \<open>
  The locks \<open>driver/libcre/sync_lock/sync_lock.c\<close>. The bodies of all five functions are commented
  out in the source except for \<open>return 0\<close>, so the structure is never written. The containers call
  them around their operations; since they change nothing, the container theories leave them out.
\<close>

record sync_lock_s =
  lock_type :: u8
  lock_ops :: addr
  lock_b :: int

definition sync_lock_init :: "u32 \<Rightarrow> sync_lock_s \<Rightarrow> int \<times> sync_lock_s" where
  "sync_lock_init ty slock = (0, slock)"

definition sync_lock :: "sync_lock_s \<Rightarrow> int \<times> sync_lock_s" where
  "sync_lock slock = (0, slock)"

definition sync_trylock :: "sync_lock_s \<Rightarrow> int \<times> sync_lock_s" where
  "sync_trylock slock = (0, slock)"

definition sync_unlock :: "sync_lock_s \<Rightarrow> int \<times> sync_lock_s" where
  "sync_unlock slock = (0, slock)"

definition sync_lock_destroy :: "sync_lock_s \<Rightarrow> int \<times> sync_lock_s" where
  "sync_lock_destroy slock = (0, slock)"

text \<open>A lock that is held can be taken again: the locks exclude nobody.\<close>

lemma sync_lock_excludes_nobody:
  "(let (r, s1) = sync_lock s; (t, s2) = sync_trylock s1 in r = 0 \<and> t = 0 \<and> s2 = s)"
  by (simp add: sync_lock_def sync_trylock_def)

end
