(* ===== verification/Driver.thy ===== *)
theory Driver
  imports Business Sync_Lock
begin

text \<open>
  The platform driver \<open>driver/plat_driver.c\<close>: probe and remove, the file operations, and the
  module entry points. What the driver has registered with the kernel is kept as lists; the
  results of kernel calls that can fail are parameters.
\<close>

section \<open>State\<close>

record pdev_priv =
  pp_self :: addr
  phy_base :: u32
  vir_base :: addr
  phy_size :: u32
  irq :: u32
  cdev_dev :: u32
  pp_class :: addr
  dev_id :: u32
  class_dev :: addr

text \<open>The platform device: its memory range, its interrupt, its number.\<close>

record platform_device =
  res_mem :: "(u32 \<times> u32) option"
  res_irq :: "u32 option"
  pdev_id :: int

record registrations =
  k_cdevs :: "pdev_priv list"
  k_classes :: "addr list"
  k_devices :: "(addr \<times> u32) list"
  k_class_devices :: "(addr \<times> u32) list"
  k_drvdata :: "pdev_priv option"

record driver =
  d_mem :: pmem
  d_globals :: globals
  d_kernel :: registrations

text \<open>
  A character device is embedded in the \<open>pdev_priv\<close> that the list of devices names; \<open>k_drvdata\<close> is
  what \<open>platform_set_drvdata\<close> has saved. A device file is known by its class and its number, and the
  kernel that the makefile names (2.6.19) keeps two lists of them: \<open>k_devices\<close> holds those made with
  \<open>device_create\<close>, which \<open>device_destroy\<close> takes away, and \<open>k_class_devices\<close> those made with
  \<open>class_device_create\<close>, which only \<open>class_device_destroy\<close> takes away. The driver makes its file with
  \<open>class_device_create\<close> and calls \<open>device_destroy\<close>.

  The kernel's part of a probe: the size of \<open>struct pdev_priv\<close> (it embeds kernel structures),
  whether \<open>cdev_add\<close> works, the results of \<open>class_create\<close> and \<open>class_device_create\<close>, what the
  uninitialised variable \<open>ret\<close> holds, and the contents of a fresh administration.
\<close>

record probe_env =
  priv_size :: nat
  cdev_added :: bool
  class_result :: addr
  class_dev_result :: addr
  stale_ret :: int
  stale_admin :: task_admin

definition DEF_MAJOR :: u32 where "DEF_MAJOR = 90"
definition ENOMEM :: int where "ENOMEM = 12"

text \<open>Kernel macros: device numbers, and error codes in pointers.\<close>

definition MKDEV :: "u32 \<Rightarrow> u32 \<Rightarrow> u32" where "MKDEV ma mi = (push_bit 20 ma OR mi)"
definition IS_ERR :: "addr \<Rightarrow> bool" where "IS_ERR p = (0xFFFFF001 \<le> p)"
definition PTR_ERR :: "addr \<Rightarrow> int" where "PTR_ERR p = sint p"

section \<open>Probe and remove\<close>

definition cdev_del :: "addr \<Rightarrow> registrations \<Rightarrow> registrations" where
  "cdev_del p k = k\<lparr>k_cdevs := filter (\<lambda>q. pp_self q \<noteq> p) (k_cdevs k)\<rparr>"

text \<open>It finds nothing among the files made with \<open>class_device_create\<close>.\<close>

definition device_destroy :: "addr \<Rightarrow> u32 \<Rightarrow> registrations \<Rightarrow> registrations" where
  "device_destroy c n k = k\<lparr>k_devices := remove1 (c, n) (k_devices k)\<rparr>"

definition class_destroy :: "addr \<Rightarrow> registrations \<Rightarrow> registrations" where
  "class_destroy c k = k\<lparr>k_classes := remove1 c (k_classes k)\<rparr>"

text \<open>The data of a device up to the class.\<close>

definition new_priv :: "platform_device \<Rightarrow> addr \<Rightarrow> u32 \<Rightarrow> u32 \<Rightarrow> addr \<Rightarrow> addr \<Rightarrow> pdev_priv" where
  "new_priv pdev p start stop c cd =
     (let n = MKDEV DEF_MAJOR (if pdev_id pdev = -1 then 0 else word_of_int (pdev_id pdev))
      in \<lparr>pp_self = p, phy_base = start, vir_base = NULL, phy_size = stop - start + 1,
        irq = (case res_irq pdev of None \<Rightarrow> 0 | Some i \<Rightarrow> i), cdev_dev = n, pp_class = c, dev_id = n, class_dev = cd\<rparr>)"

text \<open>
  The part of \<open>plat_probe\<close> after the registrations: the libraries, the formats, the two
  administrations. \<open>None\<close> in the second component is the jump to \<open>err3\<close>. The jump to \<open>err4\<close> is
  never taken: \<open>pfs_create_proto_format_set\<close> writes through a failed allocation.
\<close>

definition probe_globals ::
  "env \<Rightarrow> probe_env \<Rightarrow> globals \<Rightarrow> pmem \<Rightarrow> (bool \<times> globals \<times> pmem) option" where
  "probe_globals e pe g m =
     (let m1 = liballoc_register_modules m
      in (case allocator_creator (e_km e) ALLOCATOR_TYPE_SYS_MALLOC 0 m1 of
            (None, m2) \<Rightarrow> Some (False, g\<lparr>g_allocator := None\<rparr>, m2)
          | (Some al, m2) \<Rightarrow> do {
              (pfs, m3) \<leftarrow> pfs_create_proto_format_set (e_km e) al m2;
              (pfs1, m4) \<leftarrow> init_proto_format_set (e_km e) 0x3000 100 pfs m3;
              (pfs2, m5) \<leftarrow> pfs_set_pdt_drv_proto_format (e_km e) pfs1 m4;
              (a1, m6) \<leftarrow> create_task_admin (e_km e) (stale_admin pe) m5;
              (a2, m7) \<leftarrow> create_task_admin (e_km e) (stale_admin pe) m6;
              Some (True, \<lparr>g_allocator = Some al, g_pfs = Some pfs2, task_admin_slot1_gp = a1,
                task_admin_slot2_gp = a2\<rparr>, m7) }))"

definition plat_probe :: "env \<Rightarrow> probe_env \<Rightarrow> platform_device \<Rightarrow> driver \<Rightarrow> (int \<times> driver) option" where
  "plat_probe e pe pdev d = do {
     let (p, m1) = kmalloc (e_km e) (priv_size pe) (d_mem d);
     if p = NULL then Some (- ENOMEM, d\<lparr>d_mem := m1\<rparr>)
     else do {
       (start, stop) \<leftarrow> res_mem pdev;
       let priv = new_priv pdev p start stop (class_result pe) (class_dev_result pe);
       let k = d_kernel d;
       let k1 = (if cdev_added pe then k\<lparr>k_cdevs := priv # k_cdevs k\<rparr> else k);
       if IS_ERR (class_result pe) then Some (PTR_ERR (class_result pe), d\<lparr>d_mem := m1, d_kernel := k1\<rparr>)
       else do {
         let k2 = k1\<lparr>k_classes := class_result pe # k_classes k1\<rparr>;
         if IS_ERR (class_dev_result pe) then do {
           m2 \<leftarrow> kfree p m1;
           Some (PTR_ERR (class_dev_result pe), d\<lparr>d_mem := m2, d_kernel := cdev_del p k2\<rparr>) }
         else do {
           let k3 = k2\<lparr>k_class_devices := (pp_class priv, cdev_dev priv) # k_class_devices k2, k_drvdata := Some priv\<rparr>;
           (up, g, m2) \<leftarrow> probe_globals e pe (d_globals d) m1;
           if up then Some (0, \<lparr>d_mem = m2, d_globals = g, d_kernel = k3\<rparr>)
           else do {
             let k4 = cdev_del p (device_destroy (pp_class priv) (dev_id priv) k3);
             m3 \<leftarrow> kfree p m2;
             Some (stale_ret pe, \<lparr>d_mem = m3, d_globals = g, d_kernel = k4\<rparr>) } } } } }"

text \<open>The format set and its allocator are not released; \<open>iounmap\<close> gets the NULL of \<open>vir_base\<close>.\<close>

definition plat_remove :: "driver \<Rightarrow> (int \<times> driver) option" where
  "plat_remove d = do {
     priv \<leftarrow> k_drvdata (d_kernel d);
     a1 \<leftarrow> task_admin_slot1_gp (d_globals d);
     m1 \<leftarrow> destroy_task_admin a1 (d_mem d);
     a2 \<leftarrow> task_admin_slot2_gp (d_globals d);
     m2 \<leftarrow> destroy_task_admin a2 m1;
     let k1 = device_destroy (pp_class priv) (dev_id priv) (d_kernel d);
     let k2 = class_destroy (pp_class priv) k1;
     let k3 = cdev_del (pp_self priv) k2;
     m3 \<leftarrow> kfree (pp_self priv) m2;
     Some (0, d\<lparr>d_mem := m3, d_kernel := k3\<rparr>)
   }"

section \<open>File operations\<close>

text \<open>The private data of an open file.\<close>

definition device_open :: "pdev_priv \<Rightarrow> int \<times> pdev_priv" where
  "device_open priv = (0, priv)"

definition device_release :: "pdev_priv \<Rightarrow> int" where
  "device_release priv = 0"

text \<open>
  \<open>wait_event(q, condition)\<close>: the process sleeps until the condition holds, tested at every
  wake-up. \<open>device_read\<close> waits for the condition 0.
\<close>

partial_function (option) wait_event :: "(nat \<Rightarrow> bool) \<Rightarrow> nat \<Rightarrow> nat option" where
  "wait_event c t = (if c t then Some t else wait_event c (Suc t))"

definition device_read :: "pdev_priv \<Rightarrow> nat \<Rightarrow> int option" where
  "device_read priv count = do {
     t \<leftarrow> wait_event (\<lambda>_. False) 0;
     Some 0
   }"

definition MAX_BUF_SIZE :: nat where "MAX_BUF_SIZE = 1024"

text \<open>
  \<open>u\<close>: the \<open>count\<close> bytes that \<open>copy_from_user\<close> leaves at the start of the local array; \<open>stale\<close>:
  the array before. The size of the array is not checked, so more bytes overrun it. A missing
  buffer or a count of 0 is only reported.
\<close>

definition device_write :: "env \<Rightarrow> bytes \<Rightarrow> bytes \<Rightarrow> driver \<Rightarrow> (int \<times> driver) option" where
  "device_write e stale u d = do {
     data \<leftarrow> blit stale 0 u (length u);
     b0 \<leftarrow> at data 0;
     b1 \<leftarrow> at data 1;
     let command = ((push_bit 8 (ucast b0) OR ucast b1) :: u16);
     (g, m) \<leftarrow> process_protocol e command data (word_of_nat (length u)) (d_globals d) (d_mem d);
     Some (0, d\<lparr>d_globals := g, d_mem := m\<rparr>)
   }"

definition device_ioctl :: "pdev_priv \<Rightarrow> u32 \<Rightarrow> int" where
  "device_ioctl priv cmd = 0"

section \<open>The module\<close>

text \<open>
  The driver core calls \<open>probe\<close> and takes the device as bound when it returns 0, and calls
  \<open>remove\<close> for a bound device; \<open>registered\<close> says whether the driver is known to it. The entry
  point returns 0 whether or not the registration worked.
\<close>

record module_state =
  registered :: bool
  bound :: bool
  files :: "(nat \<times> pdev_priv) list"
  dstate :: driver

definition driver_module_init :: "bool \<Rightarrow> module_state \<Rightarrow> int \<times> module_state" where
  "driver_module_init works s = (0, s\<lparr>registered := works\<rparr>)"

definition driver_module_exit :: "module_state \<Rightarrow> module_state option" where
  "driver_module_exit s =
     (if \<not> registered s then Some s
      else if bound s then do {
        (r, d) \<leftarrow> plat_remove (dstate s);
        Some (s\<lparr>registered := False, bound := False, dstate := d\<rparr>) }
      else Some (s\<lparr>registered := False\<rparr>))"

datatype event = Init bool | Probe probe_env platform_device | Remove | Exit
  | Open nat | Release nat | Write nat bytes bytes | Ioctl nat u32

text \<open>One call into the module that returns \<open>r\<close>.\<close>

inductive module_step :: "env \<Rightarrow> module_state \<Rightarrow> event \<Rightarrow> int \<Rightarrow> module_state \<Rightarrow> bool" for e where
  step_init: "\<not> registered s \<Longrightarrow> driver_module_init w s = (r, s') \<Longrightarrow> module_step e s (Init w) r s'"
| step_probe: "registered s \<Longrightarrow> \<not> bound s \<Longrightarrow> plat_probe e pe pdev (dstate s) = Some (r, d) \<Longrightarrow>
    module_step e s (Probe pe pdev) r (s\<lparr>bound := (r = 0), dstate := d\<rparr>)"
| step_remove: "bound s \<Longrightarrow> plat_remove (dstate s) = Some (r, d) \<Longrightarrow>
    module_step e s Remove r (s\<lparr>bound := False, dstate := d\<rparr>)"
| step_exit: "driver_module_exit s = Some s' \<Longrightarrow> files s = [] \<Longrightarrow> module_step e s Exit 0 s'"
| step_open: "priv \<in> set (k_cdevs (d_kernel (dstate s))) \<Longrightarrow> device_open priv = (r, p) \<Longrightarrow>
    f \<notin> fst ` set (files s) \<Longrightarrow> module_step e s (Open f) r (s\<lparr>files := (f, p) # files s\<rparr>)"
| step_release: "(f, p) \<in> set (files s) \<Longrightarrow> device_release p = r \<Longrightarrow>
    module_step e s (Release f) r (s\<lparr>files := remove1 (f, p) (files s)\<rparr>)"
| step_write: "(f, p) \<in> set (files s) \<Longrightarrow> length stale = MAX_BUF_SIZE \<Longrightarrow>
    device_write e stale u (dstate s) = Some (r, d) \<Longrightarrow> module_step e s (Write f stale u) r (s\<lparr>dstate := d\<rparr>)"
| step_ioctl: "(f, p) \<in> set (files s) \<Longrightarrow> device_ioctl p cmd = r \<Longrightarrow> module_step e s (Ioctl f cmd) r s"

inductive_cases probe_step_cases: "module_step e s (Probe pe pdev) r s'"
inductive_cases write_step_cases: "module_step e s (Write f stale u) r s'"

text \<open>The states that calls which satisfy \<open>ok\<close> lead to.\<close>

inductive reachable :: "env \<Rightarrow> (event \<Rightarrow> bool) \<Rightarrow> module_state \<Rightarrow> module_state \<Rightarrow> bool" for e ok s0 where
  reachable_start: "reachable e ok s0 s0"
| reachable_step: "reachable e ok s0 s \<Longrightarrow> module_step e s ev r s' \<Longrightarrow> ok ev \<Longrightarrow> reachable e ok s0 s'"

section \<open>Reading and writing\<close>

lemma wait_event_now: "c t \<Longrightarrow> wait_event c t = Some t"
  by (simp add: wait_event.simps)

text \<open>A condition that becomes true wakes the process at its first such moment.\<close>

lemma wait_event_returns:
  "c (t + k) \<Longrightarrow> \<exists>r. wait_event c t = Some r \<and> c r \<and> t \<le> r \<and> (\<forall>s. t \<le> s \<and> s < r \<longrightarrow> \<not> c s)"
proof (induction k arbitrary: t)
  case 0
  then show ?case by (auto simp: wait_event_now)
next
  case (Suc k)
  show ?case
  proof (cases "c t")
    case True
    then show ?thesis by (auto simp: wait_event_now)
  next
    case False
    from Suc.IH [of "Suc t"] Suc.prems obtain r where r: "wait_event c (Suc t) = Some r" "c r" "Suc t \<le> r"
      "\<forall>s. Suc t \<le> s \<and> s < r \<longrightarrow> \<not> c s" by auto
    have "\<not> c s" if "t \<le> s" "s < r" for s using that False r(4) by (cases "s = t") auto
    then show ?thesis using False r by (subst wait_event.simps) auto
  qed
qed

lemma wait_event_only:
  assumes "wait_event c t = Some r"
  shows "c r"
proof (rule wait_event.raw_induct [where P = "\<lambda>c t r. c r", OF _ assms])
  fix we :: "(nat \<Rightarrow> bool) \<Rightarrow> nat \<Rightarrow> nat option" and c t r
  assume IH: "\<And>c t r. we c t = Some r \<Longrightarrow> c r" and run: "(if c t then Some t else we c (Suc t)) = Some r"
  show "c r"
  proof (cases "c t")
    case True
    with run have e: "r = t" by simp
    show ?thesis unfolding e by (rule True)
  next
    case False
    with run have "we c (Suc t) = Some r" by (simp only: if_False)
    then show ?thesis by (rule IH)
  qed
qed

lemma device_read_blocks: "device_read priv count = None"
proof -
  have "wait_event (\<lambda>_. False) 0 = None"
    using wait_event_only [of "\<lambda>_. False" 0] by (cases "wait_event (\<lambda>_. False) 0") auto
  then show ?thesis by (simp add: device_read_def)
qed

text \<open>The command of a write: its first two bytes, the high byte first.\<close>

definition command_of :: "bytes \<Rightarrow> u16" where
  "command_of u = (push_bit 8 (ucast (u ! 0)) OR ucast (u ! 1))"

lemma blit_start: "length u \<le> length stale \<Longrightarrow> blit stale 0 u (length u) = Some (u @ drop (length u) stale)"
  by (simp add: blit_def)

lemma device_write_command:
  assumes "length stale = MAX_BUF_SIZE" and "2 \<le> length u" and "length u \<le> MAX_BUF_SIZE"
  shows "device_write e stale u d = do {
     (g, m) \<leftarrow> process_protocol e (command_of u) (u @ drop (length u) stale) (word_of_nat (length u)) (d_globals d) (d_mem d);
     Some (0, d\<lparr>d_globals := g, d_mem := m\<rparr>) }"
proof -
  have "u \<noteq> []" "1 < length u" using assms(2) by auto
  then show ?thesis using assms by (simp add: device_write_def blit_start at_def nth_append command_of_def Let_def)
qed

lemma device_write_overrun:
  "length stale = MAX_BUF_SIZE \<Longrightarrow> MAX_BUF_SIZE < length u \<Longrightarrow> device_write e stale u d = None"
  by (simp add: device_write_def blit_def)

lemma device_write_long_frame:
  assumes "length stale = MAX_BUF_SIZE" and "command_of u = COMMAND_0X3008" and "MAX_PROTO_DATA_LEN < length u"
  shows "device_write e stale u d = None"
proof (cases "length u \<le> MAX_BUF_SIZE")
  case True
  have l: "2 \<le> length u" using assms(3) by (simp add: MAX_PROTO_DATA_LEN_def)
  have "length u < 2 ^ LENGTH(32)" using True by (simp add: MAX_BUF_SIZE_def)
  then have "unat (word_of_nat (length u) :: u32) = length u" by (rule unat_word_of_nat)
  then have "do_command_0x3008 e data (word_of_nat (length u)) g m = None" for data g and m :: pmem
    using assms(3) by (intro do_command_0x3008_overrun) simp
  then show ?thesis unfolding device_write_command [OF assms(1) l True] assms(2) by (simp add: process_protocol_def)
next
  case False
  then show ?thesis using device_write_overrun [OF assms(1)] by simp
qed

text \<open>A write that returns leaves the registrations alone.\<close>

lemma device_write_kernel: "device_write e stale u d = Some (r, d') \<Longrightarrow> d_kernel d' = d_kernel d"
  unfolding device_write_def Let_def by (auto elim!: bind_pairE bind_SomeE)

end
