(* ===== verification/Driver_Boot.thy ===== *)
theory Driver_Boot
  imports Driver
begin

text \<open>
  From the first call to the last: a probe whose kernel calls work brings up the allocator, the
  formats and the two task administrations, and the removal takes the administrations down; what
  the failing probes leave behind; and the registrations in every reachable state.
\<close>

section \<open>The parts of a running driver\<close>

definition formats_ready :: "'z pmem_scheme \<Rightarrow> format_set \<Rightarrow> (addr \<times> nat) set \<Rightarrow> bool" where
  "formats_ready m pfs F =
     (\<exists>T. fset_ok m pfs T \<and> pdt_formats = (\<lambda>i. map_option (\<lambda>fmt. infos m (snd fmt)) (T i)) \<and>
        F = fset_owned pfs T \<and> proto_base_addr pfs = 0x3000 \<and> proto_max_num pfs = 100)"

definition admin_ready :: "'z pmem_scheme \<Rightarrow> task_admin \<Rightarrow> (addr \<times> nat) set \<Rightarrow> bool" where
  "admin_ready m a A = (\<exists>xs ys B C. admin_ok m a xs ys B C \<and> A = admin_owned a xs ys B C)"

lemma fset_owned_blocks:
  assumes f: "fset_ok m pfs T"
  shows "fset_owned pfs T \<subseteq> set (blocks m)"
proof -
  have "owned hl ps \<subseteq> set (blocks m)" if "T i = Some (hl, ps)" for i hl ps
    by (rule flist_owned [OF fset_okD(3) [OF f that]])
  then show ?thesis using fset_ok_base [OF f] by (fastforce simp: fset_owned_def ran_def)
qed

lemma formats_ready_blocks: "formats_ready m pfs F \<Longrightarrow> F \<subseteq> set (blocks m)"
  by (auto simp: formats_ready_def dest: fset_owned_blocks)

lemma admin_ready_blocks: "admin_ready m a A \<Longrightarrow> A \<subseteq> set (blocks m)"
  by (auto simp: admin_ready_def dest: admin_owned_blocks)

lemma formats_ready_keeps:
  assumes k: "keeps A m m'" and f: "formats_ready m pfs F" and d: "A \<inter> F = {}"
  shows "formats_ready m' pfs F"
proof -
  from f obtain T where T: "fset_ok m pfs T" "pdt_formats = (\<lambda>i. map_option (\<lambda>fmt. infos m (snd fmt)) (T i))"
    "F = fset_owned pfs T" "proto_base_addr pfs = 0x3000" "proto_max_num pfs = 100" by (auto simp: formats_ready_def)
  have "infos m' (snd fmt) = infos m (snd fmt)" if "T i = Some fmt" for i fmt
  proof -
    obtain hl ps where fm: "fmt = (hl, ps)" by fastforce
    have "owned hl ps \<subseteq> F" using that fm T(3) by (force simp: fset_owned_def ran_def)
    with d have "A \<inter> owned hl ps = {}" by blast
    from flist_keeps(3) [OF k fset_okD(3) [OF T(1) that [unfolded fm]] this] show ?thesis by (simp add: fm)
  qed
  then have "pdt_formats = (\<lambda>i. map_option (\<lambda>fmt. infos m' (snd fmt)) (T i))"
    unfolding T(2) by (intro ext) (auto simp: option.map_comp intro: option.map_cong)
  moreover have "fset_ok m' pfs T" using fset_keeps [OF k T(1)] d T(3) by simp
  ultimately show ?thesis using T(3-5) by (auto simp: formats_ready_def)
qed

lemma admin_ready_keeps: "keeps W m m' \<Longrightarrow> admin_ready m a A \<Longrightarrow> W \<inter> A = {} \<Longrightarrow> admin_ready m' a A"
  using admin_keeps(1) by (fastforce simp: admin_ready_def)

text \<open>An administration with the bytes of its data and of its voice tasks, in the order of arrival.\<close>

definition admin_holds :: "'z pmem_scheme \<Rightarrow> task_admin \<Rightarrow> bytes list \<Rightarrow> bytes list \<Rightarrow> (addr \<times> nat) set \<Rightarrow> bool" where
  "admin_holds m a ds vs A =
     (\<exists>xs ys B C. admin_ok m a xs ys B C \<and> queued m xs = ds \<and> queued m ys = vs \<and> A = admin_owned a xs ys B C)"

lemma admin_holds_ready: "admin_holds m a ds vs A \<Longrightarrow> admin_ready m a A"
  by (auto simp: admin_holds_def admin_ready_def)

lemma admin_ready_holds: "admin_ready m a A \<Longrightarrow> \<exists>ds vs. admin_holds m a ds vs A"
  by (auto simp: admin_holds_def admin_ready_def)

lemma admin_holds_keeps:
  assumes "keeps W m m'" and "admin_holds m a ds vs A" and "W \<inter> A = {}"
  shows "admin_holds m' a ds vs A"
  using assms(2,3) admin_keeps [OF assms(1)] unfolding admin_holds_def by metis

lemma queued_Nil: "queued m [] = []"
  by (simp add: queued_def)

lemma admin_ready_destroy:
  fixes m :: "'z pmem_scheme"
  assumes e: "mem_env km m" and a: "admin_ready m a A"
  shows "\<exists>m'. destroy_task_admin a m = Some m' \<and> keeps A m m' \<and> mem_env km m' \<and>
    set (blocks m') = set (blocks m) - A \<union> admin_leaked a"
proof -
  from a obtain xs ys B C where ok: "admin_ok m a xs ys B C" and A: "A = admin_owned a xs ys B C"
    by (auto simp: admin_ready_def)
  from destroy_task_admin_spec [OF e ok] obtain m' where
    r: "destroy_task_admin a m = Some m'" "mem_env km m'" "blocks m' = filter (\<lambda>p. p \<notin> admin_released a xs ys B C) (blocks m)"
      "keeps (admin_released a xs ys B C) m m'" "admin_leaked a \<subseteq> set (blocks m')" by blast
  have sp: "A = admin_leaked a \<union> admin_released a xs ys B C" unfolding A by (rule admin_owned_split)
  have "keeps A m m'" by (rule keeps_mono [OF r(4)]) (use sp in blast)
  moreover have "set (blocks m') = set (blocks m) - A \<union> admin_leaked a"
    using r(3,5) sp by auto
  ultimately show ?thesis using r(1,2) by blast
qed

text \<open>
  A driver that is up: its globals, its private data in a block of \<open>n\<close> bytes, and the blocks
  \<open>F\<close>, \<open>A\<close>, \<open>B\<close> of the formats and the two administrations.
\<close>

definition driver_up ::
  "kmalloc_fn \<Rightarrow> nat \<Rightarrow> pdev_priv \<Rightarrow> allocator \<Rightarrow> format_set \<Rightarrow> task_admin \<Rightarrow> task_admin \<Rightarrow>
     (addr \<times> nat) set \<Rightarrow> (addr \<times> nat) set \<Rightarrow> (addr \<times> nat) set \<Rightarrow> driver \<Rightarrow> bool" where
  "driver_up km n priv al pfs a1 a2 F A B d =
     (d_globals d = \<lparr>g_allocator = Some al, g_pfs = Some pfs, task_admin_slot1_gp = Some a1, task_admin_slot2_gp = Some a2\<rparr> \<and>
      mem_env km (d_mem d) \<and> sys_allocator al \<and> formats_ready (d_mem d) pfs F \<and>
      admin_ready (d_mem d) a1 A \<and> admin_ready (d_mem d) a2 B \<and> A \<inter> B = {} \<and> F \<inter> A = {} \<and> F \<inter> B = {} \<and>
      (pp_self priv, n) \<in> set (blocks (d_mem d)) - (F \<union> A \<union> B) \<and> (al_self al, sizeof_allocator_t) \<in> set (blocks (d_mem d)) - (A \<union> B) \<and>
      k_drvdata (d_kernel d) = Some priv \<and> (pp_class priv, dev_id priv) \<in> set (k_class_devices (d_kernel d)) \<and>
      pp_class priv \<in> set (k_classes (d_kernel d)))"

section \<open>A probe that works\<close>

definition boot_sizes :: "nat \<Rightarrow> nat list" where
  "boot_sizes n = n # sizeof_allocator_t # sizeof_format_set # 400 # pdt_sizes @ task_admin_sizes @ task_admin_sizes"

lemma supplies_cong: "blocks m' = blocks m \<Longrightarrow> ticks m' = ticks m \<Longrightarrow> supplies km ns m' = supplies km ns m"
  by (simp add: supplies_def)

lemma pfs_formats_spec:
  fixes m :: "'z pmem_scheme"
  assumes e: "mem_env km m" and al: "sys_allocator al" and su: "supplies km (100 # 400 # pdt_sizes @ rest) m"
  shows "\<exists>pfs m1 pfs1 m2 pfs2 m3 F. pfs_create_proto_format_set km al m = Some (pfs, m1) \<and>
    init_proto_format_set km 0x3000 100 pfs m1 = Some (pfs1, m2) \<and>
    pfs_set_pdt_drv_proto_format km pfs1 m2 = Some (pfs2, m3) \<and> formats_ready m3 pfs2 F \<and> keeps {} m m3 \<and>
    F \<inter> set (blocks m) = {} \<and> supplies km rest m3"
proof -
  have ok: "kmalloc_ok km" "mem_ok m" "sys_registered m" using e by (simp_all add: mem_env_def)
  from supplies_Cons [OF su] obtain p m1 where a1: "kmalloc km 100 m = (p, m1)" "p \<noteq> NULL"
    and s1: "\<And>m' :: 'z pmem_scheme. blocks m' = (p, 100) # blocks m \<Longrightarrow> ticks m' = Suc (ticks m) \<Longrightarrow>
      supplies km (400 # pdt_sizes @ rest) m'" by blast
  note n1 = kmalloc_new_block [OF e a1, simplified]
  note e1 = mem_env_kmalloc [OF e a1(1), simplified]
  define pfs where "pfs = \<lparr>pfs_self = p, list_head_p2 = NULL, proto_total_num = 0, proto_max_num = 0,
    proto_base_addr = 0, pfs_allocator = al\<rparr>"
  have c: "pfs_create_proto_format_set km al m = Some (pfs, m1)"
    using a1 ok al by (simp add: pfs_create_proto_format_set_def sizeof_format_set_def pfs_def)
  have su1: "supplies km (400 # pdt_sizes @ rest) m1" using s1 n1 by blast
  from supplies_Cons [OF su1] obtain q m2 where a2: "kmalloc km 400 m1 = (q, m2)" "q \<noteq> NULL"
    and s2: "\<And>m' :: 'z pmem_scheme. blocks m' = (q, 400) # blocks m1 \<Longrightarrow> ticks m' = Suc (ticks m1) \<Longrightarrow>
      supplies km (pdt_sizes @ rest) m'" by blast
  have ok1: "sys_registered m1" "mem_ok m1" "sys_allocator (pfs_allocator pfs)" using e1(1) al by (simp_all add: mem_env_def pfs_def)
  let ?p1 = "pfs\<lparr>proto_base_addr := 0x3000, list_head_p2 := q, proto_total_num := 0, proto_max_num := 100\<rparr>"
  have n100: "0 < unat (100 :: u32)" "4 * unat (100 :: u32) < 2 ^ 32" "4 * unat (100 :: u32) = 400" by simp_all
  have a2': "kmalloc km (4 * unat (100 :: u32)) m1 = (q, m2)" using a2(1) by simp
  from init_proto_format_set_spec [OF ok1(1,3) ok(1) ok1(2) n100(1,2) a2' a2(2)] obtain m3 where
    i: "init_proto_format_set km 0x3000 100 pfs m1 = Some (?p1, m3)" "fset_ok m3 ?p1 Map.empty" "keeps {} m1 m3"
      "(q, 400) \<notin> set (blocks m1)" by auto
  have fr: "blocks m3 = (q, 400) # blocks m1" "ticks m3 = Suc (ticks m1)"
    using i(1) a2 kmalloc_some [OF a2] ok1 by (auto simp: init_proto_format_set_def clear_ptrs_def bind_eq_Some_conv split: if_splits)
  have su3: "supplies km (pdt_sizes @ rest) m3" using s2 [OF fr] .
  let ?N = "set (blocks m)"
  have tb: "table_block ?p1 = (q, 400)" by (simp add: table_block_def)
  have new: "(q, 400) \<notin> ?N" using i(4) keeps_blocks [OF e1(2)] by blast
  have of3: "offers ?N m3 ?p1 Map.empty"
    unfolding offers_def using i(2) new tb by (intro exI [of _ Map.empty]) (simp add: fset_owned_def)
  have N3: "?N \<subseteq> set (blocks m3)" using keeps_blocks [OF e1(2)] keeps_blocks [OF i(3)] by blast
  have e3: "mem_env km m3" by (rule mem_env_keeps [OF e1(1) i(3)])
  have ok3: "sys_registered m3" "mem_ok m3" using e3 by (simp_all add: mem_env_def)
  have b3: "proto_base_addr ?p1 = 0x3000" "proto_max_num ?p1 = 100" by simp_all
  from pdt_formats_spec [OF ok(1) ok3 of3 N3 b3 su3] obtain pfs2 m4 where
    r: "pfs_set_pdt_drv_proto_format km ?p1 m3 = Some (pfs2, m4)" "offers ?N m4 pfs2 pdt_formats" "same_table ?p1 pfs2"
      "keeps {table_block ?p1} m3 m4" "supplies km rest m4" by blast
  from r(2) obtain T where T: "fset_ok m4 pfs2 T" "pdt_formats = (\<lambda>i. map_option (\<lambda>fmt. infos m4 (snd fmt)) (T i))"
    "fset_owned pfs2 T \<inter> ?N = {}" by (auto simp: offers_def)
  have "keeps {(q, 400)} m m4"
    using keeps_trans [OF keeps_mono [OF keeps_trans [OF e1(2) i(3)], of "{(q, 400)}"] r(4)] tb by simp
  then have k0: "keeps {} m m4" by (rule keeps_mono) (use new in auto)
  have "formats_ready m4 pfs2 (fset_owned pfs2 T)"
    unfolding formats_ready_def using T(1,2) same_table_fields [OF r(3)] by (intro exI [of _ T]) simp
  then show ?thesis using c i(1) r(1,5) T(3) k0 by blast
qed

lemma sys_registered_boot: "allocator_modules m = initial_modules \<Longrightarrow> sys_registered (liballoc_register_modules m)"
  by (rule sys_registered_register)

lemma probe_globals_spec:
  assumes km: "kmalloc_ok (e_km e)" and mo: "mem_ok m" and mods: "allocator_modules m = initial_modules"
    and su: "supplies (e_km e) (sizeof_allocator_t # 100 # 400 # pdt_sizes @ task_admin_sizes @ task_admin_sizes @ rest) m"
  shows "\<exists>al pfs a1 a2 F A B m'. probe_globals e pe g m =
      Some (True, \<lparr>g_allocator = Some al, g_pfs = Some pfs, task_admin_slot1_gp = Some a1, task_admin_slot2_gp = Some a2\<rparr>, m') \<and>
    mem_env (e_km e) m' \<and> sys_allocator al \<and> formats_ready m' pfs F \<and> admin_ready m' a1 A \<and> admin_ready m' a2 B \<and>
    A \<inter> B = {} \<and> F \<inter> A = {} \<and> F \<inter> B = {} \<and> (F \<union> A \<union> B) \<inter> set (blocks m) = {} \<and>
    (al_self al, sizeof_allocator_t) \<in> set (blocks m') - (A \<union> B) \<and> set (blocks m) \<subseteq> set (blocks m') \<and> supplies (e_km e) rest m' \<and>
    admin_holds m' a1 [] [] A \<and> admin_holds m' a2 [] [] B"
proof -
  let ?km = "e_km e" and ?m = "liballoc_register_modules m"
  have bm: "blocks ?m = blocks m" "ticks ?m = ticks m"
    by (simp_all add: liballoc_register_modules_def allocator_sys_alloc_register_def)
  have e0: "mem_env ?km ?m" using km mo sys_registered_register [OF mods] bm by (simp add: mem_env_def)
  have su0: "supplies ?km (sizeof_allocator_t # (100 # 400 # pdt_sizes @ task_admin_sizes @ task_admin_sizes @ rest)) ?m"
    using su bm by (simp add: supplies_def)
  from supplies_Cons [OF su0] obtain p m1 where a1: "kmalloc ?km sizeof_allocator_t ?m = (p, m1)" "p \<noteq> NULL"
    and s1: "\<And>m' :: pmem. blocks m' = (p, sizeof_allocator_t) # blocks ?m \<Longrightarrow> ticks m' = Suc (ticks ?m) \<Longrightarrow>
      supplies ?km (100 # 400 # pdt_sizes @ (task_admin_sizes @ task_admin_sizes @ rest)) m'" by blast
  have z: "0 < sizeof_allocator_t" by (simp add: sizeof_allocator_t_def)
  note n1 = kmalloc_new_block [OF e0 a1 z]
  note e1 = mem_env_kmalloc [OF e0 a1(1) z]
  define al where "al = \<lparr>al_self = p, allocator_type = ALLOCATOR_TYPE_SYS_MALLOC, al_lock_type = 0,
    priv_cds = \<lparr>slab_array_max_num = 0, mempool_capacity = 0, data_min_size = 0\<rparr>\<rparr>"
  have al: "sys_allocator al" by (simp add: al_def sys_allocator_def)
  have c: "allocator_creator ?km ALLOCATOR_TYPE_SYS_MALLOC 0 ?m = (Some al, m1)"
    using a1 by (simp add: allocator_creator_def al_def)
  have su1: "supplies ?km (100 # 400 # pdt_sizes @ (task_admin_sizes @ task_admin_sizes @ rest)) m1" using s1 n1 by blast
  from pfs_formats_spec [OF e1(1) al su1] obtain pfs m2 pfs1 m3 pfs2 m4 F where
    f: "pfs_create_proto_format_set ?km al m1 = Some (pfs, m2)" "init_proto_format_set ?km 0x3000 100 pfs m2 = Some (pfs1, m3)"
      "pfs_set_pdt_drv_proto_format ?km pfs1 m3 = Some (pfs2, m4)" "formats_ready m4 pfs2 F" "keeps {} m1 m4"
      "F \<inter> set (blocks m1) = {}" "supplies ?km (task_admin_sizes @ (task_admin_sizes @ rest)) m4" by blast
  have e4: "mem_env ?km m4" by (rule mem_env_keeps [OF e1(1) f(5)])
  let ?E = "replicate 10 [] :: addr list list"
  from create_task_admin_spec [OF e4 f(7), where stale = "stale_admin pe"] obtain t1 m5 where
    t1: "create_task_admin ?km (stale_admin pe) m4 = Some (Some t1, m5)" "admin_ok m5 t1 [] [] ?E ?E" "keeps {} m4 m5"
      "admin_owned t1 [] [] ?E ?E \<inter> set (blocks m4) = {}" "supplies ?km (task_admin_sizes @ rest) m5" by blast
  have e5: "mem_env ?km m5" by (rule mem_env_keeps [OF e4 t1(3)])
  from create_task_admin_spec [OF e5 t1(5), where stale = "stale_admin pe"] obtain t2 m6 where
    t2: "create_task_admin ?km (stale_admin pe) m5 = Some (Some t2, m6)" "admin_ok m6 t2 [] [] ?E ?E" "keeps {} m5 m6"
      "admin_owned t2 [] [] ?E ?E \<inter> set (blocks m5) = {}" "supplies ?km rest m6" by blast
  let ?A = "admin_owned t1 [] [] ?E ?E" and ?B = "admin_owned t2 [] [] ?E ?E"
  have ar: "admin_ready m5 t1 ?A" "admin_ready m6 t2 ?B" using t1(2) t2(2) unfolding admin_ready_def by blast+
  have k46: "keeps {} m4 m6" using keeps_trans [OF t1(3) t2(3)] by simp
  have r6: "formats_ready m6 pfs2 F" "admin_ready m6 t1 ?A"
    using formats_ready_keeps [OF k46 f(4)] admin_ready_keeps [OF t2(3) ar(1)] by simp_all
  have sub: "set (blocks m) \<subseteq> set (blocks m1)" "set (blocks m1) \<subseteq> set (blocks m4)" "set (blocks m4) \<subseteq> set (blocks m5)"
    "set (blocks m5) \<subseteq> set (blocks m6)" "F \<subseteq> set (blocks m4)" "?A \<subseteq> set (blocks m5)"
    using n1 bm keeps_blocks [OF f(5)] keeps_blocks [OF t1(3)] keeps_blocks [OF t2(3)] formats_ready_blocks [OF f(4)]
      admin_ready_blocks [OF ar(1)] by auto
  have dis: "?A \<inter> ?B = {}" "F \<inter> ?A = {}" "F \<inter> ?B = {}" "(F \<union> ?A \<union> ?B) \<inter> set (blocks m) = {}"
    using sub t1(4) t2(4) f(6) by blast+
  have "(p, sizeof_allocator_t) \<in> set (blocks m1)" using n1 by simp
  then have pal: "(al_self al, sizeof_allocator_t) \<in> set (blocks m6) - (?A \<union> ?B)"
    using sub t1(4) t2(4) by (simp add: al_def) blast
  have run: "probe_globals e pe g m = Some (True, \<lparr>g_allocator = Some al, g_pfs = Some pfs2, task_admin_slot1_gp = Some t1,
      task_admin_slot2_gp = Some t2\<rparr>, m6)"
    using c f(1-3) t1(1) t2(1) by (simp add: probe_globals_def Let_def)
  have e6: "mem_env ?km m6" by (rule mem_env_keeps [OF e5 t2(3)])
  have h5: "admin_holds m5 t1 [] [] ?A" "admin_holds m6 t2 [] [] ?B"
    using t1(2) t2(2) queued_Nil unfolding admin_holds_def by blast+
  have h6: "admin_holds m6 t1 [] [] ?A" by (rule admin_holds_keeps [OF t2(3) h5(1)]) simp
  show ?thesis
    by (intro exI conjI, rule run)
      (use e6 al r6 ar(2) dis pal sub t2(5) h5(2) h6 in \<open>blast+\<close>)
qed

lemma plat_probe_spec:
  assumes km: "kmalloc_ok (e_km e)" and mo: "mem_ok (d_mem d)" and mods: "allocator_modules (d_mem d) = initial_modules"
    and su: "supplies (e_km e) (boot_sizes (priv_size pe) @ rest) (d_mem d)" and n: "0 < priv_size pe"
    and res: "res_mem pdev = Some (start, stop)" and ok: "\<not> IS_ERR (class_result pe)" "\<not> IS_ERR (class_dev_result pe)"
  shows "\<exists>priv al pfs a1 a2 F A B d'. plat_probe e pe pdev d = Some (0, d') \<and>
    driver_up (e_km e) (priv_size pe) priv al pfs a1 a2 F A B d' \<and>
    priv = new_priv pdev (pp_self priv) start stop (class_result pe) (class_dev_result pe) \<and>
    (F \<union> A \<union> B) \<inter> set (blocks (d_mem d)) = {} \<and> (pp_self priv, priv_size pe) \<notin> set (blocks (d_mem d)) \<and>
    set (blocks (d_mem d)) \<subseteq> set (blocks (d_mem d')) \<and> supplies (e_km e) rest (d_mem d') \<and>
    admin_holds (d_mem d') a1 [] [] A \<and> admin_holds (d_mem d') a2 [] [] B"
proof -
  let ?km = "e_km e" and ?n = "priv_size pe" and ?m = "d_mem d"
  have su0: "supplies ?km (?n # (sizeof_allocator_t # 100 # 400 # pdt_sizes @ task_admin_sizes @ task_admin_sizes @ rest)) ?m"
    using su by (simp add: boot_sizes_def sizeof_format_set_def)
  from supplies_Cons [OF su0] obtain p m1 where a: "kmalloc ?km ?n ?m = (p, m1)" "p \<noteq> NULL"
    and s1: "\<And>m' :: pmem. blocks m' = (p, ?n) # blocks ?m \<Longrightarrow> ticks m' = Suc (ticks ?m) \<Longrightarrow>
      supplies ?km (sizeof_allocator_t # 100 # 400 # pdt_sizes @ task_admin_sizes @ task_admin_sizes @ rest) m'" by blast
  have b1: "blocks m1 = (p, ?n) # blocks ?m" "ticks m1 = Suc (ticks ?m)" using kmalloc_some [OF a] by simp_all
  have mo1: "mem_ok m1" by (rule kmalloc_mem_ok [OF km mo n a(1)])
  have new: "(p, ?n) \<notin> set (blocks ?m)" using mo1 b1 blocks_ok_new by metis
  have mods1: "allocator_modules m1 = initial_modules" using mods kmalloc_modules [OF a(1)] by simp
  from probe_globals_spec [OF km mo1 mods1 s1 [OF b1], where pe = pe and g = "d_globals d"] obtain al pfs a1 a2 F A B m2 where
    g: "probe_globals e pe (d_globals d) m1 = Some (True, \<lparr>g_allocator = Some al, g_pfs = Some pfs,
        task_admin_slot1_gp = Some a1, task_admin_slot2_gp = Some a2\<rparr>, m2)"
      "mem_env ?km m2" "sys_allocator al" "formats_ready m2 pfs F" "admin_ready m2 a1 A" "admin_ready m2 a2 B"
      "A \<inter> B = {}" "F \<inter> A = {}" "F \<inter> B = {}" "(F \<union> A \<union> B) \<inter> set (blocks m1) = {}"
      "(al_self al, sizeof_allocator_t) \<in> set (blocks m2) - (A \<union> B)" "set (blocks m1) \<subseteq> set (blocks m2)" "supplies ?km rest m2"
      "admin_holds m2 a1 [] [] A" "admin_holds m2 a2 [] [] B"
    by blast
  let ?priv = "new_priv pdev p start stop (class_result pe) (class_dev_result pe)"
  have pv: "pp_self ?priv = p" "pp_class ?priv = class_result pe" "cdev_dev ?priv = dev_id ?priv"
    by (simp_all add: new_priv_def Let_def)
  define k3 where "k3 = (let k = d_kernel d; k1 = (if cdev_added pe then k\<lparr>k_cdevs := ?priv # k_cdevs k\<rparr> else k);
      k2 = k1\<lparr>k_classes := class_result pe # k_classes k1\<rparr>
    in k2\<lparr>k_class_devices := (pp_class ?priv, cdev_dev ?priv) # k_class_devices k2, k_drvdata := Some ?priv\<rparr>)"
  let ?d = "\<lparr>d_mem = m2, d_globals = \<lparr>g_allocator = Some al, g_pfs = Some pfs, task_admin_slot1_gp = Some a1,
    task_admin_slot2_gp = Some a2\<rparr>, d_kernel = k3\<rparr>"
  have run: "plat_probe e pe pdev d = Some (0, ?d)"
    using a res ok g(1) by (simp add: plat_probe_def Let_def k3_def)
  have k: "k_drvdata k3 = Some ?priv" "(pp_class ?priv, dev_id ?priv) \<in> set (k_class_devices k3)" "pp_class ?priv \<in> set (k_classes k3)"
    by (simp_all add: k3_def Let_def pv)
  have "(p, ?n) \<in> set (blocks m2) - (F \<union> A \<union> B)" using b1 g(10,12) by auto
  then have "driver_up ?km ?n ?priv al pfs a1 a2 F A B ?d"
    unfolding driver_up_def using g(2-9,11) k pv by simp
  moreover have "(F \<union> A \<union> B) \<inter> set (blocks ?m) = {}" "set (blocks ?m) \<subseteq> set (blocks m2)" using g(10,12) b1 by auto
  ultimately show ?thesis using run g(13-15) new pv(1) by (metis driver.select_convs(1))
qed

section \<open>Removing the driver\<close>

lemma plat_remove_spec:
  assumes up: "driver_up km n priv al pfs a1 a2 F A B d"
  shows "\<exists>d'. plat_remove d = Some (0, d') \<and>
    set (blocks (d_mem d')) = set (blocks (d_mem d)) - (A \<union> B \<union> {(pp_self priv, n)}) \<union>
      admin_leaked a1 \<union> admin_leaked a2 \<and>
    formats_ready (d_mem d') pfs F \<and> (al_self al, sizeof_allocator_t) \<in> set (blocks (d_mem d')) \<union> {(pp_self priv, n)} \<and>
    d_globals d' = d_globals d \<and> d_kernel d' = (d_kernel d)\<lparr>k_cdevs := filter (\<lambda>q. pp_self q \<noteq> pp_self priv) (k_cdevs (d_kernel d)),
      k_classes := remove1 (pp_class priv) (k_classes (d_kernel d)),
      k_devices := remove1 (pp_class priv, dev_id priv) (k_devices (d_kernel d))\<rparr>"
proof -
  let ?m = "d_mem d" and ?P = "(pp_self priv, n)"
  have u: "d_globals d = \<lparr>g_allocator = Some al, g_pfs = Some pfs, task_admin_slot1_gp = Some a1, task_admin_slot2_gp = Some a2\<rparr>"
    "mem_env km ?m" "formats_ready ?m pfs F" "admin_ready ?m a1 A" "admin_ready ?m a2 B" "A \<inter> B = {}" "F \<inter> A = {}" "F \<inter> B = {}"
    "?P \<in> set (blocks ?m)" "?P \<notin> F \<union> A \<union> B" "(al_self al, sizeof_allocator_t) \<in> set (blocks ?m) - (A \<union> B)"
    "k_drvdata (d_kernel d) = Some priv"
    using up by (auto simp: driver_up_def)
  from admin_ready_destroy [OF u(2,4)] obtain m1 where
    r1: "destroy_task_admin a1 ?m = Some m1" "keeps A ?m m1" "mem_env km m1"
      "set (blocks m1) = set (blocks ?m) - A \<union> admin_leaked a1" by blast
  have a2: "admin_ready m1 a2 B" by (rule admin_ready_keeps [OF r1(2) u(5,6)])
  from admin_ready_destroy [OF r1(3) a2] obtain m2 where
    r2: "destroy_task_admin a2 m1 = Some m2" "keeps B m1 m2" "mem_env km m2"
      "set (blocks m2) = set (blocks m1) - B \<union> admin_leaked a2" by blast
  have k: "keeps (A \<union> B) ?m m2" by (rule keeps_Un [OF r1(2) r2(2)])
  have p1: "admin_leaked a1 \<subseteq> A" "admin_leaked a2 \<subseteq> B"
    using u(4,5) by (auto simp: admin_ready_def admin_owned_split)
  have P2: "?P \<in> set (blocks m2)" by (rule keeps_block [OF k u(9)]) (use u(10) in blast)
  have "mem_ok m2" using r2(3) by (simp add: mem_env_def)
  from kfree_block_spec [OF this P2] obtain m3 where
    r3: "kfree (pp_self priv) m2 = Some m3" "blocks m3 = filter (\<lambda>p. p \<notin> {?P}) (blocks m2)" "keeps {?P} m2 m3" by blast
  have k3: "keeps (A \<union> B \<union> {?P}) ?m m3" by (rule keeps_Un [OF k r3(3)])
  let ?k = "cdev_del (pp_self priv) (class_destroy (pp_class priv) (device_destroy (pp_class priv) (dev_id priv) (d_kernel d)))"
  have kk: "?k = (d_kernel d)\<lparr>k_cdevs := filter (\<lambda>q. pp_self q \<noteq> pp_self priv) (k_cdevs (d_kernel d)),
      k_classes := remove1 (pp_class priv) (k_classes (d_kernel d)),
      k_devices := remove1 (pp_class priv, dev_id priv) (k_devices (d_kernel d))\<rparr>"
    by (simp add: cdev_del_def class_destroy_def device_destroy_def)
  have run: "plat_remove d = Some (0, d\<lparr>d_mem := m3, d_kernel := ?k\<rparr>)"
    using u(1,12) r1(1) r2(1) r3(1) by (simp add: plat_remove_def Let_def)
  have "formats_ready m3 pfs F" by (rule formats_ready_keeps [OF k3 u(3)]) (use u(7,8,10) in blast)
  moreover have "set (blocks m3) = set (blocks ?m) - (A \<union> B \<union> {?P}) \<union> admin_leaked a1 \<union> admin_leaked a2"
    using r3(2) r1(4) r2(4) p1 u(6,10) by auto
  moreover have "(al_self al, sizeof_allocator_t) \<in> set (blocks m3) \<union> {?P}"
    using keeps_block [OF k3, of "(al_self al, sizeof_allocator_t)"] u(11) by blast
  ultimately show ?thesis using run kk by (intro exI [of _ "d\<lparr>d_mem := m3, d_kernel := ?k\<rparr>"]) simp
qed

text \<open>What the two administrations leak, and their structures, which they do not.\<close>

lemma admin_ready_leaked: "admin_ready m a A \<Longrightarrow> admin_leaked a \<subseteq> A \<and> card (admin_leaked a) = 5"
  by (auto simp: admin_ready_def admin_ok_def admin_owned_split)

lemma admin_ready_structure: "admin_ready m a A \<Longrightarrow> (ta_self a, sizeof_task_admin_t) \<in> A - admin_leaked a"
  by (auto simp: admin_ready_def admin_ok_def apart_def admin_owned_def admin_parts_def)

lemma driver_up_leaked:
  assumes "driver_up km n priv al pfs a1 a2 F A B d"
  shows "admin_leaked a1 \<subseteq> A" and "admin_leaked a2 \<subseteq> B" and "card (admin_leaked a1 \<union> admin_leaked a2) = 10"
proof -
  have u: "admin_ready (d_mem d) a1 A" "admin_ready (d_mem d) a2 B" "A \<inter> B = {}" using assms by (auto simp: driver_up_def)
  show l: "admin_leaked a1 \<subseteq> A" "admin_leaked a2 \<subseteq> B" using admin_ready_leaked u(1,2) by blast+
  have "admin_leaked a1 \<inter> admin_leaked a2 = {}" "finite (admin_leaked a1)" "finite (admin_leaked a2)"
    using l u(3) by (auto simp: admin_leaked_def)
  with admin_ready_leaked [OF u(1)] admin_ready_leaked [OF u(2)] show "card (admin_leaked a1 \<union> admin_leaked a2) = 10"
    by (simp add: card_Un_disjoint)
qed

lemma driver_up_structures:
  assumes "driver_up km n priv al pfs a1 a2 F A B d"
  shows "(ta_self a1, sizeof_task_admin_t) \<in> A - admin_leaked a1" and "(ta_self a2, sizeof_task_admin_t) \<in> B - admin_leaked a2"
    and "A \<union> B \<subseteq> set (blocks (d_mem d))" and "A \<inter> B = {}"
    and "(pp_self priv, n) \<in> set (blocks (d_mem d)) - (A \<union> B)"
proof -
  have u: "admin_ready (d_mem d) a1 A" "admin_ready (d_mem d) a2 B" using assms by (simp_all add: driver_up_def)
  from u admin_ready_structure show "(ta_self a1, sizeof_task_admin_t) \<in> A - admin_leaked a1"
    "(ta_self a2, sizeof_task_admin_t) \<in> B - admin_leaked a2" by blast+
  from u admin_ready_blocks show "A \<union> B \<subseteq> set (blocks (d_mem d))" by blast
  show "A \<inter> B = {}" "(pp_self priv, n) \<in> set (blocks (d_mem d)) - (A \<union> B)" using assms by (simp_all add: driver_up_def)
qed

section \<open>Probes that fail\<close>

text \<open>
  Without a class the probe returns at once: the private data stays allocated and, if it was
  added, the character device stays registered on it.
\<close>

lemma plat_probe_class_error:
  assumes "kmalloc (e_km e) (priv_size pe) (d_mem d) = (p, m1)" and "p \<noteq> NULL" and "res_mem pdev = Some (start, stop)"
    and "IS_ERR (class_result pe)"
  shows "\<exists>d'. plat_probe e pe pdev d = Some (PTR_ERR (class_result pe), d') \<and> (p, priv_size pe) \<in> set (blocks (d_mem d')) \<and>
    (cdev_added pe \<longrightarrow> (\<exists>priv \<in> set (k_cdevs (d_kernel d')). pp_self priv = p))"
proof -
  have "(p, priv_size pe) \<in> set (blocks m1)" using kmalloc_some [OF assms(1,2)] by simp
  moreover have "pp_self (new_priv pdev p start stop c cd) = p" for c cd by (simp add: new_priv_def Let_def)
  ultimately show ?thesis using assms by (simp add: plat_probe_def Let_def)
qed

text \<open>Without a device file the private data is released, but the class stays.\<close>

lemma plat_probe_device_error:
  assumes "kmalloc (e_km e) (priv_size pe) (d_mem d) = (p, m1)" and "p \<noteq> NULL" and "res_mem pdev = Some (start, stop)"
    and "\<not> IS_ERR (class_result pe)" and "IS_ERR (class_dev_result pe)"
  shows "\<exists>d'. plat_probe e pe pdev d = Some (PTR_ERR (class_dev_result pe), d') \<and>
    k_classes (d_kernel d') = class_result pe # k_classes (d_kernel d)"
proof -
  have "(p, priv_size pe) \<in> set (blocks m1)" using kmalloc_some [OF assms(1,2)] by simp
  then obtain m2 where "kfree p m1 = Some m2" using kfree_block by blast
  with assms show ?thesis by (simp add: plat_probe_def Let_def cdev_del_def)
qed

text \<open>
  Without memory for the allocator the private data is released while the device file stays, and
  the probe returns whatever the variable \<open>ret\<close> holds. When that is 0 the driver core takes the device as bound, and its
  removal runs into the administrations that were never created.
\<close>

lemma plat_probe_no_allocator:
  assumes "kmalloc (e_km e) (priv_size pe) (d_mem d) = (p, m1)" and "p \<noteq> NULL" and "res_mem pdev = Some (start, stop)"
    and "\<not> IS_ERR (class_result pe)" and "\<not> IS_ERR (class_dev_result pe)"
    and a: "kmalloc (e_km e) sizeof_allocator_t (liballoc_register_modules m1) = (NULL, m2)"
  shows "\<exists>d'. plat_probe e pe pdev d = Some (stale_ret pe, d') \<and> k_drvdata (d_kernel d') \<noteq> None \<and>
    task_admin_slot1_gp (d_globals d') = task_admin_slot1_gp (d_globals d) \<and>
    (p, priv_size pe) \<notin> set (blocks (d_mem d')) \<and>
    k_class_devices (d_kernel d') = (class_result pe, dev_id (new_priv pdev p start stop (class_result pe) (class_dev_result pe)))
      # k_class_devices (d_kernel d)"
proof -
  have bm: "blocks (liballoc_register_modules m1) = blocks m1"
    by (simp add: liballoc_register_modules_def allocator_sys_alloc_register_def)
  have "(p, priv_size pe) \<in> set (blocks m1)" using kmalloc_some [OF assms(1,2)] by simp
  moreover have "blocks m2 = blocks (liballoc_register_modules m1)"
    using a by (auto simp: kmalloc_def Let_def split: if_splits)
  ultimately have "(p, priv_size pe) \<in> set (blocks m2)" using bm by simp
  then obtain m3 where f: "kfree p m2 = Some m3" using kfree_block by blast
  moreover have "(p, priv_size pe) \<notin> set (blocks m3)" using f assms(2) by (auto simp: kfree_Some_iff)
  moreover have "allocator_creator (e_km e) ALLOCATOR_TYPE_SYS_MALLOC 0 (liballoc_register_modules m1) = (None, m2)"
    using a by (simp add: allocator_creator_def)
  ultimately show ?thesis
    using assms(1-5) by (simp add: plat_probe_def Let_def probe_globals_def cdev_del_def device_destroy_def) (simp add: new_priv_def Let_def)
qed

lemma plat_remove_without_tasks: "task_admin_slot1_gp (d_globals d) = None \<Longrightarrow> plat_remove d = None"
  by (simp add: plat_remove_def bind_eq_None_conv)

section \<open>Registrations in every reachable state\<close>

text \<open>
  A driver that is bound has its private data, its class and its device file. \<open>h\<close> says that only
  honest calls have been made, then the character device is registered as well.
\<close>

definition registrations_ok :: "bool \<Rightarrow> module_state \<Rightarrow> bool" where
  "registrations_ok h s = (let k = d_kernel (dstate s) in k_devices k = [] \<and>
     (bound s \<longrightarrow> (\<exists>priv. k_drvdata k = Some priv \<and> pp_class priv \<in> set (k_classes k) \<and>
        (pp_class priv, dev_id priv) \<in> set (k_class_devices k) \<and> (h \<longrightarrow> priv \<in> set (k_cdevs k)))))"

text \<open>The probe's character device is added, and the uninitialised result of a failed probe is not 0.\<close>

fun honest :: "event \<Rightarrow> bool" where
  "honest (Probe pe pdev) = (cdev_added pe \<and> stale_ret pe \<noteq> 0)"
| "honest _ = True"

lemma PTR_ERR_nonzero: "IS_ERR p \<Longrightarrow> PTR_ERR p \<noteq> 0"
  by (auto simp: IS_ERR_def PTR_ERR_def signed_eq_0_iff)

text \<open>The registrations after a probe, for each of its ends.\<close>

lemma plat_probe_registrations:
  assumes run: "plat_probe e pe pdev d = Some (r, d')"
  shows "k_devices (d_kernel d) = [] \<Longrightarrow> k_devices (d_kernel d') = []"
    and "\<exists>fs. k_class_devices (d_kernel d') = fs @ k_class_devices (d_kernel d)"
    and "r = 0 \<Longrightarrow> \<exists>priv. k_drvdata (d_kernel d') = Some priv \<and> pp_class priv \<in> set (k_classes (d_kernel d')) \<and>
      (pp_class priv, dev_id priv) \<in> set (k_class_devices (d_kernel d')) \<and>
      (cdev_added pe \<and> stale_ret pe \<noteq> 0 \<longrightarrow> priv \<in> set (k_cdevs (d_kernel d')))"
proof -
  obtain p m1 where a: "kmalloc (e_km e) (priv_size pe) (d_mem d) = (p, m1)" by fastforce
  have dv: "cdev_dev (new_priv pdev q s t c f) = dev_id (new_priv pdev q s t c f)" "pp_class (new_priv pdev q s t c f) = c" for q s t c f
    by (simp_all add: new_priv_def Let_def)
  note defs = plat_probe_def Let_def dv cdev_del_def device_destroy_def
  have "(k_devices (d_kernel d) = [] \<longrightarrow> k_devices (d_kernel d') = []) \<and>
    (\<exists>fs. k_class_devices (d_kernel d') = fs @ k_class_devices (d_kernel d)) \<and>
    (r = 0 \<longrightarrow> (\<exists>priv. k_drvdata (d_kernel d') = Some priv \<and> pp_class priv \<in> set (k_classes (d_kernel d')) \<and>
      (pp_class priv, dev_id priv) \<in> set (k_class_devices (d_kernel d')) \<and>
      (cdev_added pe \<and> stale_ret pe \<noteq> 0 \<longrightarrow> priv \<in> set (k_cdevs (d_kernel d')))))"
  proof (cases "p = NULL")
    case True
    then show ?thesis using run a by (auto simp: plat_probe_def ENOMEM_def)
  next
    case False
    then obtain s t where res: "res_mem pdev = Some (s, t)" using run a by (cases "res_mem pdev") (auto simp: plat_probe_def)
    consider "IS_ERR (class_result pe)" | "\<not> IS_ERR (class_result pe)" "IS_ERR (class_dev_result pe)"
      | "\<not> IS_ERR (class_result pe)" "\<not> IS_ERR (class_dev_result pe)" by blast
    then show ?thesis
    proof cases
      case 1
      then show ?thesis using run a False res PTR_ERR_nonzero by (auto simp: defs)
    next
      case 2
      then show ?thesis using run a False res PTR_ERR_nonzero by (auto simp: defs elim!: bind_SomeE)
    next
      case 3
      then obtain up g m2 where g: "probe_globals e pe (d_globals d) m1 = Some (up, g, m2)"
        using run a False res by (cases "probe_globals e pe (d_globals d) m1") (auto simp: plat_probe_def Let_def)
      show ?thesis
      proof (cases up)
        case True
        then show ?thesis using run a False res 3 g by (auto simp: defs)
      next
        case False
        then show ?thesis using run a \<open>p \<noteq> NULL\<close> res 3 g by (auto simp: defs elim!: bind_SomeE)
      qed
    qed
  qed
  then show "k_devices (d_kernel d) = [] \<Longrightarrow> k_devices (d_kernel d') = []"
    "\<exists>fs. k_class_devices (d_kernel d') = fs @ k_class_devices (d_kernel d)"
    "r = 0 \<Longrightarrow> \<exists>priv. k_drvdata (d_kernel d') = Some priv \<and> pp_class priv \<in> set (k_classes (d_kernel d')) \<and>
      (pp_class priv, dev_id priv) \<in> set (k_class_devices (d_kernel d')) \<and>
      (cdev_added pe \<and> stale_ret pe \<noteq> 0 \<longrightarrow> priv \<in> set (k_cdevs (d_kernel d')))" by blast+
qed

lemma plat_remove_registrations:
  assumes "plat_remove d = Some (r, d')"
  shows "k_devices (d_kernel d) = [] \<Longrightarrow> k_devices (d_kernel d') = []"
    and "k_class_devices (d_kernel d') = k_class_devices (d_kernel d)"
  using assms unfolding plat_remove_def Let_def
  by (elim bind_SomeE; auto simp: device_destroy_def class_destroy_def cdev_del_def)+

lemma module_step_registrations:
  assumes "module_step e s ev r s'" and "registrations_ok h s" and "h \<longrightarrow> honest ev"
  shows "registrations_ok h s' \<and> (\<exists>fs. k_class_devices (d_kernel (dstate s')) = fs @ k_class_devices (d_kernel (dstate s)))"
  using assms
proof (induction rule: module_step.induct)
  case (step_init s w r s')
  then show ?case by (auto simp: driver_module_init_def registrations_ok_def Let_def)
next
  case (step_probe s pe pdev r d)
  have "k_devices (d_kernel (dstate s)) = []" using step_probe by (simp add: registrations_ok_def Let_def)
  with plat_probe_registrations [OF step_probe(3)] step_probe(5) show ?case
    unfolding registrations_ok_def Let_def by simp blast
next
  case (step_remove s r d)
  then show ?case using plat_remove_registrations [OF step_remove(2)] by (simp add: registrations_ok_def Let_def)
next
  case (step_exit s s')
  show ?case
  proof (cases "registered s \<and> bound s")
    case True
    then obtain r d where r: "plat_remove (dstate s) = Some (r, d)" "s' = s\<lparr>registered := False, bound := False, dstate := d\<rparr>"
      using step_exit(1) unfolding driver_module_exit_def by (auto elim!: bind_pairE)
    then show ?thesis using plat_remove_registrations [OF r(1)] step_exit(3) by (simp add: registrations_ok_def Let_def)
  next
    case False
    then show ?thesis using step_exit(1,3) by (auto simp: driver_module_exit_def registrations_ok_def Let_def split: if_splits)
  qed
next
  case (step_write f p s stale u r d)
  then show ?case using device_write_kernel [OF step_write(3)] by (simp add: registrations_ok_def Let_def)
qed (auto simp: registrations_ok_def Let_def)

lemma reachable_registrations:
  assumes "reachable e ok s0 s" and "registrations_ok h s0" and "h \<longrightarrow> (\<forall>ev. ok ev \<longrightarrow> honest ev)"
  shows "registrations_ok h s \<and> (\<exists>fs. k_class_devices (d_kernel (dstate s)) = fs @ k_class_devices (d_kernel (dstate s0)))"
  using assms
proof (induction rule: reachable.induct)
  case (reachable_step s ev r s')
  then have i: "registrations_ok h s" "\<exists>fs. k_class_devices (d_kernel (dstate s)) = fs @ k_class_devices (d_kernel (dstate s0))"
    by simp_all
  have "h \<longrightarrow> honest ev" using reachable_step by blast
  with module_step_registrations [OF reachable_step(2) i(1)] i(2) show ?case by (metis append.assoc)
qed simp

end
