(* ===== verification/Plat_Device.thy ===== *)
theory Plat_Device
  imports Driver Format_Print
begin

text \<open>
  The platform device module \<open>device/plat_device.c\<close>: it registers the card that the driver is
  for, with its memory range and its interrupt. The result of the registration is a parameter.
\<close>

definition BASE_CARD :: u32 where "BASE_CARD = 0xF4802400"
definition SIZE_CARD :: u32 where "SIZE_CARD = 0x100"
definition IRQ_CARD :: u32 where "IRQ_CARD = 11"

text \<open>The kernel's \<open>struct resource\<close>, and the flags of the two kinds in use.\<close>

record resource =
  res_start :: u32
  res_end :: u32
  res_flags :: u32

definition IORESOURCE_MEM :: u32 where "IORESOURCE_MEM = 0x200"
definition IORESOURCE_IRQ :: u32 where "IORESOURCE_IRQ = 0x400"

definition plat_res :: "resource list" where
  "plat_res = [\<lparr>res_start = BASE_CARD, res_end = BASE_CARD + SIZE_CARD - 1, res_flags = IORESOURCE_MEM\<rparr>,
     \<lparr>res_start = IRQ_CARD, res_end = IRQ_CARD, res_flags = IORESOURCE_IRQ\<rparr>]"

definition pdev_name :: string where "pdev_name = ''arm_hpi''"

text \<open>The device as \<open>plat_probe\<close> sees it: the kernel gives it the first resource of each kind.\<close>

definition pdev :: platform_device where
  "pdev = \<lparr>res_mem = map_option (\<lambda>r. (res_start r, res_end r)) (find (\<lambda>r. res_flags r = IORESOURCE_MEM) plat_res),
     res_irq = map_option res_start (find (\<lambda>r. res_flags r = IORESOURCE_IRQ) plat_res), pdev_id = 2\<rparr>"

definition plat_release :: "string \<Rightarrow> nat \<Rightarrow> string" where
  "plat_release name i = ''Release device '' @ name @ '', id is '' @ dec_text i @ [char_of (10 :: nat)]"

text \<open>The first component is what the entry point returns, the second whether the device is registered.\<close>

definition device_module_init :: "int \<Rightarrow> bool \<Rightarrow> int \<times> bool" where
  "device_module_init r known = (r, known \<or> r = 0)"

definition device_module_exit :: "bool \<Rightarrow> bool \<times> string" where
  "device_module_exit known = (False, plat_release pdev_name 2)"

lemma pdev_resources: "res_mem pdev = Some (0xF4802400, 0xF48024FF)" "res_irq pdev = Some 11" "pdev_id pdev = 2"
  by (simp_all add: pdev_def plat_res_def IORESOURCE_MEM_def IORESOURCE_IRQ_def BASE_CARD_def SIZE_CARD_def IRQ_CARD_def)

text \<open>What the driver derives from them.\<close>

lemma new_priv_pdev:
  "new_priv pdev p 0xF4802400 0xF48024FF c f = \<lparr>pp_self = p, phy_base = 0xF4802400, vir_base = NULL, phy_size = 0x100,
     irq = 11, cdev_dev = 0x05A00002, pp_class = c, dev_id = 0x05A00002, class_dev = f\<rparr>"
  by (simp add: new_priv_def pdev_resources MKDEV_def DEF_MAJOR_def push_bit_eq_mult Let_def)

end
