(* ===== verification/Start_State.thy ===== *)
theory Start_State
  imports Task_Flow
begin

text \<open>
  Concrete memories for the instances of the properties: a kernel that has nothing allocated,
  before and after the allocator modules are registered, with the bump allocator.
\<close>

definition boot_mem :: pmem where
  "boot_mem = \<lparr>blocks = [], ticks = 0, lnext = (\<lambda>_. NULL), lprev = (\<lambda>_. NULL), hptr = (\<lambda>_. NULL),
     hpprev = (\<lambda>_. NULL), allocator_modules = initial_modules, ldata = (\<lambda>_. []),
     hn_value_pos = (\<lambda>_. 0), hn_data_size = (\<lambda>_. 0), hn_key = (\<lambda>_. []),
     pinfo = (\<lambda>_. zero_info), hl_count = (\<lambda>_. 0), hl_allocator = (\<lambda>_. al0), bufs = (\<lambda>_. []), ptrs = (\<lambda>_. NULL)\<rparr>"

definition pmem0 :: pmem where
  "pmem0 = liballoc_register_modules boot_mem"

lemma boot_mem_facts: "mem_ok boot_mem" "blocks boot_mem = []" "allocator_modules boot_mem = initial_modules"
  by (simp_all add: boot_mem_def blocks_ok_def)

lemma pmem0_facts: "mem_env bump pmem0" "blocks pmem0 = []" "high_mem pmem0"
proof -
  show b: "blocks pmem0 = []"
    by (simp add: pmem0_def boot_mem_def liballoc_register_modules_def allocator_sys_alloc_register_def)
  have "sys_registered pmem0" unfolding pmem0_def by (rule sys_registered_register) (simp add: boot_mem_def)
  with b show "mem_env bump pmem0" by (simp add: mem_env_def bump_ok blocks_ok_def)
  show "high_mem pmem0" using b by (simp add: high_mem_def)
qed

text \<open>From an empty memory the bump allocator serves requests of less than a gigabyte in all.\<close>

lemma bump_supplies: "blocks m = [] \<Longrightarrow> sum_list (map (\<lambda>n. n + 7) ns) < 2 ^ 30 - 1 \<Longrightarrow> supplies bump ns m"
  unfolding supplies_def by (rule served_bump) (simp add: bump_top_def)

definition admin0 :: task_admin where
  "admin0 = \<lparr>ta_self = NULL, ta_slot = 0, ta_allocator = al0,
     ta_pair = \<lparr>pair_p = NULL, pair_data_len = 0, pair_key_len = 0, pair_value_len = 0, pair_data = []\<rparr>, ta_task_state = 0,
     data_sys_designate_slot = llist0, voice_sys_designate_slot = llist0,
     data_user_designate_slot = hmap0, voice_user_designate_slot = hmap0\<rparr>"

text \<open>A creation that succeeds stays in the high addresses.\<close>

lemma init_heads_blocks:
  "INIT_LIST_HEAD p m = Some m' \<Longrightarrow> blocks m' = blocks m"
  "clear_heads p n m = Some m' \<Longrightarrow> blocks m' = blocks m"
  by (auto simp: INIT_LIST_HEAD_def clear_heads_def access_defs bind_eq_Some_conv split: if_splits)

lemma mem_alloc_high:
  assumes "kmalloc_high km" and "allocator_mem_alloc km al n m = Some (p, m')" and "high_mem m"
  shows "high_mem m'"
proof -
  from assms(2) obtain f where "(case f of Sys_alloc_alloc \<Rightarrow> Some (sys_alloc_alloc km al n m)) = Some (p, m')"
    unfolding allocator_mem_alloc_def by (elim bind_SomeE)
  then have "kmalloc km (unat n) m = (p, m')" by (cases f) (simp add: sys_alloc_alloc_def)
  with assms(1,3) show ?thesis using high_mem_kmalloc by blast
qed

lemma create_task_list_high:
  assumes "create_task_list km stale al m = Some (l, m')" and "kmalloc_high km" and "high_mem m"
  shows "high_mem m'"
  using assms(1) unfolding create_task_list_def llist_create_def llist_init_def Let_def
  by (elim bind_pairE bind_tripleE bind_SomeE)
    (auto simp: high_mem_blocks [OF init_heads_blocks(1)] dest!: mem_alloc_high [OF assms(2)] intro: assms(3))

lemma create_task_map_high:
  assumes "create_task_map km stale al m = Some (h, m')" and "kmalloc_high km" and "high_mem m"
  shows "high_mem m'"
  using assms(1) unfolding create_task_map_def hash_map_create_def hash_map_init_def Let_def
  by (elim bind_pairE bind_tripleE bind_SomeE)
    (auto simp: high_mem_blocks [OF init_heads_blocks(2)] dest!: mem_alloc_high [OF assms(2)] intro: assms(3))

lemma create_pair_high:
  assumes "create_pair km k v m = Some (p, m')" and "kmalloc_high km" and "high_mem m"
  shows "high_mem m'"
  using assms(1) high_mem_kmalloc [OF assms(2,3)]
  by (auto simp: create_pair_def assert_opt_def bind_eq_Some_conv split: prod.splits if_splits)

lemma create_task_admin_high:
  assumes "create_task_admin km stale m = Some (Some a, m')" and high: "kmalloc_high km" and "high_mem m"
  shows "high_mem m'"
proof -
  obtain r m1 where c: "allocator_creator km ALLOCATOR_TYPE_SYS_MALLOC 0 m = (r, m1)" by fastforce
  then have h1: "high_mem m1"
    using high_mem_kmalloc [OF high assms(3)] by (auto simp: allocator_creator_def Let_def split: prod.splits if_splits)
  from assms(1) c obtain al p m2 where
    a: "allocator_mem_alloc km al (word_of_nat sizeof_task_admin_t) m1 = Some (p, m2)" and
    rest: "(if p = NULL then do { m3 \<leftarrow> allocator_destroy al m2; Some (None, m3) } else do {
            (l1, m3) \<leftarrow> create_task_list km (data_sys_designate_slot stale) al m2;
            (l2, m4) \<leftarrow> create_task_list km (voice_sys_designate_slot stale) al m3;
            (h1, m5) \<leftarrow> create_task_map km (data_user_designate_slot stale) al m4;
            (h2, m6) \<leftarrow> create_task_map km (voice_user_designate_slot stale) al m5;
            (pr, m7) \<leftarrow> create_pair km TASK_KEY_SIZE TASK_DATA_SIZE m6;
            Some (Some (stale\<lparr>ta_self := p, ta_allocator := al, ta_pair := pr, data_sys_designate_slot := l1,
              voice_sys_designate_slot := l2, data_user_designate_slot := h1, voice_user_designate_slot := h2\<rparr>), m7)
          }) = Some (Some a, m')"
    by (cases r) (auto simp: create_task_admin_def elim!: bind_pairE)
  have p: "p \<noteq> NULL" using rest by (auto elim!: bind_SomeE)
  from rest [unfolded if_not_P [OF p]] show ?thesis
    using mem_alloc_high [OF high a h1]
    by (elim bind_pairE) (auto dest!: create_task_list_high [OF _ high] create_task_map_high [OF _ high] create_pair_high [OF _ high])
qed

end
