(* ===== verification/Task_Props.thy ===== *)
theory Task_Props
  imports Start_State
begin

text \<open>The properties of the task administration, from its creation to its destruction.\<close>

section \<open>Filling the queues\<close>

text \<open>C7. A fresh task administration sorts the tasks it is given into its two queues: after any
  sequence of tasks whose slot the system chooses, the data queue holds the bytes of the data
  tasks and the voice queue those of the voice tasks, both in the order of arrival, nothing that
  was allocated before is touched, and the structure stays well formed. Its creation allocates
  exactly the blocks of \<open>admin_owned\<close>.\<close>

theorem tasks_sorted_into_queues:
  fixes m :: "'z pmem_scheme"
  assumes "mem_env km m" and "\<forall>pt \<in> set ts. sys_task pt"
    and "supplies km (task_admin_sizes @ replicate (length ts) 20) m"
  shows "\<exists>a m1 a' m' xs ys. create_task_admin km stale m = Some (Some a, m1) \<and>
    set (blocks m1) = set (blocks m) \<union> admin_owned a [] [] (replicate 10 []) (replicate 10 []) \<and>
    add_tasks km peek ts (a, m1) = Some (a', m') \<and> admin_ok m' a' xs ys (replicate 10 []) (replicate 10 []) \<and>
    queued m' xs = of_type TASK_TYPE_DATA ts \<and> queued m' ys = of_type TASK_TYPE_VOICE ts \<and> keeps {} m m'"
proof -
  let ?E = "replicate 10 [] :: addr list list"
  from create_task_admin_spec [OF assms(1,3)] obtain a m1 where
    c: "create_task_admin km stale m = Some (Some a, m1)" "admin_ok m1 a [] [] ?E ?E" "keeps {} m m1"
      "admin_owned a [] [] ?E ?E \<inter> set (blocks m) = {}" "supplies km (replicate (length ts) 20) m1"
      "set (blocks m1) = set (blocks m) \<union> admin_owned a [] [] ?E ?E" by blast
  have su: "supplies km (replicate (length ts) 20 @ []) m1" using c(5) by simp
  from add_tasks_spec [OF mem_env_keeps [OF assms(1) c(3)] c(2) assms(2) su, where peek = peek]
  obtain a' m' xs ys where
    r: "add_tasks km peek ts (a, m1) = Some (a', m')" "admin_ok m' a' xs ys ?E ?E"
      "queued m' xs = of_type TASK_TYPE_DATA ts" "queued m' ys = of_type TASK_TYPE_VOICE ts"
      "keeps (admin_owned a [] [] ?E ?E) m1 m'" by (auto simp: queued_def)
  have "keeps {} m m'" by (rule keeps_trans [OF c(3) r(5)]) (use c(4) in blast)
  with c(1,6) r(1-4) show ?thesis by blast
qed

definition task_ex :: "u8 \<Rightarrow> u16 \<Rightarrow> task" where
  "task_ex ty n = \<lparr>task_data = 0, task_type = ty, task_slot_type = SLOT_TYPE_SYS_DESIGNATE, slot_num = n, tact_info = 7\<rparr>"

definition tasks_ex :: "(u8 \<times> task) list" where
  "tasks_ex = [(0, task_ex TASK_TYPE_DATA 0x1001), (0, task_ex TASK_TYPE_VOICE 0x1002), (0, task_ex TASK_TYPE_DATA 0x1003)]"

lemma tasks_ex_facts: "\<forall>pt \<in> set tasks_ex. sys_task pt"
  "supplies bump (task_admin_sizes @ replicate (length tasks_ex) 20) pmem0"
  by (auto simp: tasks_ex_def task_ex_def sys_task_def task_admin_sizes_def pmem0_facts intro!: bump_supplies)

lemma of_type_ex: "of_type TASK_TYPE_DATA tasks_ex = [[0, 0, 0, 0, 1, 16, 7, 0], [0, 0, 0, 0, 3, 16, 7, 0]]"
  "of_type TASK_TYPE_VOICE tasks_ex = [[0, 1, 0, 0, 2, 16, 7, 0]]"
  by (simp_all add: of_type_def tasks_ex_def task_ex_def task_bytes_def TASK_TYPE_DATA_def TASK_TYPE_VOICE_def
      SLOT_TYPE_SYS_DESIGNATE_def)

theorem tasks_sorted_into_queues_witness:
  "\<exists>a m1 a' m' xs ys. create_task_admin bump admin0 pmem0 = Some (Some a, m1) \<and>
    add_tasks bump (\<lambda>_ _. None) tasks_ex (a, m1) = Some (a', m') \<and>
    admin_ok m' a' xs ys (replicate 10 []) (replicate 10 []) \<and>
    queued m' xs = [[0, 0, 0, 0, 1, 16, 7, 0], [0, 0, 0, 0, 3, 16, 7, 0]] \<and>
    queued m' ys = [[0, 1, 0, 0, 2, 16, 7, 0]]"
  using tasks_sorted_into_queues [OF pmem0_facts(1) tasks_ex_facts, of admin0 "\<lambda>_ _. None"]
  unfolding of_type_ex by blast

section \<open>Taking tasks out\<close>

lemma no_user_tasks: "hmap_abs h m (replicate n []) k = None"
  by (simp add: hmap_abs_def)

text \<open>An administration with one or two data tasks, for the instances below.\<close>

definition data_tasks :: "(u8 \<times> task) list" where
  "data_tasks = [(0, task_ex TASK_TYPE_DATA 0x1001), (0, task_ex TASK_TYPE_DATA 0x1003)]"

lemma fresh_admin:
  obtains a m where "create_task_admin bump admin0 pmem0 = Some (Some a, m)" and "mem_env bump m"
    and "admin_ok m a [] [] (replicate 10 []) (replicate 10 [])" and "supplies bump (replicate 2 20 @ []) m"
    and "high_mem m"
proof -
  have two: "replicate 2 20 = [20, 20 :: nat]" by (simp add: numeral_2_eq_2)
  have su: "supplies bump (task_admin_sizes @ (replicate 2 20 @ [])) pmem0"
    by (rule bump_supplies) (simp_all add: task_admin_sizes_def pmem0_facts two)
  from create_task_admin_spec [OF pmem0_facts(1) su, of admin0] obtain a m where
    c: "create_task_admin bump admin0 pmem0 = Some (Some a, m)" "admin_ok m a [] [] (replicate 10 []) (replicate 10 [])"
      "keeps {} pmem0 m" "supplies bump (replicate 2 20 @ []) m" by blast
  have "mem_env bump m" by (rule mem_env_keeps [OF pmem0_facts(1) c(3)])
  moreover have "high_mem m" by (rule create_task_admin_high [OF c(1) bump_high pmem0_facts(3)])
  ultimately show ?thesis using c that by blast
qed

lemma filled_admin:
  "\<exists>a (m :: pmem) x y. mem_env bump m \<and> admin_ok m a [x, y] [] (replicate 10 []) (replicate 10 []) \<and>
     queued m [x, y] = of_type TASK_TYPE_DATA data_tasks"
proof -
  obtain a and m :: pmem where c: "mem_env bump m" "admin_ok m a [] [] (replicate 10 []) (replicate 10 [])"
    "supplies bump (replicate 2 20 @ []) m" by (rule fresh_admin) (use that in blast)
  have ts: "\<forall>pt \<in> set data_tasks. sys_task pt" "length data_tasks = 2"
    by (simp_all add: data_tasks_def task_ex_def sys_task_def)
  have su: "supplies bump (replicate (length data_tasks) 20 @ []) m" using c(3) ts(2) by simp
  from add_tasks_spec [OF c(1,2) ts(1) su, where peek = "\<lambda>_ _. None"] obtain a' m' xs ys where
    r: "admin_ok m' a' xs ys (replicate 10 []) (replicate 10 [])" "queued m' xs = of_type TASK_TYPE_DATA data_tasks"
      "queued m' ys = of_type TASK_TYPE_VOICE data_tasks" "keeps (admin_owned a [] [] (replicate 10 []) (replicate 10 [])) m m'"
    by (auto simp: queued_def)
  have "length xs = 2" "length ys = 0"
    using arg_cong [OF r(2), of length] arg_cong [OF r(3), of length]
    by (simp_all add: queued_def of_type_def data_tasks_def task_ex_def)
  then obtain x y where "xs = [x, y]" "ys = []" by (auto simp: numeral_2_eq_2 length_Suc_conv)
  then show ?thesis using r(1,2) mem_env_keeps [OF c(1) r(4)] by blast
qed

text \<open>C33. \<open>get_task\<close> takes the oldest data task out of the queue and reports success, but hands
  nothing out: the caller's task structure is as before, and the node with the task stays
  allocated although no queue holds it any more.\<close>

theorem get_task_hands_nothing_out:
  fixes m :: "'z pmem_scheme"
  assumes "mem_env km m" and "admin_ok m a (x # xs) ys B C"
    and "hmap_abs (data_user_designate_slot a) m B (get_task_key n) = None"
  shows "\<exists>a' m'. get_task a TASK_FLAG_SND n t m = Some (1, t, a', m') \<and>
    llist_ok (data_sys_designate_slot a') m' xs \<and> queued m' xs = tl (queued m (x # xs)) \<and>
    blocks m' = blocks m"
  using get_task_spec [OF assms, of t] by (fastforce simp: queued_def)

theorem get_task_hands_nothing_out_witness:
  "\<exists>a m a' m' y. get_task a TASK_FLAG_SND 5 (task_ex 9 9) (m :: pmem) = Some (1, task_ex 9 9, a', m') \<and>
    queued m' [y] = [[0, 0, 0, 0, 3, 16, 7, 0]] \<and> blocks m' = blocks m"
proof -
  obtain a x y and m :: pmem where am: "mem_env bump m" "admin_ok m a [x, y] [] (replicate 10 []) (replicate 10 [])"
    "queued m [x, y] = of_type TASK_TYPE_DATA data_tasks" using filled_admin by blast
  have "tl (queued m [x, y]) = [[0, 0, 0, 0, 3, 16, 7, 0]]"
    unfolding am(3) by (simp add: of_type_def data_tasks_def task_ex_def task_bytes_def SLOT_TYPE_SYS_DESIGNATE_def TASK_TYPE_DATA_def)
  with get_task_hands_nothing_out [OF am(1,2) no_user_tasks, of 5 "task_ex 9 9"] show ?thesis by metis
qed

text \<open>C34. Taking a task from an empty data queue reports success as well, and ruins the queue: the
  sentinel itself is taken out, and the next data task that is added runs into a fault.\<close>

theorem get_task_from_empty_queue:
  fixes m :: "'z pmem_scheme"
  assumes "mem_env km m" and "admin_ok m a [] ys B C" and "kmalloc_high km" and "high_mem m"
    and "hmap_abs (data_user_designate_slot a) m B (get_task_key n) = None"
  shows "\<exists>a' m'. get_task a TASK_FLAG_SND n t m = Some (1, t, a', m') \<and>
    (\<forall>peek pad u. sys_task (pad, u) \<and> task_type u = TASK_TYPE_DATA \<longrightarrow> add_task km peek pad a' u TASK_FLAG_SND m' = None)"
  by (rule get_task_empty [OF assms])

theorem get_task_from_empty_queue_witness:
  "\<exists>a m a' m'. get_task a TASK_FLAG_SND 5 (task_ex 9 9) (m :: pmem) = Some (1, task_ex 9 9, a', m') \<and>
    add_task bump (\<lambda>_ _. None) 0 a' (task_ex TASK_TYPE_DATA 0x1001) TASK_FLAG_SND m' = None"
proof -
  obtain a and m :: pmem where am: "mem_env bump m" "admin_ok m a [] [] (replicate 10 []) (replicate 10 [])" "high_mem m"
    by (rule fresh_admin) (use that in blast)
  have "sys_task (0, task_ex TASK_TYPE_DATA 0x1001)" "task_type (task_ex TASK_TYPE_DATA 0x1001) = TASK_TYPE_DATA"
    by (simp_all add: sys_task_def task_ex_def)
  with get_task_from_empty_queue [OF am(1,2) bump_high am(3) no_user_tasks, of 5 "task_ex 9 9"] show ?thesis by blast
qed

text \<open>C35. A task whose slot the user chooses can not be added: the slot number is used as the
  address of the key, and no slot number is an address of the kernel's memory.\<close>

theorem user_tasks_fault:
  assumes "\<And>a n. peek a n \<noteq> None \<Longrightarrow> valid m a n" and "high_mem m"
    and "task_slot_type t = SLOT_TYPE_USER_DESIGNATE" and "task_type t = TASK_TYPE_DATA \<or> task_type t = TASK_TYPE_VOICE"
  shows "add_task km peek pad a t TASK_FLAG_SND m = None"
  by (rule add_task_user_faults [OF assms])

theorem user_tasks_fault_witness:
  "add_task bump (\<lambda>a n. if valid pmem0 a n then Some (replicate n 0) else None) 0 admin0
     (task_ex TASK_TYPE_DATA 5\<lparr>task_slot_type := SLOT_TYPE_USER_DESIGNATE\<rparr>) TASK_FLAG_SND pmem0 = None"
  by (rule user_tasks_fault) (auto simp: pmem0_facts task_ex_def split: if_split_asm)

section \<open>The end\<close>

text \<open>C25. \<open>destroy_task_admin\<close> ends, and releases every queue node, both sentinels, both bucket
  tables with their nodes, the structure of the administration and its allocator, whatever was
  queued. Exactly five of the blocks that \<open>create_task_admin\<close> allocated are never released: the buffer
  of the pair, the two \<open>llist_t\<close> and the two \<open>hash_map_t\<close>.\<close>

theorem destroy_task_admin_releases:
  fixes m :: "'z pmem_scheme"
  assumes "mem_env km m" and "admin_ok m a xs ys B C"
  shows "\<exists>m'. destroy_task_admin a m = Some m' \<and>
    set (blocks m') = set (blocks m) - admin_owned a xs ys B C \<union> admin_leaked a \<and>
    admin_leaked a \<subseteq> admin_owned a xs ys B C \<and> card (admin_leaked a) = 5"
proof -
  from destroy_task_admin_spec [OF assms] obtain m' where
    r: "destroy_task_admin a m = Some m'" "blocks m' = filter (\<lambda>p. p \<notin> admin_released a xs ys B C) (blocks m)"
      "admin_leaked a \<subseteq> set (blocks m')" by blast
  have "card (admin_leaked a) = 5" using assms(2) by (simp add: admin_ok_def)
  with r admin_owned_split [of a xs ys B C] show ?thesis by auto
qed

theorem destroy_task_admin_releases_witness:
  "\<exists>a m m' x y. queued m [x, y] = of_type TASK_TYPE_DATA data_tasks \<and> destroy_task_admin a (m :: pmem) = Some m' \<and>
    set (blocks m') = set (blocks m) - admin_owned a [x, y] [] (replicate 10 []) (replicate 10 []) \<union> admin_leaked a"
proof -
  obtain a x y and m :: pmem where am: "mem_env bump m" "admin_ok m a [x, y] [] (replicate 10 []) (replicate 10 [])"
    "queued m [x, y] = of_type TASK_TYPE_DATA data_tasks" using filled_admin by blast
  from destroy_task_admin_releases [OF am(1,2)] am(3) show ?thesis by blast
qed

end
