(* ===== verification/Driver_Props.thy ===== *)
theory Driver_Props
  imports Driver_Boot Plat_Device Task_Props
begin

text \<open>The properties of the driver, from its probe to its removal, and of the device file.\<close>

section \<open>An instance\<close>

definition env0 :: env where
  "env0 = \<lparr>e_km = bump, e_peek = (\<lambda>_ _. None), e_key = replicate 10 0, e_map = hmap0, e_task = task_ex 9 9, e_pad = 0\<rparr>"

definition driver0 :: driver where
  "driver0 = \<lparr>d_mem = boot_mem,
     d_globals = \<lparr>g_allocator = None, g_pfs = None, task_admin_slot1_gp = None, task_admin_slot2_gp = None\<rparr>,
     d_kernel = \<lparr>k_cdevs = [], k_classes = [], k_devices = [], k_class_devices = [], k_drvdata = None\<rparr>\<rparr>"

definition probe0 :: probe_env where
  "probe0 = \<lparr>priv_size = 200, cdev_added = True, class_result = 0xC8000000, class_dev_result = 0xC8000100,
     stale_ret = 1, stale_admin = admin0\<rparr>"

lemma env0_facts [simp]: "e_km env0 = bump"
  by (simp add: env0_def)

lemma driver0_facts: "mem_ok (d_mem driver0)" "blocks (d_mem driver0) = []" "allocator_modules (d_mem driver0) = initial_modules"
  using boot_mem_facts by (simp_all add: driver0_def)

lemma probe0_facts: "0 < priv_size probe0" "\<not> IS_ERR (class_result probe0)" "\<not> IS_ERR (class_dev_result probe0)"
  by (simp_all add: probe0_def IS_ERR_def)

lemma boot0_supplies: "supplies (e_km env0) (boot_sizes (priv_size probe0) @ []) (d_mem driver0)"
  unfolding env0_facts
  by (rule bump_supplies)
    (simp_all add: driver0_facts boot_sizes_def pdt_sizes_def format_sizes_def task_admin_sizes_def probe0_def
      sizeof_allocator_t_def sizeof_format_set_def sizeof_proto_head_def sizeof_proto_info_def sum_list_replicate)

section \<open>Probe and remove\<close>

text \<open>C8. When the kernel calls work and there is memory, \<open>plat_probe\<close> returns 0 and the driver is
  up: its private data describes the device, the allocator is registered, the format set offers
  the five formats of the driver, both task administrations are empty and well formed, the parts
  lie in separate blocks that were free before, and the device file is registered.\<close>

theorem probe_brings_driver_up:
  assumes "kmalloc_ok (e_km e)" and "mem_ok (d_mem d)" and "allocator_modules (d_mem d) = initial_modules"
    and "supplies (e_km e) (boot_sizes (priv_size pe) @ rest) (d_mem d)" and "0 < priv_size pe"
    and "res_mem pd = Some (start, stop)" and "\<not> IS_ERR (class_result pe)" and "\<not> IS_ERR (class_dev_result pe)"
  shows "\<exists>priv al pfs a1 a2 F A B d'. plat_probe e pe pd d = Some (0, d') \<and>
    driver_up (e_km e) (priv_size pe) priv al pfs a1 a2 F A B d' \<and>
    priv = new_priv pd (pp_self priv) start stop (class_result pe) (class_dev_result pe) \<and>
    admin_holds (d_mem d') a1 [] [] A \<and> admin_holds (d_mem d') a2 [] [] B \<and>
    (F \<union> A \<union> B) \<inter> set (blocks (d_mem d)) = {} \<and> (pp_self priv, priv_size pe) \<notin> set (blocks (d_mem d)) \<and>
    set (blocks (d_mem d)) \<subseteq> set (blocks (d_mem d'))"
  using plat_probe_spec [OF assms] by blast

text \<open>The instance is the card that \<open>plat_device.c\<close> registers.\<close>

theorem probe_brings_driver_up_witness:
  "\<exists>priv al pfs a1 a2 F A B d'. plat_probe env0 probe0 pdev driver0 = Some (0, d') \<and>
    driver_up bump 200 priv al pfs a1 a2 F A B d' \<and> phy_base priv = 0xF4802400 \<and> phy_size priv = 0x100 \<and>
    irq priv = 11 \<and> dev_id priv = 0x05A00002"
proof -
  from probe_brings_driver_up [of env0 driver0 probe0 "[]" pdev, OF _ _ _ boot0_supplies probe0_facts(1)
      pdev_resources(1) probe0_facts(2,3)] bump_ok driver0_facts
  obtain priv al pfs a1 a2 F A B d' where
    r: "plat_probe env0 probe0 pdev driver0 = Some (0, d')" "driver_up bump (priv_size probe0) priv al pfs a1 a2 F A B d'"
      "priv = new_priv pdev (pp_self priv) 0xF4802400 0xF48024FF (class_result probe0) (class_dev_result probe0)" by auto
  have "phy_base priv = 0xF4802400" "phy_size priv = 0x100" "irq priv = 11" "dev_id priv = 0x05A00002"
    by (subst r(3), simp add: new_priv_pdev)+
  moreover have "priv_size probe0 = 200" by (simp add: probe0_def)
  ultimately show ?thesis using r(1,2) by metis
qed

text \<open>C16. \<open>plat_remove\<close> of a driver that is up returns 0 and releases the private data and, of both
  administrations, all blocks but the five each that \<open>admin_leaked\<close> lists: the buffer of the pair, two
  list structures and two map structures. The format set stays allocated with all its formats,
  although nothing refers to it any more. The class and the character device are taken away; the
  device file stays registered, since \<open>device_destroy\<close> does not find what \<open>class_device_create\<close> made.\<close>

theorem remove_leaves_formats:
  assumes "driver_up km n priv al pfs a1 a2 F A B d"
  shows "\<exists>d'. plat_remove d = Some (0, d') \<and>
    set (blocks (d_mem d')) = set (blocks (d_mem d)) - (A \<union> B \<union> {(pp_self priv, n)}) \<union>
      (admin_leaked a1 \<union> admin_leaked a2) \<and>
    card (admin_leaked a1 \<union> admin_leaked a2) = 10 \<and>
    formats_ready (d_mem d') pfs F \<and> F \<subseteq> set (blocks (d_mem d')) \<and>
    k_classes (d_kernel d') = remove1 (pp_class priv) (k_classes (d_kernel d)) \<and>
    k_cdevs (d_kernel d') = filter (\<lambda>q. pp_self q \<noteq> pp_self priv) (k_cdevs (d_kernel d)) \<and>
    k_class_devices (d_kernel d') = k_class_devices (d_kernel d) \<and>
    (pp_class priv, dev_id priv) \<in> set (k_class_devices (d_kernel d'))"
proof -
  from plat_remove_spec [OF assms] obtain d' where
    r: "plat_remove d = Some (0, d')" "formats_ready (d_mem d') pfs F" and
    rest: "set (blocks (d_mem d')) = set (blocks (d_mem d)) - (A \<union> B \<union> {(pp_self priv, n)}) \<union>
      (admin_leaked a1 \<union> admin_leaked a2)" and
    k: "d_kernel d' = (d_kernel d)\<lparr>k_cdevs := filter (\<lambda>q. pp_self q \<noteq> pp_self priv) (k_cdevs (d_kernel d)),
      k_classes := remove1 (pp_class priv) (k_classes (d_kernel d)),
      k_devices := remove1 (pp_class priv, dev_id priv) (k_devices (d_kernel d))\<rparr>" by blast
  have "(pp_class priv, dev_id priv) \<in> set (k_class_devices (d_kernel d))" using assms by (simp add: driver_up_def)
  then show ?thesis
    using r rest driver_up_leaked(3) [OF assms] formats_ready_blocks [OF r(2)] by (intro exI [of _ d']) (simp add: k)
qed

lemma driver0_up:
  "\<exists>priv al pfs a1 a2 F A B d'. plat_probe env0 probe0 pdev driver0 = Some (0, d') \<and>
    driver_up bump (priv_size probe0) priv al pfs a1 a2 F A B d'"
proof -
  from plat_probe_spec [of env0 driver0 probe0 "[]" pdev, OF _ _ _ boot0_supplies probe0_facts(1)
      pdev_resources(1) probe0_facts(2,3)] bump_ok driver0_facts
  show ?thesis by simp blast
qed

theorem remove_leaves_formats_witness:
  "\<exists>d d' pfs F. plat_probe env0 probe0 pdev driver0 = Some (0, d) \<and> plat_remove d = Some (0, d') \<and>
    formats_ready (d_mem d') pfs F \<and> F \<subseteq> set (blocks (d_mem d')) \<and>
    k_class_devices (d_kernel d') = k_class_devices (d_kernel d) \<and> k_class_devices (d_kernel d') \<noteq> []"
proof -
  obtain priv al pfs a1 a2 F A B d where
    up: "plat_probe env0 probe0 pdev driver0 = Some (0, d)" "driver_up bump (priv_size probe0) priv al pfs a1 a2 F A B d"
    using driver0_up by blast
  from remove_leaves_formats [OF up(2)] up(1) show ?thesis by force
qed

text \<open>C31. The removal of a driver that is up does not wait for its open files: a file that was open
  before is open afterwards, and its private data, which \<open>plat_remove\<close> has released, is no live block
  any more. The globals still name the two administrations, whose structures are released as well.\<close>

theorem removal_leaves_dangling:
  assumes "driver_up km n priv al pfs a1 a2 F A B (dstate s)" and "bound s" and "(f, priv) \<in> set (files s)"
  shows "\<exists>s'. module_step e s Remove 0 s' \<and> (f, priv) \<in> set (files s') \<and>
    task_admin_slot1_gp (d_globals (dstate s')) = Some a1 \<and> task_admin_slot2_gp (d_globals (dstate s')) = Some a2 \<and>
    {(pp_self priv, n), (ta_self a1, sizeof_task_admin_t), (ta_self a2, sizeof_task_admin_t)} \<subseteq> set (blocks (d_mem (dstate s))) \<and>
    {(pp_self priv, n), (ta_self a1, sizeof_task_admin_t), (ta_self a2, sizeof_task_admin_t)} \<inter> set (blocks (d_mem (dstate s'))) = {}"
proof -
  from plat_remove_spec [OF assms(1)] obtain d' where
    r: "plat_remove (dstate s) = Some (0, d')" "d_globals d' = d_globals (dstate s)"
      "set (blocks (d_mem d')) = set (blocks (d_mem (dstate s))) - (A \<union> B \<union> {(pp_self priv, n)}) \<union>
      (admin_leaked a1 \<union> admin_leaked a2)" by blast
  note lk = driver_up_leaked(1,2) [OF assms(1)] driver_up_structures [OF assms(1)]
  have "module_step e s Remove 0 (s\<lparr>bound := False, dstate := d'\<rparr>)" by (rule step_remove [OF assms(2) r(1)])
  moreover have "task_admin_slot1_gp (d_globals d') = Some a1" "task_admin_slot2_gp (d_globals d') = Some a2"
    using assms(1) r(2) by (simp_all add: driver_up_def)
  ultimately show ?thesis using assms(3) r(3) lk by (intro exI [of _ "s\<lparr>bound := False, dstate := d'\<rparr>"]) auto
qed

theorem removal_leaves_dangling_witness:
  "\<exists>s s' priv. module_step env0 s Remove 0 s' \<and> (3, priv) \<in> set (files s') \<and> (pp_self priv, 200) \<in> set (blocks (d_mem (dstate s))) \<and>
    (pp_self priv, 200) \<notin> set (blocks (d_mem (dstate s')))"
proof -
  obtain priv al pfs a1 a2 F A B d where
    up: "plat_probe env0 probe0 pdev driver0 = Some (0, d)" "driver_up bump (priv_size probe0) priv al pfs a1 a2 F A B d"
    using driver0_up by blast
  let ?s = "\<lparr>registered = True, bound = True, files = [(3, priv)], dstate = d\<rparr>"
  have "priv_size probe0 = 200" by (simp add: probe0_def)
  with removal_leaves_dangling [of bump "priv_size probe0" priv al pfs a1 a2 F A B ?s 3 env0] up(2)
  obtain s' where "module_step env0 ?s Remove 0 s'" "(3, priv) \<in> set (files s')" "(pp_self priv, 200) \<in> set (blocks (d_mem (dstate ?s)))"
    "(pp_self priv, 200) \<notin> set (blocks (d_mem (dstate s')))" by auto
  then show ?thesis by blast
qed

text \<open>C38. A probe that fails does not undo what it has done. Without a class it returns at once:
  the private data stays allocated and the character device stays registered on it. Without a
  device file it releases the private data, but the class stays.\<close>

theorem failed_probe_leaves:
  assumes "kmalloc (e_km e) (priv_size pe) (d_mem d) = (p, m1)" and "p \<noteq> NULL" and "res_mem pd = Some (start, stop)"
    and "IS_ERR (class_result pe) \<or> IS_ERR (class_dev_result pe)"
  shows "\<exists>r d'. plat_probe e pe pd d = Some (r, d') \<and> r \<noteq> 0 \<and>
    (if IS_ERR (class_result pe)
     then (p, priv_size pe) \<in> set (blocks (d_mem d')) \<and>
       (cdev_added pe \<longrightarrow> (\<exists>priv \<in> set (k_cdevs (d_kernel d')). pp_self priv = p))
     else k_classes (d_kernel d') = class_result pe # k_classes (d_kernel d))"
proof (cases "IS_ERR (class_result pe)")
  case True
  with plat_probe_class_error [OF assms(1-3)] show ?thesis using PTR_ERR_nonzero by auto
next
  case False
  then have "IS_ERR (class_dev_result pe)" using assms(4) by simp
  with False plat_probe_device_error [OF assms(1-3)] show ?thesis using PTR_ERR_nonzero by auto
qed

lemma bump_first: "blocks m = [] \<Longrightarrow> n < 1024 \<Longrightarrow>
    kmalloc bump n m = (0xC0000000, m\<lparr>ticks := Suc (ticks m), blocks := [(0xC0000000, n)]\<rparr>)"
  by (simp add: bump_defs)

theorem failed_probe_leaves_witness:
  "(\<exists>r d'. plat_probe env0 (probe0\<lparr>class_result := 0xFFFFFFF4\<rparr>) pdev driver0 = Some (r, d') \<and> r \<noteq> 0 \<and>
     (0xC0000000, 200) \<in> set (blocks (d_mem d')) \<and> (\<exists>priv \<in> set (k_cdevs (d_kernel d')). pp_self priv = 0xC0000000)) \<and>
   (\<exists>r d'. plat_probe env0 (probe0\<lparr>class_dev_result := 0xFFFFFFF4\<rparr>) pdev driver0 = Some (r, d') \<and> r \<noteq> 0 \<and>
     k_classes (d_kernel d') = [0xC8000000])"
  using failed_probe_leaves [of env0 "probe0\<lparr>class_result := 0xFFFFFFF4\<rparr>" driver0, OF _ _ pdev_resources(1)]
    failed_probe_leaves [of env0 "probe0\<lparr>class_dev_result := 0xFFFFFFF4\<rparr>" driver0, OF _ _ pdev_resources(1)]
    bump_first [of "d_mem driver0" 200] driver0_facts
  by (simp add: probe0_def IS_ERR_def) (simp add: driver0_def)

text \<open>C37. Without memory for the allocator the probe releases the private data while the device file
  stays registered, and returns whatever its variable \<open>ret\<close> happens to hold. If that is 0, the
  driver core takes the device as bound, and the removal of the driver runs into a fault, since
  there is no task administration.\<close>

theorem probe_without_allocator:
  assumes "kmalloc (e_km e) (priv_size pe) (d_mem d) = (p, m1)" and "p \<noteq> NULL" and "res_mem pd = Some (start, stop)"
    and "\<not> IS_ERR (class_result pe)" and "\<not> IS_ERR (class_dev_result pe)"
    and "kmalloc (e_km e) sizeof_allocator_t (liballoc_register_modules m1) = (NULL, m2)"
    and "task_admin_slot1_gp (d_globals d) = None"
  shows "\<exists>d'. plat_probe e pe pd d = Some (stale_ret pe, d') \<and> plat_remove d' = None \<and>
    (p, priv_size pe) \<notin> set (blocks (d_mem d')) \<and>
    k_class_devices (d_kernel d') = (class_result pe, dev_id (new_priv pd p start stop (class_result pe) (class_dev_result pe)))
      # k_class_devices (d_kernel d)"
proof -
  from plat_probe_no_allocator [OF assms(1-6)] obtain d' where
    "plat_probe e pe pd d = Some (stale_ret pe, d')" "task_admin_slot1_gp (d_globals d') = task_admin_slot1_gp (d_globals d)"
    "(p, priv_size pe) \<notin> set (blocks (d_mem d'))"
    "k_class_devices (d_kernel d') = (class_result pe, dev_id (new_priv pd p start stop (class_result pe) (class_dev_result pe)))
      # k_class_devices (d_kernel d)" by blast
  moreover have "plat_remove d' = None" by (rule plat_remove_without_tasks) (use calculation(2) assms(7) in simp)
  ultimately show ?thesis by blast
qed

text \<open>A kernel that serves the first request only.\<close>

definition env_once :: env where
  "env_once = env0\<lparr>e_km := (\<lambda>t bs n. if t = 0 then 0xC0000000 else NULL)\<rparr>"

theorem probe_without_allocator_witness:
  "\<exists>d'. plat_probe env_once (probe0\<lparr>stale_ret := 0\<rparr>) pdev driver0 = Some (0, d') \<and> plat_remove d' = None \<and>
    k_class_devices (d_kernel d') = [(0xC8000000, 0x05A00002)]"
proof -
  let ?m1 = "boot_mem\<lparr>ticks := 1, blocks := [(0xC0000000, 200)]\<rparr>"
  have 1: "kmalloc (e_km env_once) (priv_size (probe0\<lparr>stale_ret := 0\<rparr>)) (d_mem driver0) = (0xC0000000, ?m1)"
    by (simp add: env_once_def kmalloc_def probe0_def driver0_def boot_mem_def)
  have 2: "\<exists>m2. kmalloc (e_km env_once) sizeof_allocator_t (liballoc_register_modules ?m1) = (NULL, m2)"
    by (simp add: env_once_def kmalloc_def liballoc_register_modules_def allocator_sys_alloc_register_def)
  have 3: "\<not> IS_ERR (class_result (probe0\<lparr>stale_ret := 0\<rparr>))" "\<not> IS_ERR (class_dev_result (probe0\<lparr>stale_ret := 0\<rparr>))"
    "task_admin_slot1_gp (d_globals driver0) = None"
    using probe0_facts by (simp_all add: driver0_def)
  from 2 obtain m2 where "kmalloc (e_km env_once) sizeof_allocator_t (liballoc_register_modules ?m1) = (NULL, m2)" by blast
  from probe_without_allocator [OF 1 _ pdev_resources(1) 3(1,2) this 3(3)] show ?thesis
    by (auto simp: new_priv_pdev probe0_def driver0_def)
qed

section \<open>Registrations\<close>

text \<open>C6. In every state that calls into the module lead to, in any order and with any results of the
  kernel, a driver that is bound has its private data with the driver core, its class and its device
  file registered; and a device file that was registered once stays registered for ever, whatever is
  called. If moreover every probe's character device is added and no failing probe finds 0 in its
  uninitialised result, then a driver that is bound also has its character device registered.\<close>

theorem registrations_in_reachable_states:
  assumes "reachable e ok s0 s" and "registrations_ok h s0" and "h \<longrightarrow> (\<forall>ev. ok ev \<longrightarrow> honest ev)"
  shows "registrations_ok h s \<and>
    (\<exists>fs. k_class_devices (d_kernel (dstate s)) = fs @ k_class_devices (d_kernel (dstate s0)))"
  by (rule reachable_registrations [OF assms])

definition module0 :: module_state where
  "module0 = \<lparr>registered = False, bound = False, files = [], dstate = driver0\<rparr>"

text \<open>The instance is a driver that has been bound and removed: its device file is still there.\<close>

theorem registrations_in_reachable_states_witness:
  "\<exists>s1 s2. bound s1 \<and> registrations_ok True s1 \<and> k_class_devices (d_kernel (dstate s1)) \<noteq> [] \<and>
    reachable env0 honest s1 s2 \<and> \<not> bound s2 \<and> k_class_devices (d_kernel (dstate s2)) \<noteq> []"
proof -
  obtain priv al pfs a1 a2 F A B d where d: "plat_probe env0 probe0 pdev driver0 = Some (0, d)"
    "driver_up bump (priv_size probe0) priv al pfs a1 a2 F A B d" using driver0_up by blast
  from plat_remove_spec [OF d(2)] obtain d2 where d2: "plat_remove d = Some (0, d2)" by blast
  let ?s1 = "module0\<lparr>registered := True\<rparr>" and ?s2 = "module0\<lparr>registered := True, bound := True, dstate := d\<rparr>"
  have 1: "module_step env0 module0 (Init True) 0 ?s1"
    by (rule step_init) (simp_all add: module0_def driver_module_init_def)
  have "module_step env0 ?s1 (Probe probe0 pdev) 0 (?s1\<lparr>bound := (0 = (0 :: int)), dstate := d\<rparr>)"
    by (rule step_probe) (use d in \<open>simp_all add: module0_def\<close>)
  then have 2: "module_step env0 ?s1 (Probe probe0 pdev) 0 ?s2" by (simp add: module0_def)
  have 3: "module_step env0 ?s2 Remove 0 (?s2\<lparr>bound := False, dstate := d2\<rparr>)" by (rule step_remove) (use d2 in simp_all)
  have "reachable env0 honest module0 ?s1"
    by (rule reachable_step [OF reachable_start 1]) simp
  then have r: "reachable env0 honest module0 ?s2"
    by (rule reachable_step [OF _ 2]) (simp add: probe0_def)
  have "registrations_ok True module0" by (simp add: module0_def registrations_ok_def driver0_def)
  from registrations_in_reachable_states [OF r this] have ok: "registrations_ok True ?s2" by simp
  then have ne: "k_class_devices (d_kernel (dstate ?s2)) \<noteq> []" by (auto simp: registrations_ok_def Let_def)
  have r2: "reachable env0 honest ?s2 (?s2\<lparr>bound := False, dstate := d2\<rparr>)"
    by (rule reachable_step [OF reachable_start 3]) simp
  from registrations_in_reachable_states [OF r2 ok] ne have "k_class_devices (d_kernel d2) \<noteq> []" by auto
  with ok ne r2 show ?thesis by (intro exI [of _ ?s2] exI [of _ "?s2\<lparr>bound := False, dstate := d2\<rparr>"]) simp
qed

section \<open>The device file\<close>

text \<open>C30. A write of more than 1024 bytes overruns the local array, and a write of command 0x3008
  with more than 100 bytes overruns the buffer of the analyzer: neither returns.\<close>

theorem device_write_bounds:
  assumes "length stale = MAX_BUF_SIZE"
    and "MAX_BUF_SIZE < length u \<or> command_of u = COMMAND_0X3008 \<and> MAX_PROTO_DATA_LEN < length u"
  shows "device_write e stale u d = None"
  using assms device_write_overrun device_write_long_frame by blast

theorem device_write_bounds_witness:
  "device_write env0 (replicate 1024 0) (replicate 1025 7) driver0 = None \<and>
   device_write env0 (replicate 1024 0) (0x30 # 0x08 # replicate 99 0) driver0 = None"
proof
  show "device_write env0 (replicate 1024 0) (replicate 1025 7) driver0 = None"
    by (rule device_write_bounds) (simp_all add: MAX_BUF_SIZE_def)
  show "device_write env0 (replicate 1024 0) (0x30 # 0x08 # replicate 99 0) driver0 = None"
    by (rule device_write_bounds)
      (simp_all add: MAX_BUF_SIZE_def MAX_PROTO_DATA_LEN_def command_of_def COMMAND_0X3008_def push_bit_eq_mult)
qed

end
