(* ===== verification/Format_Props.thy ===== *)
theory Format_Props
  imports Start_State Frame_Roundtrip
begin

text \<open>The properties of the format set.\<close>

section \<open>Finding a format\<close>

text \<open>C28. Looking a protocol number up in a format set finds the list that is registered for it, or
  reports -1 when there is none or the number is outside the set; but the range check lets the
  number one past the end through, and the cell that is read for it lies outside the table.\<close>

theorem find_format_range:
  assumes "pfs_p pa = Some pfs" and "mem_ok m" and "fset_ok m pfs T"
    and "unat (proto_base_addr pfs) + unat (proto_max_num pfs) < 2 ^ 32"
  shows "let n = protocol_num pa; i = n - proto_base_addr pfs in
    if n < proto_base_addr pfs \<or> proto_base_addr pfs + proto_max_num pfs < n
    then pa_find_protocol_format pa m = Some (-1, pa)
    else if n = proto_base_addr pfs + proto_max_num pfs
    then pa_check_protocol_num pa = Some 0 \<and> \<not> inside (table_block pfs) (table_cell pfs i)
    else pa_find_protocol_format pa m = (case T (unat i) of
      Some (hl, ps) \<Rightarrow> Some (0, pa\<lparr>pf_list_head_p := hl\<rparr>) | None \<Rightarrow> Some (-1, pa\<lparr>pf_list_head_p := NULL\<rparr>))"
proof -
  let ?n = "protocol_num pa" and ?b = "proto_base_addr pfs" and ?k = "proto_max_num pfs"
  have u: "unat (?b + ?k) = unat ?b + unat ?k" using assms(4) by (simp add: unat_word_ariths)
  have tb: "table_block pfs \<in> set (blocks m)" "4 * unat ?k < 2 ^ 32" "0 < unat ?k" using assms(3) by (simp_all add: fset_ok_def)
  consider "?n < ?b \<or> ?b + ?k < ?n" | "?n = ?b + ?k" "\<not> ?n < ?b" "\<not> ?b + ?k < ?n" | "?b \<le> ?n" "?n < ?b + ?k" by fastforce
  then show ?thesis
  proof cases
    case 1
    then show ?thesis using assms(1) by (auto simp: Let_def pa_find_protocol_format_def pa_check_protocol_num_def)
  next
    case 2
    have "\<not> inside (table_block pfs) (table_cell pfs ?k)"
    proof
      assume i: "inside (table_block pfs) (table_cell pfs ?k)"
      have "unat (list_head_p2 pfs) + 4 * unat ?k \<le> 2 ^ 32"
        using blocks_ok_good [OF assms(2) tb(1)] by (simp add: good_block_def table_block_def)
      moreover have "unat (4 * ?k) = 4 * unat ?k" using tb(2) by (simp add: unat_word_ariths)
      moreover have "0 < unat (list_head_p2 pfs)"
        using table_cell_facts(4) [OF assms(2) tb(1,3)] by (simp add: unat_gt_0)
      ultimately have "unat (table_cell pfs ?k) = unat (list_head_p2 pfs) + 4 * unat ?k \<or> unat (table_cell pfs ?k) = 0"
        by (cases "unat (list_head_p2 pfs) + 4 * unat ?k = 2 ^ 32") (simp_all add: table_cell_def unat_word_ariths)
      with i \<open>0 < unat (list_head_p2 pfs)\<close> show False by (auto simp: inside_def table_block_def)
    qed
    with 2 assms(1) show ?thesis by (simp add: Let_def pa_check_protocol_num_def)
  next
    case 3
    have "unat (?n - ?b) = unat ?n - unat ?b" using 3(1) by (simp add: unat_sub)
    then have "unat (?n - ?b) < unat ?k" using 3 u by (simp add: word_less_nat_alt word_le_nat_alt)
    from pa_find_protocol_format_spec [OF assms(1-3) 3(1) this assms(4)] 3 show ?thesis by (auto simp: Let_def)
  qed
qed

text \<open>A fresh format set for the numbers from 0x3000.\<close>

definition pfs0 :: format_set where
  "pfs0 = \<lparr>pfs_self = 0xC0000000, list_head_p2 = NULL, proto_total_num = 0, proto_max_num = 0, proto_base_addr = 0,
     pfs_allocator = al0\<rparr>"

lemma fresh_format_set:
  "\<exists>(m :: pmem) q. mem_env bump m \<and> (0xC0000000, 100) \<in> set (blocks m) \<and> q \<noteq> 0xC0000000 \<and>
     fset_ok m (pfs0\<lparr>proto_base_addr := 0x3000, list_head_p2 := q, proto_max_num := 100\<rparr>) Map.empty"
proof -
  have a: "kmalloc bump 100 pmem0 = (0xC0000000, pmem0\<lparr>ticks := Suc (ticks pmem0), blocks := [(0xC0000000, 100)]\<rparr>)" (is "_ = (_, ?m)")
    by (simp add: bump_defs pmem0_facts)
  note e = mem_env_kmalloc [OF pmem0_facts(1) a, simplified]
  have m: "sys_registered ?m" "kmalloc_ok bump" "mem_ok ?m" "sys_allocator (pfs_allocator pfs0)"
    using e(1) by (simp_all add: mem_env_def pfs0_def)
  have n: "0 < unat (100 :: u32)" "4 * unat (100 :: u32) < 2 ^ 32" by simp_all
  obtain m1 where b: "kmalloc bump (4 * unat (100 :: u32)) ?m = (0xC0000068, m1)" by (simp add: bump_defs)
  from init_proto_format_set_spec [OF m(1,4,2,3) n b, where base = "0x3000"] obtain m2 where
    r: "fset_ok m2 (pfs0\<lparr>proto_base_addr := 0x3000, list_head_p2 := 0xC0000068, proto_total_num := 0, proto_max_num := 100\<rparr>) Map.empty"
      "keeps {} ?m m2" by auto
  have "(0xC0000000, 100) \<in> set (blocks m2)" using keeps_blocks [OF r(2)] by auto
  moreover have "pfs0\<lparr>proto_base_addr := 0x3000, list_head_p2 := 0xC0000068, proto_total_num := 0, proto_max_num := 100\<rparr> =
    pfs0\<lparr>proto_base_addr := 0x3000, list_head_p2 := 0xC0000068, proto_max_num := 100\<rparr>" by (simp add: pfs0_def)
  ultimately show ?thesis using r(1) mem_env_keeps [OF e(1) r(2)]
    by (intro exI [of _ m2] exI [of _ "0xC0000068"]) simp
qed

definition pa_for :: "format_set \<Rightarrow> u32 \<Rightarrow> analyzer" where
  "pa_for pfs n = sample_pa\<lparr>pfs_p := Some pfs, protocol_num := n\<rparr>"

theorem find_format_range_witness:
  "\<exists>m pfs. pa_check_protocol_num (pa_for pfs 0x3064) = Some 0 \<and> \<not> inside (table_block pfs) (table_cell pfs 100) \<and>
     pa_find_protocol_format (pa_for pfs 0x3065) (m :: pmem) = Some (-1, pa_for pfs 0x3065)"
proof -
  obtain q and m :: pmem where f: "mem_ok m"
    "fset_ok m (pfs0\<lparr>proto_base_addr := 0x3000, list_head_p2 := q, proto_max_num := 100\<rparr>) Map.empty"
    using fresh_format_set by (auto simp: mem_env_def)
  let ?p = "pfs0\<lparr>proto_base_addr := 0x3000, list_head_p2 := q, proto_max_num := 100\<rparr>"
  have g: "pfs_p (pa_for ?p n) = Some ?p" "protocol_num (pa_for ?p n) = n" for n by (simp_all add: pa_for_def)
  have b: "unat (proto_base_addr ?p) + unat (proto_max_num ?p) < 2 ^ 32" by simp
  note r = find_format_range [OF g(1) f b]
  from r [of "0x3064"] r [of "0x3065"] show ?thesis unfolding g(2) Let_def
    by (intro exI [of _ m] exI [of _ ?p]) simp
qed

text \<open>C29. Destroying a format set of at most 255 cells ends and releases exactly the table, every
  format in it, and the set. With more cells, the 8-bit counter of the loop never reaches the
  end, and the call does not return.\<close>

theorem format_set_destroy:
  assumes "sys_registered m" and "mem_ok m" and "fset_ok m pfs T"
    and "(pfs_self pfs, n) \<in> set (blocks m)" and "(pfs_self pfs, n) \<notin> fset_owned pfs T"
  shows "if unat (proto_max_num pfs) \<le> 255
    then \<exists>m'. pfs_destroy_protocol_format_set pfs m = Some m' \<and> mem_ok m' \<and>
      blocks m' = without (insert (pfs_self pfs) (fst ` fset_owned pfs T)) (blocks m)
    else pfs_destroy_protocol_format_set pfs m = None"
proof (cases "unat (proto_max_num pfs) \<le> 255")
  case True
  from pfs_destroy_spec [OF assms(1-3) True assms(4,5)] True show ?thesis by simp
next
  case False
  then have "255 < proto_max_num pfs" by (simp add: word_less_nat_alt)
  moreover have "list_head_p2 pfs \<noteq> NULL"
    using table_cell_facts(4) [OF assms(2)] assms(3) by (auto simp: fset_ok_def)
  ultimately show ?thesis using False
    by (simp add: pfs_destroy_protocol_format_set_def pfs_destroy_from_diverges)
qed

theorem format_set_destroy_witness:
  "\<exists>m m' pfs. proto_max_num pfs = 100 \<and> pfs_destroy_protocol_format_set pfs (m :: pmem) = Some m' \<and>
     (0xC0000000, 100) \<in> set (blocks m) - set (blocks m')"
proof -
  obtain q and m :: pmem where f: "mem_env bump m" "(0xC0000000, 100) \<in> set (blocks m)" "q \<noteq> 0xC0000000"
    "fset_ok m (pfs0\<lparr>proto_base_addr := 0x3000, list_head_p2 := q, proto_max_num := 100\<rparr>) Map.empty"
    using fresh_format_set by blast
  let ?p = "pfs0\<lparr>proto_base_addr := 0x3000, list_head_p2 := q, proto_max_num := 100\<rparr>"
  have s: "sys_registered m" "mem_ok m" using f(1) by (simp_all add: mem_env_def)
  have p: "(pfs_self ?p, 100) \<in> set (blocks m)" "(pfs_self ?p, 100) \<notin> fset_owned ?p Map.empty"
    using f(2,3) by (auto simp: pfs0_def fset_owned_def table_block_def)
  from format_set_destroy [OF s f(4) p] obtain m' where
    "pfs_destroy_protocol_format_set ?p m = Some m'" "(0xC0000000, 100) \<notin> set (blocks m')"
    by (auto simp: pfs0_def)
  with f(2) show ?thesis by (intro exI [of _ m] exI [of _ m'] exI [of _ ?p]) simp
qed

end
