(* ===== verification/Kernel_Loops.thy ===== *)
theory Kernel_Loops
  imports Kernel_Hlist
begin

text \<open>
  The iteration macros of \<open>driver/include/libdata_structure/list.h\<close>. The loops over entries keep
  the address of the member \<open>list_head\<close>, as their tests do; the entry that a body gets lies
  \<open>off\<close> bytes before it. A loop that never ends is \<open>None\<close>, and so is a read of a link that is not
  in live memory, the one for the prefetch included.
\<close>

section \<open>Lists\<close>

text \<open>\<open>container_of\<close> and \<open>list_entry\<close>.\<close>

definition list_entry :: "addr \<Rightarrow> addr \<Rightarrow> addr" where
  "list_entry p off = p - off"

partial_function (option) each_from ::
  "(addr \<Rightarrow> 's \<Rightarrow> addr option) \<Rightarrow> (addr \<Rightarrow> 's \<Rightarrow> 's option) \<Rightarrow> addr \<Rightarrow> addr \<Rightarrow> 's \<Rightarrow> 's option" where
  "each_from rd body head pos s = do {
     pre \<leftarrow> rd pos s;
     if pos = head then Some s
     else do {
       s1 \<leftarrow> body pos s;
       nx \<leftarrow> rd pos s1;
       each_from rd body head nx s1 } }"

partial_function (option) plain_from ::
  "(addr \<Rightarrow> 's \<Rightarrow> addr option) \<Rightarrow> (addr \<Rightarrow> 's \<Rightarrow> 's option) \<Rightarrow> addr \<Rightarrow> addr \<Rightarrow> 's \<Rightarrow> 's option" where
  "plain_from rd body head pos s =
     (if pos = head then Some s
      else do {
        s1 \<leftarrow> body pos s;
        nx \<leftarrow> rd pos s1;
        plain_from rd body head nx s1 })"

declare each_from.simps [code] plain_from.simps [code]

type_synonym 'z body = "addr \<Rightarrow> 'z mem_scheme \<Rightarrow> 'z mem_scheme option"

definition list_for_each :: "'z body \<Rightarrow> addr \<Rightarrow> 'z mem_scheme \<Rightarrow> 'z mem_scheme option" where
  "list_for_each body head m = do { pos \<leftarrow> rd_next head m; each_from rd_next body head pos m }"

definition list_for_each_noprefetch :: "'z body \<Rightarrow> addr \<Rightarrow> 'z mem_scheme \<Rightarrow> 'z mem_scheme option" where
  "list_for_each_noprefetch body head m = do { pos \<leftarrow> rd_next head m; plain_from rd_next body head pos m }"

definition list_for_each_prev :: "'z body \<Rightarrow> addr \<Rightarrow> 'z mem_scheme \<Rightarrow> 'z mem_scheme option" where
  "list_for_each_prev body head m = do { pos \<leftarrow> rd_prev head m; each_from rd_prev body head pos m }"

text \<open>The loops over entries.\<close>

definition at_entry :: "addr \<Rightarrow> 'z body \<Rightarrow> 'z body" where
  "at_entry off body = (\<lambda>p. body (list_entry p off))"

definition list_for_each_entry :: "addr \<Rightarrow> 'z body \<Rightarrow> addr \<Rightarrow> 'z mem_scheme \<Rightarrow> 'z mem_scheme option" where
  "list_for_each_entry off body head m = do { pos \<leftarrow> rd_next head m; each_from rd_next (at_entry off body) head pos m }"

definition list_for_each_entry_reverse :: "addr \<Rightarrow> 'z body \<Rightarrow> addr \<Rightarrow> 'z mem_scheme \<Rightarrow> 'z mem_scheme option" where
  "list_for_each_entry_reverse off body head m = do { pos \<leftarrow> rd_prev head m; each_from rd_prev (at_entry off body) head pos m }"

definition list_prepare_entry :: "addr \<Rightarrow> addr \<Rightarrow> addr \<Rightarrow> addr" where
  "list_prepare_entry off pos head = (if pos \<noteq> NULL then pos else list_entry head off)"

text \<open>\<open>pos\<close> is the address of the member of the entry to start from.\<close>

definition list_for_each_entry_continue :: "addr \<Rightarrow> 'z body \<Rightarrow> addr \<Rightarrow> addr \<Rightarrow> 'z mem_scheme \<Rightarrow> 'z mem_scheme option" where
  "list_for_each_entry_continue off body pos head m = do { nx \<leftarrow> rd_next pos m; each_from rd_next (at_entry off body) head nx m }"

definition list_for_each_entry_from :: "addr \<Rightarrow> 'z body \<Rightarrow> addr \<Rightarrow> addr \<Rightarrow> 'z mem_scheme \<Rightarrow> 'z mem_scheme option" where
  "list_for_each_entry_from off body pos head m = each_from rd_next (at_entry off body) head pos m"

definition list_for_each_entry_safe :: "addr \<Rightarrow> 'z body \<Rightarrow> addr \<Rightarrow> 'z mem_scheme \<Rightarrow> 'z mem_scheme option" where
  "list_for_each_entry_safe off body head m = do {
     pos \<leftarrow> rd_next head m;
     n \<leftarrow> rd_next pos m;
     for_each_safe_from rd_next (at_entry off body) head pos n m }"

definition list_for_each_entry_safe_continue ::
  "addr \<Rightarrow> 'z body \<Rightarrow> addr \<Rightarrow> addr \<Rightarrow> 'z mem_scheme \<Rightarrow> 'z mem_scheme option" where
  "list_for_each_entry_safe_continue off body pos0 head m = do {
     pos \<leftarrow> rd_next pos0 m;
     n \<leftarrow> rd_next pos m;
     for_each_safe_from rd_next (at_entry off body) head pos n m }"

definition list_for_each_entry_safe_from ::
  "addr \<Rightarrow> 'z body \<Rightarrow> addr \<Rightarrow> addr \<Rightarrow> 'z mem_scheme \<Rightarrow> 'z mem_scheme option" where
  "list_for_each_entry_safe_from off body pos head m = do {
     n \<leftarrow> rd_next pos m;
     for_each_safe_from rd_next (at_entry off body) head pos n m }"

definition list_for_each_entry_safe_reverse :: "addr \<Rightarrow> 'z body \<Rightarrow> addr \<Rightarrow> 'z mem_scheme \<Rightarrow> 'z mem_scheme option" where
  "list_for_each_entry_safe_reverse off body head m = do {
     pos \<leftarrow> rd_prev head m;
     n \<leftarrow> rd_prev pos m;
     for_each_safe_from rd_prev (at_entry off body) head pos n m }"

text \<open>
  The RCU loops differ in the \<open>rcu_dereference\<close> of the position, which reads it as it is here;
  \<open>list_for_each_safe_rcu\<close> reads the next position in its test, before the body.
\<close>

definition list_for_each_rcu :: "'z body \<Rightarrow> addr \<Rightarrow> 'z mem_scheme \<Rightarrow> 'z mem_scheme option" where
  "list_for_each_rcu body head m = do { pos \<leftarrow> rd_next head m; each_from rd_next body head pos m }"

definition list_for_each_rcu_noprefetch :: "'z body \<Rightarrow> addr \<Rightarrow> 'z mem_scheme \<Rightarrow> 'z mem_scheme option" where
  "list_for_each_rcu_noprefetch body head m = do { pos \<leftarrow> rd_next head m; plain_from rd_next body head pos m }"

partial_function (option) safe_rcu_from :: "'z body \<Rightarrow> addr \<Rightarrow> addr \<Rightarrow> 'z mem_scheme \<Rightarrow> 'z mem_scheme option" where
  "safe_rcu_from body head pos m = do {
     n \<leftarrow> rd_next pos m;
     if pos = head then Some m
     else do { m1 \<leftarrow> body pos m; safe_rcu_from body head n m1 } }"

declare safe_rcu_from.simps [code]

definition list_for_each_safe_rcu :: "'z body \<Rightarrow> addr \<Rightarrow> 'z mem_scheme \<Rightarrow> 'z mem_scheme option" where
  "list_for_each_safe_rcu body head m = do { pos \<leftarrow> rd_next head m; safe_rcu_from body head pos m }"

definition list_for_each_entry_rcu :: "addr \<Rightarrow> 'z body \<Rightarrow> addr \<Rightarrow> 'z mem_scheme \<Rightarrow> 'z mem_scheme option" where
  "list_for_each_entry_rcu off body head m = do { pos \<leftarrow> rd_next head m; each_from rd_next (at_entry off body) head pos m }"

definition list_for_each_continue_rcu :: "'z body \<Rightarrow> addr \<Rightarrow> addr \<Rightarrow> 'z mem_scheme \<Rightarrow> 'z mem_scheme option" where
  "list_for_each_continue_rcu body pos head m = do { nx \<leftarrow> rd_next pos m; each_from rd_next body head nx m }"

section \<open>What the loops over a list visit\<close>

text \<open>The reads of a ring: from the head along \<open>xs\<close> and back.\<close>

definition ring :: "(addr \<Rightarrow> 's \<Rightarrow> addr option) \<Rightarrow> addr \<Rightarrow> addr list \<Rightarrow> 's \<Rightarrow> bool" where
  "ring rd h xs s = (h \<notin> set xs \<and> rd h s = Some (hd (xs @ [h])) \<and>
     (\<forall>us y ys. xs = us @ y # ys \<longrightarrow> rd y s = Some (hd (ys @ [h]))))"

text \<open>A property that holds through a loop and gives the reads.\<close>

definition loop_inv :: "('s \<Rightarrow> bool) \<Rightarrow> (addr \<Rightarrow> 's \<Rightarrow> addr option) \<Rightarrow> addr \<Rightarrow> addr list \<Rightarrow> (addr \<Rightarrow> 's \<Rightarrow> 's option) \<Rightarrow> bool" where
  "loop_inv I rd h xs body = ((\<forall>s. I s \<longrightarrow> ring rd h xs s) \<and> (\<forall>x s t. x \<in> set xs \<longrightarrow> I s \<longrightarrow> body x s = Some t \<longrightarrow> I t))"

lemma loop_invD: "loop_inv I rd h xs body \<Longrightarrow> I s \<Longrightarrow> ring rd h xs s"
    "loop_inv I rd h xs body \<Longrightarrow> I s \<Longrightarrow> x \<in> set xs \<Longrightarrow> body x s = Some t \<Longrightarrow> I t"
  unfolding loop_inv_def by blast+

lemma ring_step: "ring rd h (us @ y # ys) s \<Longrightarrow> rd y s = Some (hd (ys @ [h]))"
  and ring_head: "ring rd h xs s \<Longrightarrow> h \<notin> set xs \<and> rd h s = Some (hd (xs @ [h]))"
  by (auto simp: ring_def)

lemma ring_pos: "ring rd h (us @ ys) s \<Longrightarrow> \<exists>v. rd (hd (ys @ [h])) s = Some v"
  by (cases ys) (auto dest: ring_head ring_step)

lemma each_from_ring:
  assumes k: "loop_inv I rd h xs body"
  shows "I s \<Longrightarrow> xs = us @ ys \<Longrightarrow> each_from rd body h (hd (ys @ [h])) s = foldM body ys s"
proof (induction ys arbitrary: us s)
  case Nil
  then obtain v where "rd h s = Some v" using ring_pos [of rd h us "[]" s] loop_invD(1) [OF k] by auto
  then show ?case by (subst each_from.simps) simp
next
  case (Cons y ys)
  note rg = loop_invD(1) [OF k]
  have y: "y \<noteq> h" "y \<in> set xs" using Cons.prems(2) ring_head [OF rg [OF Cons.prems(1)]] by auto
  have r: "rd y s = Some (hd (ys @ [h]))" using rg [OF Cons.prems(1)] Cons.prems(2) ring_step by metis
  show ?case
  proof (cases "body y s")
    case None
    with y r show ?thesis by (subst each_from.simps) simp
  next
    case (Some t)
    then have t: "I t" by (rule loop_invD(2) [OF k Cons.prems(1) y(2)])
    then have "rd y t = Some (hd (ys @ [h]))" using rg [OF t] Cons.prems(2) ring_step by metis
    moreover have "each_from rd body h (hd (ys @ [h])) t = foldM body ys t"
      by (rule Cons.IH [OF t, of "us @ [y]"]) (use Cons.prems(2) in simp)
    ultimately show ?thesis using y r Some by (subst each_from.simps) simp
  qed
qed

lemma plain_from_ring:
  assumes k: "loop_inv I rd h xs body"
  shows "I s \<Longrightarrow> xs = us @ ys \<Longrightarrow> plain_from rd body h (hd (ys @ [h])) s = foldM body ys s"
proof (induction ys arbitrary: us s)
  case Nil
  show ?case by (subst plain_from.simps) simp
next
  case (Cons y ys)
  note rg = loop_invD(1) [OF k]
  have y: "y \<noteq> h" "y \<in> set xs" using Cons.prems(2) ring_head [OF rg [OF Cons.prems(1)]] by auto
  show ?case
  proof (cases "body y s")
    case None
    with y show ?thesis by (subst plain_from.simps) simp
  next
    case (Some t)
    then have t: "I t" by (rule loop_invD(2) [OF k Cons.prems(1) y(2)])
    then have "rd y t = Some (hd (ys @ [h]))" using rg [OF t] Cons.prems(2) ring_step by metis
    moreover have "plain_from rd body h (hd (ys @ [h])) t = foldM body ys t"
      by (rule Cons.IH [OF t, of "us @ [y]"]) (use Cons.prems(2) in simp)
    ultimately show ?thesis using y Some by (subst plain_from.simps) simp
  qed
qed

lemma safe_rcu_from_ring:
  assumes k: "loop_inv I rd_next h xs body"
  shows "I m \<Longrightarrow> xs = us @ ys \<Longrightarrow> safe_rcu_from body h (hd (ys @ [h])) m = foldM body ys m"
proof (induction ys arbitrary: us m)
  case Nil
  then obtain v where "rd_next h m = Some v" using ring_pos [of rd_next h us "[]" m] loop_invD(1) [OF k] by auto
  then show ?case by (subst safe_rcu_from.simps) simp
next
  case (Cons y ys)
  note rg = loop_invD(1) [OF k]
  have y: "y \<noteq> h" "y \<in> set xs" using Cons.prems(2) ring_head [OF rg [OF Cons.prems(1)]] by auto
  have r: "rd_next y m = Some (hd (ys @ [h]))" using rg [OF Cons.prems(1)] Cons.prems(2) ring_step by metis
  show ?case
  proof (cases "body y m")
    case None
    with y r show ?thesis by (subst safe_rcu_from.simps) simp
  next
    case (Some t)
    then have t: "I t" by (rule loop_invD(2) [OF k Cons.prems(1) y(2)])
    have "safe_rcu_from body h (hd (ys @ [h])) t = foldM body ys t"
      by (rule Cons.IH [OF t, of "us @ [y]"]) (use Cons.prems(2) in simp)
    then show ?thesis using y r Some by (subst safe_rcu_from.simps) simp
  qed
qed

lemma safe_from_ring:
  assumes k: "loop_inv I rd h xs body" and r: "I s" and x: "xs = us @ ys"
    and n: "\<And>y zs. ys = y # zs \<Longrightarrow> n = hd (zs @ [h])"
  shows "for_each_safe_from rd body h (hd (ys @ [h])) n s = foldM body ys s"
proof (rule for_each_safe_from_foldM [where I = "\<lambda>ys s. I s \<and> (\<exists>us. xs = us @ ys)"])
  show "I s \<and> (\<exists>us. xs = us @ ys)" using r x by blast
  show "h \<notin> set ys" using ring_head [OF loop_invD(1) [OF k r]] x by simp
  show "I t \<and> (\<exists>us. xs = us @ ys)"
    if "I s \<and> (\<exists>us. xs = us @ y # ys)" "body y s = Some t" for y ys s t
  proof -
    from that(1) obtain us where "xs = us @ y # ys" by blast
    then have "y \<in> set xs" "xs = (us @ [y]) @ ys" by auto
    with loop_invD(2) [OF k] that show ?thesis by blast
  qed
  show "rd y s = Some (hd (ys @ [h]))" if "I s \<and> (\<exists>us. xs = us @ y # ys)" for y ys s
    using that ring_step loop_invD(1) [OF k] by metis
  show "rd h s \<noteq> None" if "I s \<and> (\<exists>us. xs = us @ [])" for s using that ring_head [OF loop_invD(1) [OF k]] by fastforce
qed (rule n)

text \<open>A body that gets the entries of the list and leaves it linked.\<close>

definition keeps_list :: "addr \<Rightarrow> addr \<Rightarrow> addr list \<Rightarrow> 'z body \<Rightarrow> bool" where
  "keeps_list off h xs body = (\<forall>x m m'. x \<in> set xs \<longrightarrow> dlist m h xs \<longrightarrow> body (list_entry x off) m = Some m' \<longrightarrow> dlist m' h xs)"

lemma dlist_ring:
  assumes "dlist m h xs"
  shows "ring rd_next h xs m" and "ring rd_prev h (rev xs) m"
proof -
  have h: "h \<notin> set xs" using assms by (simp add: dlist_def)
  show "ring rd_next h xs m" using h dlist_reads [OF assms] by (simp add: ring_def)
  have "rd_prev h m = Some (hd (rev xs @ [h]))"
  proof (cases xs rule: rev_cases)
    case Nil
    with assms show ?thesis by (simp add: dlist_def rd_prev_def)
  next
    case (snoc us y)
    from assms have "links m ((h # us) @ y # [h])" by (simp add: snoc dlist_def)
    then show ?thesis using links_adjacent [of m "h # us" y h "[]"] by (simp add: rd_prev_def snoc)
  qed
  moreover have "rd_prev y m = Some (hd (ys @ [h]))" if "rev xs = us @ y # ys" for us y ys
  proof -
    from that have "xs = rev ys @ y # rev us" by (metis append.assoc append_Cons append_Nil rev.simps(2) rev_append rev_rev_ident)
    with assms list_unlink have "rd_prev y m = Some (last (h # rev ys))" by blast
    moreover have "last (h # rev ys) = hd (ys @ [h])" by (cases ys) simp_all
    ultimately show ?thesis by simp
  qed
  ultimately show "ring rd_prev h (rev xs) m" using h by (simp add: ring_def)
qed

lemma keeps_list_inv:
  assumes "keeps_list off h xs body"
  shows "loop_inv (\<lambda>m. dlist m h xs) rd_next h xs (at_entry off body)"
    and "loop_inv (\<lambda>m. dlist m h xs) rd_prev h (rev xs) (at_entry off body)"
  using assms dlist_ring unfolding keeps_list_def loop_inv_def at_entry_def by auto

lemma at_entry_0 [simp]: "at_entry 0 body = body"
  by (simp add: at_entry_def list_entry_def)

lemma safe_loop:
  assumes k: "loop_inv I rd h zs body" and i: "I m" and z: "zs = us @ ys"
  shows "do { n \<leftarrow> rd (hd (ys @ [h])) m; for_each_safe_from rd body h (hd (ys @ [h])) n m } = foldM body ys m"
proof -
  have r: "ring rd h zs m" by (rule loop_invD(1) [OF k i])
  obtain n where n: "rd (hd (ys @ [h])) m = Some n" using ring_pos [of rd h us ys m] r z by auto
  have "for_each_safe_from rd body h (hd (ys @ [h])) n m = foldM body ys m"
  proof (rule safe_from_ring [OF k i z])
    show "n = hd (ts @ [h])" if "ys = y # ts" for y ts using n r ring_step [of rd h us y ts m] z that by simp
  qed
  then show ?thesis using n by simp
qed

lemma whole_list_loops:
  assumes l: "dlist m h xs" and b: "keeps_list off h xs body"
  shows "list_for_each_entry off body h m = foldM (at_entry off body) xs m"
    and "list_for_each_entry_rcu off body h m = foldM (at_entry off body) xs m"
    and "list_for_each_entry_safe off body h m = foldM (at_entry off body) xs m"
    and "list_for_each_entry_reverse off body h m = foldM (at_entry off body) (rev xs) m"
    and "list_for_each_entry_safe_reverse off body h m = foldM (at_entry off body) (rev xs) m"
proof -
  note k = keeps_list_inv [OF b] and r = dlist_ring [OF l]
  show "list_for_each_entry off body h m = foldM (at_entry off body) xs m"
    "list_for_each_entry_rcu off body h m = foldM (at_entry off body) xs m"
    using ring_head [OF r(1)] each_from_ring [OF k(1) l, of "[]" xs]
    by (simp_all add: list_for_each_entry_def list_for_each_entry_rcu_def)
  show "list_for_each_entry_reverse off body h m = foldM (at_entry off body) (rev xs) m"
    using ring_head [OF r(2)] each_from_ring [OF k(2) l, of "[]" "rev xs"] by (simp add: list_for_each_entry_reverse_def)
  show "list_for_each_entry_safe off body h m = foldM (at_entry off body) xs m"
    using ring_head [OF r(1)] safe_loop [OF k(1) l, of "[]" xs] by (simp add: list_for_each_entry_safe_def)
  show "list_for_each_entry_safe_reverse off body h m = foldM (at_entry off body) (rev xs) m"
    using ring_head [OF r(2)] safe_loop [OF k(2) l, of "[]" "rev xs"] by (simp add: list_for_each_entry_safe_reverse_def)
qed

lemma list_node_loops:
  assumes l: "dlist m h xs" and b: "keeps_list 0 h xs body"
  shows "list_for_each body h m = foldM body xs m" and "list_for_each_rcu body h m = foldM body xs m"
    and "list_for_each_noprefetch body h m = foldM body xs m" and "list_for_each_rcu_noprefetch body h m = foldM body xs m"
    and "list_for_each_safe_rcu body h m = foldM body xs m" and "list_for_each_prev body h m = foldM body (rev xs) m"
proof -
  note k = keeps_list_inv [OF b, unfolded at_entry_0] and r = dlist_ring [OF l]
  show "list_for_each body h m = foldM body xs m" "list_for_each_rcu body h m = foldM body xs m"
    using ring_head [OF r(1)] each_from_ring [OF k(1) l, of "[]" xs] by (simp_all add: list_for_each_def list_for_each_rcu_def)
  show "list_for_each_noprefetch body h m = foldM body xs m" "list_for_each_rcu_noprefetch body h m = foldM body xs m"
    using ring_head [OF r(1)] plain_from_ring [OF k(1) l, of "[]" xs]
    by (simp_all add: list_for_each_noprefetch_def list_for_each_rcu_noprefetch_def)
  show "list_for_each_safe_rcu body h m = foldM body xs m"
    using ring_head [OF r(1)] safe_rcu_from_ring [OF k(1) l, of "[]" xs] by (simp add: list_for_each_safe_rcu_def)
  show "list_for_each_prev body h m = foldM body (rev xs) m"
    using ring_head [OF r(2)] each_from_ring [OF k(2) l, of "[]" "rev xs"] by (simp add: list_for_each_prev_def)
qed

lemma rest_of_list_loops:
  assumes l: "dlist m h (us @ y # ys)" and b: "keeps_list off h (us @ y # ys) body"
  shows "list_for_each_entry_from off body y h m = foldM (at_entry off body) (y # ys) m"
    and "list_for_each_entry_safe_from off body y h m = foldM (at_entry off body) (y # ys) m"
    and "list_for_each_entry_continue off body y h m = foldM (at_entry off body) ys m"
    and "list_for_each_entry_safe_continue off body y h m = foldM (at_entry off body) ys m"
proof -
  let ?b = "at_entry off body"
  note k = keeps_list_inv(1) [OF b]
  have y: "rd_next y m = Some (hd (ys @ [h]))" using ring_step [OF dlist_ring(1) [OF l]] .
  have s: "us @ y # ys = (us @ [y]) @ ys" by simp
  show "list_for_each_entry_from off body y h m = foldM ?b (y # ys) m"
    using each_from_ring [OF k l refl] by (simp add: list_for_each_entry_from_def)
  show "list_for_each_entry_safe_from off body y h m = foldM ?b (y # ys) m"
    using safe_loop [OF k l refl] by (simp add: list_for_each_entry_safe_from_def)
  show "list_for_each_entry_continue off body y h m = foldM ?b ys m"
    using y each_from_ring [OF k l s] by (simp add: list_for_each_entry_continue_def)
  show "list_for_each_entry_safe_continue off body y h m = foldM ?b ys m"
    using y safe_loop [OF k l s] by (simp add: list_for_each_entry_safe_continue_def)
qed

text \<open>C26. The iteration macros over the entries of a list, with a body that leaves the list linked,
  run the body once for every entry and in order: from the front, from the back for the reverse
  ones, and for those that continue from the given entry or from the one after it.\<close>

theorem list_loops_visit_all:
  assumes "dlist m h (us @ y # ys)" and "keeps_list off h (us @ y # ys) body"
  shows "list_for_each_entry off body h m = foldM (at_entry off body) (us @ y # ys) m \<and>
    list_for_each_entry_safe off body h m = foldM (at_entry off body) (us @ y # ys) m \<and>
    list_for_each_entry_rcu off body h m = foldM (at_entry off body) (us @ y # ys) m \<and>
    list_for_each_entry_reverse off body h m = foldM (at_entry off body) (rev ys @ y # rev us) m \<and>
    list_for_each_entry_safe_reverse off body h m = foldM (at_entry off body) (rev ys @ y # rev us) m \<and>
    list_for_each_entry_from off body y h m = foldM (at_entry off body) (y # ys) m \<and>
    list_for_each_entry_safe_from off body y h m = foldM (at_entry off body) (y # ys) m \<and>
    list_for_each_entry_continue off body y h m = foldM (at_entry off body) ys m \<and>
    list_for_each_entry_safe_continue off body y h m = foldM (at_entry off body) ys m"
  using whole_list_loops [OF assms] rest_of_list_loops [OF assms] by simp

text \<open>The instance: a list of one entry, whose member lies 8 bytes inside it, and a body that counts.\<close>

theorem list_loops_visit_all_witness:
  "list_for_each_entry_reverse 8 (\<lambda>p m. if p = 0xC0000000 then Some (m\<lparr>ticks := ticks m + 1\<rparr>) else None) 0xC0000000 two_lists =
     Some (two_lists\<lparr>ticks := 1\<rparr>)"
proof -
  let ?b = "\<lambda>p m. if p = 0xC0000000 then Some (m\<lparr>ticks := ticks m + 1\<rparr>) else (None :: mem option)"
  have "dlist two_lists 0xC0000000 ([] @ 0xC0000008 # [])"
    by (simp add: dlist_def two_lists_def valid_def sizeof_list_head_def)
  moreover have "keeps_list 8 0xC0000000 ([] @ 0xC0000008 # []) ?b"
    by (auto simp: keeps_list_def dlist_def valid_def split: if_splits)
  ultimately have "list_for_each_entry_reverse 8 ?b 0xC0000000 two_lists = foldM (at_entry 8 ?b) (rev [] @ 0xC0000008 # rev []) two_lists"
    using list_loops_visit_all [where m = two_lists and h = "0xC0000000" and us = "[]" and y = "0xC0000008" and ys = "[]"
        and off = 8 and body = ?b] by blast
  then show ?thesis by (simp add: at_entry_def list_entry_def two_lists_def)
qed

section \<open>Chains\<close>

partial_function (option) hlist_each_from :: "'z body \<Rightarrow> addr \<Rightarrow> 'z mem_scheme \<Rightarrow> 'z mem_scheme option" where
  "hlist_each_from body pos m =
     (if pos = NULL then Some m
      else do {
        pre \<leftarrow> rd_hnext pos m;
        m1 \<leftarrow> body pos m;
        nx \<leftarrow> rd_hnext pos m1;
        hlist_each_from body nx m1 })"

partial_function (option) hlist_safe_from :: "'z body \<Rightarrow> addr \<Rightarrow> 'z mem_scheme \<Rightarrow> 'z mem_scheme option" where
  "hlist_safe_from body pos m =
     (if pos = NULL then Some m
      else do {
        n \<leftarrow> rd_hnext pos m;
        m1 \<leftarrow> body pos m;
        hlist_safe_from body n m1 })"

declare hlist_each_from.simps [code] hlist_safe_from.simps [code]

definition hlist_for_each :: "'z body \<Rightarrow> addr \<Rightarrow> 'z mem_scheme \<Rightarrow> 'z mem_scheme option" where
  "hlist_for_each body head m = do { pos \<leftarrow> rd_first head m; hlist_each_from body pos m }"

definition hlist_for_each_entry :: "addr \<Rightarrow> 'z body \<Rightarrow> addr \<Rightarrow> 'z mem_scheme \<Rightarrow> 'z mem_scheme option" where
  "hlist_for_each_entry off body head m = do { pos \<leftarrow> rd_first head m; hlist_each_from (at_entry off body) pos m }"

definition hlist_for_each_entry_continue :: "addr \<Rightarrow> 'z body \<Rightarrow> addr \<Rightarrow> 'z mem_scheme \<Rightarrow> 'z mem_scheme option" where
  "hlist_for_each_entry_continue off body pos m = do { nx \<leftarrow> rd_hnext pos m; hlist_each_from (at_entry off body) nx m }"

definition hlist_for_each_entry_from :: "addr \<Rightarrow> 'z body \<Rightarrow> addr \<Rightarrow> 'z mem_scheme \<Rightarrow> 'z mem_scheme option" where
  "hlist_for_each_entry_from off body pos m = hlist_each_from (at_entry off body) pos m"

definition hlist_for_each_entry_safe :: "addr \<Rightarrow> 'z body \<Rightarrow> addr \<Rightarrow> 'z mem_scheme \<Rightarrow> 'z mem_scheme option" where
  "hlist_for_each_entry_safe off body head m = do { pos \<leftarrow> rd_first head m; hlist_safe_from (at_entry off body) pos m }"

definition hlist_for_each_entry_rcu :: "addr \<Rightarrow> 'z body \<Rightarrow> addr \<Rightarrow> 'z mem_scheme \<Rightarrow> 'z mem_scheme option" where
  "hlist_for_each_entry_rcu off body head m = do { pos \<leftarrow> rd_first head m; hlist_each_from (at_entry off body) pos m }"

definition first_in :: "addr list \<Rightarrow> addr" where
  "first_in ys = (case ys of [] \<Rightarrow> NULL | y # _ \<Rightarrow> y)"

definition keeps_chain :: "addr \<Rightarrow> addr list \<Rightarrow> 'z body \<Rightarrow> bool" where
  "keeps_chain h xs body = (\<forall>x m m'. x \<in> set xs \<longrightarrow> hlist m h xs \<longrightarrow> body x m = Some m' \<longrightarrow> hlist m' h xs)"

lemma chain_read: "hlist m h (us @ y # ys) \<Longrightarrow> y \<noteq> NULL \<and> rd_hnext y m = Some (first_in ys)"
  using hlist_next [of m h us y ys] hlist_nodes [of m h "us @ y # ys" y] by (simp add: rd_hnext_def first_in_def)

lemma hlist_from_chain:
  assumes "keeps_chain h xs body"
  shows "hlist m h xs \<Longrightarrow> xs = us @ ys \<Longrightarrow>
    hlist_each_from body (first_in ys) m = foldM body ys m \<and> hlist_safe_from body (first_in ys) m = foldM body ys m"
proof (induction ys arbitrary: us m)
  case Nil
  show ?case by (simp add: hlist_each_from.simps hlist_safe_from.simps first_in_def)
next
  case (Cons y ys)
  from chain_read [of m h us y ys] Cons.prems have y: "y \<noteq> NULL" "rd_hnext y m = Some (first_in ys)" by auto
  have p: "first_in (y # ys) = y" by (simp add: first_in_def)
  show ?case
  proof (cases "body y m")
    case None
    with y show ?thesis unfolding p by (simp add: hlist_each_from.simps [of body y] hlist_safe_from.simps [of body y])
  next
    case (Some t)
    have t: "hlist t h xs" using assms Some Cons.prems unfolding keeps_chain_def by auto
    with chain_read [of t h us y ys] Cons.prems(2) have "rd_hnext y t = Some (first_in ys)" by simp
    moreover have "xs = (us @ [y]) @ ys" using Cons.prems(2) by simp
    note Cons.IH [OF t this]
    ultimately show ?thesis
      using y Some unfolding p by (simp add: hlist_each_from.simps [of body y] hlist_safe_from.simps [of body y])
  qed
qed

lemma chain_loops:
  assumes l: "hlist m h xs" and b: "keeps_chain h xs (at_entry off body)"
  shows "hlist_for_each_entry off body h m = foldM (at_entry off body) xs m"
    and "hlist_for_each_entry_rcu off body h m = foldM (at_entry off body) xs m"
    and "hlist_for_each_entry_safe off body h m = foldM (at_entry off body) xs m"
    and "xs = us @ y # ys \<Longrightarrow> hlist_for_each_entry_from off body y m = foldM (at_entry off body) (y # ys) m"
    and "xs = us @ y # ys \<Longrightarrow> hlist_for_each_entry_continue off body y m = foldM (at_entry off body) ys m"
proof -
  have f: "rd_first h m = Some (first_in xs)"
    using hlist_first [OF l] hlist_head_valid [OF l] by (simp add: rd_first_def first_in_def)
  note c = hlist_from_chain [OF b l]
  show "hlist_for_each_entry off body h m = foldM (at_entry off body) xs m"
    "hlist_for_each_entry_rcu off body h m = foldM (at_entry off body) xs m"
    "hlist_for_each_entry_safe off body h m = foldM (at_entry off body) xs m"
    using f c [of "[]" xs]
    by (simp_all add: hlist_for_each_entry_def hlist_for_each_entry_rcu_def hlist_for_each_entry_safe_def)
  show "hlist_for_each_entry_from off body y m = foldM (at_entry off body) (y # ys) m" if "xs = us @ y # ys"
    using c [OF that] by (simp add: hlist_for_each_entry_from_def first_in_def)
  show "hlist_for_each_entry_continue off body y m = foldM (at_entry off body) ys m" if x: "xs = us @ y # ys"
  proof -
    have "xs = (us @ [y]) @ ys" using x by simp
    from c [OF this] chain_read [OF l [unfolded x]] show ?thesis by (simp add: hlist_for_each_entry_continue_def)
  qed
qed

end
