(* ===== verification/Kernel_Rcu.thy ===== *)
theory Kernel_Rcu
  imports Kernel_Hlist
begin

text \<open>
  The RCU variants of \<open>driver/include/libdata_structure/list.h\<close>: updates that a reader may
  race with. An update is a sequence of single writes; a reader follows the forward links, one
  read at a time, and the two are interleaved. Memory is sequentially consistent here, so that
  the barrier \<open>smp_wmb\<close> has nothing left to order; the order of the writes is that of the code.
\<close>

section \<open>Writers and readers\<close>

type_synonym 'z action = "'z mem_scheme \<Rightarrow> 'z mem_scheme option"

definition run :: "'z action list \<Rightarrow> 'z action" where
  "run as m = foldM (\<lambda>a m. a m) as m"

definition smp_wmb :: "'z action" where
  "smp_wmb m = Some m"

text \<open>
  The reader of \<open>list_for_each_rcu\<close> and \<open>hlist_for_each_entry_rcu\<close>: it may begin at any moment, before,
  during or after the update. Its position is \<open>None\<close> as long as it has not begun; then it reads the link
  of the head with \<open>start\<close>. From then on it stands at a node, has visited the nodes \<open>vs\<close>, and goes on with
  \<open>rd\<close>, which reads the forward link, until it is at \<open>stop\<close>.
\<close>

type_synonym 'z config = "'z action list \<times> 'z mem_scheme \<times> addr option \<times> addr list"

inductive rcu_step ::
  "(addr \<Rightarrow> 'z mem_scheme \<Rightarrow> addr option) \<Rightarrow> ('z mem_scheme \<Rightarrow> addr option) \<Rightarrow> addr \<Rightarrow> 'z config \<Rightarrow> 'z config \<Rightarrow> bool"
  for rd start stop where
  writer: "a m = Some m' \<Longrightarrow> rcu_step rd start stop (a # as, m, pos, vs) (as, m', pos, vs)"
| enter: "start m = Some p \<Longrightarrow> rcu_step rd start stop (as, m, None, vs) (as, m, Some p, vs)"
| reader: "p \<noteq> stop \<Longrightarrow> rd p m = Some q \<Longrightarrow> rcu_step rd start stop (as, m, Some p, vs) (as, m, Some q, vs @ [p])"

lemma rcu_step_cases [consumes 1, case_names writer enter reader]:
  assumes "rcu_step rd start stop (as, m, pos, vs) (as', m', pos', vs')"
  obtains a where "as = a # as'" "a m = Some m'" "pos' = pos" "vs' = vs"
    | p where "pos = None" "start m = Some p" "pos' = Some p" "as' = as" "m' = m" "vs' = vs"
    | p q where "pos = Some p" "p \<noteq> stop" "rd p m = Some q" "pos' = Some q" "as' = as" "m' = m" "vs' = vs @ [p]"
  using assms by (cases rule: rcu_step.cases) auto

text \<open>The nodes that a reader has before it when the writer rests.\<close>

fun walk :: "(addr \<Rightarrow> 'z mem_scheme \<Rightarrow> addr option) \<Rightarrow> addr \<Rightarrow> 'z mem_scheme \<Rightarrow> addr \<Rightarrow> addr list \<Rightarrow> bool" where
  "walk rd stop m pos [] = (pos = stop)"
| "walk rd stop m pos (z # zs) =
     (pos = z \<and> z \<noteq> stop \<and> (case rd z m of None \<Rightarrow> False | Some n \<Rightarrow> walk rd stop m n zs))"

definition to_go ::
  "(addr \<Rightarrow> 'z mem_scheme \<Rightarrow> addr option) \<Rightarrow> ('z mem_scheme \<Rightarrow> addr option) \<Rightarrow> addr \<Rightarrow> 'z mem_scheme \<Rightarrow> addr option \<Rightarrow>
     addr list \<Rightarrow> bool" where
  "to_go rd start stop m pos zs =
     (case (case pos of None \<Rightarrow> start m | Some p \<Rightarrow> Some p) of None \<Rightarrow> False | Some p \<Rightarrow> walk rd stop m p zs)"

lemma to_go_simps [simp]:
  "to_go rd start stop m (Some p) zs = walk rd stop m p zs"
  "start m = Some p \<Longrightarrow> to_go rd start stop m None zs = walk rd stop m p zs"
  by (simp_all add: to_go_def)

lemma to_go_None: "to_go rd start stop m None zs \<Longrightarrow> \<exists>p. start m = Some p \<and> walk rd stop m p zs"
  by (auto simp: to_go_def split: option.splits)

section \<open>One link decides\<close>

lemma run_Nil [simp]: "run [] m = Some m"
  and run_Cons: "run (a # as) m = do { m1 \<leftarrow> a m; run as m1 }"
  and run_append: "run (as @ bs) m = do { m1 \<leftarrow> run as m; run bs m1 }"
  by (simp_all add: run_def foldM_append)

lemma walk_cong: "(\<And>z. z \<in> set zs \<Longrightarrow> rd z m' = rd z m) \<Longrightarrow> walk rd stop m' pos zs = walk rd stop m pos zs"
  by (induction zs arbitrary: pos) (auto split: option.splits)

lemma walk_relink:
  "(\<And>z. z \<in> set us \<Longrightarrow> rd z m' = rd z m) \<Longrightarrow> walk rd stop m pos (us @ p # ts) \<Longrightarrow> walk rd stop m' p (p # ts') \<Longrightarrow>
    walk rd stop m' pos (us @ p # ts')"
  by (induction us arbitrary: pos) (auto split: option.splits)

text \<open>
  A write that turns the list \<open>old\<close> into \<open>new\<close>: it changes the link of one node, behind which the
  lists differ, or of no node when the link is that of the head.
\<close>

definition relinks :: "(addr \<Rightarrow> 'z mem_scheme \<Rightarrow> addr option) \<Rightarrow> addr \<Rightarrow> addr list \<Rightarrow> addr list \<Rightarrow> 'z mem_scheme \<Rightarrow> 'z mem_scheme \<Rightarrow> bool" where
  "relinks rd stop old new m m' = (\<exists>p. (\<forall>z \<in> set old. z \<noteq> p \<longrightarrow> rd z m' = rd z m) \<and>
     (p \<in> set old \<longrightarrow> (\<exists>us ts ts'. old = us @ p # ts \<and> new = us @ p # ts' \<and> walk rd stop m' p (p # ts'))))"

lemma relinks_walk:
  assumes "relinks rd stop old new m m'" and w: "walk rd stop m pos zs" and vz: "vs @ zs = old" and d: "distinct old"
  shows "\<exists>zs'. walk rd stop m' pos zs' \<and> (vs @ zs' = old \<or> vs @ zs' = new)"
proof -
  from assms(1) obtain p where p: "\<And>z. z \<in> set old \<Longrightarrow> z \<noteq> p \<Longrightarrow> rd z m' = rd z m"
    and l: "p \<in> set old \<Longrightarrow> \<exists>us ts ts'. old = us @ p # ts \<and> new = us @ p # ts' \<and> walk rd stop m' p (p # ts')"
    by (auto simp: relinks_def)
  show ?thesis
  proof (cases "p \<in> set zs")
    case False
    have "rd z m' = rd z m" if "z \<in> set zs" for z using that False vz by (intro p) auto
    then have "walk rd stop m' pos zs" using w by (simp add: walk_cong [of zs rd m' m])
    with vz show ?thesis by blast
  next
    case True
    then obtain us ts ts' where o: "old = us @ p # ts" "new = us @ p # ts'" "walk rd stop m' p (p # ts')"
      using l vz by force
    from True obtain as bs where z: "zs = as @ p # bs" by (auto simp: in_set_conv_decomp)
    then have e: "(vs @ as) @ p # bs = us @ p # ts" using vz o(1) by simp
    have "distinct ((vs @ as) @ p # bs)" "distinct (us @ p # ts)" using d vz z o(1) by simp_all
    then have "p \<notin> set (vs @ as)" "p \<notin> set bs" by auto
    from append_Cons_eq_iff [OF this] e have ub: "us = vs @ as" "bs = ts" by auto
    have "rd z m' = rd z m" if "z \<in> set as" for z by (rule p) (use that d vz z in auto)
    from walk_relink [OF this _ o(3)] have "walk rd stop m' pos (as @ p # ts')" using w z ub(2) by blast
    then show ?thesis using o(2) ub(1) by (intro exI [of _ "as @ p # ts'"]) simp
  qed
qed

text \<open>
  An action is quiet on a set of nodes when it leaves their links alone, and still when it leaves
  the link of the head alone.
\<close>

definition quiet :: "(addr \<Rightarrow> 'z mem_scheme \<Rightarrow> addr option) \<Rightarrow> addr set \<Rightarrow> 'z action \<Rightarrow> bool" where
  "quiet rd S a = (\<forall>m m'. a m = Some m' \<longrightarrow> (\<forall>z \<in> S. rd z m' = rd z m))"

definition still :: "('z mem_scheme \<Rightarrow> addr option) \<Rightarrow> 'z action \<Rightarrow> bool" where
  "still start a = (\<forall>m m'. a m = Some m' \<longrightarrow> start m' = start m)"

lemma quiet_run: "\<forall>a \<in> set as. quiet rd S a \<Longrightarrow> run as m = Some m' \<Longrightarrow> z \<in> S \<Longrightarrow> rd z m' = rd z m"
proof (induction as arbitrary: m)
  case (Cons a as)
  from Cons.prems(2) obtain m1 where a: "a m = Some m1" "run as m1 = Some m'" by (auto simp: run_Cons elim: bind_SomeE)
  with Cons.IH Cons.prems show ?case by (auto simp: quiet_def)
qed simp

lemma still_run: "\<forall>a \<in> set as. still start a \<Longrightarrow> run as m = Some m' \<Longrightarrow> start m' = start m"
proof (induction as arbitrary: m)
  case (Cons a as)
  from Cons.prems(2) obtain m1 where a: "a m = Some m1" "run as m1 = Some m'" by (auto simp: run_Cons elim: bind_SomeE)
  with Cons.IH Cons.prems show ?case by (auto simp: still_def)
qed simp

lemma still_quiet: "quiet rd {h} a = still (rd h) a"
  by (simp add: quiet_def still_def)

text \<open>
  The nodes visited and those still ahead are one of the lists \<open>S\<close>, and the reader can get to its
  end over them. Its own steps keep that, as do the writes that are quiet on these nodes and still.
\<close>

definition ahead ::
  "(addr \<Rightarrow> 'z mem_scheme \<Rightarrow> addr option) \<Rightarrow> ('z mem_scheme \<Rightarrow> addr option) \<Rightarrow> addr \<Rightarrow> addr list set \<Rightarrow> 'z mem_scheme \<Rightarrow>
     addr option \<Rightarrow> addr list \<Rightarrow> bool" where
  "ahead rd start stop S m pos vs =
     ((pos = None \<longrightarrow> vs = []) \<and> (\<exists>zs. to_go rd start stop m pos zs \<and> vs @ zs \<in> S))"

lemma ahead_start: "to_go rd start stop m None old \<Longrightarrow> ahead rd start stop {old} m None []"
  by (auto simp: ahead_def)

lemma ahead_enter:
  assumes "ahead rd start stop S m None vs" and "start m = Some p"
  shows "ahead rd start stop S m (Some p) vs"
  using assms by (auto simp: ahead_def)

lemma ahead_reader:
  assumes "ahead rd start stop S m (Some p) vs" and "p \<noteq> stop" and "rd p m = Some q"
  shows "ahead rd start stop S m (Some q) (vs @ [p])"
proof -
  from assms(1) obtain zs where z: "walk rd stop m p zs" "vs @ zs \<in> S" by (auto simp: ahead_def)
  with assms(2,3) have "walk rd stop m q (tl zs)" "(vs @ [p]) @ tl zs = vs @ zs" by (cases zs; auto)+
  with z(2) show ?thesis unfolding ahead_def by (intro conjI exI [of _ "tl zs"]) simp_all
qed

lemma ahead_quiet:
  assumes "ahead rd start stop S m pos vs" and "quiet rd (\<Union> (set ` S)) a" and "still start a" and "a m = Some m'"
  shows "ahead rd start stop S m' pos vs"
proof -
  from assms(1) obtain zs where z: "to_go rd start stop m pos zs" "vs @ zs \<in> S" "pos = None \<Longrightarrow> vs = []" by (auto simp: ahead_def)
  then have "set zs \<subseteq> \<Union> (set ` S)" by fastforce
  then have "walk rd stop m' p zs = walk rd stop m p zs" for p
    using assms(2,4) by (subst walk_cong [of zs rd m' m]) (auto simp: quiet_def)
  moreover have "start m' = start m" using assms(3,4) by (auto simp: still_def)
  ultimately have "to_go rd start stop m' pos zs" using z(1) by (simp add: to_go_def split: option.splits)
  with z(2,3) show ?thesis by (auto simp: ahead_def)
qed

lemma ahead_relinks:
  assumes a: "ahead rd start stop {old} m pos vs" and r: "relinks rd stop old new m m'" and d: "distinct old"
    and s: "to_go rd start stop m' None new"
  shows "ahead rd start stop {old, new} m' pos vs"
proof (cases pos)
  case None
  with a s show ?thesis by (auto simp: ahead_def)
next
  case (Some p)
  with a obtain zs where "walk rd stop m p zs" "vs @ zs = old" by (auto simp: ahead_def)
  from relinks_walk [OF r this d] Some show ?thesis by (auto simp: ahead_def)
qed

text \<open>
  A race between a writer, whose writes are quiet and still but for one link, and a reader. Before
  that link is written the reader is on the old list; afterwards it is on the old one or on the
  new one, and a reader that begins then finds the new one.
\<close>

definition race ::
  "(addr \<Rightarrow> 'z mem_scheme \<Rightarrow> addr option) \<Rightarrow> ('z mem_scheme \<Rightarrow> addr option) \<Rightarrow> addr \<Rightarrow> addr list \<Rightarrow> addr list \<Rightarrow>
     'z action list \<Rightarrow> 'z action \<Rightarrow> 'z action list \<Rightarrow> 'z mem_scheme \<Rightarrow> 'z mem_scheme \<Rightarrow> bool" where
  "race rd start stop old new as1 l as2 m m3 = (\<exists>m1 m2. run as1 m = Some m1 \<and> l m1 = Some m2 \<and> run as2 m2 = Some m3 \<and>
     relinks rd stop old new m1 m2 \<and> to_go rd start stop m2 None new \<and>
     (\<forall>a \<in> set as1. quiet rd (set old) a \<and> still start a) \<and>
     (\<forall>a \<in> set as2. quiet rd (set old \<union> set new) a \<and> still start a))"

definition race_inv ::
  "(addr \<Rightarrow> 'z mem_scheme \<Rightarrow> addr option) \<Rightarrow> ('z mem_scheme \<Rightarrow> addr option) \<Rightarrow> addr \<Rightarrow> addr list \<Rightarrow> addr list \<Rightarrow>
     'z mem_scheme \<Rightarrow> 'z config \<Rightarrow> bool" where
  "race_inv rd start stop old new m3 = (\<lambda>(as, m, pos, vs).
     (\<exists>as1 l as2. as = as1 @ l # as2 \<and> race rd start stop old new as1 l as2 m m3 \<and> ahead rd start stop {old} m pos vs) \<or>
     (run as m = Some m3 \<and> (\<forall>a \<in> set as. quiet rd (set old \<union> set new) a \<and> still start a) \<and>
      ahead rd start stop {old, new} m pos vs))"

lemma race_write:
  assumes "race rd start stop old new (a # as1) l as2 m m3" and "a m = Some m'"
  shows "race rd start stop old new as1 l as2 m' m3"
  using assms by (auto simp: race_def run_Cons)

lemma race_inv_write:
  assumes d: "distinct old" and a: "a m = Some m'" and i: "race_inv rd start stop old new m3 (a # as, m, pos, vs)"
  shows "race_inv rd start stop old new m3 (as, m', pos, vs)"
proof -
  from i consider as1 l as2 where "a # as = as1 @ l # as2" "race rd start stop old new as1 l as2 m m3" "ahead rd start stop {old} m pos vs"
    | "run (a # as) m = Some m3" "\<forall>b \<in> set (a # as). quiet rd (set old \<union> set new) b \<and> still start b" "ahead rd start stop {old, new} m pos vs"
    unfolding race_inv_def prod.case by blast
  then show ?thesis
  proof cases
    case 1
    show ?thesis
    proof (cases as1)
      case Nil
      then have "run as m' = Some m3" "relinks rd stop old new m m'" "to_go rd start stop m' None new"
        "\<forall>a \<in> set as. quiet rd (set old \<union> set new) a \<and> still start a"
        using 1(1,2) a by (auto simp: race_def)
      then show ?thesis using ahead_relinks [OF 1(3) _ d] by (simp add: race_inv_def)
    next
      case (Cons b bs)
      then have c: "as = bs @ l # as2" "race rd start stop old new (a # bs) l as2 m m3" using 1(1,2) by auto
      then have "quiet rd (set old) a" "still start a" by (auto simp: race_def)
      then have "ahead rd start stop {old} m' pos vs" using ahead_quiet [OF 1(3)] a by simp
      with race_write [OF c(2) a] c(1) show ?thesis unfolding race_inv_def prod.case by blast
    qed
  next
    case 2
    then have "run as m' = Some m3" using a by (simp add: run_Cons)
    moreover have "ahead rd start stop {old, new} m' pos vs" using ahead_quiet [OF 2(3), of a m'] 2(2) a by simp
    ultimately show ?thesis using 2(2) by (simp add: race_inv_def)
  qed
qed

lemma race_inv_step:
  assumes d: "distinct old" and s: "rcu_step rd start stop (as, m, pos, vs) (as', m', pos', vs')"
    and i: "race_inv rd start stop old new m3 (as, m, pos, vs)"
  shows "race_inv rd start stop old new m3 (as', m', pos', vs')"
  using s
proof (cases rule: rcu_step_cases)
  case (writer a)
  with race_inv_write [OF d, of a m m' rd start stop new m3 as' pos vs] i show ?thesis by simp
next
  case (enter p)
  have "ahead rd start stop S m pos' vs'" if "ahead rd start stop S m pos vs" for S
    using ahead_enter [of rd start stop S m vs p] that enter by simp
  with i show ?thesis unfolding race_inv_def prod.case enter(4,5) by blast
next
  case (reader p q)
  have "ahead rd start stop S m pos' vs'" if "ahead rd start stop S m pos vs" for S
    using ahead_reader [of rd start stop S m p vs q] that reader by simp
  with i show ?thesis unfolding race_inv_def prod.case reader(5,6) by blast
qed

text \<open>
  Whatever the interleaving, the nodes visited and those still to come are the old list or the new
  one, and the writer gets to its end.
\<close>

lemma rcu_traversal:
  assumes "race rd start stop old new as1 l as2 m0 m3" and "distinct old" and "to_go rd start stop m0 None old"
    and "(rcu_step rd start stop)\<^sup>*\<^sup>* (as1 @ l # as2, m0, None, []) (as, m, pos, vs)"
  shows "(\<exists>zs. to_go rd start stop m pos zs \<and> (vs @ zs = old \<or> vs @ zs = new)) \<and> run as m = Some m3"
proof -
  have "race_inv rd start stop old new m3 (as, m, pos, vs)"
    using assms(4)
  proof (induction "(as, m, pos, vs)" arbitrary: as m pos vs rule: rtranclp_induct)
    case base
    show ?case using assms(1) ahead_start [OF assms(3)] by (auto simp: race_inv_def)
  next
    case (step c as' m' pos' vs')
    obtain as m pos vs where c: "c = (as, m, pos, vs)" by (cases c)
    from race_inv_step [OF assms(2) step.hyps(2) [unfolded c] step.hyps(3) [OF c]] show ?case .
  qed
  then show ?thesis by (auto simp: race_inv_def race_def ahead_def run_append run_Cons)
qed

section \<open>Updates of a list\<close>

definition add_between_rcu :: "addr \<Rightarrow> addr \<Rightarrow> addr \<Rightarrow> 'z action list" where
  "add_between_rcu new prev next =
     [wr_next new next, wr_prev new prev, smp_wmb, wr_prev next new, wr_next prev new]"

definition list_add_rcu :: "addr \<Rightarrow> addr \<Rightarrow> 'z mem_scheme \<Rightarrow> 'z action list option" where
  "list_add_rcu new head m = do { nx \<leftarrow> rd_next head m; Some (add_between_rcu new head nx) }"

definition list_add_tail_rcu :: "addr \<Rightarrow> addr \<Rightarrow> 'z mem_scheme \<Rightarrow> 'z action list option" where
  "list_add_tail_rcu new head m = do { pv \<leftarrow> rd_prev head m; Some (add_between_rcu new pv head) }"

text \<open>The forward link of the entry stays as it is, for readers that stand on it.\<close>

definition list_del_rcu :: "addr \<Rightarrow> 'z mem_scheme \<Rightarrow> 'z action list option" where
  "list_del_rcu entry m = do {
     pv \<leftarrow> rd_prev entry m;
     nx \<leftarrow> rd_next entry m;
     Some [wr_prev nx pv, wr_next pv nx, wr_prev entry LIST_POISON2] }"

definition list_replace_rcu :: "addr \<Rightarrow> addr \<Rightarrow> 'z mem_scheme \<Rightarrow> 'z action list option" where
  "list_replace_rcu old new m = Some
     [\<lambda>m. do { nx \<leftarrow> rd_next old m; wr_next new nx m },
      \<lambda>m. do { pv \<leftarrow> rd_prev old m; wr_prev new pv m },
      smp_wmb,
      \<lambda>m. do { nx \<leftarrow> rd_next new m; wr_prev nx new m },
      \<lambda>m. do { pv \<leftarrow> rd_prev new m; wr_next pv new m },
      wr_prev old LIST_POISON2]"

datatype update = Add addr addr | Add_Tail addr addr | Del addr | Replace addr addr

fun writes :: "update \<Rightarrow> 'z mem_scheme \<Rightarrow> 'z action list option" where
  "writes (Add new head) m = list_add_rcu new head m"
| "writes (Add_Tail new head) m = list_add_tail_rcu new head m"
| "writes (Del entry) m = list_del_rcu entry m"
| "writes (Replace old new) m = list_replace_rcu old new m"

text \<open>What an update makes of the nodes of the list \<open>h\<close>.\<close>

fun updates :: "addr \<Rightarrow> update \<Rightarrow> addr list \<Rightarrow> addr list \<Rightarrow> bool" where
  "updates h (Add new p) old l = (\<exists>xs ys. old = xs @ ys \<and> p = last (h # xs) \<and> new \<notin> set (h # old) \<and> l = xs @ new # ys)"
| "updates h (Add_Tail new p) old l = (\<exists>xs ys. old = xs @ ys \<and> p = hd (ys @ [h]) \<and> new \<notin> set (h # old) \<and> l = xs @ new # ys)"
| "updates h (Del e) old l = (\<exists>xs ys. old = xs @ e # ys \<and> l = xs @ ys)"
| "updates h (Replace e new) old l = (\<exists>xs ys. old = xs @ e # ys \<and> new \<notin> set (h # old) \<and> l = xs @ new # ys)"

fun fresh_node :: "update \<Rightarrow> addr option" where
  "fresh_node (Add new head) = Some new"
| "fresh_node (Add_Tail new head) = Some new"
| "fresh_node (Del entry) = None"
| "fresh_node (Replace old new) = Some new"

lemma walk_suffix: "walk rd stop m pos (us @ p # ts) \<Longrightarrow> walk rd stop m p (p # ts)"
proof (induction us arbitrary: pos)
  case (Cons u us)
  then obtain n where "walk rd stop m n (us @ p # ts)" by (auto split: option.splits)
  then show ?case by (rule Cons.IH)
qed simp

lemma links_walk: "links m (ys @ [h]) \<Longrightarrow> h \<notin> set ys \<Longrightarrow> walk rd_next h m (hd (ys @ [h])) ys"
proof (induction ys)
  case (Cons y ys)
  show ?case
  proof (cases ys)
    case Nil
    with Cons.prems show ?thesis by (simp add: rd_next_def)
  next
    case (Cons b bs)
    with Cons.prems Cons.IH show ?thesis by (auto simp: rd_next_def)
  qed
qed simp

lemma dlist_walk:
  assumes "dlist m h zs"
  shows "walk rd_next h m (hd (zs @ [h])) zs" and "rd_next h m = Some (hd (zs @ [h]))"
proof -
  from assms have l: "links m (h # zs @ [h])" and h: "h \<notin> set zs" by (simp_all add: dlist_def)
  have "links m (zs @ [h]) \<and> lnext m h = hd (zs @ [h]) \<and> valid m h sizeof_list_head" using l by (cases zs) auto
  then show "walk rd_next h m (hd (zs @ [h])) zs" "rd_next h m = Some (hd (zs @ [h]))"
    using links_walk h by (auto simp: rd_next_def)
qed

lemma relinksI:
  assumes s: "\<And>z. z \<in> set old \<Longrightarrow> z \<noteq> p \<Longrightarrow> rd z m' = rd z m" and p: "p = last (h # us)" and o: "old = us @ ts"
    and n: "new = us @ ts'" and h: "h \<notin> set old" and d: "distinct old" and w: "walk rd stop m' pos new"
  shows "relinks rd stop old new m m'"
proof -
  have "\<exists>vs ts ts'. old = vs @ p # ts \<and> new = vs @ p # ts' \<and> walk rd stop m' p (p # ts')" if "p \<in> set old"
  proof -
    from that h have "p \<noteq> h" by blast
    then have "us \<noteq> []" "p = last us" using p by (auto split: if_splits)
    then have "us = butlast us @ [p]" by simp
    then have e: "old = butlast us @ p # ts" "new = butlast us @ p # ts'" using o n by (metis append.assoc append_Cons append_Nil)+
    then show ?thesis using walk_suffix w by metis
  qed
  with s show ?thesis unfolding relinks_def by blast
qed

lemma quiet_prev [simp]: "quiet rd_next S (wr_prev a b)"
  by (auto simp: quiet_def access_defs valid_def split: if_splits)

lemma quiet_next: "a \<notin> S \<Longrightarrow> quiet rd_next S (wr_next a b)"
  by (auto simp: quiet_def access_defs valid_def split: if_splits)

lemma quiet_wmb [simp]: "quiet rd S smp_wmb"
  by (simp add: quiet_def smp_wmb_def)

lemma still_wmb [simp]: "still start smp_wmb"
  by (simp add: still_def smp_wmb_def)

lemma still_bind: "(\<And>v. still start (f v)) \<Longrightarrow> still start (\<lambda>m. do { v \<leftarrow> g m; f v m })"
  by (auto simp: still_def elim!: bind_SomeE)

lemma still_prev [simp]: "still (rd_next h) (wr_prev a b)"
  using quiet_prev [of "{h}"] by (simp add: still_quiet)

lemma still_next: "a \<noteq> h \<Longrightarrow> still (rd_next h) (wr_next a b)"
  using quiet_next [of a "{h}"] by (simp add: still_quiet)

lemma quiet_bind: "(\<And>v. quiet rd S (f v)) \<Longrightarrow> quiet rd S (\<lambda>m. do { v \<leftarrow> g m; f v m })"
  by (auto simp: quiet_def elim!: bind_SomeE)

text \<open>A sequence of writes with one link that decides, from one list to another.\<close>

definition replays ::
  "(addr \<Rightarrow> 'z mem_scheme \<Rightarrow> addr option) \<Rightarrow> ('z mem_scheme \<Rightarrow> addr option) \<Rightarrow> addr \<Rightarrow> addr list \<Rightarrow> addr list \<Rightarrow>
     ('z mem_scheme \<Rightarrow> bool) \<Rightarrow> 'z action list \<Rightarrow> 'z mem_scheme \<Rightarrow> bool" where
  "replays rd start stop old new fin as m =
     (\<exists>as1 l as2 m3. as = as1 @ l # as2 \<and> race rd start stop old new as1 l as2 m m3 \<and> fin m3)"

lemma replaysI:
  assumes "run as1 m = Some m1" and "l m1 = Some m2" and "run as2 m2 = Some m3" and "relinks rd stop old new m1 m2"
    and "to_go rd start stop m2 None new"
    and "\<forall>a \<in> set as1. quiet rd (set old) a" and "\<forall>a \<in> set as1. still start a"
    and "\<forall>a \<in> set as2. quiet rd (set old \<union> set new) a" and "\<forall>a \<in> set as2. still start a" and "fin m3"
  shows "replays rd start stop old new fin (as1 @ l # as2) m"
  unfolding replays_def race_def using assms by blast

text \<open>
  The contract between the updates of a structure and its readers: \<open>repr m h xs\<close> says that the nodes
  \<open>xs\<close> hang off \<open>h\<close>, \<open>start\<close> is what a reader reads first, \<open>becomes\<close> what an update makes of the nodes,
  \<open>fresh\<close> what it needs of a node that it puts in.
\<close>

locale racing =
  fixes rd :: "addr \<Rightarrow> 'z mem_scheme \<Rightarrow> addr option"
    and stop :: "addr \<Rightarrow> addr"
    and start :: "addr \<Rightarrow> 'z mem_scheme \<Rightarrow> addr option"
    and repr :: "'z mem_scheme \<Rightarrow> addr \<Rightarrow> addr list \<Rightarrow> bool"
    and update :: "addr \<Rightarrow> 'u \<Rightarrow> 'z mem_scheme \<Rightarrow> 'z action list option"
    and becomes :: "addr \<Rightarrow> 'u \<Rightarrow> addr list \<Rightarrow> addr list \<Rightarrow> bool"
    and fresh :: "'z mem_scheme \<Rightarrow> addr \<Rightarrow> 'u \<Rightarrow> addr list \<Rightarrow> bool"
  assumes repr_distinct: "repr m h old \<Longrightarrow> distinct old"
    and repr_start: "repr m h old \<Longrightarrow> to_go rd (start h) (stop h) m None old"
    and update_replays: "repr m h old \<Longrightarrow> becomes h u old new \<Longrightarrow> fresh m h u old \<Longrightarrow>
      \<exists>as. update h u m = Some as \<and> replays rd (start h) (stop h) old new (\<lambda>m'. repr m' h new) as m"
begin

lemma reader_sees_old_or_new:
  assumes r: "repr m h old" and "becomes h u old new" and "fresh m h u old"
  shows "\<exists>as. update h u m = Some as \<and>
    (\<forall>as' m' pos vs. (rcu_step rd (start h) (stop h))\<^sup>*\<^sup>* (as, m, None, []) (as', m', pos, vs) \<longrightarrow>
      (\<exists>zs. to_go rd (start h) (stop h) m' pos zs \<and> (vs @ zs = old \<or> vs @ zs = new)) \<and>
      (\<exists>m''. run as' m' = Some m'' \<and> repr m'' h new))"
proof -
  from update_replays [OF assms] obtain as1 l as2 m3 where u: "update h u m = Some (as1 @ l # as2)"
    "race rd (start h) (stop h) old new as1 l as2 m m3" "repr m3 h new" unfolding replays_def by blast
  from rcu_traversal [OF u(2) repr_distinct [OF r] repr_start [OF r]] u(1,3) show ?thesis by blast
qed

end

text \<open>The same for the lists of \<open>list_head\<close>.\<close>

definition relists :: "addr \<Rightarrow> addr list \<Rightarrow> addr list \<Rightarrow> 'z action list \<Rightarrow> 'z mem_scheme \<Rightarrow> bool" where
  "relists h old new as m = replays rd_next (rd_next h) h old new (\<lambda>m'. dlist m' h new) as m"

lemma dlist_to_go: "dlist m h zs \<Longrightarrow> to_go rd_next (rd_next h) h m None zs"
  using dlist_walk [of m h zs] by simp

lemma replays_add:
  assumes l: "dlist m h (xs @ ys)" and v: "valid m x sizeof_list_head" and x: "x \<notin> set (h # xs @ ys)"
  shows "relists h (xs @ ys) (xs @ x # ys) (add_between_rcu x (last (h # xs)) (hd (ys @ [h]))) m"
proof -
  let ?p = "last (h # xs)" and ?n = "hd (ys @ [h])"
  let ?as1 = "[wr_next x ?n, wr_prev x ?p, smp_wmb, wr_prev ?n x]"
  from list_add_spec [OF l refl v x] obtain m' where
    a: "list_add x ?p m = Some m'" "dlist m' h (xs @ x # ys)" by blast
  obtain us n' vs where "h # xs = us @ [?p]" and nv: "ys @ [h] = n' # vs" and lk: "links m (us @ ?p # n' # vs)"
    by (rule cycle_split [OF l refl])
  then have n: "lnext m ?p = ?n" "valid m ?p sizeof_list_head" "valid m ?n sizeof_list_head"
    using links_adjacent [OF lk] by simp_all
  have xn: "x \<noteq> ?n" using x by (cases ys) auto
  define m1 where "m1 = m\<lparr>lnext := (lnext m)(x := ?n), lprev := (lprev m)(x := ?p, ?n := x)\<rparr>"
  have r1: "run ?as1 m = Some m1" using n v by (simp add: run_Cons smp_wmb_def access_defs m1_def)
  have r2: "wr_next ?p x m1 = Some m'"
    using a(1) n v xn by (simp add: list_add_def list_add_between_def access_defs m1_def fun_upd_twist)
  have d: "distinct (xs @ ys)" "h \<notin> set (xs @ ys)" using l by (auto simp: dlist_def)
  have "rd_next z m' = rd_next z m1" if "z \<noteq> ?p" for z
    using quiet_next [of ?p "{z}" x] r2 that unfolding quiet_def by blast
  from relinksI [OF this refl refl refl d(2,1) dlist_walk(1) [OF a(2)]] have "relinks rd_next h (xs @ ys) (xs @ x # ys) m1 m'" .
  moreover have "\<forall>a \<in> set ?as1. quiet rd_next (set (xs @ ys)) a" "\<forall>a \<in> set ?as1. still (rd_next h) a"
    using x quiet_next [of x "set (xs @ ys)"] still_next [of x h] by simp_all
  ultimately have "relists h (xs @ ys) (xs @ x # ys) (?as1 @ wr_next ?p x # []) m"
    unfolding relists_def using a(2) dlist_to_go [OF a(2)] by (intro replaysI [where ?as1.0 = ?as1 and l = "wr_next ?p x", OF r1 r2 run_Nil]) simp_all
  then show ?thesis by (simp add: add_between_rcu_def)
qed

lemma replays_del:
  assumes l: "dlist m h (xs @ e # ys)"
  shows "\<exists>as. list_del_rcu e m = Some as \<and> relists h (xs @ e # ys) (xs @ ys) as m"
proof -
  let ?p = "last (h # xs)" and ?n = "hd (ys @ [h])"
  from list_unlink [OF l] obtain m2 where r: "rd_prev e m = Some ?p" "rd_next e m = Some ?n"
    and u: "list_del_between ?p ?n m = Some m2" "dlist m2 h (xs @ ys)" "only_links (set (h # xs @ ys)) m m2"
    by blast
  from u(1) obtain m1 where m1: "wr_prev ?n ?p m = Some m1" "wr_next ?p ?n m1 = Some m2"
    unfolding list_del_between_def by (elim bind_SomeE)
  have e: "valid m2 e sizeof_list_head" "e \<notin> set (h # xs @ ys)"
    using dlist_valid [OF l, of e] only_links_fields(5) [OF u(3)] l by (auto simp: dlist_def)
  define m3 where "m3 = m2\<lparr>lprev := (lprev m2)(e := LIST_POISON2)\<rparr>"
  have m3: "wr_prev e LIST_POISON2 m2 = Some m3" using e(1) by (simp add: wr_prev_def m3_def)
  have "only_links {e} m2 m3" unfolding m3_def by (rule only_linksI [where f = "lnext m2" and g = "(lprev m2)(e := LIST_POISON2)"]) auto
  from only_links_dlist [OF this, of h "xs @ ys"] u(2) e(2) have d3: "dlist m3 h (xs @ ys)" by auto
  have d: "distinct (xs @ e # ys)" "h \<notin> set (xs @ e # ys)" using l by (auto simp: dlist_def)
  have "rd_next z m2 = rd_next z m1" if "z \<noteq> ?p" for z
    using quiet_next [of ?p "{z}" ?n] m1(2) that unfolding quiet_def by blast
  from relinksI [OF this refl refl refl d(2,1) dlist_walk(1) [OF u(2)]]
  have "relinks rd_next h (xs @ e # ys) (xs @ ys) m1 m2" .
  then have "relists h (xs @ e # ys) (xs @ ys) ([wr_prev ?n ?p] @ wr_next ?p ?n # [wr_prev e LIST_POISON2]) m"
    unfolding relists_def using d3 dlist_to_go [OF u(2)]
    by (intro replaysI [where ?m1.0 = m1 and ?m2.0 = m2 and ?m3.0 = m3]) (simp_all add: run_Cons m1 m3 del: last.simps)
  then show ?thesis using r by (simp add: list_del_rcu_def)
qed

lemma replays_replace:
  assumes l: "dlist m h (xs @ e # ys)" and v: "valid m x sizeof_list_head" and x: "x \<notin> set (h # xs @ e # ys)"
  shows "\<exists>as. list_replace_rcu e x m = Some as \<and> relists h (xs @ e # ys) (xs @ x # ys) as m"
proof -
  let ?p = "last (h # xs)" and ?n = "hd (ys @ [h])"
  from list_unlink [OF l] obtain m' where r: "rd_prev e m = Some ?p" "rd_next e m = Some ?n"
    and u: "list_del_between ?p ?n m = Some m'" by blast
  from list_replace_spec [OF l v x] obtain m2 where
    a: "list_replace e x m = Some m2" "dlist m2 h (xs @ x # ys)" "only_links (set (x # h # xs @ ys)) m m2" by blast
  have pn: "?p \<in> set (h # xs)" "?n \<in> set (h # ys)" by (auto simp: hd_append neq_Nil_conv split: if_splits)
  then have val: "valid m ?p sizeof_list_head" "valid m ?n sizeof_list_head" "valid m e sizeof_list_head"
    using dlist_valid [OF l] by auto
  have ne: "x \<noteq> ?p" "x \<noteq> ?n" "e \<noteq> ?p" "e \<noteq> ?n" "x \<noteq> e"
    using pn l x by (auto simp: dlist_def simp del: last.simps)
  define m1 where "m1 = m\<lparr>lnext := (lnext m)(x := ?n), lprev := (lprev m)(x := ?p, ?n := x)\<rparr>"
  let ?as1 = "[\<lambda>m. do { nx \<leftarrow> rd_next e m; wr_next x nx m }, \<lambda>m. do { pv \<leftarrow> rd_prev e m; wr_prev x pv m }, smp_wmb,
      \<lambda>m. do { nx \<leftarrow> rd_next x m; wr_prev nx x m }]"
  let ?l = "\<lambda>m. do { pv \<leftarrow> rd_prev x m; wr_next pv x m }"
  have r1: "run ?as1 m = Some m1"
    using r val v ne by (simp add: run_Cons smp_wmb_def access_defs m1_def del: last.simps split: if_splits)
  have r2: "?l m1 = Some m2"
    using a(1) r val v ne
    by (simp add: list_replace_def access_defs m1_def fun_upd_twist del: last.simps split: if_splits)
  define m3 where "m3 = m2\<lparr>lprev := (lprev m2)(e := LIST_POISON2)\<rparr>"
  have "valid m2 e sizeof_list_head" using val(3) only_links_fields(5) [OF a(3)] by simp
  then have m3: "wr_prev e LIST_POISON2 m2 = Some m3" by (simp add: wr_prev_def m3_def)
  have e: "e \<notin> set (h # xs @ x # ys)" using l ne(5) by (auto simp: dlist_def)
  have "only_links {e} m2 m3" unfolding m3_def by (rule only_linksI [where f = "lnext m2" and g = "(lprev m2)(e := LIST_POISON2)"]) auto
  from only_links_dlist [OF this, of h "xs @ x # ys"] a(2) e have d3: "dlist m3 h (xs @ x # ys)" by auto
  have d: "distinct (xs @ e # ys)" "h \<notin> set (xs @ e # ys)" using l by (auto simp: dlist_def)
  have pv: "rd_prev x m1 = Some ?p" using v ne by (simp add: access_defs m1_def)
  have "rd_next z m2 = rd_next z m1" if "z \<noteq> ?p" for z
    using quiet_next [of ?p "{z}" x] r2 pv that unfolding quiet_def by auto
  from relinksI [OF this refl refl refl d(2,1) dlist_walk(1) [OF a(2)]]
  have rl: "relinks rd_next h (xs @ e # ys) (xs @ x # ys) m1 m2" .
  have "\<forall>a \<in> set ?as1. quiet rd_next (set (xs @ e # ys)) a"
    using x quiet_bind [where f = "\<lambda>nx. wr_next x nx", OF quiet_next [of x "set (xs @ e # ys)"]] by (simp add: quiet_bind)
  moreover have "\<forall>a \<in> set ?as1. still (rd_next h) a"
    using x still_bind [where f = "\<lambda>nx. wr_next x nx", OF still_next [of x h]] by (simp add: still_bind)
  ultimately have "relists h (xs @ e # ys) (xs @ x # ys) (?as1 @ ?l # [wr_prev e LIST_POISON2]) m"
    unfolding relists_def using r1 r2 m3 d3 rl dlist_to_go [OF a(2)]
    by (intro replaysI [where ?as1.0 = ?as1 and l = ?l and ?m1.0 = m1 and ?m2.0 = m2 and ?m3.0 = m3]) (simp_all add: run_Cons)
  then show ?thesis by (simp add: list_replace_rcu_def)
qed

lemma update_relists:
  assumes l: "dlist m h old" and u: "updates h u old new" and v: "\<forall>x. fresh_node u = Some x \<longrightarrow> valid m x sizeof_list_head"
  shows "\<exists>as. writes u m = Some as \<and> relists h old new as m"
proof (cases u)
  case (Add x p)
  with u v obtain xs ys where a: "old = xs @ ys" "p = last (h # xs)" "x \<notin> set (h # xs @ ys)" "new = xs @ x # ys"
    "valid m x sizeof_list_head" by auto
  obtain us n vs where "h # xs = us @ [p]" and "ys @ [h] = n # vs" and "links m (us @ p # n # vs)"
    by (rule cycle_split [OF l [unfolded a(1)] a(2)])
  then have "rd_next p m = Some (hd (ys @ [h]))" using links_adjacent by (fastforce simp: rd_next_def)
  then show ?thesis using replays_add [OF l [unfolded a(1)] a(5,3)] a(1,2,4) Add by (simp add: list_add_rcu_def)
next
  case (Add_Tail x n)
  with u v obtain xs ys where a: "old = xs @ ys" "n = hd (ys @ [h])" "x \<notin> set (h # xs @ ys)" "new = xs @ x # ys"
    "valid m x sizeof_list_head" by auto
  obtain us n' vs where "h # xs = us @ [last (h # xs)]" and "ys @ [h] = n' # vs" and "links m (us @ last (h # xs) # n' # vs)"
    by (rule cycle_split [OF l [unfolded a(1)] refl])
  then have "rd_prev n m = Some (last (h # xs))" using links_adjacent a(2) by (fastforce simp: rd_prev_def)
  then show ?thesis using replays_add [OF l [unfolded a(1)] a(5,3)] a(1,2,4) Add_Tail by (simp add: list_add_tail_rcu_def)
next
  case (Del e)
  with u l replays_del show ?thesis by fastforce
next
  case (Replace e x)
  with u v obtain xs ys where a: "old = xs @ e # ys" "x \<notin> set (h # xs @ e # ys)" "new = xs @ x # ys" "valid m x sizeof_list_head"
    by auto
  show ?thesis using replays_replace [OF l [unfolded a(1)] a(4,2)] a(1,3) Replace by simp
qed

interpretation rl: racing rd_next "\<lambda>h. h" rd_next dlist "\<lambda>_. writes" updates
    "\<lambda>m h u old. \<forall>x. fresh_node u = Some x \<longrightarrow> valid m x sizeof_list_head"
proof (unfold_locales, goal_cases)
  case (1 m h old)
  then show ?case by (simp add: dlist_def)
next
  case (2 m h old)
  then show ?case by (rule dlist_to_go)
next
  case (3 m h old u new)
  from update_relists [OF this] show ?case by (simp add: relists_def)
qed

text \<open>C10. A reader of a list may race with an insertion, a deletion or a replacement by the RCU
  variants, and may begin before, during or after the update: the update runs to its end, and wherever
  the reader is, even if it has yet to read the link of the head, it can go on to the head of the
  list without a fault, and has then visited exactly the nodes of the list as it was before or as
  it is afterwards, in order.\<close>

theorem rcu_reader_sees_a_list:
  assumes "dlist m h old" and "updates h u old new" and "\<forall>x. fresh_node u = Some x \<longrightarrow> valid m x sizeof_list_head"
  shows "\<exists>as. writes u m = Some as \<and>
    (\<forall>as' m' pos vs. (rcu_step rd_next (rd_next h) h)\<^sup>*\<^sup>* (as, m, None, []) (as', m', pos, vs) \<longrightarrow>
      (\<exists>zs. to_go rd_next (rd_next h) h m' pos zs \<and> (vs @ zs = old \<or> vs @ zs = new)) \<and>
      (\<exists>m''. run as' m' = Some m'' \<and> dlist m'' h new))"
  by (rule rl.reader_sees_old_or_new [OF assms])

theorem rcu_reader_sees_a_list_witness:
  "\<exists>as. writes (Add 0xC0000018 0xC0000008) two_lists = Some as \<and>
    (\<forall>as' m' pos vs. (rcu_step rd_next (rd_next 0xC0000000) 0xC0000000)\<^sup>*\<^sup>* (as, two_lists, None, []) (as', m', pos, vs) \<longrightarrow>
      (\<exists>zs. to_go rd_next (rd_next 0xC0000000) 0xC0000000 m' pos zs \<and>
        (vs @ zs = [0xC0000008] \<or> vs @ zs = [0xC0000008, 0xC0000018])) \<and>
      (\<exists>m''. run as' m' = Some m'' \<and> dlist m'' 0xC0000000 [0xC0000008, 0xC0000018]))"
proof (rule rcu_reader_sees_a_list)
  show "dlist two_lists 0xC0000000 [0xC0000008]"
    by (simp add: dlist_def two_lists_def valid_def sizeof_list_head_def)
  show "updates 0xC0000000 (Add 0xC0000018 0xC0000008) [0xC0000008] [0xC0000008, 0xC0000018]"
    by (simp, intro exI [of _ "[0xC0000008]"] exI [of _ "[]"]) simp
  show "\<forall>x. fresh_node (Add 0xC0000018 0xC0000008) = Some x \<longrightarrow> valid two_lists x sizeof_list_head"
    by (simp add: two_lists_def valid_def sizeof_list_head_def)
qed

text \<open>
  Without the RCU variant the reader can be stranded: when it stands on the entry that \<open>list_del\<close>
  takes out, it follows the poisoned link, an address that holds nothing.
\<close>

definition list_del_writes :: "addr \<Rightarrow> 'z mem_scheme \<Rightarrow> 'z action list option" where
  "list_del_writes entry m = do {
     pv \<leftarrow> rd_prev entry m;
     nx \<leftarrow> rd_next entry m;
     Some [wr_prev nx pv, wr_next pv nx, wr_next entry LIST_POISON1, wr_prev entry LIST_POISON2] }"

lemma list_del_runs: "list_del e m = do { as \<leftarrow> list_del_writes e m; run as m }"
  unfolding list_del_def list_del_writes_def list_del_between_def
  by (cases "rd_prev e m"; cases "rd_next e m") (simp_all add: run_Cons)

lemma reader_reaches:
  "walk rd stop m pos (us @ p # ts) \<Longrightarrow> (rcu_step rd start stop)\<^sup>*\<^sup>* (as, m, Some pos, vs) (as, m, Some p, vs @ us)"
proof (induction us arbitrary: pos vs)
  case (Cons u us)
  from Cons.prems have u: "u = pos" "pos \<noteq> stop" by simp_all
  from Cons.prems obtain n where n: "rd pos m = Some n" "walk rd stop m n (us @ p # ts)" by (cases "rd u m") simp_all
  have "rcu_step rd start stop (as, m, Some pos, vs) (as, m, Some n, vs @ [pos])" by (rule rcu_step.reader) (rule u(2), rule n(1))
  from converse_rtranclp_into_rtranclp [OF this Cons.IH [OF n(2), of "vs @ [pos]"]] show ?case using u(1) by simp
qed simp

lemma writer_runs: "run as m = Some m' \<Longrightarrow> (rcu_step rd start stop)\<^sup>*\<^sup>* (as, m, pos, vs) ([], m', pos, vs)"
proof (induction as arbitrary: m)
  case (Cons a as)
  then obtain m1 where a: "a m = Some m1" "run as m1 = Some m'" by (auto simp: run_Cons elim: bind_SomeE)
  have "rcu_step rd start stop (a # as, m, pos, vs) (as, m1, pos, vs)" by (rule rcu_step.writer) (rule a(1))
  from converse_rtranclp_into_rtranclp [OF this Cons.IH [OF a(2)]] show ?case .
qed simp

lemma list_del_strands_reader:
  assumes l: "dlist m h (xs @ e # ys)" and "\<not> valid m LIST_POISON1 sizeof_list_head"
  shows "\<exists>as m'. list_del_writes e m = Some as \<and>
    (rcu_step rd_next (rd_next h) h)\<^sup>*\<^sup>* (as, m, None, []) ([], m', Some LIST_POISON1, xs @ [e]) \<and> rd_next LIST_POISON1 m' = None"
proof -
  from list_del_spec [OF l] obtain m' where d: "list_del e m = Some m'" "lnext m' e = LIST_POISON1"
    "only_links (set (h # xs @ e # ys)) m m'" by blast
  from d(1) obtain as where as: "list_del_writes e m = Some as" "run as m = Some m'"
    unfolding list_del_runs by (elim bind_SomeE)
  have e: "e \<noteq> h" "valid m' e sizeof_list_head"
    using l dlist_valid [OF l, of e] only_links_fields(5) [OF d(3)] by (auto simp: dlist_def)
  let ?step = "rcu_step rd_next (rd_next h) h"
  have "?step (as, m, None, []) (as, m, Some (hd ((xs @ e # ys) @ [h])), [])"
    by (rule rcu_step.enter) (rule dlist_walk(2) [OF l])
  also have "?step\<^sup>*\<^sup>* (as, m, Some (hd ((xs @ e # ys) @ [h])), []) (as, m, Some e, [] @ xs)"
    by (rule reader_reaches [OF dlist_walk(1) [OF l]])
  also have "?step\<^sup>*\<^sup>* (as, m, Some e, [] @ xs) ([], m', Some e, [] @ xs)" by (rule writer_runs [OF as(2)])
  also have "?step ([], m', Some e, [] @ xs) ([], m', Some LIST_POISON1, ([] @ xs) @ [e])"
    using e d(2) by (intro rcu_step.reader) (simp_all add: rd_next_def)
  finally have "?step\<^sup>*\<^sup>* (as, m, None, []) ([], m', Some LIST_POISON1, xs @ [e])" by simp
  moreover have "rd_next LIST_POISON1 m' = None" using assms(2) only_links_fields(5) [OF d(3)] by (simp add: rd_next_def)
  ultimately show ?thesis using as(1) by blast
qed

end
