(* ===== verification/Kernel_Hlist_Rcu.thy ===== *)
theory Kernel_Hlist_Rcu
  imports Kernel_Rcu
begin

text \<open>The RCU variants for the hash chains: an update races with \<open>hlist_for_each_entry_rcu\<close>.\<close>

section \<open>Updates of a chain\<close>

definition hlist_add_head_rcu :: "addr \<Rightarrow> addr \<Rightarrow> 'z mem_scheme \<Rightarrow> 'z action list option" where
  "hlist_add_head_rcu n h m = do {
     first \<leftarrow> rd_first h m;
     Some [wr_hnext n first, wr_pprev n h, smp_wmb,
       (if first \<noteq> NULL then wr_pprev first n else Some), wr_first h n] }"

definition hlist_add_before_rcu :: "addr \<Rightarrow> addr \<Rightarrow> 'z mem_scheme \<Rightarrow> 'z action list option" where
  "hlist_add_before_rcu n next m = Some
     [\<lambda>m. do { pp \<leftarrow> rd_pprev next m; wr_pprev n pp m }, wr_hnext n next, smp_wmb, wr_pprev next n,
      \<lambda>m. do { pp \<leftarrow> rd_pprev n m; wr_through pp n m }]"

definition hlist_add_after_rcu :: "addr \<Rightarrow> addr \<Rightarrow> 'z mem_scheme \<Rightarrow> 'z action list option" where
  "hlist_add_after_rcu prev n m = Some
     [\<lambda>m. do { nx \<leftarrow> rd_hnext prev m; wr_hnext n nx m }, wr_pprev n prev, smp_wmb, wr_hnext prev n,
      \<lambda>m. do { nx \<leftarrow> rd_hnext n m; if nx \<noteq> NULL then wr_pprev nx n m else Some m }]"

definition hlist_del_rcu :: "addr \<Rightarrow> 'z mem_scheme \<Rightarrow> 'z action list option" where
  "hlist_del_rcu n m = do {
     next \<leftarrow> rd_hnext n m;
     pprev \<leftarrow> rd_pprev n m;
     Some [wr_through pprev next, (if next \<noteq> NULL then wr_pprev next pprev else Some), wr_pprev n LIST_POISON2] }"

definition hlist_replace_rcu :: "addr \<Rightarrow> addr \<Rightarrow> 'z mem_scheme \<Rightarrow> 'z action list option" where
  "hlist_replace_rcu old new m = do {
     next \<leftarrow> rd_hnext old m;
     Some [wr_hnext new next, \<lambda>m. do { pp \<leftarrow> rd_pprev old m; wr_pprev new pp m }, smp_wmb,
       (if next \<noteq> NULL then (\<lambda>m. do { nx \<leftarrow> rd_hnext new m; wr_pprev nx new m }) else Some),
       \<lambda>m. do { pp \<leftarrow> rd_pprev new m; wr_through pp new m }, wr_pprev old LIST_POISON2] }"

datatype hupdate = Add_Head addr | Add_Before addr addr | Add_After addr addr | Hdel addr | Hreplace addr addr

fun hwrites :: "addr \<Rightarrow> hupdate \<Rightarrow> 'z mem_scheme \<Rightarrow> 'z action list option" where
  "hwrites h (Add_Head n) m = hlist_add_head_rcu n h m"
| "hwrites h (Add_Before n next) m = hlist_add_before_rcu n next m"
| "hwrites h (Add_After prev n) m = hlist_add_after_rcu prev n m"
| "hwrites h (Hdel n) m = hlist_del_rcu n m"
| "hwrites h (Hreplace old new) m = hlist_replace_rcu old new m"

fun hupdates :: "addr \<Rightarrow> hupdate \<Rightarrow> addr list \<Rightarrow> addr list \<Rightarrow> bool" where
  "hupdates h (Add_Head n) old l = (l = n # old)"
| "hupdates h (Add_Before n e) old l = (\<exists>xs ys. old = xs @ e # ys \<and> l = xs @ n # e # ys)"
| "hupdates h (Add_After e n) old l = (\<exists>xs ys. old = xs @ e # ys \<and> l = xs @ e # n # ys)"
| "hupdates h (Hdel e) old l = (\<exists>xs ys. old = xs @ e # ys \<and> l = xs @ ys)"
| "hupdates h (Hreplace e n) old l = (\<exists>xs ys. old = xs @ e # ys \<and> l = xs @ n # ys)"

fun fresh_hnode :: "hupdate \<Rightarrow> addr option" where
  "fresh_hnode (Add_Head n) = Some n"
| "fresh_hnode (Add_Before n next) = Some n"
| "fresh_hnode (Add_After prev n) = Some n"
| "fresh_hnode (Hdel n) = None"
| "fresh_hnode (Hreplace old new) = Some new"

section \<open>Linking a node\<close>

definition succ_of :: "addr list \<Rightarrow> addr" where
  "succ_of ys = (case ys of [] \<Rightarrow> NULL | y # _ \<Rightarrow> y)"

lemma succ_of_simps [simp]: "succ_of [] = NULL" "succ_of (y # ys) = y"
  by (simp_all add: succ_of_def)

lemma hlist_links:
  assumes "hlist m h (xs @ ys)" and "p = last (h # xs)"
  shows "hptr m p = succ_of ys" and "valid m p sizeof_hlist_head" and "p \<in> set (h # xs)" and "p \<noteq> h \<Longrightarrow> valid m p sizeof_hlist_node"
    and "succ_of ys \<noteq> NULL \<Longrightarrow> valid m (succ_of ys) sizeof_hlist_node \<and> hpprev m (succ_of ys) = p \<and> succ_of ys \<in> set ys"
proof -
  have s: "hseg m h xs" "hseg m p ys" using assms by (simp_all add: hlist_def hseg_append)
  show pin: "p \<in> set (h # xs)" unfolding assms(2) by (rule last_in_set) simp
  show "valid m p sizeof_hlist_head" by (rule hseg_valid_cell [OF s(1) pin])
  show "hptr m p = succ_of ys"
    using assms by (cases ys) (auto simp: succ_of_def hlist_def hseg_append)
  show "p \<noteq> h \<Longrightarrow> valid m p sizeof_hlist_node" using pin hseg_nodes [OF s(1), of p] by auto
  show "succ_of ys \<noteq> NULL \<Longrightarrow> valid m (succ_of ys) sizeof_hlist_node \<and> hpprev m (succ_of ys) = p \<and> succ_of ys \<in> set ys"
    using s(2) by (cases ys) (auto simp: succ_of_def)
qed

lemma hlist_link:
  assumes l: "hlist m h (xs @ ys)" and p: "p = last (h # xs)" and nx: "nx = succ_of ys"
    and x: "x \<notin> set (h # xs @ ys)" "x \<noteq> NULL" "valid m x sizeof_hlist_node"
    and f: "f x = nx" "f p = x" "\<And>a. a \<noteq> x \<Longrightarrow> a \<noteq> p \<Longrightarrow> f a = hptr m a"
    and g: "g x = p" "nx \<noteq> NULL \<Longrightarrow> g nx = x" "\<And>a. a \<noteq> x \<Longrightarrow> a \<noteq> nx \<Longrightarrow> g a = hpprev m a"
  shows "hlist (m\<lparr>hptr := f, hpprev := g\<rparr>) h (xs @ x # ys)"
proof -
  let ?m = "m\<lparr>hptr := f, hpprev := g\<rparr>"
  have d: "distinct (h # xs @ ys)" and s: "hseg m h xs" "hseg m p ys" and e: "hptr m (last (h # xs @ ys)) = NULL"
    using l by (simp_all add: hlist_def hseg_append p)
  have pin: "p \<in> set (h # xs)" and xp: "x \<noteq> p" using hlist_links(3) [OF l p] x(1) by auto
  have pb: "p \<notin> set (butlast (h # xs))"
    using d unfolding p by (metis append_butlast_last_id distinct_append list.discI append_Cons not_distinct_conv_prefix)
  have h1: "hseg ?m h xs"
  proof (rule iffD2 [OF hseg_cong s(1)])
    show "hptr ?m a = hptr m a" if "a \<in> set (butlast (h # xs))" for a
    proof -
      have "a \<noteq> p" using that pb by metis
      moreover have "a \<noteq> x" using in_set_butlastD [OF that] x(1) by auto
      ultimately show ?thesis using f(3) by simp
    qed
    show "hpprev ?m a = hpprev m a" if "a \<in> set xs" for a
    proof -
      have "a \<noteq> NULL" using hseg_nodes [OF s(1) that] by simp
      then have "a \<noteq> x" "a \<noteq> nx" using that d x(1) by (auto simp: nx succ_of_def split: list.splits)
      then show ?thesis using g(3) by simp
    qed
  qed (simp add: valid_def)
  have vx: "valid m x sizeof_hlist_head"
    using x(3) by (rule valid_shrink) (simp add: sizeof_hlist_head_def sizeof_hlist_node_def)
  show ?thesis
  proof (cases ys)
    case Nil
    have "hseg ?m p [x]" "hptr ?m x = NULL"
      using Nil x vx f g nx xp hlist_links(2) [OF l p] by simp_all
    then show ?thesis using h1 d x(1) Nil unfolding hlist_def hseg_append p [symmetric] by auto
  next
    case (Cons y zs)
    have y: "nx = y" "y \<noteq> NULL" "y \<noteq> x" "y \<noteq> p" using Cons s(2) x(1) d pin by (auto simp: nx succ_of_def)
    have t: "hseg ?m y zs"
    proof (rule iffD2 [OF hseg_cong])
      show "hseg m y zs" using s(2) Cons by simp
      show "hptr ?m a = hptr m a" if "a \<in> set (butlast (y # zs))" for a
        using in_set_butlastD [OF that] d Cons pin x(1) by (auto intro!: f(3))
      show "hpprev ?m a = hpprev m a" if "a \<in> set zs" for a
        using that d Cons y(1) x(1) by (auto intro!: g(3))
    qed (simp add: valid_def)
    have "last (y # zs) \<in> set (y # zs)" by (rule last_in_set) simp
    with d Cons pin x(1) have "last (y # zs) \<noteq> x" "last (y # zs) \<noteq> p" by auto
    with e Cons f(3) have "hptr ?m (last (y # zs)) = NULL" by simp
    moreover have "hseg ?m p (x # ys)"
      using hlist_links(2) [OF l p] f g x vx y t s(2) Cons by simp
    ultimately show ?thesis using h1 d x(1) Cons by (auto simp: hlist_def hseg_append p)
  qed
qed

lemma hlist_walk:
  assumes "hlist m h zs"
  shows "walk rd_hnext NULL m (succ_of zs) zs" and "rd_first h m = Some (succ_of zs)"
proof -
  have "walk rd_hnext NULL m (succ_of ys) ys" if "hseg m q ys" "hptr m (last (q # ys)) = NULL" for q ys
    using that
  proof (induction ys arbitrary: q)
    case (Cons y ys)
    have "rd_hnext y m = Some (succ_of ys)" using Cons.prems by (cases ys) (auto simp: rd_hnext_def)
    moreover have "walk rd_hnext NULL m (succ_of ys) ys" by (rule Cons.IH [of y]) (use Cons.prems in auto)
    ultimately show ?case using Cons.prems by simp
  qed simp
  then show "walk rd_hnext NULL m (succ_of zs) zs" using assms by (auto simp: hlist_def)
  show "rd_first h m = Some (succ_of zs)"
    using hlist_first [OF assms] hlist_head_valid [OF assms] by (simp add: rd_first_def succ_of_def)
qed

lemma hquiet [simp]: "quiet rd_hnext S (wr_pprev a b)" "quiet rd_hnext S Some"
  by (auto simp: quiet_def haccess_defs valid_def split: if_splits)

lemma hquiet_next: "a \<notin> S \<Longrightarrow> quiet rd_hnext S (wr_hnext a b)" "a \<notin> S \<Longrightarrow> quiet rd_hnext S (wr_through a b)"
    "a \<notin> S \<Longrightarrow> quiet rd_hnext S (wr_first a b)"
  by (auto simp: quiet_def haccess_defs valid_def split: if_splits)

lemma hstill [simp]: "still (rd_first h) (wr_pprev a b)" "still (rd_first h) Some"
  by (auto simp: still_def haccess_defs valid_def split: if_splits)

lemma hstill_next [simp]: "a \<noteq> h \<Longrightarrow> still (rd_first h) (wr_hnext a b)"
  by (auto simp: still_def haccess_defs valid_def split: if_splits)

lemma hlist_to_go: "hlist m h zs \<Longrightarrow> to_go rd_hnext (rd_first h) NULL m None zs"
  using hlist_walk [of m h zs] by simp

section \<open>The updates replay\<close>

definition rechains :: "addr \<Rightarrow> addr list \<Rightarrow> addr list \<Rightarrow> 'z action list \<Rightarrow> 'z mem_scheme \<Rightarrow> bool" where
  "rechains h old new as m = replays rd_hnext (rd_first h) NULL old new (\<lambda>m'. hlist m' h new) as m"

lemma rechainsI:
  assumes "\<forall>a \<in> set as1. quiet rd_hnext (set old) a" and "\<forall>a \<in> set as2. quiet rd_hnext (set old \<union> set new) a"
    and t: "\<forall>a \<in> set (as1 @ as2). still (rd_first h) a"
    and r: "run as1 m = Some m1" "l m1 = Some m2" "run as2 m2 = Some m3"
    and s: "\<And>z. z \<noteq> last (h # us) \<Longrightarrow> rd_hnext z m2 = rd_hnext z m1"
    and o: "old = us @ ts" "new = us @ ts'" and d: "distinct (h # old)" and w: "hlist m3 h new"
  shows "rechains h old new (as1 @ l # as2) m"
proof -
  have k: "walk rd_hnext NULL m2 (succ_of new) new"
    using hlist_walk(1) [OF w] walk_cong [of new rd_hnext m3 m2] quiet_run [OF assms(2) r(3)] by blast
  then have rl: "relinks rd_hnext NULL old new m1 m2"
    by (intro relinksI [OF s refl o]) (use d in auto)
  have "rd_first h m3 = rd_first h m2" by (rule still_run [OF _ r(3)]) (use t in simp)
  with hlist_walk(2) [OF w] have "rd_first h m2 = Some (succ_of new)" by simp
  then have "to_go rd_hnext (rd_first h) NULL m2 None new" using k by simp
  then show ?thesis unfolding rechains_def
    by (intro replaysI [of as1 m m1 l m2 as2 m3]) (use assms(1,2) r rl t w in simp_all)
qed

lemma rechains_add_head:
  assumes l: "hlist m h ys" and x: "x \<notin> set (h # ys)" "x \<noteq> NULL" "valid m x sizeof_hlist_node"
  shows "\<exists>as. hlist_add_head_rcu x h m = Some as \<and> rechains h ys (x # ys) as m"
proof -
  let ?n = "succ_of ys"
  have l0: "hlist m h ([] @ ys)" using l by simp
  note k = hlist_links [OF l0 refl, simplified]
  have n: "?n \<noteq> x" using x(1,2) k(5) by fastforce
  let ?as1 = "[wr_hnext x ?n, wr_pprev x h, smp_wmb, (if ?n \<noteq> NULL then wr_pprev ?n x else Some)]"
  let ?g = "if ?n \<noteq> NULL then (hpprev m)(x := h, ?n := x) else (hpprev m)(x := h)"
  let ?m1 = "m\<lparr>hptr := (hptr m)(x := ?n), hpprev := ?g\<rparr>" and ?m2 = "m\<lparr>hptr := (hptr m)(x := ?n, h := x), hpprev := ?g\<rparr>"
  have r: "run ?as1 m = Some ?m1" "wr_first h x ?m1 = Some ?m2"
    using k x n by (simp_all add: run_Cons smp_wmb_def haccess_defs)
  have "hlist ?m2 h ([] @ x # ys)"
    by (rule hlist_link [OF l0 refl refl]) (use x n in auto)
  then have w: "hlist ?m2 h (x # ys)" by simp
  have d: "distinct (h # ys)" using l by (simp add: hlist_def)
  have s: "rd_hnext z ?m2 = rd_hnext z ?m1" if "z \<noteq> last (h # [])" for z using that by (simp add: rd_hnext_def)
  have q: "\<forall>a \<in> set ?as1. quiet rd_hnext (set ys) a" using x(1) by (simp add: hquiet_next)
  have st: "\<forall>a \<in> set ?as1. still (rd_first h) a" using x(1) by simp
  have "rechains h ys (x # ys) (?as1 @ wr_first h x # []) m"
    by (rule rechainsI [where us = "[]" and ?m1.0 = ?m1 and ?m2.0 = ?m2 and ?m3.0 = ?m2 and ?as1.0 = ?as1 and
          l = "wr_first h x" and ?as2.0 = "[]"]) (use q st r s d w in simp_all)
  then show ?thesis using hlist_walk(2) [OF l] by (simp add: hlist_add_head_rcu_def)
qed

lemma rechains_add_before:
  assumes l: "hlist m h (xs @ e # ys)" and x: "x \<notin> set (h # xs @ e # ys)" "x \<noteq> NULL" "valid m x sizeof_hlist_node"
  shows "\<exists>as. hlist_add_before_rcu x e m = Some as \<and> rechains h (xs @ e # ys) (xs @ x # e # ys) as m"
proof -
  let ?p = "last (h # xs)"
  note k = hlist_links [OF l refl, simplified succ_of_simps]
  have e: "e \<noteq> NULL" "valid m e sizeof_hlist_node" using hlist_nodes [OF l, of e] by simp_all
  have ne: "x \<noteq> e" "x \<noteq> ?p" "e \<noteq> ?p" using x(1) k(3) l by (auto simp: hlist_def simp del: last.simps)
  let ?as1 = "[\<lambda>m. do { pp \<leftarrow> rd_pprev e m; wr_pprev x pp m }, wr_hnext x e, smp_wmb, wr_pprev e x]"
  let ?l = "\<lambda>m. do { pp \<leftarrow> rd_pprev x m; wr_through pp x m }"
  let ?g = "(hpprev m)(x := ?p, e := x)"
  let ?m1 = "m\<lparr>hptr := (hptr m)(x := e), hpprev := ?g\<rparr>" and ?m2 = "m\<lparr>hptr := (hptr m)(x := e, ?p := x), hpprev := ?g\<rparr>"
  have r: "run ?as1 m = Some ?m1" "?l ?m1 = Some ?m2"
    using k e x ne by (simp_all add: run_Cons smp_wmb_def haccess_defs del: last.simps)
  have w: "hlist ?m2 h (xs @ x # e # ys)"
    by (rule hlist_link [OF l refl refl]) (use x ne in \<open>auto simp del: last.simps\<close>)
  have d: "distinct (h # xs @ e # ys)" using l by (simp add: hlist_def)
  have s: "rd_hnext z ?m2 = rd_hnext z ?m1" if "z \<noteq> ?p" for z using that by (simp add: rd_hnext_def del: last.simps)
  have q: "\<forall>a \<in> set ?as1. quiet rd_hnext (set (xs @ e # ys)) a" using x(1) by (simp add: hquiet_next quiet_bind)
  have st: "\<forall>a \<in> set ?as1. still (rd_first h) a" using x(1) by (simp add: still_bind)
  have "rechains h (xs @ e # ys) (xs @ x # e # ys) (?as1 @ ?l # []) m"
    by (rule rechainsI [where us = xs and ?m1.0 = ?m1 and ?m2.0 = ?m2 and ?m3.0 = ?m2 and ?as1.0 = ?as1 and l = ?l and
          ?as2.0 = "[]"]) (use q st r s d w in \<open>simp_all del: last.simps\<close>)
  then show ?thesis by (simp add: hlist_add_before_rcu_def)
qed

lemma rechains_add_after:
  assumes l: "hlist m h (xs @ e # ys)" and x: "x \<notin> set (h # xs @ e # ys)" "x \<noteq> NULL" "valid m x sizeof_hlist_node"
  shows "\<exists>as. hlist_add_after_rcu e x m = Some as \<and> rechains h (xs @ e # ys) (xs @ e # x # ys) as m"
proof -
  let ?n = "succ_of ys"
  have l': "hlist m h ((xs @ [e]) @ ys)" using l by simp
  have lp: "e = last (h # xs @ [e])" by simp
  note k = hlist_links [OF l' lp]
  have e: "e \<noteq> NULL" "valid m e sizeof_hlist_node" using hlist_nodes [OF l, of e] by simp_all
  have ne: "x \<noteq> e" "x \<noteq> ?n" "?n \<noteq> e"
    using x(1,2) k(5) l e(1) by (auto simp: hlist_def)
  let ?as1 = "[\<lambda>m. do { nx \<leftarrow> rd_hnext e m; wr_hnext x nx m }, wr_pprev x e, smp_wmb]"
  let ?as2 = "[\<lambda>m. do { nx \<leftarrow> rd_hnext x m; if nx \<noteq> NULL then wr_pprev nx x m else Some m }]"
  let ?g = "if ?n \<noteq> NULL then (hpprev m)(x := e, ?n := x) else (hpprev m)(x := e)"
  let ?m1 = "m\<lparr>hptr := (hptr m)(x := ?n), hpprev := (hpprev m)(x := e)\<rparr>"
    and ?m2 = "m\<lparr>hptr := (hptr m)(x := ?n, e := x), hpprev := (hpprev m)(x := e)\<rparr>"
    and ?m3 = "m\<lparr>hptr := (hptr m)(x := ?n, e := x), hpprev := ?g\<rparr>"
  have r: "run ?as1 m = Some ?m1" "wr_hnext e x ?m1 = Some ?m2" "run ?as2 ?m2 = Some ?m3"
    using k e x ne by (simp_all add: run_Cons smp_wmb_def haccess_defs)
  have "hlist ?m3 h ((xs @ [e]) @ x # ys)"
    by (rule hlist_link [OF l' lp refl]) (use x ne in auto)
  then have w: "hlist ?m3 h (xs @ e # x # ys)" by simp
  have d: "distinct (h # xs @ e # ys)" using l by (simp add: hlist_def)
  have s: "rd_hnext z ?m2 = rd_hnext z ?m1" if "z \<noteq> last (h # xs @ [e])" for z using that by (simp add: rd_hnext_def)
  have q: "\<forall>a \<in> set ?as1. quiet rd_hnext (set (xs @ e # ys)) a"
    using x(1) quiet_bind [where f = "\<lambda>nx. wr_hnext x nx", OF hquiet_next(1) [of x "set (xs @ e # ys)"]] by (simp add: hquiet_next)
  have "quiet rd_hnext S (if v \<noteq> NULL then wr_pprev v x else Some)" for S v by simp
  then have q2: "\<forall>a \<in> set ?as2. quiet rd_hnext (set (xs @ e # ys) \<union> set (xs @ e # x # ys)) a"
    by (auto simp: quiet_def haccess_defs valid_def split: if_splits elim!: bind_SomeE)
  have st: "\<forall>a \<in> set (?as1 @ ?as2). still (rd_first h) a"
    using x(1) still_bind [where f = "\<lambda>nx. wr_hnext x nx", OF hstill_next [of x h]]
    by (auto simp: still_def haccess_defs valid_def smp_wmb_def split: if_splits elim!: bind_SomeE)
  have "rechains h (xs @ e # ys) (xs @ e # x # ys) (?as1 @ wr_hnext e x # ?as2) m"
    by (rule rechainsI [where us = "xs @ [e]" and ?m1.0 = ?m1 and ?m2.0 = ?m2 and ?m3.0 = ?m3 and ?as1.0 = ?as1 and
          l = "wr_hnext e x" and ?as2.0 = ?as2, OF q q2 st r(1)]) (use r(2,3) s d w in simp_all)
  then show ?thesis by (simp add: hlist_add_after_rcu_def)
qed

lemma rechains_del:
  assumes l: "hlist m h (xs @ e # ys)"
  shows "\<exists>as. hlist_del_rcu e m = Some as \<and> rechains h (xs @ e # ys) (xs @ ys) as m"
proof -
  let ?p = "last (h # xs)" and ?n = "succ_of ys"
  have l': "hlist m h ((xs @ [e]) @ ys)" using l by simp
  note k = hlist_links [OF l refl, simplified succ_of_simps]
  have "e = last (h # xs @ [e])" by simp
  note ke = hlist_links [OF l' this]
  have e: "e \<noteq> NULL" "valid m e sizeof_hlist_node" using hlist_nodes [OF l, of e] by simp_all
  have ne: "e \<noteq> ?p" "?n \<noteq> e" using k(3) ke(5) e(1) l by (auto simp: hlist_def simp del: last.simps)
  let ?as2 = "[if ?n \<noteq> NULL then wr_pprev ?n ?p else Some, wr_pprev e LIST_POISON2]"
  let ?m2 = "m\<lparr>hptr := (hptr m)(?p := ?n)\<rparr>"
    and ?m3 = "m\<lparr>hptr := (hptr m)(?p := ?n), hpprev := (if ?n = NULL then hpprev m else (hpprev m)(?n := ?p))(e := LIST_POISON2)\<rparr>"
  have pe: "hpprev m e = ?p" using k(5) e by simp
  have r: "wr_through ?p ?n m = Some ?m2" "run ?as2 ?m2 = Some ?m3"
    using k ke e by (simp_all add: run_Cons haccess_defs del: last.simps)
  have w: "hlist ?m3 h (xs @ ys)"
    by (rule hlist_unlink [OF l refl succ_of_def]) (use ne in \<open>auto simp del: last.simps\<close>)
  have d: "distinct (h # xs @ e # ys)" using l by (simp add: hlist_def)
  have s: "rd_hnext z ?m2 = rd_hnext z m" if "z \<noteq> ?p" for z using that by (simp add: rd_hnext_def del: last.simps)
  have "rechains h (xs @ e # ys) (xs @ ys) ([] @ wr_through ?p ?n # ?as2) m"
    by (rule rechainsI [where us = xs and ?m1.0 = m and ?m2.0 = ?m2 and ?m3.0 = ?m3 and ?as1.0 = "[]" and
          l = "wr_through ?p ?n" and ?as2.0 = ?as2]) (use r s d w in \<open>simp_all del: last.simps\<close>)
  moreover have "rd_hnext e m = Some ?n" "rd_pprev e m = Some ?p" using ke(1) e pe by (simp_all add: haccess_defs)
  ultimately show ?thesis by (simp add: hlist_del_rcu_def del: last.simps split del: if_split)
qed

lemma rechains_replace:
  assumes l: "hlist m h (xs @ e # ys)" and x: "x \<notin> set (h # xs @ e # ys)" "x \<noteq> NULL" "valid m x sizeof_hlist_node"
  shows "\<exists>as. hlist_replace_rcu e x m = Some as \<and> rechains h (xs @ e # ys) (xs @ x # ys) as m"
proof -
  let ?p = "last (h # xs)" and ?n = "succ_of ys"
  have l': "hlist m h ((xs @ [e]) @ ys)" using l by simp
  note k = hlist_links [OF l refl, simplified succ_of_simps]
  have "e = last (h # xs @ [e])" by simp
  note ke = hlist_links [OF l' this]
  have e: "e \<noteq> NULL" "valid m e sizeof_hlist_node" using hlist_nodes [OF l, of e] by simp_all
  have ne: "e \<noteq> ?p" "?n \<noteq> e" "x \<noteq> e" "x \<noteq> ?p" "x \<noteq> ?n"
    using k(3) ke(5) e(1) x(1,2) l by (auto simp: hlist_def simp del: last.simps)
  have pe: "hpprev m e = ?p" using k(5) e by simp
  let ?as1 = "[wr_hnext x ?n, \<lambda>m. do { pp \<leftarrow> rd_pprev e m; wr_pprev x pp m }, smp_wmb,
      if ?n \<noteq> NULL then (\<lambda>m. do { nx \<leftarrow> rd_hnext x m; wr_pprev nx x m }) else Some]"
  let ?l = "\<lambda>m. do { pp \<leftarrow> rd_pprev x m; wr_through pp x m }"
  let ?g = "if ?n \<noteq> NULL then (hpprev m)(x := ?p, ?n := x) else (hpprev m)(x := ?p)"
  let ?m1 = "m\<lparr>hptr := (hptr m)(x := ?n), hpprev := ?g\<rparr>" and ?m2 = "m\<lparr>hptr := (hptr m)(x := ?n, ?p := x), hpprev := ?g\<rparr>"
    and ?m3 = "m\<lparr>hptr := (hptr m)(x := ?n, ?p := x), hpprev := ?g(e := LIST_POISON2)\<rparr>"
  have r: "run ?as1 m = Some ?m1" "?l ?m1 = Some ?m2" "run [wr_pprev e LIST_POISON2] ?m2 = Some ?m3"
    using k ke e x ne pe by (simp_all add: run_Cons smp_wmb_def haccess_defs del: last.simps)
  let ?u = "m\<lparr>hptr := (hptr m)(?p := ?n), hpprev := (if ?n = NULL then hpprev m else (hpprev m)(?n := ?p))(e := LIST_POISON2)\<rparr>"
  have "hlist ?u h (xs @ ys)"
    by (rule hlist_unlink [OF l refl succ_of_def]) (use ne in \<open>auto simp del: last.simps\<close>)
  then have "hlist (?u\<lparr>hptr := (hptr m)(x := ?n, ?p := x), hpprev := ?g(e := LIST_POISON2)\<rparr>) h (xs @ x # ys)"
    by (rule hlist_link [OF _ refl refl]) (use x ne in \<open>auto simp del: last.simps simp: valid_def\<close>)
  then have w: "hlist ?m3 h (xs @ x # ys)" by simp
  have d: "distinct (h # xs @ e # ys)" using l by (simp add: hlist_def)
  have s: "rd_hnext z ?m2 = rd_hnext z ?m1" if "z \<noteq> ?p" for z using that by (simp add: rd_hnext_def del: last.simps)
  have q: "\<forall>a \<in> set ?as1. quiet rd_hnext (set (xs @ e # ys)) a" using x(1) by (simp add: hquiet_next quiet_bind)
  have st: "\<forall>a \<in> set ?as1. still (rd_first h) a" using x(1) by (simp add: still_bind)
  have "rechains h (xs @ e # ys) (xs @ x # ys) (?as1 @ ?l # [wr_pprev e LIST_POISON2]) m"
    by (rule rechainsI [where us = xs and ?m1.0 = ?m1 and ?m2.0 = ?m2 and ?m3.0 = ?m3 and ?as1.0 = ?as1 and l = ?l and
          ?as2.0 = "[wr_pprev e LIST_POISON2]", OF q _ _ r(1)]) (use st r(2,3) s d w in \<open>simp_all del: last.simps\<close>)
  then show ?thesis using ke(1) e by (simp add: hlist_replace_rcu_def haccess_defs)
qed

section \<open>Readers\<close>

lemma hupdate_rechains:
  assumes l: "hlist m h old" and u: "hupdates h u old new"
    and x: "\<forall>x. fresh_hnode u = Some x \<longrightarrow> x \<notin> set (h # old) \<and> x \<noteq> NULL \<and> valid m x sizeof_hlist_node"
  shows "\<exists>as. hwrites h u m = Some as \<and> rechains h old new as m"
proof (cases u)
  case (Add_Head n)
  with u x rechains_add_head [OF l] show ?thesis by simp
next
  case (Add_Before n e)
  with u obtain xs ys where "old = xs @ e # ys" "new = xs @ n # e # ys" by auto
  with l x Add_Before rechains_add_before show ?thesis by fastforce
next
  case (Add_After e n)
  with u obtain xs ys where "old = xs @ e # ys" "new = xs @ e # n # ys" by auto
  with l x Add_After rechains_add_after show ?thesis by fastforce
next
  case (Hdel e)
  with u l rechains_del show ?thesis by fastforce
next
  case (Hreplace e n)
  with u obtain xs ys where "old = xs @ e # ys" "new = xs @ n # ys" by auto
  with l x Hreplace rechains_replace show ?thesis by fastforce
qed

interpretation rh: racing rd_hnext "\<lambda>_. NULL" rd_first hlist hwrites hupdates
    "\<lambda>m h u old. \<forall>x. fresh_hnode u = Some x \<longrightarrow> x \<notin> set (h # old) \<and> x \<noteq> NULL \<and> valid m x sizeof_hlist_node"
proof (unfold_locales, goal_cases)
  case (1 m h old)
  then show ?case by (simp add: hlist_def)
next
  case (2 m h old)
  then show ?case by (rule hlist_to_go)
next
  case (3 m h old u new)
  from hupdate_rechains [OF this] show ?case by (simp add: rechains_def)
qed

text \<open>C17. The same for the chains of a hash map: while a node is added, deleted or replaced by the RCU
  variants, a reader of the chain, which may begin before, during or after the update, comes to its
  end without a fault, and has then visited exactly the nodes of the chain as it was before or as it
  is afterwards. Had \<open>hlist_add_head_rcu\<close> put its node at the head before the node's own link is written, a
  reader that begins between the two writes would follow a stale link.\<close>

theorem rcu_reader_sees_a_chain:
  assumes "hlist m h old" and "hupdates h u old new"
    and "\<forall>x. fresh_hnode u = Some x \<longrightarrow> x \<notin> set (h # old) \<and> x \<noteq> NULL \<and> valid m x sizeof_hlist_node"
  shows "\<exists>as. hwrites h u m = Some as \<and>
    (\<forall>as' m' pos vs. (rcu_step rd_hnext (rd_first h) NULL)\<^sup>*\<^sup>* (as, m, None, []) (as', m', pos, vs) \<longrightarrow>
      (\<exists>zs. to_go rd_hnext (rd_first h) NULL m' pos zs \<and> (vs @ zs = old \<or> vs @ zs = new)) \<and>
      (\<exists>m''. run as' m' = Some m'' \<and> hlist m'' h new))"
  by (rule rh.reader_sees_old_or_new [OF assms])

text \<open>A chain of one node, and a second node beside it.\<close>

definition one_chain :: mem where
  "one_chain = two_lists\<lparr>hptr := (\<lambda>_. NULL)(0xC0000000 := 0xC0000008), hpprev := (\<lambda>_. NULL)(0xC0000008 := 0xC0000000)\<rparr>"

theorem rcu_reader_sees_a_chain_witness:
  "\<exists>as. hwrites 0xC0000000 (Add_Head 0xC0000010) one_chain = Some as \<and>
    (\<forall>as' m' pos vs. (rcu_step rd_hnext (rd_first 0xC0000000) NULL)\<^sup>*\<^sup>* (as, one_chain, None, []) (as', m', pos, vs) \<longrightarrow>
      (\<exists>zs. to_go rd_hnext (rd_first 0xC0000000) NULL m' pos zs \<and>
        (vs @ zs = [0xC0000008] \<or> vs @ zs = [0xC0000010, 0xC0000008])) \<and>
      (\<exists>m''. run as' m' = Some m'' \<and> hlist m'' 0xC0000000 [0xC0000010, 0xC0000008]))"
proof (rule rcu_reader_sees_a_chain)
  show "hlist one_chain 0xC0000000 [0xC0000008]"
    by (simp add: hlist_def one_chain_def two_lists_def valid_def sizeof_hlist_head_def sizeof_hlist_node_def)
  show "hupdates 0xC0000000 (Add_Head 0xC0000010) [0xC0000008] [0xC0000010, 0xC0000008]" by simp
  show "\<forall>x. fresh_hnode (Add_Head 0xC0000010) = Some x \<longrightarrow>
      x \<notin> set [0xC0000000, 0xC0000008] \<and> x \<noteq> NULL \<and> valid one_chain x sizeof_hlist_node"
    by (simp add: one_chain_def two_lists_def valid_def sizeof_hlist_node_def)
qed

end
