(* ===== verification/Uevent.thy ===== *)
theory Uevent
  imports Format_Print
begin

text \<open>
  The user-space helper \<open>udev1.c\<close>: it listens on the netlink socket on which the kernel announces
  devices, drops what does not come from the kernel, and parses the rest. A message is an array
  of bytes; a pointer into it is an index, and a read behind its end is \<open>None\<close>.
\<close>

section \<open>The array\<close>

definition byte_at :: "bytes \<Rightarrow> nat \<Rightarrow> u8 option" where
  "byte_at msg i = (if i < length msg then Some (msg ! i) else None)"

text \<open>\<open>!strncmp(msg, key, length)\<close>: it stops at the first byte that differs.\<close>

fun starts_with :: "bytes \<Rightarrow> nat \<Rightarrow> bytes \<Rightarrow> bool option" where
  "starts_with msg i [] = Some True"
| "starts_with msg i (k # ks) = do {
     c \<leftarrow> byte_at msg i;
     if c \<noteq> k then Some False else starts_with msg (Suc i) ks }"

text \<open>\<open>while (*msg++);\<close> gives the index after the next zero.\<close>

function skip_past :: "bytes \<Rightarrow> nat \<Rightarrow> nat option" where
  "skip_past msg i =
     (if i < length msg then (if msg ! i = 0 then Some (Suc i) else skip_past msg (Suc i)) else None)"
  by pat_completeness auto
termination by (relation "measure (\<lambda>(msg, i). length msg - i)") auto

declare skip_past.simps [simp del]

text \<open>
  \<open>atoi\<close> of the C library: white space, a sign, digits up to the first other byte. \<open>ov\<close> is what
  the library gives for a number that does not fit an \<open>int\<close>.
\<close>

definition isspace :: "u8 \<Rightarrow> bool" where
  "isspace c = (c = 32 \<or> 9 \<le> c \<and> c \<le> 13)"

fun libc_digits :: "bytes \<Rightarrow> int \<Rightarrow> int option" where
  "libc_digits [] n = None"
| "libc_digits (c # s) n = (if 48 \<le> c \<and> c \<le> 57 then libc_digits s (10 * n + (uint c - 48)) else Some n)"

definition libc_atoi :: "(int \<Rightarrow> int) \<Rightarrow> bytes \<Rightarrow> int option" where
  "libc_atoi ov s = do {
     let t = dropWhile isspace s;
     let signed = (case t of c # _ \<Rightarrow> c = 43 \<or> c = 45 | [] \<Rightarrow> False);
     let minus = (case t of c # _ \<Rightarrow> c = 45 | [] \<Rightarrow> False);
     n \<leftarrow> libc_digits (if signed then tl t else t) 0;
     let v = (if minus then - n else n);
     Some (if - (2 ^ 31) \<le> v \<and> v < 2 ^ 31 then v else ov v)
   }"

section \<open>Parsing an event\<close>

text \<open>The text fields point into the message; \<open>None\<close> is the empty literal they start with.\<close>

record uevent =
  ue_action :: "nat option"
  ue_path :: "nat option"
  ue_subsystem :: "nat option"
  ue_firmware :: "nat option"
  ue_major :: int
  ue_minor :: int

definition no_event :: uevent where
  "no_event = \<lparr>ue_action = None, ue_path = None, ue_subsystem = None, ue_firmware = None, ue_major = -1, ue_minor = -1\<rparr>"

text \<open>The chain of comparisons: the index behind the key that was found, and the event.\<close>

definition parse_key :: "(int \<Rightarrow> int) \<Rightarrow> bytes \<Rightarrow> nat \<Rightarrow> uevent \<Rightarrow> (nat \<times> uevent) option" where
  "parse_key ov msg i ue = do {
     a \<leftarrow> starts_with msg i (chars ''ACTION='');
     if a then Some (i + 7, ue\<lparr>ue_action := Some (i + 7)\<rparr>)
     else do {
       d \<leftarrow> starts_with msg i (chars ''DEVPATH='');
       if d then Some (i + 8, ue\<lparr>ue_path := Some (i + 8)\<rparr>)
       else do {
         s \<leftarrow> starts_with msg i (chars ''SUBSYSTEM='');
         if s then Some (i + 10, ue\<lparr>ue_subsystem := Some (i + 10)\<rparr>)
         else do {
           f \<leftarrow> starts_with msg i (chars ''FIRMWARE='');
           if f then Some (i + 9, ue\<lparr>ue_firmware := Some (i + 9)\<rparr>)
           else do {
             ma \<leftarrow> starts_with msg i (chars ''MAJOR='');
             if ma then do {
               n \<leftarrow> libc_atoi ov (drop (i + 6) msg);
               Some (i + 6, ue\<lparr>ue_major := n\<rparr>) }
             else do {
               mi \<leftarrow> starts_with msg i (chars ''MINOR='');
               if mi then do {
                 n \<leftarrow> libc_atoi ov (drop (i + 6) msg);
                 Some (i + 6, ue\<lparr>ue_minor := n\<rparr>) }
               else Some (i, ue) } } } } } }"

partial_function (option) parse_from :: "(int \<Rightarrow> int) \<Rightarrow> bytes \<Rightarrow> nat \<Rightarrow> uevent \<Rightarrow> uevent option" where
  "parse_from ov msg i ue = do {
     c \<leftarrow> byte_at msg i;
     if c = 0 then Some ue
     else do {
       (j, ue1) \<leftarrow> parse_key ov msg i ue;
       k \<leftarrow> skip_past msg j;
       parse_from ov msg k ue1 } }"

text \<open>The four texts and two numbers that are printed.\<close>

definition ue_text :: "bytes \<Rightarrow> nat option \<Rightarrow> bytes" where
  "ue_text msg p = (case p of None \<Rightarrow> [] | Some i \<Rightarrow> cstr (drop i msg))"

record event_text =
  et_action :: bytes
  et_path :: bytes
  et_subsystem :: bytes
  et_firmware :: bytes
  et_major :: int
  et_minor :: int

definition event_texts :: "bytes \<Rightarrow> uevent \<Rightarrow> event_text" where
  "event_texts msg ue = \<lparr>et_action = ue_text msg (ue_action ue), et_path = ue_text msg (ue_path ue),
     et_subsystem = ue_text msg (ue_subsystem ue), et_firmware = ue_text msg (ue_firmware ue),
     et_major = ue_major ue, et_minor = ue_minor ue\<rparr>"

definition parse_event :: "(int \<Rightarrow> int) \<Rightarrow> bytes \<Rightarrow> event_text option" where
  "parse_event ov msg = do { ue \<leftarrow> parse_from ov msg 0 no_event; Some (event_texts msg ue) }"

section \<open>Receiving\<close>

text \<open>
  What one \<open>recvmsg\<close> gives: its result, the sender's groups and process, the first control
  message if there is one (its type and the user of the credentials), and the bytes received.
\<close>

record received =
  rc_n :: int
  rc_groups :: u32
  rc_pid :: u32
  rc_cmsg :: "(int \<times> u32) option"
  rc_data :: bytes

definition UEVENT_MSG_LEN :: nat where "UEVENT_MSG_LEN = 1024"
definition SCM_CREDENTIALS :: int where "SCM_CREDENTIALS = 2"

text \<open>The filters in the order of the code; \<open>True\<close> for a message that is kept.\<close>

definition from_kernel :: "received \<Rightarrow> bool" where
  "from_kernel r =
     (\<not> (rc_groups r \<noteq> 1 \<or> rc_pid r \<noteq> 0) \<and>
      (case rc_cmsg r of None \<Rightarrow> False | Some (ty, uid) \<Rightarrow> ty = SCM_CREDENTIALS \<and> uid = 0))"

text \<open>The array after \<open>recvmsg\<close> and the two zeros: \<open>stale\<close> holds what was in it before.\<close>

definition message :: "bytes \<Rightarrow> received \<Rightarrow> bytes option" where
  "message stale r = do {
     let n = nat (rc_n r);
     assert_opt (n + 1 < length stale \<and> length (rc_data r) = n);
     Some (rc_data r @ 0 # 0 # drop (n + 2) stale) }"

text \<open>The events that are printed, for the messages that arrive; the loop ends when \<open>recvmsg\<close> fails.\<close>

fun handle_device_fd :: "(int \<Rightarrow> int) \<Rightarrow> bytes \<Rightarrow> received list \<Rightarrow> event_text list option" where
  "handle_device_fd ov stale [] = Some []"
| "handle_device_fd ov stale (r # rs) =
     (if rc_n r \<le> 0 then Some []
      else if \<not> from_kernel r then handle_device_fd ov stale rs
      else if int UEVENT_MSG_LEN \<le> rc_n r then handle_device_fd ov stale rs
      else do {
        msg \<leftarrow> message stale r;
        ev \<leftarrow> parse_event ov msg;
        evs \<leftarrow> handle_device_fd ov stale rs;
        Some (ev # evs) })"

text \<open>The socket: what \<open>socket\<close> and \<open>bind\<close> give, and the descriptors that are closed again.\<close>

definition open_uevent_socket :: "int \<Rightarrow> int \<Rightarrow> int \<times> int list" where
  "open_uevent_socket s b = (if s < 0 then (-1, []) else if b < 0 then (-1, [s]) else (s, []))"

text \<open>The program, for what \<open>socket\<close> and \<open>bind\<close> give and the messages that arrive; without a \<open>return\<close> it gives 0.\<close>

definition main :: "int \<Rightarrow> int \<Rightarrow> (int \<Rightarrow> int) \<Rightarrow> bytes \<Rightarrow> received list \<Rightarrow> (int \<times> event_text list) option" where
  "main s b ov stale rs =
     (let fd = fst (open_uevent_socket s b)
      in if fd < 0 then Some (-1, [])
         else do {
           evs \<leftarrow> handle_device_fd ov stale rs;
           Some (0, evs) })"

section \<open>No read behind the message\<close>

text \<open>\<open>ends_at msg n\<close>: two zeros close the message of \<open>n\<close> bytes.\<close>

definition ends_at :: "bytes \<Rightarrow> nat \<Rightarrow> bool" where
  "ends_at msg n = (Suc n < length msg \<and> msg ! n = 0 \<and> msg ! Suc n = 0)"

lemma starts_with_total:
  assumes "ends_at msg n" and "i \<le> n" and "0 \<notin> set key"
  shows "\<exists>b. starts_with msg i key = Some b \<and> (b \<longrightarrow> i + length key \<le> n)"
  using assms(2,3)
proof (induction key arbitrary: i)
  case (Cons k ks)
  have i: "i < length msg" using Cons.prems(1) assms(1) by (simp add: ends_at_def)
  show ?case
  proof (cases "msg ! i = k")
    case True
    then have "i \<noteq> n" using assms(1) Cons.prems(2) by (auto simp: ends_at_def)
    then have "Suc i \<le> n" using Cons.prems(1) by simp
    from Cons.IH [OF this] Cons.prems(2) True i show ?thesis by (auto simp: byte_at_def)
  next
    case False
    then show ?thesis using i by (intro exI [of _ False]) (simp add: byte_at_def)
  qed
qed (intro exI [of _ True], simp)

lemma skip_past_total:
  assumes "ends_at msg n" and "i \<le> n"
  shows "\<exists>k. skip_past msg i = Some k \<and> i < k \<and> k \<le> Suc n"
  using assms(2)
proof (induction "n - i" arbitrary: i)
  case 0
  then have "i = n" by simp
  with assms(1) show ?case by (subst skip_past.simps) (simp add: ends_at_def)
next
  case (Suc d)
  from Suc.hyps(2) have "d = n - Suc i" "Suc i \<le> n" by simp_all
  from Suc.hyps(1) [OF this] obtain k where "skip_past msg (Suc i) = Some k" "Suc i < k" "k \<le> Suc n" by blast
  moreover have "i < length msg" using Suc.prems assms(1) by (simp add: ends_at_def)
  ultimately show ?case using Suc.prems by (subst skip_past.simps) auto
qed

lemma libc_digits_total: "\<exists>c \<in> set s. \<not> (48 \<le> c \<and> c \<le> 57) \<Longrightarrow> \<exists>v. libc_digits s n = Some v"
  by (induction s n rule: libc_digits.induct) auto

lemma libc_atoi_total:
  assumes "0 \<in> set s"
  shows "\<exists>v. libc_atoi ov s = Some v"
proof -
  let ?t = "dropWhile isspace s"
  from assms obtain xs ys where "s = xs @ 0 # ys" by (meson split_list)
  then have t: "0 \<in> set ?t" by (auto simp: dropWhile_append isspace_def)
  define u where "u = (if (case ?t of c # _ \<Rightarrow> c = 43 \<or> c = 45 | [] \<Rightarrow> False) then tl ?t else ?t)"
  have "0 \<in> set u" using t by (auto simp: u_def split: list.splits)
  then have "\<exists>c \<in> set u. \<not> (48 \<le> c \<and> c \<le> 57)" by force
  then obtain v where "libc_digits u 0 = Some v" using libc_digits_total by blast
  then show ?thesis by (simp add: libc_atoi_def u_def Let_def)
qed

lemma libc_atoi_inside:
  assumes "ends_at msg n" and "i \<le> n"
  shows "\<exists>v. libc_atoi ov (drop i msg) = Some v"
proof (rule libc_atoi_total)
  have "n - i < length (drop i msg)" "drop i msg ! (n - i) = 0" using assms by (auto simp: ends_at_def)
  then show "0 \<in> set (drop i msg)" by (metis nth_mem)
qed

lemma keys_nonzero:
  "0 \<notin> set (chars ''ACTION='')" "0 \<notin> set (chars ''DEVPATH='')" "0 \<notin> set (chars ''SUBSYSTEM='')"
  "0 \<notin> set (chars ''FIRMWARE='')" "0 \<notin> set (chars ''MAJOR='')" "0 \<notin> set (chars ''MINOR='')"
  by (simp_all add: chars_def)

lemma parse_key_total:
  assumes e: "ends_at msg n" and i: "i \<le> n"
  shows "\<exists>j ue1. parse_key ov msg i ue = Some (j, ue1) \<and> i \<le> j \<and> j \<le> n"
proof -
  note s = starts_with_total [OF e i]
  have len: "length (chars ''ACTION='') = 7" "length (chars ''DEVPATH='') = 8" "length (chars ''SUBSYSTEM='') = 10"
    "length (chars ''FIRMWARE='') = 9" "length (chars ''MAJOR='') = 6" "length (chars ''MINOR='') = 6"
    by (simp_all add: chars_def)
  obtain a where a: "starts_with msg i (chars ''ACTION='') = Some a" "a \<Longrightarrow> i + 7 \<le> n"
    using s [OF keys_nonzero(1)] unfolding len by blast
  obtain d where d: "starts_with msg i (chars ''DEVPATH='') = Some d" "d \<Longrightarrow> i + 8 \<le> n"
    using s [OF keys_nonzero(2)] unfolding len by blast
  obtain u where u: "starts_with msg i (chars ''SUBSYSTEM='') = Some u" "u \<Longrightarrow> i + 10 \<le> n"
    using s [OF keys_nonzero(3)] unfolding len by blast
  obtain f where f: "starts_with msg i (chars ''FIRMWARE='') = Some f" "f \<Longrightarrow> i + 9 \<le> n"
    using s [OF keys_nonzero(4)] unfolding len by blast
  obtain ma where ma: "starts_with msg i (chars ''MAJOR='') = Some ma" "ma \<Longrightarrow> i + 6 \<le> n"
    using s [OF keys_nonzero(5)] unfolding len by blast
  obtain mi where mi: "starts_with msg i (chars ''MINOR='') = Some mi" "mi \<Longrightarrow> i + 6 \<le> n"
    using s [OF keys_nonzero(6)] unfolding len by blast
  have v: "\<exists>v. libc_atoi ov (drop (i + 6) msg) = Some v" if "i + 6 \<le> n" by (rule libc_atoi_inside [OF e that])
  show ?thesis
    unfolding parse_key_def a(1) d(1) u(1) f(1) ma(1) mi(1) bind.bind_lunit
    using a(2) d(2) u(2) f(2) ma(2) mi(2) v i
    by (cases a; cases d; cases u; cases f; cases ma; cases mi) (auto split: if_splits)
qed

lemma parse_from_total:
  assumes e: "ends_at msg n" and i: "i \<le> Suc n"
  shows "\<exists>ue1. parse_from ov msg i ue = Some ue1"
  using i
proof (induction "Suc n - i" arbitrary: i ue rule: less_induct)
  case less
  have l: "i < length msg" using less.prems e by (simp add: ends_at_def)
  show ?case
  proof (cases "msg ! i = 0")
    case True
    with l show ?thesis by (subst parse_from.simps) (simp add: byte_at_def)
  next
    case False
    then have "i \<noteq> Suc n" using e by (auto simp: ends_at_def)
    then have i: "i \<le> n" using less.prems by simp
    from parse_key_total [OF e i, of ov ue] obtain j ue1 where j: "parse_key ov msg i ue = Some (j, ue1)" "i \<le> j" "j \<le> n" by blast
    from skip_past_total [OF e j(3)] obtain k where k: "skip_past msg j = Some k" "j < k" "k \<le> Suc n" by blast
    from less.hyps [of k ue1] j k i obtain ue2 where "parse_from ov msg k ue1 = Some ue2" by (metis diff_less_mono2 le_imp_less_Suc order_le_less_trans)
    with False l j(1) k(1) show ?thesis by (subst parse_from.simps) (simp add: byte_at_def)
  qed
qed

lemma parse_event_total: "ends_at msg n \<Longrightarrow> \<exists>ev. parse_event ov msg = Some ev"
  using parse_from_total [of msg n 0 ov no_event] by (auto simp: parse_event_def)

section \<open>The parser by lines\<close>

text \<open>The reference: a message is a sequence of lines, and the last line with a key counts.\<close>

definition line_number :: "(int \<Rightarrow> int) \<Rightarrow> bytes \<Rightarrow> int" where
  "line_number ov v = (case libc_atoi ov (v @ [0]) of Some n \<Rightarrow> n | None \<Rightarrow> 0)"

definition keyed :: "string \<Rightarrow> bytes \<Rightarrow> bool" where
  "keyed key l = (take (length key) l = chars key)"

definition line_event :: "(int \<Rightarrow> int) \<Rightarrow> bytes \<Rightarrow> event_text \<Rightarrow> event_text" where
  "line_event ov l e =
     (if keyed ''ACTION='' l then e\<lparr>et_action := drop 7 l\<rparr>
      else if keyed ''DEVPATH='' l then e\<lparr>et_path := drop 8 l\<rparr>
      else if keyed ''SUBSYSTEM='' l then e\<lparr>et_subsystem := drop 10 l\<rparr>
      else if keyed ''FIRMWARE='' l then e\<lparr>et_firmware := drop 9 l\<rparr>
      else if keyed ''MAJOR='' l then e\<lparr>et_major := line_number ov (drop 6 l)\<rparr>
      else if keyed ''MINOR='' l then e\<lparr>et_minor := line_number ov (drop 6 l)\<rparr>
      else e)"

definition no_text :: event_text where
  "no_text = \<lparr>et_action = [], et_path = [], et_subsystem = [], et_firmware = [], et_major = -1, et_minor = -1\<rparr>"

definition line_ok :: "bytes \<Rightarrow> bool" where
  "line_ok l = (l \<noteq> [] \<and> 0 \<notin> set l)"

definition joined :: "bytes list \<Rightarrow> bytes" where
  "joined ls = concat (map (\<lambda>l. l @ [0]) ls)"

lemma byte_at_append: "byte_at (pre @ c # r) (length pre) = Some c"
  by (simp add: byte_at_def)

lemma starts_with_line:
  assumes "0 \<notin> set key"
  shows "starts_with (pre @ l @ 0 # r) (length pre) key = Some (take (length key) l = key)"
  using assms
proof (induction key arbitrary: pre l)
  case (Cons k ks)
  show ?case
  proof (cases l)
    case Nil
    then show ?thesis using Cons.prems byte_at_append [of pre 0 r] by auto
  next
    case (Cons c cs)
    have "starts_with ((pre @ [c]) @ cs @ 0 # r) (length (pre @ [c])) ks = Some (take (length ks) cs = ks)"
      by (rule Cons.IH) (use Cons.prems in simp)
    then show ?thesis using byte_at_append [of pre c "cs @ 0 # r"] by (auto simp: local.Cons)
  qed
qed simp

lemma skip_past_line:
  assumes "0 \<notin> set l"
  shows "skip_past (pre @ l @ 0 # r) (length pre) = Some (length pre + length l + 1)"
  using assms
proof (induction l arbitrary: pre)
  case Nil
  then show ?case by (subst skip_past.simps) simp
next
  case (Cons c cs)
  have "skip_past ((pre @ [c]) @ cs @ 0 # r) (length (pre @ [c])) = Some (length (pre @ [c]) + length cs + 1)"
    by (rule Cons.IH) (use Cons.prems in simp)
  then show ?case using Cons.prems by (subst skip_past.simps) simp
qed

lemma libc_digits_line: "libc_digits (v @ 0 # r) n = libc_digits (v @ [0]) n"
  by (induction v arbitrary: n) auto

lemma dropWhile_zero: "dropWhile isspace (v @ 0 # r) = dropWhile isspace v @ 0 # r"
  by (induction v) (simp_all add: isspace_def)

lemma libc_atoi_line: "libc_atoi ov (v @ 0 # r) = Some (line_number ov v)"
proof -
  obtain w where w: "dropWhile isspace v = w" by simp
  have "libc_atoi ov (v @ 0 # r) = libc_atoi ov (v @ [0])"
    unfolding libc_atoi_def dropWhile_zero w
    by (cases w) (simp_all add: libc_digits_line [where r = r] Let_def cong del: if_weak_cong)
  moreover obtain n where "libc_atoi ov (v @ [0]) = Some n" using libc_atoi_total [of "v @ [0]"] by auto
  ultimately show ?thesis by (simp add: line_number_def)
qed

lemma cstr_line: "0 \<notin> set v \<Longrightarrow> cstr (v @ 0 # r) = v"
  unfolding cstr_def by (induction v) auto

text \<open>One line, at the pointers and at the texts.\<close>

lemma parse_key_line:
  assumes l: "line_ok l" and msg: "msg = pre @ l @ 0 # r"
  shows "\<exists>k ue1. parse_key ov msg (length pre) ue = Some (length pre + k, ue1) \<and> k \<le> length l \<and>
    event_texts msg ue1 = line_event ov l (event_texts msg ue)"
proof -
  have st: "starts_with msg (length pre) (chars key) = Some (keyed key l)" if "0 \<notin> set (chars key)" for key
    using starts_with_line [OF that, of pre l r] by (simp add: msg keyed_def chars_def)
  note s = keys_nonzero [THEN st]
  have dl: "drop (length pre + k) msg = drop k l @ 0 # r" if "k \<le> length l" for k
    using that by (simp add: msg)
  have z: "0 \<notin> set (drop k l)" for k using l by (meson line_ok_def in_set_dropD)
  have t: "ue_text msg (Some (length pre + k)) = drop k l" if "k \<le> length l" for k
    using that z by (simp add: ue_text_def dl cstr_line)
  have n: "libc_atoi ov (drop (length pre + k) msg) = Some (line_number ov (drop k l))" if "k \<le> length l" for k
    using that by (simp add: dl libc_atoi_line)
  have k: "length key \<le> length l" if "keyed key l" for key
    using that by (auto simp: keyed_def chars_def dest: arg_cong [where f = length])
  note ks = k [of "''ACTION=''"] k [of "''DEVPATH=''"] k [of "''SUBSYSTEM=''"] k [of "''FIRMWARE=''"] k [of "''MAJOR=''"] k [of "''MINOR=''"]
  consider "keyed ''ACTION='' l" | "\<not> keyed ''ACTION='' l" "keyed ''DEVPATH='' l"
    | "\<not> keyed ''ACTION='' l" "\<not> keyed ''DEVPATH='' l" "keyed ''SUBSYSTEM='' l"
    | "\<not> keyed ''ACTION='' l" "\<not> keyed ''DEVPATH='' l" "\<not> keyed ''SUBSYSTEM='' l" "keyed ''FIRMWARE='' l"
    | "\<not> keyed ''ACTION='' l" "\<not> keyed ''DEVPATH='' l" "\<not> keyed ''SUBSYSTEM='' l" "\<not> keyed ''FIRMWARE='' l"
    by blast
  then show ?thesis
  proof cases
    case 5
    consider "keyed ''MAJOR='' l" | "\<not> keyed ''MAJOR='' l" "keyed ''MINOR='' l" | "\<not> keyed ''MAJOR='' l" "\<not> keyed ''MINOR='' l"
      by blast
    then show ?thesis
    proof cases
      case 1
      then show ?thesis using 5 ks by (simp add: parse_key_def s n line_event_def event_texts_def)
    next
      case 2
      then show ?thesis using 5 ks by (simp add: parse_key_def s n line_event_def event_texts_def)
    next
      case 3
      then show ?thesis using 5 by (simp add: parse_key_def s line_event_def)
    qed
  qed (use ks in \<open>simp_all add: parse_key_def s t line_event_def event_texts_def\<close>)
qed

lemma parse_from_lines:
  assumes "\<forall>l \<in> set ls. line_ok l" and "msg = pre @ joined ls @ 0 # rest"
  shows "\<exists>ue1. parse_from ov msg (length pre) ue = Some ue1 \<and>
    event_texts msg ue1 = fold (line_event ov) ls (event_texts msg ue)"
  using assms
proof (induction ls arbitrary: pre ue)
  case Nil
  then show ?case by (subst parse_from.simps) (simp add: joined_def byte_at_append)
next
  case (Cons l ls)
  let ?r = "joined ls @ 0 # rest"
  have l: "line_ok l" using Cons.prems(1) by simp
  have msg: "msg = pre @ l @ 0 # ?r" using Cons.prems(2) by (simp add: joined_def)
  from parse_key_line [OF l msg, of ov ue] obtain k ue1 where
    p: "parse_key ov msg (length pre) ue = Some (length pre + k, ue1)" "k \<le> length l"
      "event_texts msg ue1 = line_event ov l (event_texts msg ue)" by blast
  have "0 \<notin> set (drop k l)" using l by (meson line_ok_def in_set_dropD)
  from skip_past_line [OF this, of "pre @ take k l" ?r]
  have "skip_past (pre @ (take k l @ drop k l) @ 0 # ?r) (length pre + k) = Some (length pre + length l + 1)"
    using p(2) by (simp only: append_assoc) simp
  then have s: "skip_past msg (length pre + k) = Some (length (pre @ l @ [0]))" by (simp add: msg)
  obtain c cs where c: "l = c # cs" "c \<noteq> 0" using l by (cases l) (auto simp: line_ok_def)
  then have b: "byte_at msg (length pre) = Some c" using byte_at_append [of pre c] by (simp add: msg)
  have "msg = (pre @ l @ [0]) @ joined ls @ 0 # rest" by (simp add: msg)
  from Cons.IH [OF _ this, of ue1] Cons.prems(1) obtain ue2 where
    r: "parse_from ov msg (length (pre @ l @ [0])) ue1 = Some ue2"
      "event_texts msg ue2 = fold (line_event ov) ls (event_texts msg ue1)" by auto
  then show ?case using b c(2) p(1,3) s by (subst parse_from.simps) simp
qed

lemma parse_event_lines:
  assumes "\<forall>l \<in> set ls. line_ok l" and "msg = joined ls @ 0 # rest"
  shows "parse_event ov msg = Some (fold (line_event ov) ls no_text)"
proof -
  have "event_texts msg no_event = no_text" by (simp add: event_texts_def no_event_def no_text_def ue_text_def)
  with parse_from_lines [of ls msg "[]" rest ov no_event] assms show ?thesis by (auto simp: parse_event_def)
qed

section \<open>The loop\<close>

definition kept :: "received \<Rightarrow> bool" where
  "kept r = (rc_groups r = 1 \<and> rc_pid r = 0 \<and> rc_cmsg r = Some (SCM_CREDENTIALS, 0) \<and> rc_n r < int UEVENT_MSG_LEN)"

lemma kept_iff: "kept r = (from_kernel r \<and> rc_n r < int UEVENT_MSG_LEN)"
  by (auto simp: kept_def from_kernel_def split: option.splits)

text \<open>\<open>recvmsg\<close> fills the array with as many bytes as it reports.\<close>

definition filled :: "received \<Rightarrow> bool" where
  "filled r = (0 < rc_n r \<longrightarrow> length (rc_data r) = nat (rc_n r))"

lemma message_ends:
  assumes "length stale = UEVENT_MSG_LEN + 2" and "filled r" and "0 < rc_n r" and "kept r"
  shows "\<exists>msg rest. message stale r = Some msg \<and> msg = rc_data r @ 0 # 0 # rest \<and> ends_at msg (length (rc_data r))"
proof -
  have "nat (rc_n r) < UEVENT_MSG_LEN" using assms(3,4) by (simp add: kept_def nat_less_iff)
  then show ?thesis using assms by (simp add: message_def filled_def ends_at_def nth_append Let_def)
qed

lemma handle_device_fd_kept:
  assumes "\<And>r msg. r \<in> set rs \<Longrightarrow> 0 < rc_n r \<Longrightarrow> kept r \<Longrightarrow> message stale r = Some msg \<Longrightarrow> parse_event ov msg = Some (f r)"
    and "length stale = UEVENT_MSG_LEN + 2" and "\<forall>r \<in> set rs. filled r"
  shows "handle_device_fd ov stale rs = Some (map f (filter kept (takeWhile (\<lambda>r. 0 < rc_n r) rs)))"
  using assms(1,3)
proof (induction rs)
  case (Cons r rs)
  have IH: "handle_device_fd ov stale rs = Some (map f (filter kept (takeWhile (\<lambda>r. 0 < rc_n r) rs)))"
    by (rule Cons.IH) (use Cons.prems in auto)
  show ?case
  proof (cases "0 < rc_n r \<and> kept r")
    case True
    then obtain msg where "message stale r = Some msg" using message_ends [OF assms(2)] Cons.prems(2) by auto
    with Cons.prems(1) [of r msg] True IH show ?thesis by (simp add: kept_iff [of r])
  next
    case False
    then show ?thesis using IH by (auto simp: kept_iff [of r])
  qed
qed simp

section \<open>Properties\<close>

text \<open>C14. Whatever bytes arrive, and whatever the array held before, the parser never reads behind
  the array and the loop over the messages comes to its end: the two zeros that are put behind
  the received bytes stop every scan, the one that skips a key included. The program ends with -1 when it gets no
  socket, with 0 otherwise.\<close>

theorem uevent_parser_stays_inside:
  assumes "length stale = UEVENT_MSG_LEN + 2" and "\<forall>r \<in> set rs. filled r"
  shows "\<exists>evs. handle_device_fd ov stale rs = Some evs \<and>
    main s b ov stale rs = Some (if s < 0 \<or> b < 0 then (-1, []) else (0, evs))"
proof -
  have "handle_device_fd ov stale rs = Some (map (\<lambda>r. the (parse_event ov (the (message stale r))))
    (filter kept (takeWhile (\<lambda>r. 0 < rc_n r) rs)))"
  proof (rule handle_device_fd_kept [OF _ assms])
    fix r msg
    assume r: "r \<in> set rs" "0 < rc_n r" "kept r" "message stale r = Some msg"
    have "ends_at msg (length (rc_data r))" using message_ends [OF assms(1)] assms(2) r by fastforce
    then obtain ev where "parse_event ov msg = Some ev" using parse_event_total by blast
    with r(4) show "parse_event ov msg = Some (the (parse_event ov (the (message stale r))))" by simp
  qed
  then show ?thesis by (simp add: main_def open_uevent_socket_def)
qed

definition add_event :: received where
  "add_event = \<lparr>rc_n = 37, rc_groups = 1, rc_pid = 0, rc_cmsg = Some (2, 0),
     rc_data = joined [chars ''add@/ssc'', chars ''ACTION=add'', chars ''MAJOR=90'', chars ''MINOR=2'']\<rparr>"

definition forged_event :: received where
  "forged_event = add_event\<lparr>rc_cmsg := Some (2, 1000)\<rparr>"

lemma add_event_facts: "filled add_event" "filled forged_event" "kept add_event" "\<not> kept forged_event" "0 < rc_n add_event" "0 < rc_n forged_event"
  by (simp_all add: filled_def kept_def from_kernel_def forged_event_def add_event_def joined_def chars_def
      SCM_CREDENTIALS_def UEVENT_MSG_LEN_def)

theorem uevent_parser_stays_inside_witness:
  "\<exists>evs. handle_device_fd id (replicate 1026 65) [add_event, forged_event] = Some evs \<and>
    main 3 0 id (replicate 1026 65) [add_event, forged_event] = Some (if (3 :: int) < 0 \<or> (0 :: int) < 0 then (-1, []) else (0, evs))"
  by (rule uevent_parser_stays_inside) (simp_all add: UEVENT_MSG_LEN_def add_event_facts)

text \<open>C13. The pointer parser is equivalent to a parser by lines: when the kernel's messages are
  sequences of zero-terminated lines, the events printed are, in order of arrival, those of the
  messages from the kernel's group with the credentials of root that fit the array, each with
  the value of the last line for every key; any other message leaves no trace.\<close>

theorem kernel_events_by_lines:
  assumes "length stale = UEVENT_MSG_LEN + 2" and "\<forall>r \<in> set rs. filled r"
    and "\<forall>r \<in> set rs. kept r \<longrightarrow> rc_data r = joined (ls r) \<and> (\<forall>l \<in> set (ls r). line_ok l)"
  shows "handle_device_fd ov stale rs = Some (map (\<lambda>r. fold (line_event ov) (ls r) no_text)
    (filter kept (takeWhile (\<lambda>r. 0 < rc_n r) rs)))"
proof (rule handle_device_fd_kept [OF _ assms(1,2)])
  fix r msg
  assume r: "r \<in> set rs" "0 < rc_n r" "kept r" "message stale r = Some msg"
  then obtain rest where "msg = joined (ls r) @ 0 # 0 # rest"
    using message_ends [OF assms(1)] assms(2,3) by fastforce
  then show "parse_event ov msg = Some (fold (line_event ov) (ls r) no_text)"
    using assms(3) r by (intro parse_event_lines) auto
qed

theorem kernel_events_by_lines_witness:
  "handle_device_fd id (replicate 1026 65) [forged_event, add_event] =
     Some [\<lparr>et_action = chars ''add'', et_path = [], et_subsystem = [], et_firmware = [], et_major = 90, et_minor = 2\<rparr>]"
proof -
  let ?ls = "[chars ''add@/ssc'', chars ''ACTION=add'', chars ''MAJOR=90'', chars ''MINOR=2'']"
  have l: "\<forall>l \<in> set ?ls. line_ok l" by (simp add: line_ok_def chars_def)
  have n: "libc_atoi id [57, 48, 0] = Some 90" "libc_atoi id [50, 0] = Some 2"
    by (simp_all add: libc_atoi_def isspace_def Let_def)
  have "fold (line_event id) ?ls no_text =
      \<lparr>et_action = chars ''add'', et_path = [], et_subsystem = [], et_firmware = [], et_major = 90, et_minor = 2\<rparr>"
    by (simp add: line_event_def keyed_def chars_def no_text_def line_number_def n)
  with kernel_events_by_lines [of "replicate 1026 65" "[forged_event, add_event]" "\<lambda>_. ?ls" id] l show ?thesis
    by (simp add: UEVENT_MSG_LEN_def add_event_facts del: handle_device_fd.simps) (simp add: add_event_def)
qed

end
