(* ===== verification/Short_Frame.thy ===== *)
theory Short_Frame
  imports Frame_Parse Analyzer_Init
begin

text \<open>
  Parsing a frame whose fields are short: a reference parser on lists of field descriptions,
  without addresses, memory or index, and the analyzer's parser as a refinement of it. A field
  is short when it takes at most four bytes, so that it needs no buffer.
\<close>

section \<open>The reference parser\<close>

text \<open>\<open>fs\<close> are the fields that have been read, with their values.\<close>

definition named_field :: "bytes \<Rightarrow> proto_info list \<Rightarrow> proto_info option" where
  "named_field key fs = find (\<lambda>f. cstr (pi_name f) = key) fs"

definition shift_by :: "u32 \<Rightarrow> u8 \<Rightarrow> proto_info \<Rightarrow> proto_info" where
  "shift_by d un i = i\<lparr>byte_pos := byte_pos i + ucast ((d * ucast un) div 8)\<rparr>"

definition length_of :: "proto_info list \<Rightarrow> proto_info \<Rightarrow> u32 option" where
  "length_of fs i = (let key = cstr (vlenth_index i) in
     if length key < 10 then map_option pi_data (named_field key fs) else None)"

definition read_value :: "bytes \<Rightarrow> proto_info \<Rightarrow> proto_info option" where
  "read_value dp i = do {
     assert_opt (len_unit i = 8 \<and> pi_len i \<le> 4);
     v \<leftarrow> get_byte_value dp (byte_pos i) (pi_len i);
     Some (i\<lparr>pi_data := v\<rparr>)
   }"

function read_short :: "bytes \<Rightarrow> proto_info list \<Rightarrow> proto_info list \<Rightarrow> proto_info list option" where
  "read_short dp fs [] = Some fs"
| "read_short dp fs (i # is) =
     (if vlenth_flag i then do {
        d \<leftarrow> length_of fs i;
        j \<leftarrow> read_value dp (i\<lparr>pi_len := ucast d, vlenth_flag := False\<rparr>);
        read_short dp (fs @ [j]) (map (shift_by d (len_unit i)) is) }
      else do {
        j \<leftarrow> read_value dp i;
        read_short dp (fs @ [j]) is })"
  by pat_completeness auto
termination by (relation "measure (\<lambda>(dp, fs, is). length is)") auto

section \<open>Refinement\<close>

text \<open>What the index of the analyzer has to give: for a short name, the field with that name.\<close>

definition finds_fields :: "(bytes \<Rightarrow> addr) \<Rightarrow> addr list \<Rightarrow> (addr \<Rightarrow> proto_info) \<Rightarrow> bool" where
  "finds_fields ix ps F = (\<forall>p \<in> set ps. length (cstr (pi_name (F p))) < 10 \<longrightarrow> ix (cstr (pi_name (F p))) = p \<and> p \<noteq> NULL)"

lemma finds_fields_cong: "(\<And>p. p \<in> set ps \<Longrightarrow> pi_name (G p) = pi_name (F p)) \<Longrightarrow> finds_fields ix ps F \<Longrightarrow> finds_fields ix ps G"
  by (simp add: finds_fields_def)

lemma length_of_find:
  assumes "length_of (map F qs) i = Some d" and "finds_fields ix (qs @ ps) F"
  shows "ix (cstr (vlenth_index i)) \<in> set qs" and "ix (cstr (vlenth_index i)) \<noteq> NULL"
    and "d = pi_data (F (ix (cstr (vlenth_index i))))"
proof -
  let ?key = "cstr (vlenth_index i)"
  from assms(1) obtain f where f: "named_field ?key (map F qs) = Some f" "d = pi_data f" "length ?key < 10"
    by (auto simp: length_of_def Let_def split: if_splits)
  then obtain q where q: "q \<in> set qs" "f = F q" "cstr (pi_name (F q)) = ?key"
    by (auto simp: named_field_def find_Some_iff) (metis nth_mem)
  have "length (cstr (pi_name (F q))) < 10" using q(3) f(3) by simp
  then have "ix (cstr (pi_name (F q))) = q \<and> q \<noteq> NULL" using assms(2) q(1) unfolding finds_fields_def by simp
  then have "ix ?key = q \<and> q \<noteq> NULL" unfolding q(3) .
  with q f(2) show "ix ?key \<in> set qs" "ix ?key \<noteq> NULL" "d = pi_data (F (ix ?key))" by simp_all
qed

lemma read_value_field:
  assumes "read_value dp i = Some j"
  shows "read_field dp i B = Some (j, B)" and "\<not> wide i" and "pi_name j = pi_name i" and "vlenth_flag j = vlenth_flag i"
proof -
  from assms have u: "len_unit i = 8" "pi_len i \<le> 4" by (auto simp: read_value_def bind_eq_Some_conv)
  then show w: "\<not> wide i" by (auto simp: wide_def)
  from assms obtain v where v: "get_byte_value dp (byte_pos i) (pi_len i) = Some v" "j = i\<lparr>pi_data := v\<rparr>"
    by (auto simp: read_value_def bind_eq_Some_conv)
  then show "read_field dp i B = Some (j, B)" "pi_name j = pi_name i" "vlenth_flag j = vlenth_flag i"
    using u(1) w by (simp_all add: read_field_def)
qed

lemma parse_short_step:
  assumes d: "distinct (qs @ p # ps)" and ix: "finds_fields ix (qs @ p # ps) F"
    and r: "read_short dp (map F qs) (map F (p # ps)) = Some is"
  shows "\<exists>j F1. read_field dp (resolve_infos ix (node_of p) (map node_of ps) F p) B = Some (j, B) \<and>
    \<not> wide (resolve_infos ix (node_of p) (map node_of ps) F p) \<and>
    F1 = (resolve_infos ix (node_of p) (map node_of ps) F)(p := j) \<and> finds_fields ix (qs @ p # ps) F1 \<and>
    read_short dp (map F1 (qs @ [p])) (map F1 ps) = Some is \<and> (\<forall>a. a \<notin> set (qs @ p # ps) \<longrightarrow> F1 a = F a)"
proof -
  let ?R = "resolve_infos ix (node_of p) (map node_of ps) F"
  have im: "info_of ` set (map node_of ps) = set ps" by (simp add: image_image)
  show ?thesis
  proof (cases "vlenth_flag (F p)")
    case True
    with r obtain d j where l: "length_of (map F qs) (F p) = Some d"
      and j: "read_value dp ((F p)\<lparr>pi_len := ucast d, vlenth_flag := False\<rparr>) = Some j"
      and rest: "read_short dp (map F qs @ [j]) (map (shift_by d (len_unit (F p))) (map F ps)) = Some is"
      by (auto simp: bind_eq_Some_conv)
    note ld = length_of_find [OF l ix]
    have R: "?R = (\<lambda>a. if a = p then (F p)\<lparr>pi_len := ucast d, vlenth_flag := False\<rparr>
        else if a \<in> set ps then shift_by d (len_unit (F p)) (F a) else F a)"
      unfolding resolve_infos_def Let_def im using True ld by (auto simp: shift_by_def)
    let ?F1 = "?R(p := j)"
    have "finds_fields ix (qs @ p # ps) ?F1"
      by (rule finds_fields_cong [OF _ ix]) (use read_value_field(3) [OF j] in \<open>auto simp: R shift_by_def\<close>)
    moreover have "map ?F1 (qs @ [p]) = map F qs @ [j]" "map ?F1 ps = map (shift_by d (len_unit (F p))) (map F ps)"
      using d by (auto simp: R)
    moreover have "?F1 a = F a" if "a \<notin> set (qs @ p # ps)" for a using that by (simp add: R)
    moreover have "?R p = (F p)\<lparr>pi_len := ucast d, vlenth_flag := False\<rparr>" by (simp add: R)
    moreover have "read_short dp (map ?F1 (qs @ [p])) (map ?F1 ps) = Some is"
      unfolding calculation(2,3) by (rule rest)
    ultimately show ?thesis using read_value_field(1,2) [OF j]
      by (intro exI [of _ j] exI [of _ ?F1]) (simp del: map_append)
  next
    case False
    with r obtain j where j: "read_value dp (F p) = Some j" and rest: "read_short dp (map F qs @ [j]) (map F ps) = Some is"
      by (auto simp: bind_eq_Some_conv)
    have R: "?R = F" using False by (simp add: resolve_infos_fixed)
    let ?F1 = "F(p := j)"
    have "finds_fields ix (qs @ p # ps) ?F1"
      by (rule finds_fields_cong [OF _ ix]) (use read_value_field(3) [OF j] in auto)
    moreover have "map ?F1 (qs @ [p]) = map F qs @ [j]" "map ?F1 ps = map F ps" using d by auto
    moreover have "read_short dp (map ?F1 (qs @ [p])) (map ?F1 ps) = Some is"
      unfolding calculation(2,3) by (rule rest)
    ultimately show ?thesis unfolding R using read_value_field(1,2) [OF j]
      by (intro exI [of _ j] exI [of _ ?F1]) (simp del: map_append)
  qed
qed

lemma parse_short:
  assumes "distinct (qs @ ps)" and "finds_fields ix (qs @ ps) F" and "read_short dp (map F qs) (map F ps) = Some is"
  shows "parse_room m ix dp (map node_of ps) F B \<and>
    (\<exists>F'. parse_infos ix dp (map node_of ps) F B = Some (F', B) \<and> map F' (qs @ ps) = is \<and>
      (\<forall>a. a \<notin> set (qs @ ps) \<longrightarrow> F' a = F a))"
  using assms
proof (induction ps arbitrary: qs F)
  case (Cons p ps)
  from parse_short_step [OF Cons.prems, of B] obtain j F1 where
    s: "read_field dp (resolve_infos ix (node_of p) (map node_of ps) F p) B = Some (j, B)"
      "\<not> wide (resolve_infos ix (node_of p) (map node_of ps) F p)"
      "F1 = (resolve_infos ix (node_of p) (map node_of ps) F)(p := j)" "finds_fields ix (qs @ p # ps) F1"
      "read_short dp (map F1 (qs @ [p])) (map F1 ps) = Some is" "\<forall>a. a \<notin> set (qs @ p # ps) \<longrightarrow> F1 a = F a" by blast
  have "distinct ((qs @ [p]) @ ps)" "finds_fields ix ((qs @ [p]) @ ps) F1" using Cons.prems(1) s(4) by simp_all
  from Cons.IH [OF this s(5)] obtain F' where
    "parse_room m ix dp (map node_of ps) F1 B" "parse_infos ix dp (map node_of ps) F1 B = Some (F', B)"
    "map F' ((qs @ [p]) @ ps) = is" "\<forall>a. a \<notin> set ((qs @ [p]) @ ps) \<longrightarrow> F' a = F1 a" by blast
  with s(1,2,6) show ?case by (simp add: s(3) Let_def room_def)
qed simp

lemma read_value_name: "read_value dp i = Some j \<Longrightarrow> pi_name j = pi_name i"
  by (auto simp: read_value_def bind_eq_Some_conv)

lemma read_short_names: "read_short dp fs gs = Some is \<Longrightarrow> map pi_name is = map pi_name fs @ map pi_name gs"
proof (induction dp fs gs rule: read_short.induct)
  case (2 dp fs i gs)
  show ?case
  proof (cases "vlenth_flag i")
    case True
    with 2(3) obtain d j where l: "length_of fs i = Some d" and
      j: "read_value dp (i\<lparr>pi_len := ucast d, vlenth_flag := False\<rparr>) = Some j"
      and r: "read_short dp (fs @ [j]) (map (shift_by d (len_unit i)) gs) = Some is" by (auto simp: bind_eq_Some_conv)
    from 2(1) [OF True l j r] read_value_name [OF j] show ?thesis by (simp add: shift_by_def comp_def)
  next
    case False
    with 2(3) obtain j where j: "read_value dp i = Some j" and r: "read_short dp (fs @ [j]) gs = Some is"
      by (auto simp: bind_eq_Some_conv)
    from 2(2) [OF False j r] read_value_name [OF j] show ?thesis by simp
  qed
qed simp

section \<open>The analyzer\<close>

text \<open>Names that are padded with zeros and differ in their first ten bytes.\<close>

definition tidy :: "proto_info list \<Rightarrow> bool" where
  "tidy fs = (distinct (map (\<lambda>f. take 10 (pi_name f)) fs) \<and>
     (\<forall>f \<in> set fs. pi_name f = cstr (pi_name f) @ replicate (20 - length (cstr (pi_name f))) 0))"

lemma name_map_tidy:
  assumes "tidy (infos m ps)" and "p \<in> set ps"
  shows "name_map m ps (take 10 (pi_name (pinfo m p))) = Some p"
proof -
  have "map fst (rev (entries m ps)) = rev (map (\<lambda>f. take 10 (pi_name f)) (infos m ps))"
    by (simp add: entries_def infos_def rev_map comp_def)
  then have "distinct (map fst (rev (entries m ps)))" using assms(1) by (simp add: tidy_def)
  moreover have "(take 10 (pi_name (pinfo m p)), p) \<in> set (rev (entries m ps))" using assms(2) by (simp add: entries_def)
  ultimately show ?thesis unfolding name_map_def by (rule map_of_is_SomeI)
qed

lemma lookup_tidy:
  assumes "tidy (infos m ps)" and "p \<in> set ps" and "length (cstr (pi_name (pinfo m p))) < 10"
  shows "lookup (name_map m ps) vla (cstr (pi_name (pinfo m p))) = p"
proof -
  let ?n = "pi_name (pinfo m p)" and ?k = "cstr (pi_name (pinfo m p))"
  have "?n = ?k @ replicate (20 - length ?k) 0" using assms(1,2) by (simp add: tidy_def infos_def)
  then have "take 10 ?n = take 10 (?k @ replicate (20 - length ?k) 0)" by simp
  then have "padded ?k = take 10 ?n" using assms(3) by (simp add: padded_def)
  with name_map_tidy [OF assms(1,2)] assms(3) show ?thesis by (simp add: lookup_def)
qed

text \<open>Parsing, and looking the values up afterwards.\<close>

lemma parse_analyzer:
  fixes m :: "'z pmem_scheme"
  assumes mo: "mem_ok m" and a: "analyzer_ok km m pa ps B" and vla: "length vla = 10" and t: "tidy (infos m ps)"
    and r: "read_short (protocol_data pa) [] (infos m ps) = Some is" and nz: "protocol_data_len pa \<noteq> 0"
  shows "\<exists>F'. pa_parse_protocol_data km' vla pa m = Some (0, m\<lparr>pinfo := F'\<rparr>) \<and> map F' ps = is \<and>
    (\<forall>b. b \<notin> set ps \<longrightarrow> F' b = pinfo m b) \<and>
    (\<forall>key i. length key < 10 \<longrightarrow> named_field key is = Some i \<longrightarrow>
      (\<exists>p. pa_find_key vla key pa (m\<lparr>pinfo := F'\<rparr>) = Some p \<and> rd_info p (m\<lparr>pinfo := F'\<rparr>) = Some i))"
proof -
  let ?ix = "lookup (name_map m ps) vla" and ?xs = "map node_of ps" and ?hl = "pa_list_head_p pa"
  from a obtain h where o: "flist m ?hl ps" "?hl \<noteq> NULL" "pa_hmap pa = Some h" "index_ok km (name_map m ps) h B m"
    by (auto simp: analyzer_ok_def)
  have ix: "indexes vla pa m ?ix ?xs"
  proof (rule names_indexes [OF index_names [OF o(4,3)] vla])
    show "q \<in> info_of ` set ?xs" if "name_map m ps k = Some q" for k q
      using name_map_field [OF that] by (simp add: image_image)
  qed
  have f: "fields_ok m ?hl ?xs" by (rule flist_fields_ok [OF mo o(1)])
  have v: "valid m p sizeof_proto_info" if "p \<in> set ps" for p using f that by (simp add: fields_ok_def)
  have nn: "p \<noteq> NULL" if "p \<in> set ps" for p
    using flist_owned [OF o(1)] blocks_ok_good [OF mo] that by (force simp: owned_def good_block_def)
  have ff: "finds_fields ?ix ([] @ ps) (pinfo m)"
    unfolding finds_fields_def using lookup_tidy [OF t] nn by simp
  have d: "distinct ([] @ ps)" using flist_distinct [OF o(1)] by simp
  have r': "read_short (protocol_data pa) (map (pinfo m) []) (map (pinfo m) ps) = Some is" using r by (simp add: infos_def)
  from parse_short [OF d ff r', where B = "bufs m" and m = m] obtain F' where
    p: "parse_room m ?ix (protocol_data pa) ?xs (pinfo m) (bufs m)"
      "parse_infos ?ix (protocol_data pa) ?xs (pinfo m) (bufs m) = Some (F', bufs m)" "map F' ps = is"
      "\<forall>b. b \<notin> set ps \<longrightarrow> F' b = pinfo m b" by auto
  have run: "pa_parse_protocol_data km' vla pa m = Some (0, m\<lparr>pinfo := F'\<rparr>)"
    using parse_spec [OF f refl o(2) ix p(1) nz, of km'] p(2) by auto
  have "\<exists>p. pa_find_key vla key pa (m\<lparr>pinfo := F'\<rparr>) = Some p \<and> rd_info p (m\<lparr>pinfo := F'\<rparr>) = Some i"
    if k: "length key < 10" and n: "named_field key is = Some i" for key i
  proof -
    from n obtain q where q: "q \<in> set ps" "i = F' q" "cstr (pi_name (F' q)) = key"
      unfolding named_field_def p(3) [symmetric] by (auto simp: find_Some_iff) (metis nth_mem)
    have "map pi_name is = map pi_name (infos m ps)" using read_short_names [OF r] by simp
    then have "pi_name (F' q) = pi_name (pinfo m q)" using q(1) by (auto simp: p(3) [symmetric] infos_def)
    with lookup_tidy [OF t q(1), of vla] q(3) k have l: "?ix key = q" by simp
    have "pa_find_key vla key pa (m\<lparr>pinfo := F', bufs := bufs m\<rparr>) = Some (?ix key)"
      using ix unfolding indexes_def by blast
    then have "pa_find_key vla key pa (m\<lparr>pinfo := F'\<rparr>) = Some q" using l by simp
    moreover have "rd_info q (m\<lparr>pinfo := F'\<rparr>) = Some i" using v [OF q(1)] q(2) by (simp add: rd_info_def)
    ultimately show ?thesis by blast
  qed
  with run p(3,4) show ?thesis by blast
qed

end
