(* ===== verification/Command_3008.thy ===== *)
theory Command_3008
  imports Driver_Boot Short_Frame
begin

text \<open>
  Command 0x3008 from the write to the queue: a frame with short fields that a program writes to
  the device becomes one task in the queue of one of the two administrations.
\<close>

section \<open>The frame\<close>

definition be16 :: "u8 \<Rightarrow> u8 \<Rightarrow> u16" where
  "be16 a b = (push_bit 8 (ucast a) OR ucast b)"

lemma byte_value_1: "unat p < length dp \<Longrightarrow> get_byte_value dp p 1 = Some (ucast (dp ! unat p))"
  by (simp add: get_byte_value_def short_len_def get_bytes_from.simps arr_get_def)

lemma byte_value_2: "unat p + 1 < length dp \<Longrightarrow>
    get_byte_value dp p 2 = Some (push_bit 8 (ucast (dp ! unat p)) OR ucast (dp ! (unat p + 1)))"
  by (simp add: get_byte_value_def short_len_def get_bytes_from.simps arr_get_def push_bit_eq_mult)

lemma byte_value_short: "n \<le> 4 \<Longrightarrow> unat p + unat n \<le> length dp \<Longrightarrow> \<exists>v. get_byte_value dp p n = Some v"
  using get_bytes_from_spec [of 0 "unat n" "unat p" dp 0]
  by (auto simp: get_byte_value_def short_len_def word_le_nat_alt)

text \<open>What the parser reads when both length fields are at most 4.\<close>

lemma unat_small: "unat (x :: u8) < 256"
proof -
  have "unat x < 2 ^ LENGTH(8)" by (rule unsigned_less)
  then show ?thesis by simp
qed

lemma unat_widen: "unat (ucast (x :: u8) :: u32) = unat x"
  using unat_small [of x] by (simp add: unsigned_ucast_eq take_bit_nat_eq_self)

lemma unat_length: "unat (ucast (ucast (x :: u8) :: u32) :: u16) = unat x"
proof -
  have "unat (ucast (ucast x :: u32) :: u16) = take_bit LENGTH(16) (unat (ucast x :: u32))" by (rule unsigned_ucast_eq)
  then show ?thesis using unat_small [of x] by (simp add: unat_widen take_bit_nat_eq_self)
qed

lemma shift_one_byte: "ucast ((ucast (s :: u8) * ucast (8 :: u8) :: u32) div 8) = s"
proof -
  have "unat ((ucast s * ucast (8 :: u8) :: u32) div 8) = unat s"
    using unat_small [of s] by (simp add: unat_div unat_word_ariths unat_widen)
  moreover have "unat (ucast ((ucast s * ucast (8 :: u8) :: u32) div 8) :: u8) =
      take_bit LENGTH(8) (unat ((ucast s * ucast (8 :: u8) :: u32) div 8))" by (rule unsigned_ucast_eq)
  ultimately show ?thesis using unat_small [of s] by (simp add: word_unat_eq_iff take_bit_nat_eq_self)
qed

lemma key_lengths: "length (cstr (name20 SLC_INFO)) < 10" "length (cstr (name20 DC_INFO)) < 10"
  by (simp_all add: name20_def cstr_def chars_def name_defs)

lemma field_simps:
  "pi_name (byte_field k b l) = name20 k" "vlenth_flag (byte_field k b l) = False" "byte_pos (byte_field k b l) = b"
  "pi_len (byte_field k b l) = l" "len_unit (byte_field k b l) = 8" "buf_len (byte_field k b l) = 0"
  "pi_name (var_field k b s) = name20 k" "vlenth_flag (var_field k b s) = True" "byte_pos (var_field k b s) = b"
  "pi_len (var_field k b s) = 0" "len_unit (var_field k b s) = 8" "buf_len (var_field k b s) = 0"
  "vlenth_index (var_field k b s) = name20 s"
  by (simp_all add: byte_field_def var_field_def zero_info_def)

lemma shift_fields:
  "shift_by (ucast s) 8 (byte_field k b l) = byte_field k (b + s) l"
  "shift_by (ucast s) 8 (var_field k b i) = var_field k (b + s) i"
  using shift_one_byte [of s] by (simp_all add: shift_by_def byte_field_def var_field_def)

lemma read_fixed:
  "l \<le> 4 \<Longrightarrow> get_byte_value dp b l = Some v \<Longrightarrow>
    read_short dp fs (byte_field k b l # gs) = read_short dp (fs @ [(byte_field k b l)\<lparr>pi_data := v\<rparr>]) gs"
  by (simp add: read_value_def field_simps)

lemma read_var:
  "length_of fs (var_field k b i) = Some (ucast s) \<Longrightarrow> ucast (ucast s :: u32) \<le> (4 :: u16) \<Longrightarrow>
    get_byte_value dp b (ucast (ucast s :: u32)) = Some v \<Longrightarrow>
    read_short dp fs (var_field k b i # gs) =
      read_short dp (fs @ [(var_field k b i)\<lparr>pi_len := ucast (ucast s :: u32), vlenth_flag := False, pi_data := v\<rparr>])
        (map (shift_by (ucast s) 8) gs)"
  by (simp add: read_value_def field_simps)

lemma read_3008:
  assumes dp: "length dp = 100" and s: "dp ! 9 \<le> 4" and c: "dp ! (12 + unat (dp ! 9)) \<le> 4"
  shows "\<exists>is a b sd dd. read_short dp [] fields_3008 = Some is \<and>
    named_field (chars SLOT_INFO) is = Some a \<and> pi_data a = push_bit 8 (ucast (dp ! 4)) OR ucast (dp ! 5) \<and>
    named_field (chars TACT_INFO) is = Some b \<and> pi_data b = ucast (dp ! 8) \<and>
    named_field (chars SLC_DATA) is = Some sd \<and> named_field (chars DC_DATA) is = Some dd \<and> buf_len dd = 0"
proof -
  obtain sl where sl0: "dp ! 9 = sl" by simp
  obtain dl where dl0: "dp ! (12 + unat sl) = dl" by simp
  have sl: "unat sl \<le> 4" using s by (simp add: sl0 word_le_nat_alt)
  have dl: "unat dl \<le> 4" using c by (simp add: dl0 sl0 word_le_nat_alt)
  have p: "unat (10 + sl) = 10 + unat sl" "unat (11 + sl) = 11 + unat sl" "unat (12 + sl) = 12 + unat sl" "unat (13 + sl) = 13 + unat sl"
    using sl by (simp_all add: unat_word_ariths)
  have n: "ucast (ucast sl :: u32) \<le> (4 :: u16)" "ucast (ucast dl :: u32) \<le> (4 :: u16)"
    using sl dl unfolding word_le_nat_alt unat_length by simp_all
  obtain v where v: "get_byte_value dp 10 (ucast (ucast sl :: u32)) = Some v"
    using byte_value_short [OF n(1), of 10 dp] sl dp unfolding unat_length by auto
  obtain w where w: "get_byte_value dp (13 + sl) (ucast (ucast dl :: u32)) = Some w"
    using byte_value_short [OF n(2), of "13 + sl" dp] p(4) sl dl dp unfolding unat_length by auto
  note nm = named_field_def field_simps name20_def chars_def cstr_def name_defs
  have g2: "get_byte_value dp b 2 = Some (push_bit 8 (ucast (dp ! unat b)) OR ucast (dp ! (unat b + 1)))" if "b < 50" for b
    using that dp by (intro byte_value_2) (simp add: word_less_nat_alt)
  have g1: "get_byte_value dp b 1 = Some (ucast (dp ! unat b))" if "unat b < 50" for b
    using that dp by (intro byte_value_1) simp
  let ?head = "[(byte_field PROTO_NUM 0 2)\<lparr>pi_data := push_bit 8 (ucast (dp ! 0)) OR ucast (dp ! 1)\<rparr>,
    (byte_field LAB 2 2)\<lparr>pi_data := push_bit 8 (ucast (dp ! 2)) OR ucast (dp ! 3)\<rparr>,
    (byte_field SLOT_INFO 4 2)\<lparr>pi_data := push_bit 8 (ucast (dp ! 4)) OR ucast (dp ! 5)\<rparr>,
    (byte_field SYNC_INFO 6 2)\<lparr>pi_data := push_bit 8 (ucast (dp ! 6)) OR ucast (dp ! 7)\<rparr>,
    (byte_field TACT_INFO 8 1)\<lparr>pi_data := ucast (dp ! 8)\<rparr>, (byte_field SLC_INFO 9 1)\<lparr>pi_data := ucast sl\<rparr>]"
  let ?slc = "(var_field SLC_DATA 10 SLC_INFO)\<lparr>pi_len := ucast (ucast sl :: u32), vlenth_flag := False, pi_data := v\<rparr>"
  let ?mid = "[(byte_field SYNC_INDEX (10 + sl) 1)\<lparr>pi_data := ucast (dp ! (10 + unat sl))\<rparr>,
    (byte_field ST_INFO (11 + sl) 1)\<lparr>pi_data := ucast (dp ! (11 + unat sl))\<rparr>, (byte_field DC_INFO (12 + sl) 1)\<lparr>pi_data := ucast dl\<rparr>]"
  let ?dc = "(var_field DC_DATA (13 + sl) DC_INFO)\<lparr>pi_len := ucast (ucast dl :: u32), vlenth_flag := False, pi_data := w\<rparr>"
  have l1: "length_of ?head (var_field SLC_DATA 10 SLC_INFO) = Some (ucast sl)"
    by (simp add: length_of_def nm)
  have l2: "length_of (?head @ ?slc # ?mid) (var_field DC_DATA (13 + sl) DC_INFO) = Some (ucast dl)"
    by (simp add: length_of_def nm)
  have "read_short dp [] fields_3008 = read_short dp ?head [var_field SLC_DATA 10 SLC_INFO, byte_field SYNC_INDEX 10 1,
      byte_field ST_INFO 11 1, byte_field DC_INFO 12 1, var_field DC_DATA 13 DC_INFO]"
    unfolding fields_3008_def by (simp add: read_fixed g2 g1 sl0 del: read_short.simps)
  also have "\<dots> = read_short dp (?head @ [?slc]) [byte_field SYNC_INDEX (10 + sl) 1,
      byte_field ST_INFO (11 + sl) 1, byte_field DC_INFO (12 + sl) 1, var_field DC_DATA (13 + sl) DC_INFO]"
    unfolding read_var [OF l1 n(1) v] by (simp add: shift_fields del: read_short.simps)
  also have "\<dots> = read_short dp (?head @ ?slc # ?mid) [var_field DC_DATA (13 + sl) DC_INFO]"
    using sl by (simp add: read_fixed g1 p dl0 del: read_short.simps)
  also have "\<dots> = Some ((?head @ ?slc # ?mid) @ [?dc])"
    unfolding read_var [OF l2 n(2) w] by simp
  finally have r: "read_short dp [] fields_3008 = Some ((?head @ ?slc # ?mid) @ [?dc])" .
  have "\<exists>a. named_field (chars SLOT_INFO) ((?head @ ?slc # ?mid) @ [?dc]) = Some a \<and>
      pi_data a = push_bit 8 (ucast (dp ! 4)) OR ucast (dp ! 5)" by (simp add: nm)
  moreover have "\<exists>b. named_field (chars TACT_INFO) ((?head @ ?slc # ?mid) @ [?dc]) = Some b \<and> pi_data b = ucast (dp ! 8)"
    by (simp add: nm)
  moreover have "\<exists>c. named_field (chars SLC_DATA) ((?head @ ?slc # ?mid) @ [?dc]) = Some c" by (simp add: nm)
  moreover have "\<exists>c. named_field (chars DC_DATA) ((?head @ ?slc # ?mid) @ [?dc]) = Some c \<and> buf_len c = 0"
    by (simp add: nm)
  ultimately show ?thesis using r by metis
qed

section \<open>Opening an analyzer\<close>

text \<open>The blocks of an analyzer: its fields and its index.\<close>

definition analyzer_owned :: "analyzer \<Rightarrow> addr list \<Rightarrow> addr list list \<Rightarrow> (addr \<times> nat) set" where
  "analyzer_owned pa ps B = owned (pa_list_head_p pa) ps \<union> (case pa_hmap pa of None \<Rightarrow> {} | Some h \<Rightarrow> map_owned h B)"

lemma open_analyzer_spec:
  fixes m :: "'z pmem_scheme"
  assumes e: "mem_env (e_km e) m" and g: "g_allocator g = Some al" "g_pfs g = Some pfs" and al: "sys_allocator al"
    and f: "formats_ready m pfs F" and n: "0x3000 \<le> n" "pdt_formats (unat (n - 0x3000)) = Some fs"
    and nm: "\<forall>i \<in> set fs. length (pi_name i) = MAX_NAME_LEN"
    and su: "supplies (e_km e) (sizeof_analyzer # init_sizes (length fs) @ rest) m"
  shows "\<exists>pa cs B m'. open_analyzer e g n m = Some (pa, m') \<and> analyzer_ok (e_km e) m' pa cs B \<and> infos m' cs = fs \<and>
    keeps {} m m' \<and> analyzer_owned pa cs B \<inter> set (blocks m) = {} \<and> supplies (e_km e) rest m'"
proof -
  let ?km = "e_km e"
  from supplies_Cons [OF su] obtain p m1 where a: "kmalloc ?km sizeof_analyzer m = (p, m1)" "p \<noteq> NULL"
    and s1: "\<And>m' :: 'z pmem_scheme. blocks m' = (p, sizeof_analyzer) # blocks m \<Longrightarrow> ticks m' = Suc (ticks m) \<Longrightarrow>
      supplies ?km (init_sizes (length fs) @ rest) m'" by blast
  have z: "0 < sizeof_analyzer" "unat (word_of_nat sizeof_analyzer :: u32) = sizeof_analyzer" by (simp_all add: sizeof_analyzer_def)
  note b1 = kmalloc_new_block [OF e a z(1)]
  note e1 = mem_env_kmalloc [OF e a(1) z(1)]
  define pa0 where "pa0 = \<lparr>pa_self = p, pfs_p = None, protocol_data = replicate MAX_PROTO_DATA_LEN 0,
     protocol_data_len = 0, protocol_num = 0, pf_list_head_p = NULL, pa_list_head_p = NULL, pa_allocator = al, pa_hmap = None\<rparr>"
  have c: "pa_create_protocol_analyzer ?km al m = Some (pa0, m1)"
    using a e al z(2) by (simp add: pa_create_protocol_analyzer_def pa0_def mem_env_def)
  have f1: "formats_ready m1 pfs F" by (rule formats_ready_keeps [OF e1(2) f]) simp
  then obtain T where T: "fset_ok m1 pfs T" "pdt_formats = (\<lambda>i. map_option (\<lambda>fmt. infos m1 (snd fmt)) (T i))"
    "proto_base_addr pfs = 0x3000" "proto_max_num pfs = 100" by (auto simp: formats_ready_def)
  have "map_option (\<lambda>fmt. infos m1 (snd fmt)) (T (unat (n - 0x3000))) = Some fs"
    using n(2) fun_cong [OF T(2), of "unat (n - 0x3000)"] by metis
  then obtain hl ps where fm: "T (unat (n - 0x3000)) = Some (hl, ps)" "infos m1 ps = fs" by auto
  have l: "length ps = length fs" using fm(2) by (auto simp: infos_def)
  have k: "kmalloc_ok ?km" "sys_registered m1" "mem_ok m1" "sys_allocator (pa_allocator pa0)"
    using e1(1) al by (simp_all add: mem_env_def pa0_def)
  have t: "T (unat (n - proto_base_addr pfs)) = Some (hl, ps)" "proto_base_addr pfs \<le> n"
    "unat (proto_base_addr pfs) + unat (proto_max_num pfs) < 2 ^ 32" using fm(1) n(1) T(3,4) by simp_all
  have nm1: "named m1 ps" using nm fm(2) by (auto simp: named_def infos_def)
  have su1: "supplies ?km (init_sizes (length ps) @ rest) m1" using s1 b1 l by simp
  from pa_init_protocol_analyzer_spec [OF k(1,2,4,3) T(1) t nm1 su1, of "e_map e"] obtain nhl cs h B m' where
    i: "pa_init_protocol_analyzer ?km (e_map e) n pfs pa0 m1 = Some (pa0\<lparr>protocol_num := n, pfs_p := Some pfs,
        pf_list_head_p := hl, pa_list_head_p := nhl, pa_hmap := Some h\<rparr>, m')"
      "analyzer_ok ?km m' (pa0\<lparr>protocol_num := n, pfs_p := Some pfs, pf_list_head_p := hl, pa_list_head_p := nhl, pa_hmap := Some h\<rparr>) cs B"
      "infos m' cs = infos m1 ps" "keeps {} m1 m'" "owned nhl cs \<inter> set (blocks m1) = {}"
      "map_owned h B \<inter> set (blocks m1) = {}" "supplies ?km rest m'" by blast
  have "open_analyzer e g n m = Some (pa0\<lparr>protocol_num := n, pfs_p := Some pfs, pf_list_head_p := hl,
      pa_list_head_p := nhl, pa_hmap := Some h\<rparr>, m')"
    using g c i(1) by (simp add: open_analyzer_def)
  moreover have "keeps {} m m'" using keeps_trans [OF e1(2) i(4)] by simp
  moreover have "(owned nhl cs \<union> map_owned h B) \<inter> set (blocks m) = {}" using i(5,6) b1 by auto
  ultimately show ?thesis using i(2,3,7) fm(2)
    by (intro exI [of _ "pa0\<lparr>protocol_num := n, pfs_p := Some pfs, pf_list_head_p := hl, pa_list_head_p := nhl, pa_hmap := Some h\<rparr>"]
        exI [of _ cs] exI [of _ B] exI [of _ m']) (simp add: analyzer_owned_def)
qed

lemma fields_3008_names: "tidy fields_3008" "\<forall>i \<in> set fields_3008. length (pi_name i) = MAX_NAME_LEN" "length fields_3008 = 11"
proof -
  show "tidy fields_3008"
    by (simp add: tidy_def fields_3008_def field_simps name20_def chars_def cstr_def name_defs)
  show "\<forall>i \<in> set fields_3008. length (pi_name i) = MAX_NAME_LEN"
    by (simp add: fields_3008_def field_simps name20_def chars_def name_defs MAX_NAME_LEN_def)
  show "length fields_3008 = 11" by (simp add: fields_3008_def)
qed

lemma pdt_format_3008: "pdt_formats (unat ((0x3008 :: u32) - 0x3000)) = Some fields_3008"
  by (simp add: pdt_formats_def)

lemma set_fields_keeps:
  fixes m :: "'z pmem_scheme"
  assumes "mem_ok m" and "flist m hl ps" and "\<forall>a. a \<notin> set ps \<longrightarrow> F a = pinfo m a"
  shows "keeps (owned hl ps) m (m\<lparr>pinfo := F\<rparr>)"
proof (rule keeps_local [OF assms(1)])
  show "owned hl ps \<subseteq> set (blocks m)" using flist_owned [OF assms(2)] by simp
  fix a
  assume n: "\<And>p. p \<in> owned hl ps \<Longrightarrow> \<not> inside p a"
  have "a \<notin> set ps"
  proof
    assume a: "a \<in> set ps"
    then have "(a, sizeof_proto_info) \<in> owned hl ps" by (simp add: owned_def)
    moreover have "0 < sizeof_proto_info" by (simp add: sizeof_proto_info_def)
    ultimately show False using n [of "(a, sizeof_proto_info)"] by (simp add: inside_def)
  qed
  with assms(3) show "same_cells m (m\<lparr>pinfo := F\<rparr>) a" by (simp add: same_cells_def)
qed simp_all

section \<open>The run of the command\<close>

text \<open>The frame as the analyzer sees it, and the task that is made of it.\<close>

definition frame_of :: "bytes \<Rightarrow> bytes" where
  "frame_of u = u @ replicate (MAX_PROTO_DATA_LEN - length u) 0"

definition task_of :: "task \<Rightarrow> bytes \<Rightarrow> task" where
  "task_of t dp = t\<lparr>slot_num := be16 (dp ! 4) (dp ! 5), tact_info := ucast (dp ! 8),
     task_slot_type := SLOT_TYPE_SYS_DESIGNATE, task_type := TASK_TYPE_DATA\<rparr>"

definition short_fields_3008 :: "bytes \<Rightarrow> bool" where
  "short_fields_3008 dp = (dp ! 9 \<le> 4 \<and> dp ! (12 + unat (dp ! 9)) \<le> 4)"

lemma slot_byte: "ucast ((push_bit 8 (ucast (a :: u8)) OR ucast (b :: u8)) :: u32) = be16 a b"
  unfolding be16_def by (intro bit_word_eqI) (auto simp: bit_simps)


lemma tact_byte: "ucast (ucast (x :: u8) :: u32) = (ucast x :: u16)"
  by (intro bit_word_eqI) (auto simp: bit_simps)

lemma name_lengths: "length SLOT_INFO < 10" "length TACT_INFO < 10" "length SLC_DATA < 10" "length DC_DATA < 10"
  by (simp_all add: name_defs)

lemma frame_of_blit:
  assumes "length u \<le> MAX_PROTO_DATA_LEN"
  shows "blit (replicate MAX_PROTO_DATA_LEN 0) 0 (u @ r) (length u) = Some (frame_of u)" and "length (frame_of u) = 100"
  using assms by (simp_all add: blit_def frame_of_def MAX_PROTO_DATA_LEN_def)

lemma named_fields:
  fixes m :: "'z pmem_scheme"
  assumes "\<forall>key i. length key < 10 \<longrightarrow> named_field key is = Some i \<longrightarrow>
      (\<exists>p. pa_find_key (e_key e) key pa m = Some p \<and> rd_info p m = Some i)"
    and "named_field (chars name) is = Some i" and "length name < 10"
  shows "field_named e name pa m = Some i"
proof -
  have "length (chars name) < 10" using assms(3) by (simp add: chars_def)
  with assms(1,2) obtain p where "pa_find_key (e_key e) (chars name) pa m = Some p" "rd_info p m = Some i" by blast
  then show ?thesis by (simp add: field_named_def)
qed

lemma read_no_bytes: "rd_buf p 0 m = Some []"
  by (simp add: rd_buf_def)

lemma command_3008_task:
  fixes m :: "'z pmem_scheme"
  assumes e: "mem_env (e_km e) m" and g: "g_allocator g = Some al" "g_pfs g = Some pfs" and al: "sys_allocator al"
    and f: "formats_ready m pfs F" and key: "length (e_key e) = 10"
    and u: "u \<noteq> []" "length u \<le> MAX_PROTO_DATA_LEN" and sh: "short_fields_3008 (frame_of u)"
    and su: "supplies (e_km e) (sizeof_analyzer # init_sizes 11 @ rest) m"
  shows "\<exists>m'. do_command_0x3008 e (u @ r) (word_of_nat (length u)) g m =
      dispatch_task e ((e_task e)\<lparr>slot_num := be16 (frame_of u ! 4) (frame_of u ! 5), tact_info := ucast (frame_of u ! 8)\<rparr>) g m' \<and>
    keeps {} m m' \<and> supplies (e_km e) rest m'"
proof -
  have su0: "supplies (e_km e) (sizeof_analyzer # init_sizes (length fields_3008) @ rest) m"
    using su by (simp add: fields_3008_names)
  have n: "(0x3000 :: u32) \<le> 0x3008" by simp
  from open_analyzer_spec [OF e g al f n pdt_format_3008 fields_3008_names(2) su0] obtain pa cs B m1 where
    o: "open_analyzer e g 0x3008 m = Some (pa, m1)" "analyzer_ok (e_km e) m1 pa cs B" "infos m1 cs = fields_3008"
      "keeps {} m m1" "analyzer_owned pa cs B \<inter> set (blocks m) = {}" "supplies (e_km e) rest m1" by blast
  let ?len = "word_of_nat (length u) :: u32"
  let ?pa = "pa\<lparr>protocol_data := frame_of u, protocol_data_len := ucast ?len\<rparr>"
  have l: "unat ?len = length u" using u(2) by (simp add: MAX_PROTO_DATA_LEN_def unat_of_nat take_bit_nat_eq_self)
  have b: "blit (protocol_data pa) 0 (u @ r) (unat ?len) = Some (frame_of u)"
    unfolding open_analyzer_data [OF o(1)] l by (rule frame_of_blit(1) [OF u(2)])
  have nz: "protocol_data_len ?pa \<noteq> 0"
  proof -
    have "unat (ucast ?len :: u16) = length u"
      using l u(2) by (simp add: unsigned_ucast_eq MAX_PROTO_DATA_LEN_def take_bit_nat_eq_self)
    then show ?thesis using u(1) by auto
  qed
  from sh have s: "frame_of u ! 9 \<le> 4" "frame_of u ! (12 + unat (frame_of u ! 9)) \<le> 4" by (simp_all add: short_fields_3008_def)
  from read_3008 [OF frame_of_blit(2) [OF u(2)] s] obtain "is" a t sd dd where
    rd: "read_short (frame_of u) [] fields_3008 = Some is" and
    nf: "named_field (chars SLOT_INFO) is = Some a" "pi_data a = push_bit 8 (ucast (frame_of u ! 4)) OR ucast (frame_of u ! 5)"
      "named_field (chars TACT_INFO) is = Some t" "pi_data t = ucast (frame_of u ! 8)"
      "named_field (chars SLC_DATA) is = Some sd" "named_field (chars DC_DATA) is = Some dd" "buf_len dd = 0" by blast
  have ok: "analyzer_ok (e_km e) m1 ?pa cs B" using o(2) by (simp add: analyzer_ok_def)
  have mo: "mem_ok m1" using mem_env_keeps [OF e o(4)] by (simp add: mem_env_def)
  have td: "tidy (infos m1 cs)" using o(3) fields_3008_names(1) by simp
  have rd': "read_short (protocol_data ?pa) [] (infos m1 cs) = Some is" using rd o(3) by simp
  from parse_analyzer [OF mo ok key td rd' nz, of "e_km e"] obtain F' where
    p: "pa_parse_protocol_data (e_km e) (e_key e) ?pa m1 = Some (0, m1\<lparr>pinfo := F'\<rparr>)" "\<forall>b. b \<notin> set cs \<longrightarrow> F' b = pinfo m1 b"
      "\<forall>key i. length key < 10 \<longrightarrow> named_field key is = Some i \<longrightarrow>
        (\<exists>p. pa_find_key (e_key e) key ?pa (m1\<lparr>pinfo := F'\<rparr>) = Some p \<and> rd_info p (m1\<lparr>pinfo := F'\<rparr>) = Some i)" by blast
  note fn = named_fields [OF p(3)]
  have fl: "flist m1 (pa_list_head_p pa) cs" using o(2) by (simp add: analyzer_ok_def)
  have k: "keeps {} m (m1\<lparr>pinfo := F'\<rparr>)"
    by (rule keeps_trans [OF o(4) set_fields_keeps [OF mo fl p(2)]]) (use o(5) in \<open>auto simp: analyzer_owned_def\<close>)
  have "do_command_0x3008 e (u @ r) ?len g m = dispatch_task e ((e_task e)\<lparr>slot_num := be16 (frame_of u ! 4) (frame_of u ! 5),
      tact_info := ucast (frame_of u ! 8)\<rparr>) g (m1\<lparr>pinfo := F'\<rparr>)"
    using nf(2,4,7) by (simp add: do_command_0x3008_def o(1) b p(1) Let_def process_slot_info_def process_tact_info_def
        process_slc_data_def process_dc_data_def fn [OF nf(1)] fn [OF nf(3)] fn [OF nf(5)] fn [OF nf(6)] name_lengths
        read_no_bytes slot_byte tact_byte)
  moreover have "supplies (e_km e) rest (m1\<lparr>pinfo := F'\<rparr>)" using o(6) by (simp add: supplies_def)
  ultimately show ?thesis using k by blast
qed


lemma add_data_task:
  fixes m :: "'z pmem_scheme"
  assumes e: "mem_env km m" and a: "admin_holds m a ds vs A" and su: "supplies km (20 # rest) m"
    and t: "task_slot_type t = SLOT_TYPE_SYS_DESIGNATE" "task_type t = TASK_TYPE_DATA"
  shows "\<exists>a' A' m'. add_task km peek pad a t TASK_FLAG_SND m = Some (a', m') \<and>
    admin_holds m' a' (ds @ [task_bytes pad t]) vs A' \<and> keeps A m m' \<and> A' \<inter> set (blocks m) \<subseteq> A \<and>
    supplies km rest m'"
proof -
  from a obtain xs ys B C where h: "admin_ok m a xs ys B C" "queued m xs = ds" "queued m ys = vs" "A = admin_owned a xs ys B C"
    by (auto simp: admin_holds_def)
  have st: "sys_task (pad, t)" using t by (simp add: sys_task_def)
  from add_task_sys_spec [OF e h(1) st su, of peek] obtain a' m' xs' ys' where
    r: "add_task km peek pad a t TASK_FLAG_SND m = Some (a', m')" "admin_ok m' a' xs' ys' B C"
      "queued m' xs' = queued m xs @ of_type TASK_TYPE_DATA [(pad, t)]"
      "queued m' ys' = queued m ys @ of_type TASK_TYPE_VOICE [(pad, t)]"
      "keeps (admin_owned a xs ys B C) m m'" "admin_owned a' xs' ys' B C \<inter> set (blocks m) \<subseteq> admin_owned a xs ys B C"
      "supplies km rest m'" by blast
  have "queued m' xs' = ds @ [task_bytes pad t]" "queued m' ys' = vs" using r(3,4) h(2,3) t by (simp_all add: of_type_def)
  then have "admin_holds m' a' (ds @ [task_bytes pad t]) vs (admin_owned a' xs' ys' B C)"
    using r(2) unfolding admin_holds_def by blast
  then show ?thesis using r(1,5-7) h(4) by blast
qed

text \<open>A driver that is up, with what its two administrations hold.\<close>

definition driver_holds ::
  "kmalloc_fn \<Rightarrow> nat \<Rightarrow> pdev_priv \<Rightarrow> allocator \<Rightarrow> format_set \<Rightarrow> bytes list \<times> bytes list \<Rightarrow> bytes list \<times> bytes list \<Rightarrow> driver \<Rightarrow> bool" where
  "driver_holds km n priv al pfs q1 q2 d =
     (\<exists>a1 a2 F A B. driver_up km n priv al pfs a1 a2 F A B d \<and>
        admin_holds (d_mem d) a1 (fst q1) (snd q1) A \<and> admin_holds (d_mem d) a2 (fst q2) (snd q2) B)"

lemma driver_holds_change:
  assumes up: "driver_up km n priv al pfs a1 a2 F A B d"
    and k: "keeps W (d_mem d) m'" and w: "W \<inter> F = {}" "(pp_self priv, n) \<notin> W" "(al_self al, sizeof_allocator_t) \<notin> W"
    and a: "admin_holds m' a1' ds1 vs1 A'" "admin_holds m' a2' ds2 vs2 B'" "A' \<inter> B' = {}"
    and s: "A' \<inter> set (blocks (d_mem d)) \<subseteq> A" "B' \<inter> set (blocks (d_mem d)) \<subseteq> B"
  shows "driver_holds km n priv al pfs (ds1, vs1) (ds2, vs2)
    (d\<lparr>d_globals := (d_globals d)\<lparr>task_admin_slot1_gp := Some a1', task_admin_slot2_gp := Some a2'\<rparr>, d_mem := m'\<rparr>)"
proof -
  let ?m = "d_mem d" and ?P = "(pp_self priv, n)" and ?L = "(al_self al, sizeof_allocator_t)"
  have u: "d_globals d = \<lparr>g_allocator = Some al, g_pfs = Some pfs, task_admin_slot1_gp = Some a1, task_admin_slot2_gp = Some a2\<rparr>"
    "mem_env km ?m" "sys_allocator al" "formats_ready ?m pfs F" "F \<inter> A = {}" "F \<inter> B = {}"
    "?P \<in> set (blocks ?m) - (F \<union> A \<union> B)" "?L \<in> set (blocks ?m) - (A \<union> B)"
    "k_drvdata (d_kernel d) = Some priv" "(pp_class priv, dev_id priv) \<in> set (k_class_devices (d_kernel d))"
    "pp_class priv \<in> set (k_classes (d_kernel d))" using up by (simp_all add: driver_up_def)
  have F: "F \<subseteq> set (blocks ?m)" by (rule formats_ready_blocks [OF u(4)])
  have kb: "set (blocks ?m) - W \<subseteq> set (blocks m')" using k by (auto simp: keeps_def)
  have "F \<inter> A' = {}" "F \<inter> B' = {}" using F s u(5,6) by blast+
  moreover have "?P \<in> set (blocks m') - (F \<union> A' \<union> B')" using kb u(7) w(2) s by blast
  moreover have "?L \<in> set (blocks m') - (A' \<union> B')" using kb u(8) w(3) s by blast
  ultimately have "driver_up km n priv al pfs a1' a2' F A' B'
      (d\<lparr>d_globals := (d_globals d)\<lparr>task_admin_slot1_gp := Some a1', task_admin_slot2_gp := Some a2'\<rparr>, d_mem := m'\<rparr>)"
    unfolding driver_up_def using u(1,3,9-11) a(3) mem_env_keeps [OF u(2) k] formats_ready_keeps [OF k u(4) w(1)]
      admin_holds_ready [OF a(1)] admin_holds_ready [OF a(2)] by simp
  then show ?thesis unfolding driver_holds_def using a(1,2) by fastforce
qed

text \<open>One write: the task goes to the first or the second administration by the last bit of its slot.\<close>

definition odd_slot :: "bytes \<Rightarrow> bool" where
  "odd_slot u = (be16 (frame_of u ! 4) (frame_of u ! 5) AND 1 \<noteq> 0)"

definition sys_frame :: "bytes \<Rightarrow> bool" where
  "sys_frame u = (2 \<le> length u \<and> length u \<le> MAX_PROTO_DATA_LEN \<and> u ! 0 = 0x30 \<and> u ! 1 = 0x08 \<and>
     short_fields_3008 (frame_of u) \<and> be16 (frame_of u ! 4) (frame_of u ! 5) AND 0x1000 \<noteq> 0)"

definition entry_of :: "env \<Rightarrow> bytes \<Rightarrow> bytes" where
  "entry_of e u = task_bytes (e_pad e) (task_of (e_task e) (frame_of u))"

definition frame_sizes :: "nat list" where
  "frame_sizes = sizeof_analyzer # init_sizes 11 @ [20]"

lemma write_sys_frame:
  assumes up: "driver_holds (e_km e) n priv al pfs q1 q2 d" and u: "sys_frame u"
    and st: "length stale = 1024" and key: "length (e_key e) = 10"
    and su: "supplies (e_km e) (frame_sizes @ rest) (d_mem d)"
  shows "\<exists>d'. device_write e stale u d = Some (0, d') \<and> supplies (e_km e) rest (d_mem d') \<and>
    driver_holds (e_km e) n priv al pfs (if odd_slot u then q1 else (fst q1 @ [entry_of e u], snd q1))
      (if odd_slot u then (fst q2 @ [entry_of e u], snd q2) else q2) d'"
proof -
  let ?m = "d_mem d" and ?g = "d_globals d" and ?km = "e_km e"
  from up obtain a1 a2 F A B where v: "driver_up ?km n priv al pfs a1 a2 F A B d"
    "admin_holds ?m a1 (fst q1) (snd q1) A" "admin_holds ?m a2 (fst q2) (snd q2) B" by (auto simp: driver_holds_def)
  have g: "?g = \<lparr>g_allocator = Some al, g_pfs = Some pfs, task_admin_slot1_gp = Some a1, task_admin_slot2_gp = Some a2\<rparr>"
    "mem_env ?km ?m" "sys_allocator al" "formats_ready ?m pfs F" "A \<inter> B = {}" "F \<inter> A = {}" "F \<inter> B = {}"
    "(pp_self priv, n) \<notin> A" "(pp_self priv, n) \<notin> B" "(al_self al, sizeof_allocator_t) \<notin> A" "(al_self al, sizeof_allocator_t) \<notin> B"
    using v(1) by (auto simp: driver_up_def)
  have u': "u \<noteq> []" "length u \<le> MAX_PROTO_DATA_LEN" "short_fields_3008 (frame_of u)" using u by (auto simp: sys_frame_def)
  define r where "r = drop (length u) stale"
  have b: "blit stale 0 u (length u) = Some (u @ r)"
    using u'(2) st by (simp add: blit_def r_def MAX_PROTO_DATA_LEN_def)
  have ats: "at (u @ r) 0 = Some 0x30" "at (u @ r) 1 = Some 0x08" using u by (auto simp: at_def sys_frame_def nth_append)
  have cmd: "((push_bit 8 (ucast (0x30 :: u8)) OR ucast (0x08 :: u8)) :: u16) = COMMAND_0X3008"
    by (simp add: COMMAND_0X3008_def push_bit_eq_mult)
  have su': "supplies ?km (sizeof_analyzer # init_sizes 11 @ (20 # rest)) ?m" using su by (simp add: frame_sizes_def)
  have gg: "g_allocator ?g = Some al" "g_pfs ?g = Some pfs" using g(1) by simp_all
  let ?raw = "(e_task e)\<lparr>slot_num := be16 (frame_of u ! 4) (frame_of u ! 5), tact_info := ucast (frame_of u ! 8)\<rparr>"
  let ?t = "task_of (e_task e) (frame_of u)"
  from command_3008_task [OF g(2) gg g(3,4) key u' su', of r] obtain m1 where
    c: "do_command_0x3008 e (u @ r) (word_of_nat (length u)) ?g ?m = dispatch_task e ?raw ?g m1" "keeps {} ?m m1"
      "supplies ?km (20 # rest) m1" by blast
  have run: "device_write e stale u d = (case dispatch_task e ?raw ?g m1 of None \<Rightarrow> None
      | Some (g', m') \<Rightarrow> Some (0, d\<lparr>d_globals := g', d_mem := m'\<rparr>))"
    unfolding device_write_def using b ats cmd c(1) by (simp add: process_protocol_def split: option.splits)
  have t: "task_slot_type ?t = SLOT_TYPE_SYS_DESIGNATE" "task_type ?t = TASK_TYPE_DATA" by (simp_all add: task_of_def)
  have odd: "slot_num ?t AND 1 \<noteq> 0 \<longleftrightarrow> odd_slot u" by (simp add: task_of_def odd_slot_def)
  have dis: "dispatch_task e ?raw ?g m1 =
      (if odd_slot u then do { (a, m2) \<leftarrow> add_task ?km (e_peek e) (e_pad e) a2 ?t TASK_FLAG_SND m1;
         Some (?g\<lparr>task_admin_slot1_gp := Some a1, task_admin_slot2_gp := Some a\<rparr>, m2) }
       else do { (a, m2) \<leftarrow> add_task ?km (e_peek e) (e_pad e) a1 ?t TASK_FLAG_SND m1;
         Some (?g\<lparr>task_admin_slot1_gp := Some a, task_admin_slot2_gp := Some a2\<rparr>, m2) })"
    using u unfolding odd [symmetric] by (simp add: dispatch_task_def task_of_def sys_frame_def g(1) Let_def)
  have e1: "mem_env ?km m1" by (rule mem_env_keeps [OF g(2) c(2)])
  have h1: "admin_holds m1 a1 (fst q1) (snd q1) A" "admin_holds m1 a2 (fst q2) (snd q2) B"
    using admin_holds_keeps [OF c(2)] v(2,3) by simp_all
  have sub: "A \<subseteq> set (blocks ?m)" "B \<subseteq> set (blocks ?m)" "set (blocks ?m) \<subseteq> set (blocks m1)"
    using admin_ready_blocks admin_holds_ready v(2,3) keeps_blocks [OF c(2)] by blast+
  show ?thesis
  proof (cases "odd_slot u")
    case True
    from add_data_task [OF e1 h1(2) c(3) t, of "e_peek e" "e_pad e"] obtain a' B' m2 where
      r: "add_task ?km (e_peek e) (e_pad e) a2 ?t TASK_FLAG_SND m1 = Some (a', m2)"
        "admin_holds m2 a' (fst q2 @ [entry_of e u]) (snd q2) B'" "keeps B m1 m2" "B' \<inter> set (blocks m1) \<subseteq> B" "supplies ?km rest m2"
      unfolding entry_of_def by blast
    have k: "keeps B ?m m2" by (rule keeps_trans [OF keeps_mono [OF c(2)] r(3)]) simp_all
    have a: "admin_holds m2 a1 (fst q1) (snd q1) A" by (rule admin_holds_keeps [OF r(3) h1(1)]) (use g(5) in blast)
    have "A \<inter> B' = {}" "A \<inter> set (blocks ?m) \<subseteq> A" "B' \<inter> set (blocks ?m) \<subseteq> B" using r(4) sub g(5) by blast+
    from driver_holds_change [OF v(1) k _ g(9,11) a r(2) this] g(7) show ?thesis
      using True r(1,5) by (simp add: run dis Int_commute)
  next
    case False
    from add_data_task [OF e1 h1(1) c(3) t, of "e_peek e" "e_pad e"] obtain a' A' m2 where
      r: "add_task ?km (e_peek e) (e_pad e) a1 ?t TASK_FLAG_SND m1 = Some (a', m2)"
        "admin_holds m2 a' (fst q1 @ [entry_of e u]) (snd q1) A'" "keeps A m1 m2" "A' \<inter> set (blocks m1) \<subseteq> A" "supplies ?km rest m2"
      unfolding entry_of_def by blast
    have k: "keeps A ?m m2" by (rule keeps_trans [OF keeps_mono [OF c(2)] r(3)]) simp_all
    have a: "admin_holds m2 a2 (fst q2) (snd q2) B" by (rule admin_holds_keeps [OF r(3) h1(2)]) (use g(5) in blast)
    have "A' \<inter> B = {}" "A' \<inter> set (blocks ?m) \<subseteq> A" "B \<inter> set (blocks ?m) \<subseteq> B" using r(4) sub g(5) by blast+
    from driver_holds_change [OF v(1) k _ g(8,10) r(2) a this] g(6) show ?thesis
      using False r(1,5) by (simp add: run dis Int_commute)
  qed
qed

end
