(* ===== verification/Inner_Frames.thy ===== *)
theory Inner_Frames
  imports Command_3008
begin

text \<open>
  The commands 0x3010 and 0x301b, which carry several inner frames: one analyzer reads frame after
  frame, and after each one the marks of variable length are set again. Here is what it reads, for
  frames with short fields, as a function on field descriptions, and the loops as refinements of it.
\<close>

section \<open>One inner frame\<close>

definition reset_info :: "proto_info \<Rightarrow> proto_info" where
  "reset_info i = (if vlenth_flag_bak i then i\<lparr>vlenth_flag := True\<rparr> else i)"

text \<open>The bytes in the buffer of the analyzer and its fields, from one inner frame to the next.\<close>

type_synonym reading = "bytes \<times> proto_info list"

definition load_inner :: "u8 \<Rightarrow> bytes \<Rightarrow> u16 \<Rightarrow> u16 \<Rightarrow> bytes \<Rightarrow> bytes option" where
  "load_inner lo data os n dp = do {
     d \<leftarrow> slice_of data (unat os) (unat n);
     blit (0x30 # lo # drop 2 dp) 2 d (unat n) }"

definition read_inner :: "u8 \<Rightarrow> bytes \<Rightarrow> u16 \<Rightarrow> u16 \<Rightarrow> reading \<Rightarrow> reading option" where
  "read_inner lo data os n s = do {
     dp \<leftarrow> load_inner lo data os n (fst s);
     is \<leftarrow> read_short dp [] (snd s);
     Some (dp, map reset_info is) }"

text \<open>Fields that have no buffer, so that printing them reads nothing else.\<close>

definition unbuffered :: "proto_info list \<Rightarrow> bool" where
  "unbuffered fs = (\<forall>f \<in> set fs. buf_data_p f = NULL)"

lemma read_short_unbuffered: "read_short dp fs gs = Some is \<Longrightarrow> unbuffered (fs @ gs) \<Longrightarrow> unbuffered is"
proof (induction dp fs gs rule: read_short.induct)
  case (2 dp fs i gs)
  have rv: "buf_data_p j = buf_data_p i'" if "read_value dp i' = Some j" for i' j
    using that by (auto simp: read_value_def bind_eq_Some_conv)
  show ?case
  proof (cases "vlenth_flag i")
    case True
    with 2(3) obtain d j where l: "length_of fs i = Some d" and
      j: "read_value dp (i\<lparr>pi_len := ucast d, vlenth_flag := False\<rparr>) = Some j"
      and r: "read_short dp (fs @ [j]) (map (shift_by d (len_unit i)) gs) = Some is" by (auto simp: bind_eq_Some_conv)
    have "unbuffered ((fs @ [j]) @ map (shift_by d (len_unit i)) gs)"
      using 2(4) rv [OF j] by (auto simp: unbuffered_def shift_by_def)
    then show ?thesis by (rule 2(1) [OF True l j r])
  next
    case False
    with 2(3) obtain j where j: "read_value dp i = Some j" and r: "read_short dp (fs @ [j]) gs = Some is"
      by (auto simp: bind_eq_Some_conv)
    have "unbuffered ((fs @ [j]) @ gs)" using 2(4) rv [OF j] by (auto simp: unbuffered_def)
    then show ?thesis by (rule 2(2) [OF False j r])
  qed
qed simp

lemma reset_info_fields [simp]: "pi_name (reset_info i) = pi_name i" "buf_data_p (reset_info i) = buf_data_p i"
  "byte_pos (reset_info i) = byte_pos i" "pi_data (reset_info i) = pi_data i" "pi_len (reset_info i) = pi_len i"
  "reset_info (reset_info i) = reset_info i"
  by (simp_all add: reset_info_def)

lemma tidy_cong: "map pi_name fs = map pi_name gs \<Longrightarrow> tidy fs = tidy gs"
proof -
  assume e: "map pi_name fs = map pi_name gs"
  have "tidy fs = (distinct (map (take 10) (map pi_name fs)) \<and>
      (\<forall>n \<in> set (map pi_name fs). n = cstr n @ replicate (20 - length (cstr n)) 0))" for fs
    by (simp add: tidy_def comp_def)
  then show ?thesis using e by metis
qed

lemma read_inner_parts:
  assumes "read_inner lo data os n (dp, fs) = Some (dp', fs')" and "length dp = MAX_PROTO_DATA_LEN"
  shows "\<exists>d is. slice_of data (unat os) (unat n) = Some d \<and> blit (0x30 # lo # drop 2 dp) 2 d (unat n) = Some dp' \<and>
      read_short dp' [] fs = Some is \<and> fs' = map reset_info is \<and> map pi_name is = map pi_name fs \<and>
      (unbuffered fs \<longrightarrow> unbuffered is) \<and> length dp' = MAX_PROTO_DATA_LEN \<and> n + 2 \<noteq> 0"
proof -
  from assms(1) obtain d "is" where r: "slice_of data (unat os) (unat n) = Some d" "blit (0x30 # lo # drop 2 dp) 2 d (unat n) = Some dp'"
    "read_short dp' [] fs = Some is" "fs' = map reset_info is" by (auto simp: read_inner_def load_inner_def bind_eq_Some_conv)
  have l: "length (0x30 # lo # drop 2 dp) = 100" using assms(2) by (simp add: MAX_PROTO_DATA_LEN_def)
  note b = blit_bound [OF r(2), unfolded l]
  have "unat (n + 2) = unat n + 2" using b by (simp add: unat_word_ariths)
  then have "n + 2 \<noteq> 0" by auto
  with r b read_short_names [OF r(3)] read_short_unbuffered [OF r(3)] show ?thesis by (simp add: MAX_PROTO_DATA_LEN_def)
qed

section \<open>The analyzer between two frames\<close>

text \<open>An analyzer whose fields, as the code finds them in memory, are \<open>fs\<close>.\<close>

definition analyzer_at :: "kmalloc_fn \<Rightarrow> 'z pmem_scheme \<Rightarrow> analyzer \<Rightarrow> addr list \<Rightarrow> addr list list \<Rightarrow> proto_info list \<Rightarrow> bool" where
  "analyzer_at km m pa ps B fs = (mem_ok m \<and> analyzer_ok km m pa ps B \<and> infos m ps = fs \<and> tidy fs \<and> unbuffered fs \<and>
     length (protocol_data pa) = MAX_PROTO_DATA_LEN)"

lemma reset_fields:
  fixes m :: "'z pmem_scheme"
  assumes "mem_ok m" and f: "flist m (pa_list_head_p pa) ps" and "pa_list_head_p pa \<noteq> NULL"
  shows "pa_reset_vlen_flag pa (m\<lparr>pinfo := F\<rparr>) =
    Some (0, m\<lparr>pinfo := \<lambda>a. if a \<in> set ps then reset_info (F a) else F a\<rparr>)"
proof -
  let ?hl = "pa_list_head_p pa" and ?xs = "map node_of ps"
  have ok: "dlist m ?hl ?xs" "\<And>p. p \<in> set ps \<Longrightarrow> valid m p sizeof_proto_info"
    using flist_fields_ok [OF assms(1) f] by (simp_all add: fields_ok_def)
  let ?I = "\<lambda>ys s. (\<exists>us. ?xs = us @ ys) \<and> (\<exists>G. s = m\<lparr>pinfo := G\<rparr>)"
  have rn: "rd_next a (m\<lparr>pinfo := G\<rparr>) = rd_next a m" for a G by (simp add: rd_next_def)
  have step: "\<exists>G'. reset_field (node_of p) (m\<lparr>pinfo := G\<rparr>) = Some (m\<lparr>pinfo := G'\<rparr>) \<and> G' = G(p := reset_info (G p))"
    if "p \<in> set ps" for p G
    using ok(2) [OF that] by (auto simp: reset_field_def rd_info_def wr_info_def reset_info_def)
  have "list_for_each_safe rd_next reset_field ?hl (m\<lparr>pinfo := F\<rparr>) = foldM reset_field ?xs (m\<lparr>pinfo := F\<rparr>)"
  proof (rule list_for_each_safe_foldM [where I = ?I])
    show "?I ?xs (m\<lparr>pinfo := F\<rparr>)" by blast
    show "?hl \<notin> set ?xs" using ok(1) by (simp add: dlist_def)
    show "rd_next ?hl (m\<lparr>pinfo := F\<rparr>) = Some (hd (?xs @ [?hl]))" unfolding rn by (rule dlist_reads(1) [OF ok(1)])
    show "rd_next y s = Some (hd (ys @ [?hl]))" if "?I (y # ys) s" for y ys s
      using that dlist_reads(2) [OF ok(1)] rn by auto
    show "?I ys t" if I: "?I (y # ys) s" and t: "reset_field y s = Some t" for y ys s t
    proof -
      from I obtain us G where u: "?xs = us @ y # ys" "s = m\<lparr>pinfo := G\<rparr>" by blast
      then have "y \<in> set ?xs" by simp
      then obtain p where p: "p \<in> set ps" "y = node_of p" by auto
      from step [OF p(1), of G] t u p(2) show ?thesis by auto
    qed
    show "rd_next ?hl s \<noteq> None" if "?I [] s" for s using that dlist_reads(1) [OF ok(1)] rn by auto
  qed
  also have "foldM reset_field (map node_of qs) (m\<lparr>pinfo := F\<rparr>) =
      Some (m\<lparr>pinfo := \<lambda>a. if a \<in> set qs then reset_info (F a) else F a\<rparr>)" if "set qs \<subseteq> set ps" for qs
    using that
  proof (induction qs arbitrary: F)
    case (Cons q qs)
    from step [of q F] Cons.prems have s: "reset_field (node_of q) (m\<lparr>pinfo := F\<rparr>) = Some (m\<lparr>pinfo := F(q := reset_info (F q))\<rparr>)"
      by auto
    have "(\<lambda>a. if a \<in> set qs then reset_info ((F(q := reset_info (F q))) a) else (F(q := reset_info (F q))) a) =
        (\<lambda>a. if a \<in> set (q # qs) then reset_info (F a) else F a)" by auto
    from Cons.IH [of "F(q := reset_info (F q))", unfolded this] s Cons.prems show ?case by (simp del: fun_upd_apply)
  qed simp
  finally show ?thesis using assms(3) by (simp add: pa_reset_vlen_flag_def)
qed

lemma analyzer_ok_fields:
  fixes m :: "'z pmem_scheme"
  assumes mo: "mem_ok m" and a: "analyzer_ok km m pa ps B" and F: "\<forall>b. b \<notin> set ps \<longrightarrow> F b = pinfo m b"
    and n: "map pi_name (map F ps) = map pi_name (infos m ps)"
  shows "analyzer_ok km (m\<lparr>pinfo := F\<rparr>) pa ps B"
proof -
  let ?m = "m\<lparr>pinfo := F\<rparr>" and ?hl = "pa_list_head_p pa"
  from a obtain h where o: "sys_allocator (pa_allocator pa)" "flist m ?hl ps" "?hl \<noteq> NULL" "named m ps" "pa_hmap pa = Some h"
    "index_ok km (name_map m ps) h B m" "map_owned h B \<inter> owned ?hl ps = {}" by (auto simp: analyzer_ok_def)
  have k: "keeps (owned ?hl ps) m ?m" by (rule set_fields_keeps [OF mo o(2) F])
  have fl: "flist ?m ?hl ps" using o(2) by (simp add: flist_def)
  have pn: "pi_name (F p) = pi_name (pinfo m p)" if "p \<in> set ps" for p using n that by (simp add: infos_def)
  have "name_map ?m ps = name_map m ps" using pn by (simp add: name_map_def entries_def cong: map_cong)
  moreover have "named ?m ps" using o(4) pn by (simp add: named_def)
  moreover have "index_ok km (name_map m ps) h B ?m" by (rule index_keeps [OF k o(6)]) (use o(7) in blast)
  ultimately show ?thesis using o(1,3,5,7) fl unfolding analyzer_ok_def by auto
qed

lemma inner_frame_spec:
  fixes m :: "'z pmem_scheme"
  assumes at: "analyzer_at km m pa ps B fs" and key: "length (e_key e) = 10"
    and r: "read_inner lo data os n (protocol_data pa, fs) = Some (dp', fs')"
  shows "\<exists>F. inner_frame e lo data os n (pa, m) = Some (pa\<lparr>protocol_data := dp', protocol_data_len := n + 2\<rparr>, m\<lparr>pinfo := F\<rparr>) \<and>
    analyzer_at km (m\<lparr>pinfo := F\<rparr>) (pa\<lparr>protocol_data := dp', protocol_data_len := n + 2\<rparr>) ps B fs' \<and>
    (\<forall>b. b \<notin> set ps \<longrightarrow> F b = pinfo m b)"
proof -
  let ?pa = "pa\<lparr>protocol_data := dp', protocol_data_len := n + 2\<rparr>"
  from at have a: "mem_ok m" "analyzer_ok km m pa ps B" "infos m ps = fs" "tidy fs" "unbuffered fs"
    "length (protocol_data pa) = MAX_PROTO_DATA_LEN" by (auto simp: analyzer_at_def)
  from read_inner_parts [OF r a(6)] obtain d "is" where
    p: "slice_of data (unat os) (unat n) = Some d" "blit (0x30 # lo # drop 2 (protocol_data pa)) 2 d (unat n) = Some dp'"
      "read_short dp' [] fs = Some is" "fs' = map reset_info is" "map pi_name is = map pi_name fs" "unbuffered is"
      "length dp' = MAX_PROTO_DATA_LEN" "n + 2 \<noteq> 0" using a(5) by blast
  have ok: "analyzer_ok km m ?pa ps B" using a(2) by (simp add: analyzer_ok_def)
  from ok have o: "flist m (pa_list_head_p ?pa) ps" "pa_list_head_p ?pa \<noteq> NULL" by (simp_all add: analyzer_ok_def)
  have td: "tidy (infos m ps)" using a(3,4) by simp
  have rd: "read_short (protocol_data ?pa) [] (infos m ps) = Some is" "protocol_data_len ?pa \<noteq> 0" using p(3,8) a(3) by simp_all
  from parse_analyzer [OF a(1) ok key td rd, of "e_km e"] obtain F where
    F: "pa_parse_protocol_data (e_km e) (e_key e) ?pa m = Some (0, m\<lparr>pinfo := F\<rparr>)" "map F ps = is" "\<forall>b. b \<notin> set ps \<longrightarrow> F b = pinfo m b"
    by blast
  have ff: "dlist m (pa_list_head_p ?pa) (map node_of ps)" "\<And>q. q \<in> set ps \<Longrightarrow> valid m q sizeof_proto_info"
    using flist_fields_ok [OF a(1) o(1)] by (simp_all add: fields_ok_def)
  have "buf_data_p (F q) = NULL" if "q \<in> set ps" for q using p(6) that F(2) by (auto simp: unbuffered_def)
  then obtain out where out: "pfs_print_list_for_each (pa_list_head_p ?pa) (m\<lparr>pinfo := F\<rparr>) = Some out"
    using pfs_print_list_total [of "m\<lparr>pinfo := F\<rparr>" "pa_list_head_p ?pa" "map node_of ps"] ff
    by (auto simp: printable_def)
  let ?G = "\<lambda>a. if a \<in> set ps then reset_info (F a) else F a"
  have run: "inner_frame e lo data os n (pa, m) = Some (?pa, m\<lparr>pinfo := ?G\<rparr>)"
    using F(1) out reset_fields [OF a(1) o] by (simp add: inner_frame_def p(1,2) Let_def)
  have G: "map ?G ps = fs'" "\<forall>b. b \<notin> set ps \<longrightarrow> ?G b = pinfo m b" using F(2,3) p(4) by auto
  have nm: "map pi_name fs' = map pi_name fs" using p(4,5) by (simp add: comp_def)
  have "analyzer_ok km (m\<lparr>pinfo := ?G\<rparr>) ?pa ps B"
    by (rule analyzer_ok_fields [OF a(1) ok G(2)]) (use G(1) nm a(3) in simp)
  moreover have "tidy fs'" using tidy_cong [OF nm] a(4) by simp
  moreover have "unbuffered fs'" using p(4,6) by (simp add: unbuffered_def)
  ultimately have "analyzer_at km (m\<lparr>pinfo := ?G\<rparr>) ?pa ps B fs'"
    unfolding analyzer_at_def using a(1) p(7) G(1) by (simp add: infos_def)
  with run G(2) show ?thesis by blast
qed

section \<open>The loops\<close>

fun read_3010 :: "bytes \<Rightarrow> nat \<Rightarrow> u16 \<Rightarrow> reading \<Rightarrow> reading option" where
  "read_3010 data 0 os s = Some s"
| "read_3010 data (Suc k) os s = do {
     b \<leftarrow> at data (unat os + 2);
     s1 \<leftarrow> read_inner 0x54 data os (ucast b + 3) s;
     read_3010 data k (os + ucast b + 3) s1 }"

fun read_301b :: "bytes \<Rightarrow> nat \<Rightarrow> u16 \<Rightarrow> reading \<times> reading \<Rightarrow> (reading \<times> reading) option" where
  "read_301b data 0 os s = Some s"
| "read_301b data (Suc k) os (s50, s52) = do {
     n \<leftarrow> at data (unat os);
     emb \<leftarrow> at data (unat os + 1);
     if emb = 0 then do { s \<leftarrow> read_inner 0x50 data os (ucast n) s50; read_301b data k (os + ucast n) (s, s52) }
     else do { s \<leftarrow> read_inner 0x52 data os (ucast n) s52; read_301b data k (os + ucast n) (s50, s) } }"

text \<open>Two analyzers that differ only in what \<open>inner_frame\<close> sets.\<close>

definition same_analyzer :: "analyzer \<Rightarrow> analyzer \<Rightarrow> bool" where
  "same_analyzer pa pa' = (\<exists>dp l. pa' = pa\<lparr>protocol_data := dp, protocol_data_len := l\<rparr>)"

lemma same_analyzer_refl [simp]: "same_analyzer pa pa"
  unfolding same_analyzer_def by (intro exI [of _ "protocol_data pa"] exI [of _ "protocol_data_len pa"]) simp

lemma same_analyzer_trans: "same_analyzer pa pa1 \<Longrightarrow> same_analyzer pa1 pa2 \<Longrightarrow> same_analyzer pa pa2"
  by (auto simp: same_analyzer_def) blast

lemma same_analyzer_fields: "same_analyzer pa pa' \<Longrightarrow>
    pa_list_head_p pa' = pa_list_head_p pa \<and> pa_hmap pa' = pa_hmap pa \<and> analyzer_owned pa' ps B = analyzer_owned pa ps B"
  by (auto simp: same_analyzer_def analyzer_owned_def)

lemma inner_frame_reads:
  fixes m :: "'z pmem_scheme"
  assumes "analyzer_at km m pa ps B fs" and "length (e_key e) = 10"
    and "read_inner lo data os n (protocol_data pa, fs) = Some s"
  shows "\<exists>pa' F. inner_frame e lo data os n (pa, m) = Some (pa', m\<lparr>pinfo := F\<rparr>) \<and> same_analyzer pa pa' \<and>
    protocol_data pa' = fst s \<and> analyzer_at km (m\<lparr>pinfo := F\<rparr>) pa' ps B (snd s) \<and> (\<forall>b. b \<notin> set ps \<longrightarrow> F b = pinfo m b)"
proof -
  obtain dp' fs' where s: "s = (dp', fs')" by (cases s)
  from inner_frame_spec [OF assms(1,2) assms(3) [unfolded s]] obtain F where
    "inner_frame e lo data os n (pa, m) = Some (pa\<lparr>protocol_data := dp', protocol_data_len := n + 2\<rparr>, m\<lparr>pinfo := F\<rparr>)"
    "analyzer_at km (m\<lparr>pinfo := F\<rparr>) (pa\<lparr>protocol_data := dp', protocol_data_len := n + 2\<rparr>) ps B fs'"
    "\<forall>b. b \<notin> set ps \<longrightarrow> F b = pinfo m b" by blast
  moreover have "same_analyzer pa (pa\<lparr>protocol_data := dp', protocol_data_len := n + 2\<rparr>)" unfolding same_analyzer_def by blast
  ultimately show ?thesis unfolding s fst_conv snd_conv
    by (intro exI [of _ "pa\<lparr>protocol_data := dp', protocol_data_len := n + 2\<rparr>"] exI [of _ F]) simp
qed

lemma loop_3010_spec:
  fixes m :: "'z pmem_scheme"
  assumes "analyzer_at km m pa ps B fs" and key: "length (e_key e) = 10"
    and "read_3010 data k os (protocol_data pa, fs) = Some s"
  shows "\<exists>pa' F. loop_0x3010 e data k os (pa, m) = Some (pa', m\<lparr>pinfo := F\<rparr>) \<and> same_analyzer pa pa' \<and>
    protocol_data pa' = fst s \<and> analyzer_at km (m\<lparr>pinfo := F\<rparr>) pa' ps B (snd s) \<and> (\<forall>b. b \<notin> set ps \<longrightarrow> F b = pinfo m b)"
  using assms(1,3)
proof (induction k arbitrary: os pa m fs)
  case 0
  then show ?case by (intro exI [of _ pa] exI [of _ "pinfo m"]) auto
next
  case (Suc k)
  from Suc.prems(2) obtain b s1 where b: "at data (unat os + 2) = Some b"
    "read_inner 0x54 data os (ucast b + 3) (protocol_data pa, fs) = Some s1" "read_3010 data k (os + ucast b + 3) s1 = Some s"
    by (auto simp: bind_eq_Some_conv)
  from inner_frame_reads [OF Suc.prems(1) key b(2)] obtain pa1 F where
    i: "inner_frame e 0x54 data os (ucast b + 3) (pa, m) = Some (pa1, m\<lparr>pinfo := F\<rparr>)" "same_analyzer pa pa1"
      "protocol_data pa1 = fst s1" "analyzer_at km (m\<lparr>pinfo := F\<rparr>) pa1 ps B (snd s1)" "\<forall>b. b \<notin> set ps \<longrightarrow> F b = pinfo m b"
    by blast
  have "read_3010 data k (os + ucast b + 3) (protocol_data pa1, snd s1) = Some s" using b(3) i(3) by simp
  from Suc.IH [OF i(4) this] obtain pa' G where
    "loop_0x3010 e data k (os + ucast b + 3) (pa1, m\<lparr>pinfo := F\<rparr>) = Some (pa', m\<lparr>pinfo := G\<rparr>)" "same_analyzer pa1 pa'"
      "protocol_data pa' = fst s" "analyzer_at km (m\<lparr>pinfo := G\<rparr>) pa' ps B (snd s)" "\<forall>b. b \<notin> set ps \<longrightarrow> G b = F b" by auto
  with b(1) i(1,5) same_analyzer_trans [OF i(2)] show ?case
    by (intro exI [of _ pa'] exI [of _ G]) (simp add: Let_def)
qed

lemma analyzer_at_keeps:
  fixes m :: "'z pmem_scheme"
  assumes k: "keeps A m m'" and a: "analyzer_at km m pa ps B fs" and d: "A \<inter> analyzer_owned pa ps B = {}"
  shows "analyzer_at km m' pa ps B fs"
proof -
  from a obtain h where o: "sys_allocator (pa_allocator pa)" "flist m (pa_list_head_p pa) ps" "pa_list_head_p pa \<noteq> NULL" "named m ps"
    "pa_hmap pa = Some h" "index_ok km (name_map m ps) h B m" "map_owned h B \<inter> owned (pa_list_head_p pa) ps = {}"
    "infos m ps = fs" by (auto simp: analyzer_at_def analyzer_ok_def)
  have d': "A \<inter> owned (pa_list_head_p pa) ps = {}" "A \<inter> map_owned h B = {}" using d o(5) by (auto simp: analyzer_owned_def)
  note f = flist_keeps [OF k o(2) d'(1)]
  have "index_ok km (name_map m' ps) h B m'"
    unfolding name_map_cong [OF f(3)] by (rule index_keeps [OF k o(6) d'(2)])
  then have "analyzer_ok km m' pa ps B" unfolding analyzer_ok_def using o(1,3,5,7) f(1) infos_named [OF f(3) o(4)] by blast
  then show ?thesis using a keeps_ok [OF k] f(3) by (simp add: analyzer_at_def)
qed

lemma analyzer_at_fields_keep:
  fixes m :: "'z pmem_scheme"
  assumes "analyzer_at km m pa ps B fs" and "\<forall>b. b \<notin> set ps \<longrightarrow> F b = pinfo m b"
  shows "keeps (analyzer_owned pa ps B) m (m\<lparr>pinfo := F\<rparr>)"
proof -
  have "keeps (owned (pa_list_head_p pa) ps) m (m\<lparr>pinfo := F\<rparr>)"
    by (rule set_fields_keeps) (use assms in \<open>auto simp: analyzer_at_def analyzer_ok_def\<close>)
  then show ?thesis by (rule keeps_mono) (auto simp: analyzer_owned_def)
qed

text \<open>A frame that one analyzer reads, with another analyzer beside it.\<close>

lemma inner_frame_beside:
  fixes m :: "'z pmem_scheme"
  assumes at: "analyzer_at km m pa ps B fs" "analyzer_at km m pb qs C gs" and key: "length (e_key e) = 10"
    and d: "analyzer_owned pa ps B \<inter> analyzer_owned pb qs C = {}"
    and r: "read_inner lo data os n (protocol_data pa, fs) = Some s"
  shows "\<exists>pa' m'. inner_frame e lo data os n (pa, m) = Some (pa', m') \<and> same_analyzer pa pa' \<and>
    protocol_data pa' = fst s \<and> analyzer_at km m' pa' ps B (snd s) \<and> analyzer_at km m' pb qs C gs \<and>
    analyzer_owned pa' ps B = analyzer_owned pa ps B \<and> keeps (analyzer_owned pa ps B) m m' \<and>
    blocks m' = blocks m \<and> ticks m' = ticks m"
proof -
  from inner_frame_reads [OF at(1) key r] obtain pa' F where
    i: "inner_frame e lo data os n (pa, m) = Some (pa', m\<lparr>pinfo := F\<rparr>)" "same_analyzer pa pa'"
      "protocol_data pa' = fst s" "analyzer_at km (m\<lparr>pinfo := F\<rparr>) pa' ps B (snd s)" "\<forall>b. b \<notin> set ps \<longrightarrow> F b = pinfo m b"
    by blast
  note k = analyzer_at_fields_keep [OF at(1) i(5)]
  have "analyzer_owned pa' ps B = analyzer_owned pa ps B" using same_analyzer_fields [OF i(2)] by blast
  with i k analyzer_at_keeps [OF k at(2) d] show ?thesis
    by (intro exI [of _ pa'] exI [of _ "m\<lparr>pinfo := F\<rparr>"]) simp
qed

definition both_at ::
  "kmalloc_fn \<Rightarrow> addr list \<Rightarrow> addr list list \<Rightarrow> addr list \<Rightarrow> addr list list \<Rightarrow> reading \<times> reading \<Rightarrow> analyzer \<Rightarrow> analyzer \<Rightarrow> 'z pmem_scheme \<Rightarrow> bool" where
  "both_at km ps B qs C r pa pb m = (analyzer_at km m pa ps B (snd (fst r)) \<and> analyzer_at km m pb qs C (snd (snd r)) \<and>
     protocol_data pa = fst (fst r) \<and> protocol_data pb = fst (snd r) \<and> analyzer_owned pa ps B \<inter> analyzer_owned pb qs C = {})"

lemma loop_301b_spec:
  fixes m :: "'z pmem_scheme"
  assumes "both_at km ps B qs C s0 pa pb m" and key: "length (e_key e) = 10" and "read_301b data k os s0 = Some s"
    and "W = analyzer_owned pa ps B \<union> analyzer_owned pb qs C"
  shows "\<exists>pa' pb' m'. loop_0x301b e data k os pa pb m = Some (pa', pb', m') \<and> both_at km ps B qs C s pa' pb' m' \<and>
    blocks m' = blocks m \<and> ticks m' = ticks m \<and> keeps W m m'"
  using assms(1,3,4)
proof (induction k arbitrary: os pa pb m s0)
  case 0
  then show ?case by (auto simp: both_at_def analyzer_at_def intro: keeps_refl)
next
  case (Suc k)
  obtain r1 r2 where s0: "s0 = (r1, r2)" by (cases s0)
  from Suc.prems(1) have at: "analyzer_at km m pa ps B (snd r1)" "analyzer_at km m pb qs C (snd r2)" "protocol_data pa = fst r1"
    "protocol_data pb = fst r2" "analyzer_owned pa ps B \<inter> analyzer_owned pb qs C = {}" by (simp_all add: both_at_def s0)
  from Suc.prems(2) obtain n emb where b: "at data (unat os) = Some n" "at data (unat os + 1) = Some emb"
    by (auto simp: bind_eq_Some_conv s0)
  show ?case
  proof (cases "emb = 0")
    case True
    with Suc.prems(2) b obtain s1 where r: "read_inner 0x50 data os (ucast n) (protocol_data pa, snd r1) = Some s1"
      "read_301b data k (os + ucast n) (s1, r2) = Some s" by (auto simp: bind_eq_Some_conv s0 at(3))
    from inner_frame_beside [OF at(1,2) key at(5) r(1)] obtain p1 m1 where
      i: "inner_frame e 0x50 data os (ucast n) (pa, m) = Some (p1, m1)" "protocol_data p1 = fst s1"
        "analyzer_at km m1 p1 ps B (snd s1)" "analyzer_at km m1 pb qs C (snd r2)"
        "analyzer_owned p1 ps B = analyzer_owned pa ps B" "keeps (analyzer_owned pa ps B) m m1" "blocks m1 = blocks m" "ticks m1 = ticks m"
      by blast
    have "both_at km ps B qs C (s1, r2) p1 pb m1" using i(2-5) at(4,5) by (simp add: both_at_def)
    from Suc.IH [OF this r(2)] i(5) Suc.prems(3) obtain pa' pb' m' where
      l: "loop_0x301b e data k (os + ucast n) p1 pb m1 = Some (pa', pb', m')" "both_at km ps B qs C s pa' pb' m'"
        "blocks m' = blocks m1" "ticks m' = ticks m1" "keeps W m1 m'" by auto
    have "keeps W m m'" by (rule keeps_trans [OF keeps_mono [OF i(6)] l(5)]) (use Suc.prems(3) in auto)
    with b i(1,7,8) l(1-4) True show ?thesis by (simp add: Let_def)
  next
    case False
    with Suc.prems(2) b obtain s1 where r: "read_inner 0x52 data os (ucast n) (protocol_data pb, snd r2) = Some s1"
      "read_301b data k (os + ucast n) (r1, s1) = Some s" by (auto simp: bind_eq_Some_conv s0 at(4))
    have d: "analyzer_owned pb qs C \<inter> analyzer_owned pa ps B = {}" using at(5) by blast
    from inner_frame_beside [OF at(2,1) key d r(1)] obtain p1 m1 where
      i: "inner_frame e 0x52 data os (ucast n) (pb, m) = Some (p1, m1)" "protocol_data p1 = fst s1"
        "analyzer_at km m1 p1 qs C (snd s1)" "analyzer_at km m1 pa ps B (snd r1)"
        "analyzer_owned p1 qs C = analyzer_owned pb qs C" "keeps (analyzer_owned pb qs C) m m1" "blocks m1 = blocks m" "ticks m1 = ticks m"
      by blast
    have "both_at km ps B qs C (r1, s1) pa p1 m1" using i(2-5) at(3,5) by (simp add: both_at_def)
    from Suc.IH [OF this r(2)] i(5) Suc.prems(3) obtain pa' pb' m' where
      l: "loop_0x301b e data k (os + ucast n) pa p1 m1 = Some (pa', pb', m')" "both_at km ps B qs C s pa' pb' m'"
        "blocks m' = blocks m1" "ticks m' = ticks m1" "keeps W m1 m'" by auto
    have "keeps W m m'" by (rule keeps_trans [OF keeps_mono [OF i(6)] l(5)]) (use Suc.prems(3) in auto)
    with b i(1,7,8) l(1-4) False show ?thesis by (simp add: Let_def)
  qed
qed

section \<open>The commands\<close>

text \<open>A fresh analyzer for the format \<open>fs\<close>, and what the commands read with it.\<close>

definition fresh_reading :: "proto_info list \<Rightarrow> reading" where
  "fresh_reading fs = (replicate MAX_PROTO_DATA_LEN 0, fs)"

definition batch_3010 :: "bytes \<Rightarrow> reading option" where
  "batch_3010 data = do { k \<leftarrow> at data 5; read_3010 data (unat k) 6 (fresh_reading fields_3054) }"

definition batch_301b :: "bytes \<Rightarrow> (reading \<times> reading) option" where
  "batch_301b data = do {
     k \<leftarrow> at data 4;
     read_301b data (unat k) 5 (fresh_reading fields_3050, fresh_reading fields_3052) }"

lemma inner_formats: "tidy fields_3050" "tidy fields_3052" "tidy fields_3054"
    "unbuffered fields_3050" "unbuffered fields_3052" "unbuffered fields_3054"
    "length fields_3050 = 12" "length fields_3052 = 13" "length fields_3054 = 5"
    "\<forall>i \<in> set fields_3050. length (pi_name i) = MAX_NAME_LEN" "\<forall>i \<in> set fields_3052. length (pi_name i) = MAX_NAME_LEN"
    "\<forall>i \<in> set fields_3054. length (pi_name i) = MAX_NAME_LEN"
proof -
  note d = fields_3050_def fields_3052_def fields_3054_def
  show "tidy fields_3050" "tidy fields_3052" "tidy fields_3054"
    by (simp_all add: tidy_def d field_simps name20_def chars_def cstr_def name_defs)
  have "buf_data_p (byte_field n b l) = NULL" "buf_data_p (var_field n b s) = NULL" for n b l s
    by (simp_all add: byte_field_def var_field_def zero_info_def)
  then show "unbuffered fields_3050" "unbuffered fields_3052" "unbuffered fields_3054" by (simp_all add: unbuffered_def d)
  show "length fields_3050 = 12" "length fields_3052 = 13" "length fields_3054 = 5" by (simp_all add: d)
  show "\<forall>i \<in> set fields_3050. length (pi_name i) = MAX_NAME_LEN" "\<forall>i \<in> set fields_3052. length (pi_name i) = MAX_NAME_LEN"
    "\<forall>i \<in> set fields_3054. length (pi_name i) = MAX_NAME_LEN"
    by (simp_all add: d field_simps name20_def chars_def name_defs MAX_NAME_LEN_def)
qed

text \<open>What the commands find in the globals of a driver that is up.\<close>

definition ready :: "env \<Rightarrow> globals \<Rightarrow> 'z pmem_scheme \<Rightarrow> bool" where
  "ready e g m = (mem_env (e_km e) m \<and> length (e_key e) = 10 \<and>
     (\<exists>al pfs F. g_allocator g = Some al \<and> g_pfs g = Some pfs \<and> sys_allocator al \<and> formats_ready m pfs F))"

lemma open_inner:
  fixes m :: "'z pmem_scheme"
  assumes e: "ready e g m" and n: "0x3000 \<le> n" "pdt_formats (unat (n - 0x3000)) = Some fs"
    and fs: "tidy fs" "unbuffered fs" "\<forall>i \<in> set fs. length (pi_name i) = MAX_NAME_LEN" and k: "length fs = k"
    and su: "supplies (e_km e) (sizeof_analyzer # init_sizes k @ rest) m"
  shows "\<exists>pa ps B m'. open_analyzer e g n m = Some (pa, m') \<and> analyzer_at (e_km e) m' pa ps B fs \<and>
    protocol_data pa = replicate MAX_PROTO_DATA_LEN 0 \<and> ready e g m' \<and> keeps {} m m' \<and>
    analyzer_owned pa ps B \<inter> set (blocks m) = {} \<and> analyzer_owned pa ps B \<subseteq> set (blocks m') \<and> supplies (e_km e) rest m'"
proof -
  from e obtain al pfs F where g: "mem_env (e_km e) m" "length (e_key e) = 10" "g_allocator g = Some al" "g_pfs g = Some pfs"
    "sys_allocator al" "formats_ready m pfs F" by (auto simp: ready_def)
  from open_analyzer_spec [OF g(1,3-6) n fs(3) su [folded k]] obtain pa ps B m' where
    o: "open_analyzer e g n m = Some (pa, m')" "analyzer_ok (e_km e) m' pa ps B" "infos m' ps = fs" "keeps {} m m'"
      "analyzer_owned pa ps B \<inter> set (blocks m) = {}" "supplies (e_km e) rest m'" by blast
  note dp = open_analyzer_data [OF o(1)]
  have e': "mem_env (e_km e) m'" by (rule mem_env_keeps [OF g(1) o(4)])
  then have "analyzer_at (e_km e) m' pa ps B fs" using o(2,3) fs dp by (simp add: analyzer_at_def mem_env_def)
  moreover have "ready e g m'" unfolding ready_def using e' g(2-5) formats_ready_keeps [OF o(4) g(6)] by blast
  moreover from o(2) obtain h where h: "flist m' (pa_list_head_p pa) ps" "pa_hmap pa = Some h" "index_ok (e_km e) (name_map m' ps) h B m'"
    by (auto simp: analyzer_ok_def)
  have "map_owned h B \<subseteq> set (blocks m')" by (rule map_owned_blocks) (use h(3) in \<open>auto simp: index_ok_def hmap_ok_def\<close>)
  then have "analyzer_owned pa ps B \<subseteq> set (blocks m')" using flist_owned [OF h(1)] h(2) by (auto simp: analyzer_owned_def)
  ultimately show ?thesis using o(1,4-6) dp by blast
qed

lemma inner_format_numbers:
  "pdt_formats (unat ((0x3050 :: u32) - 0x3000)) = Some fields_3050" "pdt_formats (unat ((0x3052 :: u32) - 0x3000)) = Some fields_3052"
  "pdt_formats (unat ((0x3054 :: u32) - 0x3000)) = Some fields_3054"
  by (simp_all add: pdt_formats_def)

lemma command_3010_spec:
  fixes m :: "'z pmem_scheme"
  assumes e: "ready e g m" and b: "batch_3010 data = Some s" and su: "supplies (e_km e) (sizeof_analyzer # init_sizes 5 @ rest) m"
  shows "\<exists>m'. do_command_0x3010 e data len g m = Some (g, m') \<and> keeps {} m m' \<and> supplies (e_km e) rest m'"
proof -
  from b obtain k where k: "at data 5 = Some k" "read_3010 data (unat k) 6 (fresh_reading fields_3054) = Some s"
    by (auto simp: batch_3010_def bind_eq_Some_conv)
  from open_inner [OF e _ inner_format_numbers(3) inner_formats(3,6,12,9) su] obtain pa ps B m1 where
    o: "open_analyzer e g 0x3054 m = Some (pa, m1)" "analyzer_at (e_km e) m1 pa ps B fields_3054"
      "protocol_data pa = replicate MAX_PROTO_DATA_LEN 0" "keeps {} m m1" "analyzer_owned pa ps B \<inter> set (blocks m) = {}"
      "supplies (e_km e) rest m1" by auto
  have key: "length (e_key e) = 10" using e by (simp add: ready_def)
  have "read_3010 data (unat k) 6 (protocol_data pa, fields_3054) = Some s" using k(2) o(3) by (simp add: fresh_reading_def)
  from loop_3010_spec [OF o(2) key this] obtain pa' F where
    l: "loop_0x3010 e data (unat k) 6 (pa, m1) = Some (pa', m1\<lparr>pinfo := F\<rparr>)" "\<forall>b. b \<notin> set ps \<longrightarrow> F b = pinfo m1 b" by blast
  have "keeps {} m (m1\<lparr>pinfo := F\<rparr>)"
    by (rule keeps_trans [OF o(4) analyzer_at_fields_keep [OF o(2) l(2)]]) (use o(5) in simp)
  moreover have "supplies (e_km e) rest (m1\<lparr>pinfo := F\<rparr>)" using o(6) by (simp add: supplies_def)
  ultimately show ?thesis using o(1) k(1) l(1) by (simp add: do_command_0x3010_def)
qed

text \<open>Two analyzers, the second one with blocks that were free when the first one was opened.\<close>

lemma open_both:
  fixes m :: "'z pmem_scheme"
  assumes e: "ready e g m"
    and su: "supplies (e_km e) (sizeof_analyzer # init_sizes 12 @ sizeof_analyzer # init_sizes 13 @ rest) m"
  shows "\<exists>pa pb ps B qs C m1 m2. open_analyzer e g 0x3050 m = Some (pa, m1) \<and> open_analyzer e g 0x3052 m1 = Some (pb, m2) \<and>
    both_at (e_km e) ps B qs C (fresh_reading fields_3050, fresh_reading fields_3052) pa pb m2 \<and> keeps {} m m2 \<and>
    (analyzer_owned pa ps B \<union> analyzer_owned pb qs C) \<inter> set (blocks m) = {} \<and> supplies (e_km e) rest m2"
proof -
  from open_inner [OF e _ inner_format_numbers(1) inner_formats(1,4,10,7) su] obtain pa ps B m1 where
    o: "open_analyzer e g 0x3050 m = Some (pa, m1)" "analyzer_at (e_km e) m1 pa ps B fields_3050"
      "protocol_data pa = replicate MAX_PROTO_DATA_LEN 0" "ready e g m1" "keeps {} m m1" "analyzer_owned pa ps B \<inter> set (blocks m) = {}"
      "analyzer_owned pa ps B \<subseteq> set (blocks m1)" "supplies (e_km e) (sizeof_analyzer # init_sizes 13 @ rest) m1"
    by auto
  from open_inner [OF o(4) _ inner_format_numbers(2) inner_formats(2,5,11,8) o(8)] obtain pb qs C m2 where
    p: "open_analyzer e g 0x3052 m1 = Some (pb, m2)" "analyzer_at (e_km e) m2 pb qs C fields_3052"
      "protocol_data pb = replicate MAX_PROTO_DATA_LEN 0" "keeps {} m1 m2" "analyzer_owned pb qs C \<inter> set (blocks m1) = {}"
      "supplies (e_km e) rest m2" by auto
  have "analyzer_at (e_km e) m2 pa ps B fields_3050" by (rule analyzer_at_keeps [OF p(4) o(2)]) simp
  then have "both_at (e_km e) ps B qs C (fresh_reading fields_3050, fresh_reading fields_3052) pa pb m2"
    using o(3,7) p(2,3,5) by (auto simp: both_at_def fresh_reading_def)
  moreover have "keeps {} m m2" by (rule keeps_trans [OF o(5) p(4)]) simp
  moreover have "(analyzer_owned pa ps B \<union> analyzer_owned pb qs C) \<inter> set (blocks m) = {}"
    using o(6) p(5) keeps_blocks [OF o(5)] by blast
  ultimately show ?thesis using o(1) p(1,6) by blast
qed

lemma command_301b_spec:
  fixes m :: "'z pmem_scheme"
  assumes e: "ready e g m" and b: "batch_301b data = Some s"
    and su: "supplies (e_km e) (sizeof_analyzer # init_sizes 12 @ sizeof_analyzer # init_sizes 13 @ rest) m"
  shows "\<exists>m'. do_command_0x301b e data len g m = Some (g, m') \<and> keeps {} m m' \<and> supplies (e_km e) rest m'"
proof -
  from b obtain k where k: "at data 4 = Some k"
    "read_301b data (unat k) 5 (fresh_reading fields_3050, fresh_reading fields_3052) = Some s"
    by (auto simp: batch_301b_def bind_eq_Some_conv)
  from open_both [OF e su] obtain pa pb ps B qs C m1 m2 where
    o: "open_analyzer e g 0x3050 m = Some (pa, m1)" "open_analyzer e g 0x3052 m1 = Some (pb, m2)"
      "both_at (e_km e) ps B qs C (fresh_reading fields_3050, fresh_reading fields_3052) pa pb m2" "keeps {} m m2"
      "(analyzer_owned pa ps B \<union> analyzer_owned pb qs C) \<inter> set (blocks m) = {}" "supplies (e_km e) rest m2" by blast
  have key: "length (e_key e) = 10" using e by (simp add: ready_def)
  from loop_301b_spec [OF o(3) key k(2) refl] obtain pa' pb' m3 where
    l: "loop_0x301b e data (unat k) 5 pa pb m2 = Some (pa', pb', m3)" "blocks m3 = blocks m2" "ticks m3 = ticks m2"
      "keeps (analyzer_owned pa ps B \<union> analyzer_owned pb qs C) m2 m3" by blast
  have "keeps {} m m3" by (rule keeps_trans [OF o(4) l(4)]) (use o(5) in simp)
  moreover have "supplies (e_km e) rest m3" using o(6) l(2,3) by (simp add: supplies_def)
  ultimately show ?thesis using o(1,2) k(1) l(1) by (simp add: do_command_0x301b_def)
qed

end
