(* ===== verification/Inner_Reads.thy ===== *)
theory Inner_Reads
  imports Inner_Frames
begin

text \<open>
  What the inner frames of the commands 0x3010 and 0x301b are read as. With the format 0x3054 every
  frame is read as by a fresh analyzer. With the format 0x3050 it is not: the fields behind the
  first one of variable length have been moved by the frames before, and are not moved back.
\<close>

section \<open>Fields that read the same\<close>

text \<open>\<open>j\<close> is \<open>i\<close> but for the value and, if its length is variable, the length of an earlier reading.\<close>

definition like :: "proto_info \<Rightarrow> proto_info \<Rightarrow> bool" where
  "like i j = (\<exists>v n. j = i\<lparr>pi_data := v, pi_len := n\<rparr> \<and> (vlenth_flag i \<or> n = pi_len i))"

lemma likeI: "j = i\<lparr>pi_data := v, pi_len := n\<rparr> \<Longrightarrow> vlenth_flag i \<or> n = pi_len i \<Longrightarrow> like i j"
  by (auto simp: like_def)

lemma like_fields: "like i j \<Longrightarrow> pi_name j = pi_name i \<and> byte_pos j = byte_pos i \<and> vlenth_flag j = vlenth_flag i \<and>
    vlenth_index j = vlenth_index i \<and> len_unit j = len_unit i"
  by (auto simp: like_def)

lemma like_read:
  assumes "like i j"
  shows "vlenth_flag i \<Longrightarrow> read_value dp (j\<lparr>pi_len := n, vlenth_flag := False\<rparr>) = read_value dp (i\<lparr>pi_len := n, vlenth_flag := False\<rparr>)"
    and "\<not> vlenth_flag i \<Longrightarrow> read_value dp j = read_value dp i"
proof -
  from assms obtain v l where j: "j = i\<lparr>pi_data := v, pi_len := l\<rparr>" "vlenth_flag i \<or> l = pi_len i" by (auto simp: like_def)
  then show "vlenth_flag i \<Longrightarrow> read_value dp (j\<lparr>pi_len := n, vlenth_flag := False\<rparr>) = read_value dp (i\<lparr>pi_len := n, vlenth_flag := False\<rparr>)"
    by (simp add: read_value_def)
  have "j = i\<lparr>pi_data := v\<rparr>" if "\<not> vlenth_flag i" using j that by auto
  then show "\<not> vlenth_flag i \<Longrightarrow> read_value dp j = read_value dp i" by (simp add: read_value_def)
qed

lemma like_shift: "like i j \<Longrightarrow> like (shift_by d u i) (shift_by d u j)"
proof -
  assume "like i j"
  then obtain v n where "j = i\<lparr>pi_data := v, pi_len := n\<rparr>" "vlenth_flag i \<or> n = pi_len i" by (auto simp: like_def)
  then show ?thesis by (intro likeI [where v = v and n = n]; cases i) (simp_all add: shift_by_def)
qed

lemma read_short_like: "list_all2 like gs gs' \<Longrightarrow> read_short dp fs gs' = read_short dp fs gs"
proof (induction dp fs gs arbitrary: gs' rule: read_short.induct)
  case (2 dp fs i gs)
  from 2(3) obtain j hs where g: "gs' = j # hs" "like i j" "list_all2 like gs hs" by (auto simp: list_all2_Cons1)
  note lf = like_fields [OF g(2)]
  have lo: "length_of fs j = length_of fs i" using lf by (simp add: length_of_def)
  show ?case
  proof (cases "vlenth_flag i")
    case True
    have "list_all2 like (map (shift_by d (len_unit i)) gs) (map (shift_by d (len_unit i)) hs)" for d
      using g(3) like_shift by (simp add: list_all2_conv_all_nth)
    then show ?thesis using 2(1) [OF True] True lf lo g(1) like_read(1) [OF g(2) True]
      by (simp cong: Option.bind_cong)
  next
    case False
    then show ?thesis using 2(2) [OF False _ g(3)] lf g(1) like_read(2) [OF g(2) False] by (simp cong: Option.bind_cong)
  qed
qed simp

lemma like_value: "like (byte_field n b l) ((byte_field n b l)\<lparr>pi_data := v\<rparr>)"
    "like (var_field n b i) ((var_field n b i)\<lparr>pi_len := k, pi_data := v\<rparr>)"
proof -
  show "like (byte_field n b l) ((byte_field n b l)\<lparr>pi_data := v\<rparr>)"
    by (rule likeI [where v = v and n = l]) (simp_all add: byte_field_def zero_info_def)
  show "like (var_field n b i) ((var_field n b i)\<lparr>pi_len := k, pi_data := v\<rparr>)"
    by (rule likeI [where v = v and n = k]) (simp_all add: var_field_def zero_info_def)
qed

lemma reset_value: "reset_info ((byte_field n b l)\<lparr>pi_data := v\<rparr>) = (byte_field n b l)\<lparr>pi_data := v\<rparr>"
    "reset_info ((var_field n b i)\<lparr>pi_len := k, vlenth_flag := False, pi_data := v\<rparr>) = (var_field n b i)\<lparr>pi_len := k, pi_data := v\<rparr>"
  by (simp_all add: reset_info_def byte_field_def var_field_def zero_info_def)

section \<open>Command 0x3010\<close>

text \<open>An inner frame: a byte without a name, the byte \<open>st_info\<close>, and the data with its length.\<close>

type_synonym inner = "u8 \<times> u8 \<times> bytes"

fun inner_bytes :: "inner \<Rightarrow> bytes" where
  "inner_bytes (a, st, ds) = a # st # of_nat (length ds) # ds"

definition be_value :: "bytes \<Rightarrow> u32" where
  "be_value = foldl (\<lambda>v b. push_bit 8 v OR ucast b) 0"

text \<open>The fields of the analyzer after it has read the frame.\<close>

fun inner_fields :: "inner \<Rightarrow> proto_info list" where
  "inner_fields (a, st, ds) = [(byte_field PROTO_NUM 0 2)\<lparr>pi_data := 0x3054\<rparr>, (byte_field NO_NAME1 2 1)\<lparr>pi_data := ucast a\<rparr>,
     (byte_field ST_INFO 3 1)\<lparr>pi_data := ucast st\<rparr>, (byte_field DC_INFO 4 1)\<lparr>pi_data := of_nat (length ds)\<rparr>,
     (var_field DC_DATA 5 DC_INFO)\<lparr>pi_len := of_nat (length ds), pi_data := be_value ds\<rparr>]"

lemma short_list:
  assumes "length ds \<le> 4"
  obtains "ds = []" | a where "ds = [a]" | a b where "ds = [a, b]" | a b c where "ds = [a, b, c]" | a b c d where "ds = [a, b, c, d]"
proof -
  from assms consider "length ds = 0" | "length ds = 1" | "length ds = 2" | "length ds = 3" | "length ds = 4" by linarith
  then show ?thesis by cases (auto simp: length_Suc_conv numeral_eq_Suc intro: that)
qed

lemma read_be_value:
  assumes "length ds \<le> 4" and "unat p = length hs"
  shows "get_byte_value (hs @ ds @ rest) p (of_nat (length ds)) = Some (be_value ds)"
proof -
  have n: "unat (of_nat (length ds) :: u16) = length ds" using assms(1) by (simp add: unat_of_nat take_bit_nat_eq_self)
  have l: "arr_get (hs @ ds @ rest) (length hs + i) = (if i < length ds then Some (ds ! i) else arr_get (hs @ ds @ rest) (length hs + i))" for i
    by (simp add: arr_get_def nth_append)
  have sl: "short_len (of_nat (length ds)) = length ds" using assms(1) by (simp add: short_len_def n)
  from assms(1) show ?thesis unfolding get_byte_value_def sl assms(2)
    by (cases rule: short_list)
      (simp_all add: get_bytes_from.simps arr_get_def nth_append be_value_def push_bit_or or.commute or.left_commute)
qed

text \<open>A format whose last field alone has a variable length: the marks are all there is to set again.\<close>

lemma read_3054:
  assumes ds: "length ds \<le> 4" and dp: "dp = [0x30, 0x54, a, st, of_nat (length ds)] @ ds @ rest"
  shows "\<exists>is. read_short dp [] fields_3054 = Some is \<and> map reset_info is = inner_fields (a, st, ds)"
proof -
  let ?l = "of_nat (length ds) :: u8"
  have ul: "unat ?l = length ds" using ds by (simp add: unat_of_nat take_bit_nat_eq_self)
  have wl: "(ucast ?l :: u32) = of_nat (length ds)" "ucast (ucast ?l :: u32) = (of_nat (length ds) :: u16)"
    "(ucast (of_nat (length ds) :: u32) :: u16) = of_nat (length ds)"
    using ds by (cases rule: short_list; simp)+
  have n: "ucast (ucast ?l :: u32) \<le> (4 :: u16)" using ds unfolding wl by (cases rule: short_list) simp_all
  have v: "get_byte_value dp 5 (ucast (ucast ?l :: u32)) = Some (be_value ds)"
    unfolding wl(2) dp by (rule read_be_value [OF ds]) simp
  have g2: "get_byte_value dp 0 2 = Some 0x3054" unfolding dp by (subst byte_value_2) (simp_all add: push_bit_eq_mult)
  have g1: "get_byte_value dp b 1 = Some (ucast (dp ! unat b))" if "unat b < 5" for b
    using that by (intro byte_value_1) (simp add: dp)
  have d: "dp ! 2 = a" "dp ! 3 = st" "dp ! 4 = ?l" by (simp_all add: dp)
  let ?head = "[(byte_field PROTO_NUM 0 2)\<lparr>pi_data := 0x3054\<rparr>, (byte_field NO_NAME1 2 1)\<lparr>pi_data := ucast a\<rparr>,
     (byte_field ST_INFO 3 1)\<lparr>pi_data := ucast st\<rparr>, (byte_field DC_INFO 4 1)\<lparr>pi_data := ucast ?l\<rparr>]"
  have l: "length_of ?head (var_field DC_DATA 5 DC_INFO) = Some (ucast ?l)"
    by (simp add: length_of_def named_field_def field_simps name20_def chars_def cstr_def name_defs)
  have "read_short dp [] fields_3054 = read_short dp ?head [var_field DC_DATA 5 DC_INFO]"
    unfolding fields_3054_def by (simp add: read_fixed g2 g1 d del: read_short.simps)
  also have "\<dots> = Some (?head @ [(var_field DC_DATA 5 DC_INFO)\<lparr>pi_len := ucast (ucast ?l :: u32), vlenth_flag := False, pi_data := be_value ds\<rparr>])"
    unfolding read_var [OF l n v] by simp
  finally show ?thesis using wl(3) by (simp add: wl(1) reset_info_def byte_field_def var_field_def zero_info_def)
qed

lemma like_inner: "list_all2 like fields_3054 (inner_fields w)"
  by (cases w) (simp add: fields_3054_def like_value)

lemma read_inner_3054:
  assumes fs: "list_all2 like fields_3054 fs" and dp: "length dp = MAX_PROTO_DATA_LEN" and ds: "length ds \<le> 4"
    and at: "drop (unat os) data = inner_bytes (a, st, ds) @ rest"
  shows "\<exists>dp'. read_inner 0x54 data os (ucast (of_nat (length ds) :: u8) + 3) (dp, fs) = Some (dp', inner_fields (a, st, ds)) \<and>
    length dp' = MAX_PROTO_DATA_LEN"
proof -
  let ?n = "ucast (of_nat (length ds) :: u8) + 3 :: u16" and ?w = "inner_bytes (a, st, ds)"
  have n: "unat ?n = length ?w" using ds by (cases rule: short_list) simp_all
  have lw: "length ?w \<le> 7" using ds by simp
  have "length data \<ge> unat os + length ?w"
    using arg_cong [OF at, of length] by simp
  then have sl: "slice_of data (unat os) (unat ?n) = Some ?w" using at n by (simp add: slice_of_def)
  define dp' where "dp' = [0x30, 0x54] @ ?w @ drop (2 + length ?w) dp"
  have "drop (2 + length ?w) (0x30 # 0x54 # drop 2 dp) = drop (2 + length ?w) dp" using dp lw by (simp add: MAX_PROTO_DATA_LEN_def)
  then have bl: "blit (0x30 # 0x54 # drop 2 dp) 2 ?w (unat ?n) = Some dp'"
    using dp lw n unfolding blit_def dp'_def by (simp add: MAX_PROTO_DATA_LEN_def del: inner_bytes.simps)
  have "dp' = [0x30, 0x54, a, st, of_nat (length ds)] @ ds @ drop (2 + length ?w) dp" by (simp add: dp'_def)
  from read_3054 [OF ds this] obtain "is" where i: "read_short dp' [] fields_3054 = Some is" "map reset_info is = inner_fields (a, st, ds)"
    by blast
  have "read_inner 0x54 data os ?n (dp, fs) = Some (dp', inner_fields (a, st, ds))"
    unfolding read_inner_def load_inner_def fst_conv snd_conv sl using bl i read_short_like [OF fs] by simp
  moreover have "length dp' = MAX_PROTO_DATA_LEN" using blit_bound [OF bl] dp by (simp add: MAX_PROTO_DATA_LEN_def)
  ultimately show ?thesis by blast
qed

lemma read_3010_frames:
  assumes "list_all2 like fields_3054 fs" and "length dp = MAX_PROTO_DATA_LEN" and "\<forall>w \<in> set ws. length (snd (snd w)) \<le> 4"
    and "drop (unat os) data = concat (map inner_bytes ws) @ rest" and "length data < 65536"
  shows "\<exists>dp'. read_3010 data (length ws) os (dp, fs) = Some (dp', if ws = [] then fs else inner_fields (last ws)) \<and>
    length dp' = MAX_PROTO_DATA_LEN"
  using assms(1-4)
proof (induction ws arbitrary: os dp fs)
  case (Cons w ws)
  obtain a st ds where w: "w = (a, st, ds)" by (cases w)
  have ds: "length ds \<le> 4" using Cons.prems(3) w by simp
  have at: "drop (unat os) data = inner_bytes (a, st, ds) @ (concat (map inner_bytes ws) @ rest)"
    using Cons.prems(4) w by (simp del: inner_bytes.simps)
  let ?l = "of_nat (length ds) :: u8"
  from read_inner_3054 [OF Cons.prems(1,2) ds at] obtain dp1 where
    r: "read_inner 0x54 data os (ucast ?l + 3) (dp, fs) = Some (dp1, inner_fields w)" "length dp1 = MAX_PROTO_DATA_LEN"
    unfolding w by blast
  have ld: "unat os + (3 + length ds) \<le> length data" using arg_cong [OF at, of length] by simp
  have b: "at data (unat os + 2) = Some ?l"
    using arg_cong [OF at, of "\<lambda>xs. xs ! 2"] ld by (simp add: at_def add.commute)
  have us: "unat (ucast ?l + 3 :: u16) = 3 + length ds" using ds by (cases rule: short_list) simp_all
  have "unat (os + (ucast ?l + 3)) = unat os + (3 + length ds)" using us ld assms(5) by (simp add: unat_word_ariths)
  then have uo: "unat (os + ucast ?l + 3) = (3 + length ds) + unat os" by (simp only: add.assoc)
  have "drop (unat (os + ucast ?l + 3)) data = drop (3 + length ds) (drop (unat os) data)" by (simp only: uo drop_drop)
  then have o: "drop (unat (os + ucast ?l + 3)) data = concat (map inner_bytes ws) @ rest" unfolding at by (simp add: numeral_eq_Suc)
  from Cons.IH [OF like_inner r(2) _ o, of w] Cons.prems(3) obtain dp' where
    "read_3010 data (length ws) (os + ucast ?l + 3) (dp1, inner_fields w) =
      Some (dp', if ws = [] then inner_fields w else inner_fields (last ws))" "length dp' = MAX_PROTO_DATA_LEN" by auto
  with b r(1) show ?case by simp
qed simp

lemma like_refl: "like i i"
  by (rule likeI [where v = "pi_data i" and n = "pi_len i"]) simp_all

lemma like_all: "list_all2 like fs fs"
  by (rule list_all2_refl) (rule like_refl)

lemma no_bytes: "length (replicate MAX_PROTO_DATA_LEN (0 :: u8)) = MAX_PROTO_DATA_LEN"
  by simp

lemma batch_3010_frames:
  assumes "\<forall>w \<in> set ws. length (snd (snd w)) \<le> 4" and "length hdr = 6" and "unat (hdr ! 5) = length ws"
    and data: "data = hdr @ concat (map inner_bytes ws) @ rest" and "length data < 65536"
  shows "\<exists>s. batch_3010 data = Some s"
proof -
  have "drop (unat (6 :: u16)) data = concat (map inner_bytes ws) @ rest" using assms(2) by (simp add: data)
  from read_3010_frames [OF like_all no_bytes assms(1) this assms(5)] obtain s where
    "read_3010 data (length ws) 6 (fresh_reading fields_3054) = Some s" unfolding fresh_reading_def by blast
  moreover have "at data 5 = Some (hdr ! 5)" using assms(2) by (simp add: at_def data nth_append)
  ultimately show ?thesis using assms(3) by (simp add: batch_3010_def)
qed

section \<open>Command 0x301b\<close>

text \<open>
  The format 0x3050 with the fields behind \<open>slc_data\<close> moved by \<open>t\<close> bytes. Reading a frame moves them
  by the length of its \<open>slc_data\<close>, and they stay there for the next frame.
\<close>

definition fields_3050_at :: "u8 \<Rightarrow> proto_info list" where
  "fields_3050_at t = [byte_field PROTO_NUM 0 2, byte_field LEN 2 1, byte_field EMB_FLAG 3 1, byte_field SLOT_INFO 4 2,
     byte_field SYNC_INFO 6 2, byte_field TACT_INFO 8 1, byte_field SLC_INFO 9 1, var_field SLC_DATA 10 SLC_INFO,
     byte_field SYNC_INDEX (10 + t) 1, byte_field ST_INFO (11 + t) 1, byte_field DC_INFO (12 + t) 1, var_field DC_DATA (13 + t) DC_INFO]"

lemma fields_3050_at_0: "fields_3050_at 0 = fields_3050"
  by (simp add: fields_3050_at_def fields_3050_def)

lemma read_3050_at:
  assumes dp: "length dp = 100" and s: "unat (dp ! 9) \<le> 4" and c: "dp ! (12 + (unat t + unat (dp ! 9))) = dl" "unat dl \<le> 4"
    and room: "13 + (unat t + unat (dp ! 9)) + unat dl \<le> 100"
  shows "\<exists>is i. read_short dp [] (fields_3050_at t) = Some is \<and> list_all2 like (fields_3050_at (t + dp ! 9)) (map reset_info is) \<and>
    named_field (chars DC_INFO) (map reset_info is) = Some i \<and> pi_data i = ucast dl \<and> byte_pos i = 12 + (t + dp ! 9)"
proof -
  obtain sl where sl: "dp ! 9 = sl" by simp
  define u where "u = t + sl"
  have uu: "unat u = unat t + unat sl" using s room by (simp add: u_def sl unat_word_ariths)
  have p: "unat (10 + u) = 10 + unat u" "unat (11 + u) = 11 + unat u" "unat (12 + u) = 12 + unat u" "unat (13 + u) = 13 + unat u"
    using room by (simp_all add: unat_word_ariths uu sl)
  have n: "ucast (ucast sl :: u32) \<le> (4 :: u16)" "ucast (ucast dl :: u32) \<le> (4 :: u16)"
    using s c(2) unfolding word_le_nat_alt unat_length sl by simp_all
  obtain v where v: "get_byte_value dp 10 (ucast (ucast sl :: u32)) = Some v"
    using byte_value_short [OF n(1), of 10 dp] s dp unfolding unat_length sl by auto
  obtain w where w: "get_byte_value dp (13 + u) (ucast (ucast dl :: u32)) = Some w"
    using byte_value_short [OF n(2), of "13 + u" dp] p(4) room dp unfolding unat_length uu sl by auto
  note nm = named_field_def field_simps name20_def chars_def cstr_def name_defs
  have g2: "get_byte_value dp b 2 = Some (push_bit 8 (ucast (dp ! unat b)) OR ucast (dp ! (unat b + 1)))" if "b < 50" for b
    using that dp by (intro byte_value_2) (simp add: word_less_nat_alt)
  have g1: "get_byte_value dp b 1 = Some (ucast (dp ! unat b))" if "unat b < 100" for b
    using that dp by (intro byte_value_1) simp
  have u12: "12 + unat u < 100" "dp ! (12 + unat u) = dl" using room c(1) by (simp_all add: uu sl)
  let ?head = "[(byte_field PROTO_NUM 0 2)\<lparr>pi_data := push_bit 8 (ucast (dp ! 0)) OR ucast (dp ! 1)\<rparr>,
    (byte_field LEN 2 1)\<lparr>pi_data := ucast (dp ! 2)\<rparr>, (byte_field EMB_FLAG 3 1)\<lparr>pi_data := ucast (dp ! 3)\<rparr>,
    (byte_field SLOT_INFO 4 2)\<lparr>pi_data := push_bit 8 (ucast (dp ! 4)) OR ucast (dp ! 5)\<rparr>,
    (byte_field SYNC_INFO 6 2)\<lparr>pi_data := push_bit 8 (ucast (dp ! 6)) OR ucast (dp ! 7)\<rparr>,
    (byte_field TACT_INFO 8 1)\<lparr>pi_data := ucast (dp ! 8)\<rparr>, (byte_field SLC_INFO 9 1)\<lparr>pi_data := ucast sl\<rparr>]"
  let ?slc = "(var_field SLC_DATA 10 SLC_INFO)\<lparr>pi_len := ucast (ucast sl :: u32), vlenth_flag := False, pi_data := v\<rparr>"
  let ?mid = "[(byte_field SYNC_INDEX (10 + u) 1)\<lparr>pi_data := ucast (dp ! (10 + unat u))\<rparr>,
    (byte_field ST_INFO (11 + u) 1)\<lparr>pi_data := ucast (dp ! (11 + unat u))\<rparr>, (byte_field DC_INFO (12 + u) 1)\<lparr>pi_data := ucast dl\<rparr>]"
  let ?dc = "(var_field DC_DATA (13 + u) DC_INFO)\<lparr>pi_len := ucast (ucast dl :: u32), vlenth_flag := False, pi_data := w\<rparr>"
  have l1: "length_of ?head (var_field SLC_DATA 10 SLC_INFO) = Some (ucast sl)"
    by (simp add: length_of_def nm)
  have l2: "length_of (?head @ ?slc # ?mid) (var_field DC_DATA (13 + u) DC_INFO) = Some (ucast dl)"
    by (simp add: length_of_def nm)
  have "read_short dp [] (fields_3050_at t) = read_short dp ?head [var_field SLC_DATA 10 SLC_INFO, byte_field SYNC_INDEX (10 + t) 1,
      byte_field ST_INFO (11 + t) 1, byte_field DC_INFO (12 + t) 1, var_field DC_DATA (13 + t) DC_INFO]"
    unfolding fields_3050_at_def by (simp add: read_fixed g2 g1 sl del: read_short.simps)
  also have "\<dots> = read_short dp (?head @ [?slc]) [byte_field SYNC_INDEX (10 + u) 1,
      byte_field ST_INFO (11 + u) 1, byte_field DC_INFO (12 + u) 1, var_field DC_DATA (13 + u) DC_INFO]"
    unfolding read_var [OF l1 n(1) v] by (simp add: shift_fields u_def add.assoc del: read_short.simps)
  also have "\<dots> = read_short dp (?head @ ?slc # ?mid) [var_field DC_DATA (13 + u) DC_INFO]"
    using u12 by (simp add: read_fixed g1 p del: read_short.simps)
  also have "\<dots> = Some ((?head @ ?slc # ?mid) @ [?dc])"
    unfolding read_var [OF l2 n(2) w] by simp
  finally have r: "read_short dp [] (fields_3050_at t) = Some ((?head @ ?slc # ?mid) @ [?dc])" .
  have "list_all2 like (fields_3050_at u) (map reset_info ((?head @ ?slc # ?mid) @ [?dc]))"
    by (simp add: fields_3050_at_def reset_value like_value)
  moreover have "named_field (chars DC_INFO) (map reset_info ((?head @ ?slc # ?mid) @ [?dc])) =
      Some ((byte_field DC_INFO (12 + u) 1)\<lparr>pi_data := ucast dl\<rparr>)"
    by (simp add: reset_value nm)
  ultimately show ?thesis using r unfolding sl u_def [symmetric]
    by (intro exI [of _ "(?head @ ?slc # ?mid) @ [?dc]"] exI [of _ "(byte_field DC_INFO (12 + u) 1)\<lparr>pi_data := ucast dl\<rparr>"])
      (simp add: field_simps)
qed

text \<open>
  Inner frames without an embedded part. \<open>slc_len\<close> is the length of \<open>slc_data\<close>, so that \<open>dc_info\<close>
  stands at \<open>10 + slc_len u\<close> of the frame \<open>u\<close>. After frames whose lengths sum up to \<open>t\<close> it is read \<open>t\<close> bytes
  further; \<open>drifting t us\<close> says that what is read there is the length of data that fits in as well.
\<close>

definition slc_len :: "bytes \<Rightarrow> nat" where
  "slc_len u = unat (u ! 7)"

definition dc_read :: "nat \<Rightarrow> bytes \<Rightarrow> u8" where
  "dc_read t u = u ! (10 + (t + slc_len u))"

definition plain_frame :: "nat \<Rightarrow> bytes \<Rightarrow> bool" where
  "plain_frame t u = (8 \<le> length u \<and> length u \<le> 98 \<and> u ! 0 = of_nat (length u) \<and> u ! 1 = 0 \<and> slc_len u \<le> 4 \<and>
     unat (dc_read t u) \<le> 4 \<and> 11 + (t + slc_len u) + unat (dc_read t u) \<le> length u)"

fun drifting :: "nat \<Rightarrow> bytes list \<Rightarrow> bool" where
  "drifting t [] = True"
| "drifting t (u # us) = (plain_frame t u \<and> drifting (t + slc_len u) us)"

text \<open>What the field \<open>dc_info\<close> of the analyzer holds after it has read \<open>u\<close>, and where it stands.\<close>

definition dc_field :: "nat \<Rightarrow> bytes \<Rightarrow> proto_info list \<Rightarrow> bool" where
  "dc_field t u fs = (\<exists>i. named_field (chars DC_INFO) fs = Some i \<and> pi_data i = ucast (dc_read t u) \<and>
     byte_pos i = of_nat (12 + (t + slc_len u)))"

lemma read_inner_3050:
  assumes fs: "list_all2 like (fields_3050_at (of_nat t)) fs" and dp: "length dp = MAX_PROTO_DATA_LEN"
    and u: "plain_frame t u" and at: "drop (unat os) data = u @ rest"
  shows "\<exists>dp' fs'. read_inner 0x50 data os (ucast (of_nat (length u) :: u8)) (dp, fs) = Some (dp', fs') \<and>
    length dp' = MAX_PROTO_DATA_LEN \<and> list_all2 like (fields_3050_at (of_nat (t + slc_len u))) fs' \<and> dc_field t u fs'"
proof -
  let ?n = "ucast (of_nat (length u) :: u8) :: u16"
  from u have l: "8 \<le> length u" "length u \<le> 98" "slc_len u \<le> 4" "unat (dc_read t u) \<le> 4"
    "11 + (t + slc_len u) + unat (dc_read t u) \<le> length u" by (simp_all add: plain_frame_def)
  have n: "unat ?n = length u" using l(2) by (simp add: unsigned_ucast_eq unat_of_nat take_bit_nat_eq_self)
  have "unat os + length u \<le> length data" using arg_cong [OF at, of length] l(1) by simp
  then have sl: "slice_of data (unat os) (unat ?n) = Some u" using at n by (simp add: slice_of_def)
  define dp' where "dp' = [0x30, 0x50] @ u @ drop (2 + length u) dp"
  have "drop (2 + length u) (0x30 # 0x50 # drop 2 dp) = drop (2 + length u) dp" using dp l(2) by (simp add: MAX_PROTO_DATA_LEN_def)
  then have bl: "blit (0x30 # 0x50 # drop 2 dp) 2 u (unat ?n) = Some dp'"
    using dp l(2) n unfolding blit_def dp'_def by (simp add: MAX_PROTO_DATA_LEN_def)
  have ld: "length dp' = 100" using blit_bound [OF bl] dp by (simp add: MAX_PROTO_DATA_LEN_def)
  have d: "dp' ! (2 + k) = u ! k" if "k < length u" for k using that by (simp add: dp'_def nth_append)
  have ut: "unat (of_nat t :: u8) = t" using l(2,5) by (simp add: unat_of_nat take_bit_nat_eq_self)
  have d9: "dp' ! 9 = u ! 7" using d [of 7] l(1) by simp
  have dc: "dp' ! (12 + (unat (of_nat t :: u8) + unat (dp' ! 9))) = dc_read t u"
    using d [of "10 + (t + slc_len u)"] l(5) by (simp add: ut d9 dc_read_def slc_len_def)
  have "unat (dp' ! 9) \<le> 4" "13 + (unat (of_nat t :: u8) + unat (dp' ! 9)) + unat (dc_read t u) \<le> 100"
    using l(2,3,5) unfolding ut d9 slc_len_def by simp_all
  from read_3050_at [OF ld this(1) dc l(4) this(2)] obtain "is" i where
    i: "read_short dp' [] (fields_3050_at (of_nat t)) = Some is"
      "list_all2 like (fields_3050_at (of_nat t + u ! 7)) (map reset_info is)"
      "named_field (chars DC_INFO) (map reset_info is) = Some i" "pi_data i = ucast (dc_read t u)" "byte_pos i = 12 + (of_nat t + u ! 7)"
    unfolding d9 by blast
  have w: "of_nat t + u ! 7 = (of_nat (t + slc_len u) :: u8)" by (simp add: slc_len_def)
  have "read_inner 0x50 data os ?n (dp, fs) = Some (dp', map reset_info is)"
    unfolding read_inner_def load_inner_def fst_conv snd_conv sl using bl i(1) read_short_like [OF fs] by simp
  moreover have "dc_field t u (map reset_info is)" unfolding dc_field_def using i(3-5) w by simp
  ultimately show ?thesis using ld i(2) unfolding w by (simp add: MAX_PROTO_DATA_LEN_def)
qed

lemma read_301b_frames:
  assumes "list_all2 like (fields_3050_at (of_nat t)) fs" and "length dp = MAX_PROTO_DATA_LEN" and "drifting t us"
    and "drop (unat os) data = concat us @ rest" and len: "length data < 65536"
  shows "\<exists>dp' fs'. read_301b data (length us) os ((dp, fs), r) = Some ((dp', fs'), r) \<and>
    (us \<noteq> [] \<longrightarrow> dc_field (t + sum_list (map slc_len (butlast us))) (last us) fs')"
  using assms(1-4)
proof (induction us arbitrary: os dp fs t)
  case (Cons u us)
  have u: "plain_frame t u" and us: "drifting (t + slc_len u) us" using Cons.prems(3) by simp_all
  have at: "drop (unat os) data = u @ (concat us @ rest)" using Cons.prems(4) by simp
  let ?n = "ucast (of_nat (length u) :: u8) :: u16"
  from read_inner_3050 [OF Cons.prems(1,2) u at] obtain dp1 fs1 where
    r: "read_inner 0x50 data os ?n (dp, fs) = Some (dp1, fs1)" "length dp1 = MAX_PROTO_DATA_LEN"
      "list_all2 like (fields_3050_at (of_nat (t + slc_len u))) fs1" "dc_field t u fs1" by blast
  have l: "8 \<le> length u" "length u \<le> 98" "u ! 0 = of_nat (length u)" "u ! 1 = 0" using u by (simp_all add: plain_frame_def)
  have ld: "unat os + length u \<le> length data" using arg_cong [OF at, of length] l(1) by simp
  have "u \<noteq> []" using l(1) by auto
  then have b: "at data (unat os) = Some (of_nat (length u))" "at data (unat os + 1) = Some 0"
    using arg_cong [OF at, of "\<lambda>xs. xs ! 0"] arg_cong [OF at, of "\<lambda>xs. xs ! 1"] ld l by (simp_all add: at_def nth_append)
  have n: "unat ?n = length u" using l(2) by (simp add: unsigned_ucast_eq unat_of_nat take_bit_nat_eq_self)
  have "unat (os + ?n) = length u + unat os" using n ld len by (simp add: unat_word_ariths)
  then have "drop (unat (os + ?n)) data = drop (length u) (drop (unat os) data)" by (simp only: drop_drop)
  then have o: "drop (unat (os + ?n)) data = concat us @ rest" unfolding at by simp
  from Cons.IH [OF r(3,2) us o] obtain dp' fs' where
    "read_301b data (length us) (os + ?n) ((dp1, fs1), r) = Some ((dp', fs'), r)"
      "us \<noteq> [] \<longrightarrow> dc_field (t + slc_len u + sum_list (map slc_len (butlast us))) (last us) fs'" by blast
  moreover from this(1) have "us = [] \<Longrightarrow> fs' = fs1" by simp
  ultimately show ?case using b r(1,4) by (cases "us = []") (simp_all add: add.assoc)
qed simp

lemma batch_301b_frames:
  assumes "drifting 0 us" and "length hdr = 5" and "unat (hdr ! 4) = length us"
    and data: "data = hdr @ concat us @ rest" and "length data < 65536"
  shows "\<exists>s. batch_301b data = Some s"
proof -
  have d: "drop (unat (5 :: u16)) data = concat us @ rest" using assms(2) by (simp add: data)
  have "list_all2 like (fields_3050_at (of_nat 0)) fields_3050" using like_all by (simp add: fields_3050_at_0)
  from read_301b_frames [OF this no_bytes assms(1) d assms(5), of "fresh_reading fields_3052"]
  obtain s where "read_301b data (length us) 5 (fresh_reading fields_3050, fresh_reading fields_3052) = Some s"
    unfolding fresh_reading_def by blast
  moreover have "at data 4 = Some (hdr ! 4)" using assms(2) by (simp add: at_def data nth_append)
  ultimately show ?thesis using assms(3) by (intro exI [of _ s]) (simp add: batch_301b_def)
qed

end
