(* ===== verification/Command_Flow.thy ===== *)
theory Command_Flow
  imports Inner_Reads Driver_Props
begin

text \<open>
  The driver from the probe to the queues: every write of a short frame of command 0x3008 puts one
  task into the queue of the administration that its slot names, in the order of the writes; the
  other commands leave the queues alone.
\<close>

definition write_all :: "env \<Rightarrow> bytes \<Rightarrow> bytes list \<Rightarrow> driver \<Rightarrow> driver option" where
  "write_all e stale us d = foldM (\<lambda>u d. do {
     (r, d') \<leftarrow> device_write e stale u d;
     assert_opt (r = 0);
     Some d' }) us d"

text \<open>
  The writes that are considered: frames of command 0x3008 with a slot of the system, batches of
  inner frames that the reference parser can read, and all other commands. \<open>stale\<close> is what the
  array of \<open>device_write\<close> holds behind the bytes written.
\<close>

definition accepted :: "bytes \<Rightarrow> bytes \<Rightarrow> bool" where
  "accepted stale u = (2 \<le> length u \<and> length u \<le> MAX_BUF_SIZE \<and>
     (if command_of u = COMMAND_0X3008 then sys_frame u
      else if command_of u = COMMAND_0X3010 then batch_3010 (u @ drop (length u) stale) \<noteq> None
      else if command_of u = COMMAND_0X301B then batch_301b (u @ drop (length u) stale) \<noteq> None
      else True))"

definition write_sizes :: "bytes \<Rightarrow> nat list" where
  "write_sizes u =
     (if command_of u = COMMAND_0X3008 then frame_sizes
      else if command_of u = COMMAND_0X3010 then sizeof_analyzer # init_sizes 5
      else if command_of u = COMMAND_0X301B then sizeof_analyzer # init_sizes 12 @ sizeof_analyzer # init_sizes 13
      else [])"

definition flow_sizes :: "bytes list \<Rightarrow> nat list" where
  "flow_sizes us = concat (map write_sizes us)"

text \<open>The writes that make a task for the first and for the second administration.\<close>

definition even_tasks :: "bytes list \<Rightarrow> bytes list" where
  "even_tasks = filter (\<lambda>u. command_of u = COMMAND_0X3008 \<and> \<not> odd_slot u)"

definition odd_tasks :: "bytes list \<Rightarrow> bytes list" where
  "odd_tasks = filter (\<lambda>u. command_of u = COMMAND_0X3008 \<and> odd_slot u)"

lemma driver_holds_ready: "driver_holds (e_km e) n priv al pfs q1 q2 d \<Longrightarrow> length (e_key e) = 10 \<Longrightarrow>
    ready e (d_globals d) (d_mem d)"
  by (auto simp: driver_holds_def driver_up_def ready_def)

lemma driver_holds_keeps:
  assumes h: "driver_holds km n priv al pfs q1 q2 d" and k: "keeps {} (d_mem d) m'"
  shows "driver_holds km n priv al pfs q1 q2 (d\<lparr>d_globals := d_globals d, d_mem := m'\<rparr>)"
proof -
  from h obtain a1 a2 F A B where v: "driver_up km n priv al pfs a1 a2 F A B d"
    "admin_holds (d_mem d) a1 (fst q1) (snd q1) A" "admin_holds (d_mem d) a2 (fst q2) (snd q2) B" by (auto simp: driver_holds_def)
  from v(1) have g: "d_globals d = \<lparr>g_allocator = Some al, g_pfs = Some pfs, task_admin_slot1_gp = Some a1, task_admin_slot2_gp = Some a2\<rparr>"
    "A \<inter> B = {}" by (auto simp: driver_up_def)
  have "driver_holds km n priv al pfs (fst q1, snd q1) (fst q2, snd q2)
      (d\<lparr>d_globals := (d_globals d)\<lparr>task_admin_slot1_gp := Some a1, task_admin_slot2_gp := Some a2\<rparr>, d_mem := m'\<rparr>)"
    by (rule driver_holds_change [OF v(1) k _ _ _ admin_holds_keeps [OF k v(2)] admin_holds_keeps [OF k v(3)] g(2)]) auto
  then show ?thesis by (simp add: g(1))
qed

lemma write_batch:
  assumes h: "driver_holds (e_km e) n priv al pfs q1 q2 d" and u: "accepted stale u" "command_of u \<noteq> COMMAND_0X3008"
    and st: "length stale = MAX_BUF_SIZE" and key: "length (e_key e) = 10"
    and su: "supplies (e_km e) (write_sizes u @ rest) (d_mem d)"
  shows "\<exists>d'. device_write e stale u d = Some (0, d') \<and> supplies (e_km e) rest (d_mem d') \<and>
    driver_holds (e_km e) n priv al pfs q1 q2 d'"
proof -
  let ?data = "u @ drop (length u) stale" and ?len = "word_of_nat (length u) :: u32" and ?g = "d_globals d"
  note r = driver_holds_ready [OF h key]
  have l: "2 \<le> length u" "length u \<le> MAX_BUF_SIZE" using u(1) by (simp_all add: accepted_def)
  have "\<exists>m'. process_protocol e (command_of u) ?data ?len ?g (d_mem d) = Some (?g, m') \<and> keeps {} (d_mem d) m' \<and> supplies (e_km e) rest m'"
  proof (cases "command_of u = COMMAND_0X3010")
    case True
    with u obtain s where "batch_3010 ?data = Some s" by (auto simp: accepted_def)
    from command_3010_spec [OF r this, of rest] su True u(2) show ?thesis by (simp add: write_sizes_def process_protocol_def)
  next
    case n10: False
    show ?thesis
    proof (cases "command_of u = COMMAND_0X301B")
      case True
      with n10 u obtain s where "batch_301b ?data = Some s" by (auto simp: accepted_def)
      from command_301b_spec [OF r this, of rest] su True n10 u(2) show ?thesis by (simp add: write_sizes_def process_protocol_def)
    next
      case False
      have "mem_ok (d_mem d)" using r by (simp add: ready_def mem_env_def)
      with False n10 u(2) su show ?thesis by (simp add: write_sizes_def process_protocol_def keeps_refl)
    qed
  qed
  then obtain m' where m': "process_protocol e (command_of u) ?data ?len ?g (d_mem d) = Some (?g, m')" "keeps {} (d_mem d) m'"
    "supplies (e_km e) rest m'" by blast
  from driver_holds_keeps [OF h m'(2)] m'(1,3) show ?thesis by (simp add: device_write_command [OF st l])
qed

lemma write_accepted:
  assumes h: "driver_holds (e_km e) n priv al pfs q1 q2 d" and u: "accepted stale u"
    and st: "length stale = MAX_BUF_SIZE" and key: "length (e_key e) = 10"
    and su: "supplies (e_km e) (write_sizes u @ rest) (d_mem d)"
  shows "\<exists>d'. device_write e stale u d = Some (0, d') \<and> supplies (e_km e) rest (d_mem d') \<and>
    driver_holds (e_km e) n priv al pfs (fst q1 @ map (entry_of e) (even_tasks [u]), snd q1)
      (fst q2 @ map (entry_of e) (odd_tasks [u]), snd q2) d'"
proof (cases "command_of u = COMMAND_0X3008")
  case True
  with u su have f: "sys_frame u" "supplies (e_km e) (frame_sizes @ rest) (d_mem d)" by (simp_all add: accepted_def write_sizes_def)
  from write_sys_frame [OF h f(1) st [unfolded MAX_BUF_SIZE_def] key f(2)] show ?thesis
    using True by (cases "odd_slot u") (simp_all add: even_tasks_def odd_tasks_def)
next
  case False
  from write_batch [OF h u False st key su] False show ?thesis by (simp add: even_tasks_def odd_tasks_def)
qed

lemma write_all_spec:
  assumes "driver_holds (e_km e) n priv al pfs q1 q2 d" and "\<forall>u \<in> set us. accepted stale u"
    and st: "length stale = MAX_BUF_SIZE" and key: "length (e_key e) = 10"
    and "supplies (e_km e) (flow_sizes us @ rest) (d_mem d)"
  shows "\<exists>d'. write_all e stale us d = Some d' \<and> supplies (e_km e) rest (d_mem d') \<and>
    driver_holds (e_km e) n priv al pfs (fst q1 @ map (entry_of e) (even_tasks us), snd q1)
      (fst q2 @ map (entry_of e) (odd_tasks us), snd q2) d'"
  using assms(1,2,5)
proof (induction us arbitrary: q1 q2 d)
  case Nil
  then show ?case by (simp add: write_all_def flow_sizes_def even_tasks_def odd_tasks_def)
next
  case (Cons u us)
  have u: "accepted stale u" and us: "\<forall>u \<in> set us. accepted stale u" using Cons.prems(2) by simp_all
  have su: "supplies (e_km e) (write_sizes u @ (flow_sizes us @ rest)) (d_mem d)"
    using Cons.prems(3) by (simp add: flow_sizes_def)
  from write_accepted [OF Cons.prems(1) u st key su] obtain d1 where
    w: "device_write e stale u d = Some (0, d1)" "supplies (e_km e) (flow_sizes us @ rest) (d_mem d1)"
      "driver_holds (e_km e) n priv al pfs (fst q1 @ map (entry_of e) (even_tasks [u]), snd q1)
        (fst q2 @ map (entry_of e) (odd_tasks [u]), snd q2) d1" by blast
  have app: "even_tasks (u # us) = even_tasks [u] @ even_tasks us" "odd_tasks (u # us) = odd_tasks [u] @ odd_tasks us"
    by (simp_all add: even_tasks_def odd_tasks_def)
  from Cons.IH [OF w(3) us w(2)] w(1) show ?case unfolding app by (simp add: write_all_def)
qed

text \<open>C1. From the probe to the queues. A driver that has just been probed, with memory for what it
  does, accepts any sequence of writes made of frames of command 0x3008 with short fields whose
  slot the system chooses, of readable batches of the commands 0x3010 and 0x301b, and of any other
  commands: every write returns 0, the driver stays up, and afterwards the data queue of the first
  administration holds the tasks of the 0x3008 frames with an even slot, that of the second those
  with an odd slot, each with the slot and the tact of its frame, in the order of the writes,
  whatever was written between them; the voice queues stay empty.\<close>

theorem frames_from_probe_to_queues:
  assumes "kmalloc_ok (e_km e)" and "mem_ok (d_mem d)" and "allocator_modules (d_mem d) = initial_modules"
    and "supplies (e_km e) (boot_sizes (priv_size pe) @ flow_sizes us) (d_mem d)" and "0 < priv_size pe"
    and "res_mem pd = Some (start, stop)" and "\<not> IS_ERR (class_result pe)" and "\<not> IS_ERR (class_dev_result pe)"
    and "\<forall>u \<in> set us. accepted stale u" and "length stale = MAX_BUF_SIZE" and "length (e_key e) = 10"
  shows "\<exists>priv al pfs d1 d2. plat_probe e pe pd d = Some (0, d1) \<and> write_all e stale us d1 = Some d2 \<and>
    driver_holds (e_km e) (priv_size pe) priv al pfs
      (map (entry_of e) (even_tasks us), []) (map (entry_of e) (odd_tasks us), []) d2"
proof -
  from plat_probe_spec [OF assms(1-8)] obtain priv al pfs a1 a2 F A B d1 where
    p: "plat_probe e pe pd d = Some (0, d1)" "driver_up (e_km e) (priv_size pe) priv al pfs a1 a2 F A B d1"
      "supplies (e_km e) (flow_sizes us) (d_mem d1)" "admin_holds (d_mem d1) a1 [] [] A" "admin_holds (d_mem d1) a2 [] [] B"
    by blast
  have h: "driver_holds (e_km e) (priv_size pe) priv al pfs ([], []) ([], []) d1"
    using p(2,4,5) unfolding driver_holds_def by (metis fst_conv snd_conv)
  have s: "supplies (e_km e) (flow_sizes us @ []) (d_mem d1)" using p(3) by simp
  from write_all_spec [OF h assms(9-11) s] p(1) show ?thesis by auto
qed

text \<open>
  The instance: three frames with the slots 0x1002, 0x1003 and 0x1004, the second one with data, and
  between them a batch of either kind and a command that nobody handles.
\<close>

definition frames_ex :: "bytes list" where
  "frames_ex = [[0x30, 0x08, 0, 1, 0x10, 0x02, 0, 0, 7, 0, 0, 0, 0],
     [0x30, 0x08, 0, 2, 0x10, 0x03, 0, 0, 8, 1, 0xAA, 0, 0, 2, 0xBB, 0xCC], [0x30, 0x08, 0, 3, 0x10, 0x04, 0, 0, 9, 0, 0, 0, 0]]"

definition inners_ex :: "inner list" where
  "inners_ex = [(1, 2, [0xAA]), (3, 4, [])]"

definition plain_ex :: bytes where
  "plain_ex = [14, 0, 0x10, 2, 0, 0, 7, 1, 0xAA, 5, 6, 2, 0, 0xBB]"

definition batches_ex :: "bytes list" where
  "batches_ex = [[0x30, 0x10, 0, 0, 0, 2] @ concat (map inner_bytes inners_ex) @ [],
     [0x30, 0x1B, 0, 0, 2] @ concat [plain_ex, plain_ex] @ [], [0x30, 0x12]]"

definition writes_ex :: "bytes list" where
  "writes_ex = [frames_ex ! 0, batches_ex ! 0, frames_ex ! 1, batches_ex ! 1, batches_ex ! 2, frames_ex ! 2]"

lemma frames_ex_facts: "\<forall>u \<in> set frames_ex. sys_frame u"
  "map odd_slot frames_ex = [False, True, False]"
  "map (entry_of env0) frames_ex = [[0, 0, 0, 0, 2, 16, 7, 0], [0, 0, 0, 0, 3, 16, 8, 0], [0, 0, 0, 0, 4, 16, 9, 0]]"
proof -
  show "\<forall>u \<in> set frames_ex. sys_frame u"
    by (simp add: frames_ex_def sys_frame_def short_fields_3008_def frame_of_def be16_def push_bit_eq_mult nth_append MAX_PROTO_DATA_LEN_def)
  show "map odd_slot frames_ex = [False, True, False]"
    by (simp add: frames_ex_def odd_slot_def frame_of_def be16_def push_bit_eq_mult nth_append MAX_PROTO_DATA_LEN_def)
  show "map (entry_of env0) frames_ex = [[0, 0, 0, 0, 2, 16, 7, 0], [0, 0, 0, 0, 3, 16, 8, 0], [0, 0, 0, 0, 4, 16, 9, 0]]"
    by (simp add: frames_ex_def entry_of_def env0_def task_bytes_def task_of_def task_ex_def frame_of_def be16_def push_bit_eq_mult
        nth_append MAX_PROTO_DATA_LEN_def SLOT_TYPE_SYS_DESIGNATE_def TASK_TYPE_DATA_def drop_bit_eq_div)
qed

lemma writes_ex_commands:
  "map command_of frames_ex = [COMMAND_0X3008, COMMAND_0X3008, COMMAND_0X3008]"
  "map command_of batches_ex = [COMMAND_0X3010, COMMAND_0X301B, 0x3012]"
  by (simp_all add: frames_ex_def batches_ex_def command_of_def push_bit_eq_mult COMMAND_0X3008_def COMMAND_0X3010_def COMMAND_0X301B_def)

lemmas command_numbers = COMMAND_0X3008_def COMMAND_0X3010_def COMMAND_0X301B_def

lemma batches_ex_read:
  assumes "length stale = MAX_BUF_SIZE"
  shows "batch_3010 (batches_ex ! 0 @ drop (length (batches_ex ! 0)) stale) \<noteq> None"
    and "batch_301b (batches_ex ! 1 @ drop (length (batches_ex ! 1)) stale) \<noteq> None"
proof -
  have "\<exists>s. batch_3010 (batches_ex ! 0 @ drop (length (batches_ex ! 0)) stale) = Some s"
    by (rule batch_3010_frames [where ws = inners_ex and hdr = "[0x30, 0x10, 0, 0, 0, 2]"])
      (use assms in \<open>simp_all add: batches_ex_def inners_ex_def MAX_BUF_SIZE_def\<close>)
  then show "batch_3010 (batches_ex ! 0 @ drop (length (batches_ex ! 0)) stale) \<noteq> None" by simp
  have "\<exists>s. batch_301b (batches_ex ! 1 @ drop (length (batches_ex ! 1)) stale) = Some s"
    by (rule batch_301b_frames [where us = "[plain_ex, plain_ex]" and hdr = "[0x30, 0x1B, 0, 0, 2]"])
      (use assms in \<open>simp_all add: batches_ex_def plain_ex_def plain_frame_def dc_read_def slc_len_def MAX_BUF_SIZE_def\<close>)
  then show "batch_301b (batches_ex ! 1 @ drop (length (batches_ex ! 1)) stale) \<noteq> None" by simp
qed

lemma writes_ex_accepted: "length stale = MAX_BUF_SIZE \<Longrightarrow> \<forall>u \<in> set writes_ex. accepted stale u"
proof -
  assume st: "length stale = MAX_BUF_SIZE"
  have "accepted stale u" if "u \<in> set frames_ex" for u
  proof -
    from that have "command_of u = COMMAND_0X3008" using writes_ex_commands(1) by (auto simp: frames_ex_def)
    with that frames_ex_facts(1) show ?thesis by (auto simp: accepted_def sys_frame_def MAX_PROTO_DATA_LEN_def MAX_BUF_SIZE_def)
  qed
  moreover have "accepted stale (batches_ex ! 0)" "accepted stale (batches_ex ! 1)" "accepted stale (batches_ex ! 2)"
  proof -
    have l: "list_all (\<lambda>u. 2 \<le> length u \<and> length u \<le> MAX_BUF_SIZE) batches_ex"
      by (simp add: batches_ex_def inners_ex_def plain_ex_def MAX_BUF_SIZE_def)
    have c: "command_of (batches_ex ! 0) = COMMAND_0X3010" "command_of (batches_ex ! 1) = COMMAND_0X301B" "command_of (batches_ex ! 2) = 0x3012"
      using writes_ex_commands(2) by (simp_all add: batches_ex_def)
    have n: "length batches_ex = 3" by (simp add: batches_ex_def)
    from l have "2 \<le> length (batches_ex ! k) \<and> length (batches_ex ! k) \<le> MAX_BUF_SIZE" if "k < 3" for k
      using that n by (simp add: list_all_length)
    note b = this [of 0, simplified] this [of 1, simplified] this [of 2, simplified]
    show "accepted stale (batches_ex ! 0)" "accepted stale (batches_ex ! 1)" "accepted stale (batches_ex ! 2)"
      using b batches_ex_read [OF st] unfolding accepted_def c by (simp_all add: command_numbers)
  qed
  ultimately show ?thesis by (auto simp: writes_ex_def frames_ex_def)
qed

lemma writes_ex_tasks: "even_tasks writes_ex = [frames_ex ! 0, frames_ex ! 2]" "odd_tasks writes_ex = [frames_ex ! 1]"
proof -
  have "command_of (frames_ex ! 0) = COMMAND_0X3008" "command_of (frames_ex ! 1) = COMMAND_0X3008" "command_of (frames_ex ! 2) = COMMAND_0X3008"
    "command_of (batches_ex ! 0) = COMMAND_0X3010" "command_of (batches_ex ! 1) = COMMAND_0X301B" "command_of (batches_ex ! 2) = 0x3012"
    "\<not> odd_slot (frames_ex ! 0)" "odd_slot (frames_ex ! 1)" "\<not> odd_slot (frames_ex ! 2)"
    using writes_ex_commands frames_ex_facts(2) by (simp_all add: frames_ex_def batches_ex_def)
  then show "even_tasks writes_ex = [frames_ex ! 0, frames_ex ! 2]" "odd_tasks writes_ex = [frames_ex ! 1]"
    unfolding even_tasks_def odd_tasks_def writes_ex_def by (simp_all add: command_numbers)
qed

lemma writes_ex_sizes: "flow_sizes writes_ex = frame_sizes @ (sizeof_analyzer # init_sizes 5) @ frame_sizes @
    (sizeof_analyzer # init_sizes 12 @ sizeof_analyzer # init_sizes 13) @ frame_sizes"
proof -
  have "command_of (frames_ex ! 0) = COMMAND_0X3008" "command_of (frames_ex ! 1) = COMMAND_0X3008" "command_of (frames_ex ! 2) = COMMAND_0X3008"
    "command_of (batches_ex ! 0) = COMMAND_0X3010" "command_of (batches_ex ! 1) = COMMAND_0X301B" "command_of (batches_ex ! 2) = 0x3012"
    using writes_ex_commands by (simp_all add: frames_ex_def batches_ex_def)
  then show ?thesis unfolding flow_sizes_def writes_ex_def by (simp add: write_sizes_def command_numbers)
qed

lemma writes_ex_supplies: "supplies (e_km env0) (boot_sizes (priv_size probe0) @ flow_sizes writes_ex) (d_mem driver0)"
  unfolding env0_facts writes_ex_sizes
  by (rule bump_supplies)
    (simp_all add: driver0_facts boot_sizes_def pdt_sizes_def format_sizes_def task_admin_sizes_def probe0_def
      sizeof_allocator_t_def sizeof_format_set_def sizeof_proto_head_def sizeof_proto_info_def sum_list_replicate
      frame_sizes_def init_sizes_def index_sizes_def sizeof_analyzer_def sizeof_hash_map_t_def)

theorem frames_from_probe_to_queues_witness:
  "\<exists>priv al pfs d1 d2. plat_probe env0 probe0 pdev driver0 = Some (0, d1) \<and>
    write_all env0 (replicate MAX_BUF_SIZE 0) writes_ex d1 = Some d2 \<and>
    driver_holds bump 200 priv al pfs ([[0, 0, 0, 0, 2, 16, 7, 0], [0, 0, 0, 0, 4, 16, 9, 0]], [])
      ([[0, 0, 0, 0, 3, 16, 8, 0]], []) d2"
proof -
  have k: "kmalloc_ok (e_km env0)" "length (replicate MAX_BUF_SIZE (0 :: u8)) = MAX_BUF_SIZE" "length (e_key env0) = 10" "priv_size probe0 = 200"
    using bump_ok by (simp_all add: env0_def probe0_def)
  from frames_from_probe_to_queues [OF k(1) driver0_facts(1,3) writes_ex_supplies probe0_facts(1) pdev_resources(1)
      probe0_facts(2,3) writes_ex_accepted [OF k(2)] k(2,3)] show ?thesis
    using frames_ex_facts(3) unfolding writes_ex_tasks k(4) env0_facts by (simp add: frames_ex_def)
qed

end
