(* ===== verification/Inner_Props.thy ===== *)
theory Inner_Props
  imports Command_Flow
begin

text \<open>
  The properties of the commands with inner frames: in a batch of command 0x3010 every frame is read
  as it was written; in a batch of command 0x301b the frames behind the first one are not.
\<close>

section \<open>Rounds of the loops\<close>

lemma drifting_take: "drifting t us \<Longrightarrow> drifting t (take j us)"
  by (induction t us arbitrary: j rule: drifting.induct) (simp_all add: take_Cons split: nat.splits)

lemma take_last:
  assumes "0 < j" and "j \<le> length xs"
  shows "take j xs \<noteq> []" and "last (take j xs) = xs ! (j - 1)" and "butlast (take j xs) = take (j - 1) xs" and "length (take j xs) = j"
proof -
  show ne: "take j xs \<noteq> []" using assms by auto
  show "last (take j xs) = xs ! (j - 1)" using assms by (simp add: last_conv_nth [OF ne])
  show "butlast (take j xs) = take (j - 1) xs" using assms(2) by (rule butlast_take)
  show "length (take j xs) = j" using assms(2) by simp
qed

lemma concat_take: "concat (map f xs) = concat (map f (take j xs)) @ concat (map f (drop j xs))"
  by (metis append_take_drop_id concat_append map_append)

lemma analyzer_at_list: "analyzer_at km m pa ps B fs \<Longrightarrow> flist m (pa_list_head_p pa) ps \<and> infos m ps = fs"
  by (auto simp: analyzer_at_def analyzer_ok_def)

text \<open>C9. In a batch of command 0x3010 every inner frame is read as by a fresh analyzer. For frames
  with up to four bytes of data the analyzer holds, after any number \<open>j\<close> of rounds, exactly the
  fields of the frame \<open>j\<close> of the batch: its nameless byte, its \<open>st_info\<close>, the length of its data and
  its data as a number with the high byte first, at the places of the format; the command returns
  and leaves all the memory that was in use before as it was.\<close>

theorem inner_frames_read_afresh:
  fixes m :: "'z pmem_scheme"
  assumes "ready e g m" and "supplies (e_km e) (sizeof_analyzer # init_sizes 5) m"
    and "length hdr = 6" and "unat (hdr ! 5) = length ws" and "\<forall>w \<in> set ws. length (snd (snd w)) \<le> 4"
    and "data = hdr @ concat (map inner_bytes ws) @ rest" and "length data \<le> MAX_BUF_SIZE"
  shows "\<exists>pa m1 m2. open_analyzer e g 0x3054 m = Some (pa, m1) \<and>
    (\<forall>j. 0 < j \<and> j \<le> length ws \<longrightarrow> (\<exists>pa' m' ps. loop_0x3010 e data j 6 (pa, m1) = Some (pa', m') \<and>
      flist m' (pa_list_head_p pa') ps \<and> infos m' ps = inner_fields (ws ! (j - 1)))) \<and>
    do_command_0x3010 e data len g m = Some (g, m2) \<and> keeps {} m m2"
proof -
  have len: "length data < 65536" using assms(7) by (simp add: MAX_BUF_SIZE_def)
  have key: "length (e_key e) = 10" using assms(1) by (simp add: ready_def)
  have su: "supplies (e_km e) (sizeof_analyzer # init_sizes 5 @ []) m" using assms(2) by simp
  from open_inner [OF assms(1) _ inner_format_numbers(3) inner_formats(3,6,12,9) su] obtain pa ps B m1 where
    o: "open_analyzer e g 0x3054 m = Some (pa, m1)" "analyzer_at (e_km e) m1 pa ps B fields_3054"
      "protocol_data pa = replicate MAX_PROTO_DATA_LEN 0" by auto
  have rounds: "\<exists>pa' m' ps. loop_0x3010 e data j 6 (pa, m1) = Some (pa', m') \<and>
      flist m' (pa_list_head_p pa') ps \<and> infos m' ps = inner_fields (ws ! (j - 1))" if j: "0 < j" "j \<le> length ws" for j
  proof -
    have s: "\<forall>w \<in> set (take j ws). length (snd (snd w)) \<le> 4" using assms(5) by (meson in_set_takeD)
    have d: "drop (unat (6 :: u16)) data = concat (map inner_bytes (take j ws)) @ (concat (map inner_bytes (drop j ws)) @ rest)"
      using assms(3) unfolding assms(6) by (subst concat_take [of inner_bytes ws j]) simp
    from read_3010_frames [OF like_all no_bytes s d len] obtain dp' where
      "read_3010 data j 6 (protocol_data pa, fields_3054) = Some (dp', inner_fields (ws ! (j - 1)))"
      using take_last [OF j] unfolding o(3) by auto
    from loop_3010_spec [OF o(2) key this] obtain pa' F where
      "loop_0x3010 e data j 6 (pa, m1) = Some (pa', m1\<lparr>pinfo := F\<rparr>)"
      "analyzer_at (e_km e) (m1\<lparr>pinfo := F\<rparr>) pa' ps B (inner_fields (ws ! (j - 1)))" by auto
    with analyzer_at_list show ?thesis by blast
  qed
  from batch_3010_frames [OF assms(5,3,4,6) len] obtain s where "batch_3010 data = Some s" by blast
  from command_3010_spec [OF assms(1) this su] o(1) rounds show ?thesis by blast
qed

text \<open>C32. In a batch of command 0x301b the fields behind \<open>slc_data\<close> drift. After any number \<open>j\<close> of
  rounds over frames without an embedded part, the field \<open>dc_info\<close> stands behind its place in the
  frame \<open>j\<close> by the lengths of \<open>slc_data\<close> of all the frames before it, and holds the byte that stands
  there: \<open>pa_reset_vlen_flag\<close> does not move the fields back, so only the first frame that carries
  such data, and those before it, are read right.\<close>

theorem later_inner_frames_drift:
  fixes m :: "'z pmem_scheme"
  assumes "ready e g m" and "supplies (e_km e) (sizeof_analyzer # init_sizes 12 @ sizeof_analyzer # init_sizes 13) m"
    and "length hdr = 5" and "drifting 0 us" and "data = hdr @ concat us @ rest" and "length data \<le> MAX_BUF_SIZE"
  shows "\<exists>pa pb m1 m2. open_analyzer e g 0x3050 m = Some (pa, m1) \<and> open_analyzer e g 0x3052 m1 = Some (pb, m2) \<and>
    (\<forall>j. 0 < j \<and> j \<le> length us \<longrightarrow> (\<exists>pa' pb' m' ps. loop_0x301b e data j 5 pa pb m2 = Some (pa', pb', m') \<and>
      flist m' (pa_list_head_p pa') ps \<and> dc_field (sum_list (map slc_len (take (j - 1) us))) (us ! (j - 1)) (infos m' ps)))"
proof -
  have len: "length data < 65536" using assms(6) by (simp add: MAX_BUF_SIZE_def)
  have key: "length (e_key e) = 10" using assms(1) by (simp add: ready_def)
  have su: "supplies (e_km e) (sizeof_analyzer # init_sizes 12 @ sizeof_analyzer # init_sizes 13 @ []) m" using assms(2) by simp
  from open_both [OF assms(1) su] obtain pa pb ps B qs C m1 m2 where
    o: "open_analyzer e g 0x3050 m = Some (pa, m1)" "open_analyzer e g 0x3052 m1 = Some (pb, m2)"
      "both_at (e_km e) ps B qs C (fresh_reading fields_3050, fresh_reading fields_3052) pa pb m2" by blast
  have "\<exists>pa' pb' m' ps. loop_0x301b e data j 5 pa pb m2 = Some (pa', pb', m') \<and> flist m' (pa_list_head_p pa') ps \<and>
      dc_field (sum_list (map slc_len (take (j - 1) us))) (us ! (j - 1)) (infos m' ps)" if j: "0 < j" "j \<le> length us" for j
  proof -
    have d: "drop (unat (5 :: u16)) data = concat (take j us) @ (concat (drop j us) @ rest)"
      using assms(3) concat_take [of "\<lambda>u. u" us j] unfolding assms(5) by simp
    have f: "list_all2 like (fields_3050_at (of_nat 0)) fields_3050" using like_all by (simp add: fields_3050_at_0)
    from read_301b_frames [OF f no_bytes drifting_take [OF assms(4)] d len, of "fresh_reading fields_3052"] obtain dp' fs' where
      r: "read_301b data j 5 (fresh_reading fields_3050, fresh_reading fields_3052) = Some ((dp', fs'), fresh_reading fields_3052)"
        "dc_field (sum_list (map slc_len (take (j - 1) us))) (us ! (j - 1)) fs'"
      using take_last [OF j] unfolding fresh_reading_def by auto
    from loop_301b_spec [OF o(3) key r(1) refl] obtain pa' pb' m' where
      "loop_0x301b e data j 5 pa pb m2 = Some (pa', pb', m')"
      "both_at (e_km e) ps B qs C ((dp', fs'), fresh_reading fields_3052) pa' pb' m'" by blast
    moreover from this(2) have "analyzer_at (e_km e) m' pa' ps B fs'" by (simp add: both_at_def)
    ultimately show ?thesis using analyzer_at_list r(2) by blast
  qed
  with o(1,2) show ?thesis by blast
qed

section \<open>Instances\<close>

text \<open>The driver after the probe, with memory for one more command.\<close>

lemma probed_ready:
  assumes "sum_list (map (\<lambda>n. n + 7) ns) < 100000"
  shows "\<exists>d. plat_probe env0 probe0 pdev driver0 = Some (0, d) \<and> ready env0 (d_globals d) (d_mem d) \<and> supplies bump ns (d_mem d)"
proof -
  have km: "kmalloc_ok (e_km env0)" "length (e_key env0) = 10" using bump_ok by (simp_all add: env0_def)
  have "supplies (e_km env0) (boot_sizes (priv_size probe0) @ ns) (d_mem driver0)"
    unfolding env0_facts
    by (rule bump_supplies)
      (use assms in \<open>simp_all add: driver0_facts boot_sizes_def pdt_sizes_def format_sizes_def task_admin_sizes_def probe0_def
        sizeof_allocator_t_def sizeof_format_set_def sizeof_proto_head_def sizeof_proto_info_def sum_list_replicate\<close>)
  from plat_probe_spec [OF km(1) driver0_facts(1,3) this probe0_facts(1) pdev_resources(1) probe0_facts(2,3)]
  obtain priv al pfs a1 a2 F A B d where p: "plat_probe env0 probe0 pdev driver0 = Some (0, d)"
    "driver_up (e_km env0) (priv_size probe0) priv al pfs a1 a2 F A B d" "supplies (e_km env0) ns (d_mem d)" by blast
  have "ready env0 (d_globals d) (d_mem d)" using p(2) km(2) by (auto simp: driver_up_def ready_def)
  with p(1,3) show ?thesis by simp
qed

theorem inner_frames_read_afresh_witness:
  "\<exists>d pa m1. plat_probe env0 probe0 pdev driver0 = Some (0, d) \<and> open_analyzer env0 (d_globals d) 0x3054 (d_mem d) = Some (pa, m1) \<and>
    (\<exists>pa' m' ps. loop_0x3010 env0 (batches_ex ! 0) 2 6 (pa, m1) = Some (pa', m') \<and> flist m' (pa_list_head_p pa') ps \<and>
      infos m' ps = inner_fields (3, 4, []))"
proof -
  have "sum_list (map (\<lambda>n. n + 7) (sizeof_analyzer # init_sizes 5)) < 100000"
    by (simp add: init_sizes_def index_sizes_def sizeof_analyzer_def sizeof_proto_head_def sizeof_proto_info_def sizeof_hash_map_t_def
        sum_list_replicate)
  from probed_ready [OF this] obtain d where d: "plat_probe env0 probe0 pdev driver0 = Some (0, d)"
    "ready env0 (d_globals d) (d_mem d)" "supplies (e_km env0) (sizeof_analyzer # init_sizes 5) (d_mem d)" by auto
  have w: "length [0x30, 0x10, 0, 0, 0, 2 :: u8] = 6" "unat ([0x30, 0x10, 0, 0, 0, 2 :: u8] ! 5) = length inners_ex"
    "\<forall>w \<in> set inners_ex. length (snd (snd w)) \<le> 4" "batches_ex ! 0 = [0x30, 0x10, 0, 0, 0, 2] @ concat (map inner_bytes inners_ex) @ []"
    "length (batches_ex ! 0) \<le> MAX_BUF_SIZE" by (simp_all add: inners_ex_def batches_ex_def MAX_BUF_SIZE_def)
  from inner_frames_read_afresh [OF d(2,3) w, of 13] obtain pa m1 where o: "open_analyzer env0 (d_globals d) 0x3054 (d_mem d) = Some (pa, m1)"
    "\<forall>j. 0 < j \<and> j \<le> length inners_ex \<longrightarrow> (\<exists>pa' m' ps. loop_0x3010 env0 (batches_ex ! 0) j 6 (pa, m1) = Some (pa', m') \<and>
      flist m' (pa_list_head_p pa') ps \<and> infos m' ps = inner_fields (inners_ex ! (j - 1)))" by blast
  have "0 < (2 :: nat) \<and> 2 \<le> length inners_ex" "inners_ex ! (2 - 1) = (3, 4, [])" by (simp_all add: inners_ex_def)
  with o d(1) show ?thesis by metis
qed

text \<open>Two equal frames whose \<open>dc_info\<close> is 2: the second one is read with the byte behind it, which is 0.\<close>

theorem later_inner_frames_drift_witness:
  "\<exists>d pa pb m1 m2. plat_probe env0 probe0 pdev driver0 = Some (0, d) \<and>
    open_analyzer env0 (d_globals d) 0x3050 (d_mem d) = Some (pa, m1) \<and> open_analyzer env0 (d_globals d) 0x3052 m1 = Some (pb, m2) \<and>
    (\<exists>pa' pb' m' ps i. loop_0x301b env0 (batches_ex ! 1) 1 5 pa pb m2 = Some (pa', pb', m') \<and> flist m' (pa_list_head_p pa') ps \<and>
      named_field (chars DC_INFO) (infos m' ps) = Some i \<and> byte_pos i = 13 \<and> pi_data i = 2) \<and>
    (\<exists>pa' pb' m' ps i. loop_0x301b env0 (batches_ex ! 1) 2 5 pa pb m2 = Some (pa', pb', m') \<and> flist m' (pa_list_head_p pa') ps \<and>
      named_field (chars DC_INFO) (infos m' ps) = Some i \<and> byte_pos i = 14 \<and> pi_data i = 0)"
proof -
  let ?us = "[plain_ex, plain_ex]" and ?data = "batches_ex ! 1"
  have "sum_list (map (\<lambda>n. n + 7) (sizeof_analyzer # init_sizes 12 @ sizeof_analyzer # init_sizes 13)) < 100000"
    by (simp add: init_sizes_def index_sizes_def sizeof_analyzer_def sizeof_proto_head_def sizeof_proto_info_def sizeof_hash_map_t_def
        sum_list_replicate)
  from probed_ready [OF this] obtain d where d: "plat_probe env0 probe0 pdev driver0 = Some (0, d)"
    "ready env0 (d_globals d) (d_mem d)"
    "supplies (e_km env0) (sizeof_analyzer # init_sizes 12 @ sizeof_analyzer # init_sizes 13) (d_mem d)" by auto
  have w: "length [0x30, 0x1B, 0, 0, 2 :: u8] = 5" "drifting 0 ?us" "?data = [0x30, 0x1B, 0, 0, 2] @ concat ?us @ []"
    "length ?data \<le> MAX_BUF_SIZE"
    by (simp_all add: plain_ex_def plain_frame_def dc_read_def slc_len_def batches_ex_def MAX_BUF_SIZE_def)
  from later_inner_frames_drift [OF d(2,3) w] obtain pa pb m1 m2 where
    o: "open_analyzer env0 (d_globals d) 0x3050 (d_mem d) = Some (pa, m1)" "open_analyzer env0 (d_globals d) 0x3052 m1 = Some (pb, m2)"
    and r: "\<And>j. 0 < j \<and> j \<le> length ?us \<Longrightarrow> \<exists>pa' pb' m' ps. loop_0x301b env0 ?data j 5 pa pb m2 = Some (pa', pb', m') \<and>
      flist m' (pa_list_head_p pa') ps \<and> dc_field (sum_list (map slc_len (take (j - 1) ?us))) (?us ! (j - 1)) (infos m' ps)" by blast
  have v: "dc_read 0 plain_ex = 2" "dc_read 1 plain_ex = 0" "slc_len plain_ex = 1" by (simp_all add: dc_read_def slc_len_def plain_ex_def)
  have "\<exists>i. named_field (chars DC_INFO) fs = Some i \<and> byte_pos i = 13 \<and> pi_data i = 2" if "dc_field 0 plain_ex fs" for fs
    using that v by (auto simp: dc_field_def)
  moreover have "\<exists>i. named_field (chars DC_INFO) fs = Some i \<and> byte_pos i = 14 \<and> pi_data i = 0" if "dc_field 1 plain_ex fs" for fs
    using that v by (auto simp: dc_field_def)
  ultimately show ?thesis using r [of 1] r [of 2] o d(1) v(3) by simp blast
qed

end
