(* ===== verification/Spec2Isabelle.thy ===== *)
theory Spec2Isabelle
  imports Frame_Roundtrip Text_Num Driver_Props Format_Props Kernel_Loops Kernel_Hlist_Rcu Uevent Inner_Props
begin

text \<open>
  A Linux character device driver for a radio slot controller, and the libraries it is built of.
  A program writes frames to the device; the driver parses each frame with the format of its
  protocol number and queues the tasks it carries. This library models the C code of
  \<open>driver/\<close> and proves what it does, where it is right and where it is not.

  \<^bold>\<open>Parts and theories\<close>

  \<^item> Memory and allocator. \<open>Memory\<close> has the block memory: \<open>kmalloc\<close>, a parameter of every
    definition that allocates, takes the list of live blocks and gives an address or \<open>NULL\<close>;
    \<open>kmalloc_ok\<close> (a block is not at \<open>NULL\<close>, does not wrap and does not overlap a live block) is what is
    assumed of it, and where small integers are taken for addresses also \<open>kmalloc_high\<close>: all blocks
    lie at or above \<open>PAGE_OFFSET\<close> = 0xC0000000. The concrete \<open>bump\<close> meets both. \<open>Allocator\<close>
    models \<open>liballoc/\<close>: the module table, \<open>allocator_creator\<close>, the dispatch to a module, the
    system allocator. The locale \<open>allocator_contract\<close> states what the clients use of it; its client is a
    ledger of the blocks handed out over any sequence of requests and releases.
  \<^item> Lists. \<open>Kernel_List\<close> and \<open>Kernel_Hlist\<close> model the primitives of
    \<open>include/libdata_structure/list.h\<close> over a store of \<open>next\<close>/\<open>prev\<close> links, \<open>Kernel_Loops\<close> its
    iteration macros, \<open>Kernel_Rcu\<close> and \<open>Kernel_Hlist_Rcu\<close> its RCU variants as single writes that
    interleave with the reads of a reader that may begin at any time (a step relation, and the
    locale \<open>racing\<close> for what an update owes to the readers); \<open>Link_List\<close> the
    sequence container \<open>link_list.c\<close> (locale \<open>fifo\<close>), \<open>Hash_Map\<close> the hash map \<open>hash_list.c\<close> (locale
    \<open>table\<close>), \<open>Map_Frame\<close> and \<open>Ownership\<close> what these leave untouched.
  \<^item> Protocol library. \<open>Text_Num\<close> (\<open>atoi\<close>, \<open>hexstr2num\<close>), \<open>Protocol_Format\<close> (fields, lists of
    fields, the format set of \<open>protocol_format_set.c\<close>), \<open>Format_List\<close> and \<open>Format_Set\<close> (their
    invariants and release), \<open>Pdt_Format\<close> (the five formats of the driver), \<open>Field_Data\<close> (byte, bit
    and buffer fields in a frame), \<open>Protocol_Analyzer\<close> (the analyzer of \<open>protocol_analyzer.c\<close>),
    \<open>Analyzer_Init\<close> (opening an analyzer), \<open>Frame_Layout\<close>, \<open>Frame_Generate\<close>, \<open>Field_Index\<close>,
    \<open>Frame_Parse\<close>, \<open>Frame_Roundtrip\<close> (what generating and parsing a frame do, step by step). The
    frame theorems suppose that bit values fit their fields (\<open>value_ok\<close>), which the code does not
    check: \<open>Field_Data\<close> says which bit outside the field a wider value sets, and which bit outside
    the field is always read with it, both because the code's \<open>pow\<close> multiplies once too often.
  \<^item> Tasks. \<open>Task_Admin\<close> models \<open>task_admin.c\<close>; \<open>Task_Queue\<close>, \<open>Task_Life\<close> and \<open>Task_Flow\<close> have its
    invariant, creation, use and destruction. \<open>admin_owned\<close> are all blocks an administration takes,
    \<open>admin_leaked\<close> the five of them that its destruction never releases.
  \<^item> Driver. \<open>Business\<close> models the commands of \<open>business.c\<close>, \<open>Driver\<close> the platform driver
    \<open>plat_driver.c\<close> with its module entry points as a step relation, \<open>Driver_Boot\<close> what probe and
    remove do with the libraries. \<open>Short_Frame\<close> has a reference parser without addresses for
    frames with short fields and shows that the analyzer refines it; \<open>Command_3008\<close> follows such a
    frame from the write to a queue. \<open>Inner_Frames\<close> shows that the loops of the commands 0x3010 and
    0x301b refine the same parser run over and over on one analyzer, \<open>Inner_Reads\<close> what it reads then.
    \<open>Command_Flow\<close> follows any sequence of writes from the probe on.
    \<open>Plat_Device\<close> is the device that the driver is for.
  \<^item> User space. \<open>Uevent\<close> models the helper \<open>udev1.c\<close> that listens to the kernel's device events.
  \<^item> Diagnostics. \<open>Debug\<close> (\<open>libdbg/\<close>), \<open>Format_Print\<close> (the printing functions), \<open>Sync_Lock\<close> (the
    locks, whose bodies are empty).

  \<^bold>\<open>Properties\<close>

  The main ones span the parts: a driver that has been probed turns every sequence of writes, with
  frames of command 0x3008, batches of inner frames and other commands mixed, into the tasks in its
  two administrations (\<open>Command_Flow\<close>); the inner frames of command 0x3010 are read as they were
  written, those of command 0x301b drift (\<open>Inner_Props\<close>); a frame
  that is generated is parsed back by a receiver with the same format (\<open>Frame_Roundtrip\<close>); in every
  reachable state of the module a bound driver has its registrations, and no device file ever goes
  away (\<open>Driver_Props\<close>). \<open>Task_Props\<close>,
  \<open>Driver_Props\<close> and \<open>Format_Props\<close> hold the properties of their parts, with \<open>Start_State\<close> for the
  concrete memories of their instances; the other properties stand in the theories of their
  parts. Several state what goes wrong: a stale end of a list, a queue ruined by fetching from it
  when it is empty, frames and writes that overrun a buffer, what a failed probe and what the
  removal of the driver leave behind.

  \<^bold>\<open>How the code is read\<close>

  The target is a 32-bit ARM kernel: pointers and \<open>unsigned long\<close> are 32-bit words, \<open>char\<close> is
  unsigned. Integers are words of their width, so that sums wrap as in the code. A structure
  the code reaches by pointer from several places lives in the memory record (\<open>mem\<close>, extended
  to \<open>amem\<close>, \<open>lmem\<close>, \<open>hmem\<close>, \<open>pmem\<close> by the data of each library); a structure with one owner is
  passed and returned. The result \<open>None\<close> stands for a run that does not come back: an access
  outside a live block, a double free, an access behind the end of an array, a loop that never
  ends. Error codes are the integers of the code. What the code reads without having written it
  is a parameter (\<open>stale\<close>, \<open>vla\<close>, the record \<open>env\<close>), or a byte of a buffer that is \<open>None\<close>. Loops
  over links are \<open>partial_function\<close>s, and that they end is proved; loops that count are structural.
  \<open>supplies km sizes m\<close> says that \<open>kmalloc\<close> can serve requests of these sizes in turn.

  \<^bold>\<open>Not modelled\<close>

  The pool allocator has no code in the tree. Locks and diagnostics leave no trace in the
  state, so the operations do not mention them; they have theories of their own. The kernel is
  modelled by what the driver registers with it, after the documentation of version 2.6.19, which
  the makefile names: \<open>device_destroy\<close> takes away only device files made with \<open>device_create\<close>, while
  the driver makes its file with \<open>class_device_create\<close>, so that the file stays. Memory is sequentially consistent, also for the
  RCU readers, so that a missing barrier would not show. The generated module files, the
  user-space test programs, the tests of the containers and of the protocol library in the
  driver tree (\<open>libdata_structure/test\<close>, \<open>pdt_drv_proto_analyzer.c\<close>) are left out; nothing
  calls them.
\<close>

end
